(* ===== verification/Prelude.thy ===== *)
theory Prelude
  imports Main "HOL-Library.Word" "HOL-Library.Multiset" "HOL-Library.Monad_Syntax"
begin

text \<open>
  Shared material of the development: the collections of simplification rules the component
  theories add to, short names for machine words, and generic facts on options, lists and maps.
\<close>

unbundle bit_operations_syntax

section \<open>Collections\<close>

named_theorems frame_simps \<open>a heap predicate is not changed by an update elsewhere\<close>
named_theorems step_simps \<open>evaluation of single memory accesses\<close>

section \<open>Machine integers\<close>

type_synonym u8 = "8 word"
type_synonym u32 = "32 word"
type_synonym u64 = "64 word"

section \<open>Options and lists\<close>

lemma bind_Some_iff: "Option.bind x f = Some y \<longleftrightarrow> (\<exists>a. x = Some a \<and> f a = Some y)"
  by (cases x) auto

lemma sorted_wrt_append_iff:
  "sorted_wrt P (xs @ ys) \<longleftrightarrow> sorted_wrt P xs \<and> sorted_wrt P ys \<and> (\<forall>x \<in> set xs. \<forall>y \<in> set ys. P x y)"
  by (rule sorted_wrt_append)

lemma map_upd_outside: "x \<notin> S \<Longrightarrow> y \<in> S \<Longrightarrow> (m(x \<mapsto> v)) y = m y"
  by auto

end
