(* ===== verification/MapHeap.thy ===== *)
theory MapHeap
  imports Prelude
begin

text \<open>
  The memory and the operations of clib/map.cc, statement by statement: nodes with parent
  pointers on a partial heap, the four rotations, insertion, the key searches, deletion, the
  iterators, the self check and the destructor. A read or write through a null or unallocated
  pointer is \<open>None\<close>, and so is a loop that does not end.
\<close>

section \<open>Memory\<close>

type_synonym addr = nat

text \<open>
  struct Node. The union of \<open>parent\<close> and the 2-bit \<open>bf\<close>/\<open>u_bf\<close> is two fields here: addresses are
  multiples of 8, so the low two bits of the word are free for the balance factor (the section on
  the packed word below proves that the macros \<open>PARENT\<close> and \<open>SET_PARENT\<close> keep them apart).
\<close>

record ('k, 'v) node =
  parent :: addr
  bf :: int
  leftChild :: addr
  rightChild :: addr
  node_value :: 'v
  node_key :: 'k

text \<open>The memory of one map: its nodes and the variable \<open>*root_ptr\<close>. Address 0 is NULL.\<close>

record ('k, 'v) mem =
  heap :: "addr \<rightharpoonup> ('k, 'v) node"
  root :: addr

definition NULL :: addr where "NULL = 0"

definition deref :: "('k, 'v) mem \<Rightarrow> addr \<Rightarrow> ('k, 'v) node option" where
  "deref m p = (if p = NULL then None else heap m p)"

definition store :: "('k, 'v) mem \<Rightarrow> addr \<Rightarrow> (('k, 'v) node \<Rightarrow> ('k, 'v) node) \<Rightarrow> ('k, 'v) mem option" where
  "store m p f = do { n \<leftarrow> deref m p; Some (m\<lparr>heap := (heap m)(p \<mapsto> f n)\<rparr>) }"

definition SET_PARENT :: "('k, 'v) mem \<Rightarrow> addr \<Rightarrow> addr \<Rightarrow> ('k, 'v) mem option" where
  "SET_PARENT m n p = store m n (\<lambda>nd. nd\<lparr>parent := p\<rparr>)"

definition PARENT :: "('k, 'v) mem \<Rightarrow> addr \<Rightarrow> addr option" where
  "PARENT m n = map_option parent (deref m n)"

definition set_left :: "('k, 'v) mem \<Rightarrow> addr \<Rightarrow> addr \<Rightarrow> ('k, 'v) mem option" where
  "set_left m n p = store m n (\<lambda>nd. nd\<lparr>leftChild := p\<rparr>)"

definition set_right :: "('k, 'v) mem \<Rightarrow> addr \<Rightarrow> addr \<Rightarrow> ('k, 'v) mem option" where
  "set_right m n p = store m n (\<lambda>nd. nd\<lparr>rightChild := p\<rparr>)"

definition set_bf :: "('k, 'v) mem \<Rightarrow> addr \<Rightarrow> int \<Rightarrow> ('k, 'v) mem option" where
  "set_bf m n b = store m n (\<lambda>nd. nd\<lparr>bf := b\<rparr>)"

text \<open>\<open>if (b) SET_PARENT(b, a);\<close>\<close>

definition SET_PARENT_if :: "('k, 'v) mem \<Rightarrow> addr \<Rightarrow> addr \<Rightarrow> ('k, 'v) mem option" where
  "SET_PARENT_if m b a = (if b \<noteq> NULL then SET_PARENT m b a else Some m)"

text \<open>The pointers to node pointers of the code: \<open>root_ptr\<close>, \<open>&n->leftChild\<close>, \<open>&n->rightChild\<close>.\<close>

datatype slot = RootSlot | LeftSlot addr | RightSlot addr

fun read_slot :: "('k, 'v) mem \<Rightarrow> slot \<Rightarrow> addr option" where
  "read_slot m RootSlot = Some (root m)"
| "read_slot m (LeftSlot a) = map_option leftChild (deref m a)"
| "read_slot m (RightSlot a) = map_option rightChild (deref m a)"

fun write_slot :: "('k, 'v) mem \<Rightarrow> slot \<Rightarrow> addr \<Rightarrow> ('k, 'v) mem option" where
  "write_slot m RootSlot p = Some (m\<lparr>root := p\<rparr>)"
| "write_slot m (LeftSlot a) p = set_left m a p"
| "write_slot m (RightSlot a) p = set_right m a p"

section \<open>Rotations\<close>

definition rotLeft :: "('k, 'v) mem \<Rightarrow> addr \<Rightarrow> addr \<Rightarrow> (addr \<times> ('k, 'v) mem) option" where
  "rotLeft m a c = do {
     cn \<leftarrow> deref m c;
     let b = leftChild cn;
     m \<leftarrow> set_right m a b;
     m \<leftarrow> SET_PARENT_if m b a;
     m \<leftarrow> set_left m c a;
     m \<leftarrow> SET_PARENT m a c;
     cn \<leftarrow> deref m c;
     m \<leftarrow> (if bf cn = 0
          then do { m \<leftarrow> set_bf m a 1; set_bf m c (-1) }
          else do { m \<leftarrow> set_bf m a 0; set_bf m c 0 });
     Some (c, m) }"

definition rotRight :: "('k, 'v) mem \<Rightarrow> addr \<Rightarrow> addr \<Rightarrow> (addr \<times> ('k, 'v) mem) option" where
  "rotRight m c a = do {
     an \<leftarrow> deref m a;
     let b = rightChild an;
     m \<leftarrow> set_left m c b;
     m \<leftarrow> SET_PARENT_if m b c;
     m \<leftarrow> set_right m a c;
     m \<leftarrow> SET_PARENT m c a;
     an \<leftarrow> deref m a;
     m \<leftarrow> (if bf an = 0
          then do { m \<leftarrow> set_bf m c (-1); set_bf m a 1 }
          else do { m \<leftarrow> set_bf m c 0; set_bf m a 0 });
     Some (a, m) }"

definition rotRightLeft :: "('k, 'v) mem \<Rightarrow> addr \<Rightarrow> addr \<Rightarrow> (addr \<times> ('k, 'v) mem) option" where
  "rotRightLeft m a e = do {
     en \<leftarrow> deref m e;
     let c = leftChild en;
     cn \<leftarrow> deref m c;
     let b = leftChild cn;
     let d = rightChild cn;
     m \<leftarrow> set_left m c a;
     m \<leftarrow> SET_PARENT m a c;
     m \<leftarrow> set_right m a b;
     m \<leftarrow> SET_PARENT_if m b a;
     m \<leftarrow> set_right m c e;
     m \<leftarrow> SET_PARENT m e c;
     m \<leftarrow> set_left m e d;
     m \<leftarrow> SET_PARENT_if m d e;
     cn \<leftarrow> deref m c;
     m \<leftarrow> (if bf cn = 0
          then do { m \<leftarrow> set_bf m a 0; set_bf m e 0 }
          else if bf cn < 0
          then do { m \<leftarrow> set_bf m a 0; set_bf m e 1 }
          else do { m \<leftarrow> set_bf m a (-1); set_bf m e 0 });
     m \<leftarrow> set_bf m c 0;
     Some (c, m) }"

definition rotLeftRight :: "('k, 'v) mem \<Rightarrow> addr \<Rightarrow> addr \<Rightarrow> (addr \<times> ('k, 'v) mem) option" where
  "rotLeftRight m e a = do {
     an \<leftarrow> deref m a;
     let c = rightChild an;
     cn \<leftarrow> deref m c;
     let d = rightChild cn;
     let b = leftChild cn;
     m \<leftarrow> set_right m c e;
     m \<leftarrow> SET_PARENT m e c;
     m \<leftarrow> set_left m e d;
     m \<leftarrow> SET_PARENT_if m d e;
     m \<leftarrow> set_left m c a;
     m \<leftarrow> SET_PARENT m a c;
     m \<leftarrow> set_right m a b;
     m \<leftarrow> SET_PARENT_if m b a;
     cn \<leftarrow> deref m c;
     m \<leftarrow> (if bf cn = 0
          then do { m \<leftarrow> set_bf m e 0; set_bf m a 0 }
          else if bf cn > 0
          then do { m \<leftarrow> set_bf m e 0; set_bf m a (-1) }
          else do { m \<leftarrow> set_bf m e 1; set_bf m a 0 });
     m \<leftarrow> set_bf m c 0;
     Some (c, m) }"

section \<open>Key comparison and search\<close>

text \<open>One comparison of the search key with the key of the current node.\<close>

datatype dir = GoLeft | GoRight | Found

text \<open>
  The character loop of \<open>string_find\<close>. A \<open>string\<close> holds the characters before the terminating
  NUL. \<open>cval\<close> is the value of a \<open>char\<close> in a comparison: plain \<open>char\<close> is signed on x86 and unsigned
  on ARM, and the loop compares characters with \<open><\<close> and \<open>>\<close>, the NUL of the search key included.
\<close>

definition char_unsigned :: "char \<Rightarrow> int" where
  "char_unsigned c = of_char c"

definition char_signed :: "char \<Rightarrow> int" where
  "char_signed c = (if (of_char c :: int) < 128 then of_char c else of_char c - 256)"

fun string_dir :: "(char \<Rightarrow> int) \<Rightarrow> string \<Rightarrow> string \<Rightarrow> dir" where
  "string_dir cval [] [] = Found"
| "string_dir cval (k # ks) [] = GoRight"
| "string_dir cval [] (c # cs) =
     (if 0 < cval c then GoLeft else if 0 > cval c then GoRight else Found)"
| "string_dir cval (k # ks) (c # cs) =
     (if cval k < cval c then GoLeft
      else if cval k > cval c then GoRight
      else string_dir cval ks cs)"

text \<open>The comparison of \<open>DEFINE_FIND_FOR(typ)\<close> for the integer key types.\<close>

definition num_dir :: "'k::linorder \<Rightarrow> 'k \<Rightarrow> dir" where
  "num_dir k c = (if k > c then GoRight else if k < c then GoLeft else Found)"

record NodePosition =
  pos_node :: addr
  is_parent :: bool
  parent_ptr :: slot

text \<open>
  The search loop shared by \<open>string_find\<close> and the \<open>typ_find\<close> functions, with the comparison as
  its argument: \<open>s\<close> is \<open>parent_ptr\<close>, \<open>par\<close> is \<open>parent\<close>.
\<close>

partial_function (option) find_loop ::
  "('k \<Rightarrow> 'k \<Rightarrow> dir) \<Rightarrow> ('k, 'v) mem \<Rightarrow> slot \<Rightarrow> addr \<Rightarrow> 'k \<Rightarrow> NodePosition option" where
  "find_loop cmp m s par k = do {
     cur \<leftarrow> read_slot m s;
     if cur = NULL then Some \<lparr>pos_node = par, is_parent = True, parent_ptr = s\<rparr>
     else do {
       n \<leftarrow> deref m cur;
       (case cmp k (node_key n) of
          Found \<Rightarrow> Some \<lparr>pos_node = cur, is_parent = False, parent_ptr = s\<rparr>
        | GoRight \<Rightarrow> find_loop cmp m (RightSlot cur) cur k
        | GoLeft \<Rightarrow> find_loop cmp m (LeftSlot cur) cur k) } }"

definition find_node ::
  "('k \<Rightarrow> 'k \<Rightarrow> dir) \<Rightarrow> ('k, 'v) mem \<Rightarrow> slot \<Rightarrow> 'k \<Rightarrow> NodePosition option" where
  "find_node cmp m s k = do {
     cur \<leftarrow> read_slot m s;
     par \<leftarrow> (if cur \<noteq> NULL then PARENT m cur else Some NULL);
     find_loop cmp m s par k }"

definition string_find ::
  "(char \<Rightarrow> int) \<Rightarrow> (string, 'v) mem \<Rightarrow> slot \<Rightarrow> string \<Rightarrow> NodePosition option" where
  "string_find cval = find_node (string_dir cval)"

definition num_find :: "('k::linorder, 'v) mem \<Rightarrow> slot \<Rightarrow> 'k \<Rightarrow> NodePosition option" where
  "num_find = find_node num_dir"

section \<open>Insertion\<close>

text \<open>The code after a rotation: hang the new top \<open>n0\<close> of the subtree below \<open>parent_save\<close>.\<close>

definition relink :: "('k, 'v) mem \<Rightarrow> addr \<Rightarrow> addr \<Rightarrow> addr \<Rightarrow> ('k, 'v) mem option" where
  "relink m a n0 parent_save = do {
     m \<leftarrow> SET_PARENT m n0 parent_save;
     if parent_save \<noteq> NULL then do {
       pn \<leftarrow> deref m parent_save;
       if a = leftChild pn then set_left m parent_save n0 else set_right m parent_save n0 }
     else Some (m\<lparr>root := n0\<rparr>) }"

partial_function (option) insert_loop ::
  "('k, 'v) mem \<Rightarrow> addr \<Rightarrow> addr \<Rightarrow> ('k, 'v) mem option" where
  "insert_loop m nd a =
     (if a = NULL then Some m
      else do {
        an \<leftarrow> deref m a;
        if nd = rightChild an then
          (if bf an \<le> 0 then
             (if bf an < 0 then set_bf m a 0
              else do { m \<leftarrow> set_bf m a 1; p \<leftarrow> PARENT m a; insert_loop m a p })
           else do {
             let parent_save = parent an;
             nn \<leftarrow> deref m nd;
             (n0, m) \<leftarrow> (if bf nn < 0 then rotRightLeft m a nd else rotLeft m a nd);
             relink m a n0 parent_save })
        else
          (if bf an \<ge> 0 then
             (if bf an > 0 then set_bf m a 0
              else do { m \<leftarrow> set_bf m a (-1); p \<leftarrow> PARENT m a; insert_loop m a p })
           else do {
             let parent_save = parent an;
             nn \<leftarrow> deref m nd;
             (n0, m) \<leftarrow> (if bf nn > 0 then rotLeftRight m a nd else rotRight m a nd);
             relink m a n0 parent_save }) })"

definition insert_priv :: "('k, 'v) mem \<Rightarrow> addr \<Rightarrow> addr \<Rightarrow> slot \<Rightarrow> ('k, 'v) mem option" where
  "insert_priv m nd par s = do {
     m \<leftarrow> SET_PARENT m nd par;
     m \<leftarrow> write_slot m s nd;
     insert_loop m nd par }"

text \<open>
  \<open>string_tag_new_node\<close> and \<open>typ_new_node\<close>: \<open>new\<close> is the address \<open>malloc\<close> returns (NULL when it
  fails, which the code does not check). The layout of key and payload is modelled in MapLayout.
\<close>

definition new_node :: "('k, 'v) mem \<Rightarrow> addr \<Rightarrow> 'k \<Rightarrow> 'v \<Rightarrow> ('k, 'v) mem option" where
  "new_node m new k v =
     (if new = NULL then None
      else Some (m\<lparr>heap := (heap m)(new \<mapsto>
        \<lparr>parent = NULL, bf = 0, leftChild = NULL, rightChild = NULL,
         node_value = v, node_key = k\<rparr>)\<rparr>))"

text \<open>The variable \<open>*target\<close>: NULL, a node, or the marker \<open>(Node*)(-1)\<close>.\<close>

datatype target = TNull | TNode addr | TExists

text \<open>The branch of both insert functions that replaces the node \<open>old\<close> by \<open>nd\<close>.\<close>

definition replace_links :: "('k, 'v) mem \<Rightarrow> addr \<Rightarrow> addr \<Rightarrow> ('k, 'v) mem option" where
  "replace_links m nd old = do {
     o_n \<leftarrow> deref m old;
     m \<leftarrow> store m nd (\<lambda>n. n\<lparr>parent := parent o_n, bf := bf o_n\<rparr>);
     m \<leftarrow> set_left m nd (leftChild o_n);
     m \<leftarrow> set_right m nd (rightChild o_n);
     store m old (\<lambda>n. n\<lparr>parent := NULL, bf := 0, leftChild := NULL, rightChild := NULL\<rparr>) }"

text \<open>\<open>string_tag_insert\<close>: result node, new value of \<open>*target\<close>, memory.\<close>

definition string_tag_insert ::
  "(char \<Rightarrow> int) \<Rightarrow> (string, 'v) mem \<Rightarrow> addr \<Rightarrow> string \<Rightarrow> 'v \<Rightarrow> target
   \<Rightarrow> (addr \<times> target \<times> (string, 'v) mem) option" where
  "string_tag_insert cval m new k v tgt = do {
     pos \<leftarrow> string_find cval m RootSlot k;
     let insert_node = pos_node pos;
     if is_parent pos \<or> tgt \<noteq> TNull then do {
       m \<leftarrow> new_node m new k v;
       m \<leftarrow> insert_priv m new insert_node (parent_ptr pos);
       if is_parent pos then Some (new, TNull, m)
       else do { m \<leftarrow> replace_links m new (pos_node pos); Some (new, TNode (pos_node pos), m) } }
     else Some (insert_node, TExists, m) }"

text \<open>
  \<open>typ_insert\<close> of \<open>DEFINE_INSERT_FOR\<close>: here the test is on the pointer \<open>target\<close> itself (\<open>None\<close> is
  a null pointer), and every branch writes through it.
\<close>

definition num_insert ::
  "('k::linorder, 'v) mem \<Rightarrow> addr \<Rightarrow> 'k \<Rightarrow> 'v \<Rightarrow> target option
   \<Rightarrow> (addr \<times> target \<times> ('k, 'v) mem) option" where
  "num_insert m new k v tgt = do {
     pos \<leftarrow> num_find m RootSlot k;
     let insert_node = pos_node pos;
     if is_parent pos \<or> tgt \<noteq> None then do {
       m \<leftarrow> new_node m new k v;
       m \<leftarrow> insert_priv m new insert_node (parent_ptr pos);
       if is_parent pos
       then do { _ \<leftarrow> tgt; Some (new, TNull, m) }
       else do {
         m \<leftarrow> replace_links m new (pos_node pos);
         _ \<leftarrow> tgt;
         Some (new, TNode (pos_node pos), m) } }
     else do { _ \<leftarrow> tgt; Some (insert_node, TExists, m) } }"

definition string_get ::
  "(char \<Rightarrow> int) \<Rightarrow> (string, 'v) mem \<Rightarrow> string \<Rightarrow> addr option" where
  "string_get cval m k = do {
     pos \<leftarrow> string_find cval m RootSlot k;
     Some (if is_parent pos then NULL else pos_node pos) }"

definition num_get :: "('k::linorder, 'v) mem \<Rightarrow> 'k \<Rightarrow> addr option" where
  "num_get m k = do {
     pos \<leftarrow> num_find m RootSlot k;
     Some (if is_parent pos then NULL else pos_node pos) }"

section \<open>Smallest and largest node, iteration\<close>

text \<open>\<open>while (node->leftChild) node = node->leftChild;\<close> and its mirror image.\<close>

partial_function (option) leftmost :: "('k, 'v) mem \<Rightarrow> addr \<Rightarrow> addr option" where
  "leftmost m p = do {
     n \<leftarrow> deref m p;
     if leftChild n \<noteq> NULL then leftmost m (leftChild n) else Some p }"

partial_function (option) rightmost :: "('k, 'v) mem \<Rightarrow> addr \<Rightarrow> addr option" where
  "rightmost m p = do {
     n \<leftarrow> deref m p;
     if rightChild n \<noteq> NULL then rightmost m (rightChild n) else Some p }"

definition map_Min :: "('k, 'v) mem \<Rightarrow> addr \<Rightarrow> addr option" where
  "map_Min m p = (if p = NULL then Some p else leftmost m p)"

definition map_Max :: "('k, 'v) mem \<Rightarrow> addr \<Rightarrow> addr option" where
  "map_Max m p = (if p = NULL then Some p else rightmost m p)"

text \<open>
  The \<open>do ... while\<close> loops of the iterators: climb while the node just left is a right
  (left) child.
\<close>

partial_function (option) climb_right :: "('k, 'v) mem \<Rightarrow> addr \<Rightarrow> addr option" where
  "climb_right m old_elem = do {
     e \<leftarrow> PARENT m old_elem;
     if e = NULL then Some e
     else do { en \<leftarrow> deref m e; if old_elem = rightChild en then climb_right m e else Some e } }"

partial_function (option) climb_left :: "('k, 'v) mem \<Rightarrow> addr \<Rightarrow> addr option" where
  "climb_left m old_elem = do {
     e \<leftarrow> PARENT m old_elem;
     if e = NULL then Some e
     else do { en \<leftarrow> deref m e; if old_elem = leftChild en then climb_left m e else Some e } }"

definition iter_up :: "('k, 'v) mem \<Rightarrow> addr \<Rightarrow> addr option" where
  "iter_up m e = do {
     en \<leftarrow> deref m e;
     if rightChild en \<noteq> NULL then leftmost m (rightChild en) else climb_right m e }"

definition iter_down :: "('k, 'v) mem \<Rightarrow> addr \<Rightarrow> addr option" where
  "iter_down m e = do {
     en \<leftarrow> deref m e;
     if leftChild en \<noteq> NULL then rightmost m (leftChild en) else climb_left m e }"

section \<open>Deletion\<close>

definition free_node :: "('k, 'v) mem \<Rightarrow> addr \<Rightarrow> ('k, 'v) mem" where
  "free_node m p = m\<lparr>heap := (heap m)(p := None)\<rparr>"

text \<open>\<open>parent_child_ptr\<close>: where the pointer to \<open>cur\<close> is stored.\<close>

definition parent_child_ptr :: "('k, 'v) mem \<Rightarrow> addr \<Rightarrow> addr \<Rightarrow> slot option" where
  "parent_child_ptr m cur par =
     (if par = NULL then Some RootSlot
      else do { pn \<leftarrow> deref m par;
                Some (if cur = rightChild pn then RightSlot par else LeftSlot par) })"

text \<open>
  The variables that the code before the loop leaves for it: \<open>new_mom\<close>, \<open>n0\<close>, the action point
  \<open>a\<close>, and the flags \<open>is_left\<close> and \<open>is_right\<close>.
\<close>

record cut =
  new_mom :: addr
  cut_n0 :: addr
  cut_a :: addr
  is_left :: bool
  is_right :: bool

text \<open>Two children, \<open>cur->bf <= 0\<close>: the largest node of the left subtree takes the place.\<close>

definition cut_from_left :: "('k, 'v) mem \<Rightarrow> addr \<Rightarrow> addr \<Rightarrow> (cut \<times> ('k, 'v) mem) option" where
  "cut_from_left m cur par = do {
     cn \<leftarrow> deref m cur;
     nm \<leftarrow> rightmost m (leftChild cn);
     m \<leftarrow> set_right m nm (rightChild cn);
     m \<leftarrow> SET_PARENT m (rightChild cn) nm;
     pnm \<leftarrow> PARENT m nm;
     if pnm \<noteq> cur then do {
       m \<leftarrow> set_bf m nm (bf cn);
       nmn \<leftarrow> deref m nm;
       let n0 = leftChild nmn;
       m \<leftarrow> set_right m pnm n0;
       m \<leftarrow> SET_PARENT_if m n0 pnm;
       m \<leftarrow> set_left m nm (leftChild cn);
       m \<leftarrow> SET_PARENT m (leftChild cn) nm;
       Some (\<lparr>new_mom = nm, cut_n0 = n0, cut_a = pnm,
              is_left = False, is_right = (n0 = NULL)\<rparr>, m) }
     else do {
       m \<leftarrow> SET_PARENT m nm par;
       m \<leftarrow> set_bf m nm (bf cn);
       nmn \<leftarrow> deref m nm;
       Some (\<lparr>new_mom = nm, cut_n0 = leftChild nmn, cut_a = nm,
              is_left = True, is_right = False\<rparr>, m) } }"

text \<open>Two children, \<open>cur->bf > 0\<close>: the smallest node of the right subtree takes the place.\<close>

definition cut_from_right :: "('k, 'v) mem \<Rightarrow> addr \<Rightarrow> addr \<Rightarrow> (cut \<times> ('k, 'v) mem) option" where
  "cut_from_right m cur par = do {
     cn \<leftarrow> deref m cur;
     nm \<leftarrow> leftmost m (rightChild cn);
     m \<leftarrow> set_left m nm (leftChild cn);
     m \<leftarrow> SET_PARENT m (leftChild cn) nm;
     pnm \<leftarrow> PARENT m nm;
     if pnm \<noteq> cur then do {
       m \<leftarrow> set_bf m nm (bf cn);
       nmn \<leftarrow> deref m nm;
       let n0 = rightChild nmn;
       m \<leftarrow> set_left m pnm n0;
       m \<leftarrow> SET_PARENT_if m n0 pnm;
       m \<leftarrow> set_right m nm (rightChild cn);
       m \<leftarrow> SET_PARENT m (rightChild cn) nm;
       Some (\<lparr>new_mom = nm, cut_n0 = n0, cut_a = pnm,
              is_left = (n0 = NULL), is_right = False\<rparr>, m) }
     else do {
       m \<leftarrow> SET_PARENT m nm par;
       m \<leftarrow> set_bf m nm (bf cn);
       nmn \<leftarrow> deref m nm;
       Some (\<lparr>new_mom = nm, cut_n0 = rightChild nmn, cut_a = nm,
              is_left = False, is_right = True\<rparr>, m) } }"

partial_function (option) delete_loop ::
  "('k, 'v) mem \<Rightarrow> addr \<Rightarrow> addr \<Rightarrow> bool \<Rightarrow> bool \<Rightarrow> ('k, 'v) mem option" where
  "delete_loop m n0 a il ir =
     (if a = NULL then Some m
      else do {
        an \<leftarrow> deref m a;
        let parent_save = parent an;
        if il \<or> (\<not> ir \<and> n0 = leftChild an) then
          (if bf an \<le> 0 then
             (if bf an < 0
              then do { m \<leftarrow> set_bf m a 0; delete_loop m a parent_save False ir }
              else set_bf m a 1)
           else do {
             let b = rightChild an;
             bn \<leftarrow> deref m b;
             (n0, m) \<leftarrow> (if bf bn < 0 then rotRightLeft m a b else rotLeft m a b);
             m \<leftarrow> relink m a n0 parent_save;
             if bf bn = 0 then Some m else delete_loop m n0 parent_save False ir })
        else
          (if bf an \<ge> 0 then
             (if bf an > 0
              then do { m \<leftarrow> set_bf m a 0; delete_loop m a parent_save il False }
              else set_bf m a (-1))
           else do {
             let b = leftChild an;
             bn \<leftarrow> deref m b;
             (n0, m) \<leftarrow> (if bf bn > 0 then rotLeftRight m a b else rotRight m a b);
             m \<leftarrow> relink m a n0 parent_save;
             if bf bn = 0 then Some m else delete_loop m n0 parent_save il False }) })"

text \<open>
  \<open>delete_priv\<close>. The list of the result holds the values \<open>destruct\<close> was called on; \<open>destr\<close> says
  whether \<open>destruct\<close> is not null.
\<close>

definition delete_priv ::
  "('k, 'v) mem \<Rightarrow> addr \<Rightarrow> bool \<Rightarrow> ('v list \<times> ('k, 'v) mem) option" where
  "delete_priv m cur destr = do {
     cn \<leftarrow> deref m cur;
     let par = parent cn;
     let twoleaves = (leftChild cn \<noteq> NULL \<and> rightChild cn \<noteq> NULL);
     s \<leftarrow> parent_child_ptr m cur par;
     (c, m) \<leftarrow>
       (if twoleaves then
          (if bf cn \<le> 0 then cut_from_left m cur par else cut_from_right m cur par)
        else Some
          (\<lparr>new_mom = (if leftChild cn \<noteq> NULL then leftChild cn else rightChild cn),
            cut_n0 = cur, cut_a = par,
            is_left = (case s of LeftSlot _ \<Rightarrow> True | _ \<Rightarrow> False), is_right = (case s of RightSlot _ \<Rightarrow> True | _ \<Rightarrow> False)\<rparr>, m));
     m \<leftarrow> write_slot m s (new_mom c);
     m \<leftarrow> SET_PARENT_if m (new_mom c) par;
     m \<leftarrow> delete_loop m (cut_n0 c) (cut_a c) (is_left c) (is_right c);
     cn \<leftarrow> deref m cur;
     Some (if destr then [node_value cn] else [], free_node m cur) }"

definition string_delete ::
  "(char \<Rightarrow> int) \<Rightarrow> (string, 'v) mem \<Rightarrow> string \<Rightarrow> bool
   \<Rightarrow> (bool \<times> 'v list \<times> (string, 'v) mem) option" where
  "string_delete cval m k destr = do {
     pos \<leftarrow> string_find cval m RootSlot k;
     if is_parent pos then Some (False, [], m)
     else do { (d, m) \<leftarrow> delete_priv m (pos_node pos) destr; Some (True, d, m) } }"

definition num_delete ::
  "('k::linorder, 'v) mem \<Rightarrow> 'k \<Rightarrow> bool \<Rightarrow> (bool \<times> 'v list \<times> ('k, 'v) mem) option" where
  "num_delete m k destr = do {
     pos \<leftarrow> num_find m RootSlot k;
     if is_parent pos then Some (False, [], m)
     else do { (d, m) \<leftarrow> delete_priv m (pos_node pos) destr; Some (True, d, m) } }"

section \<open>Destruction and self check\<close>

partial_function (option) destroy_priv ::
  "('k, 'v) mem \<Rightarrow> addr \<Rightarrow> bool \<Rightarrow> ('v list \<times> ('k, 'v) mem) option" where
  "destroy_priv m nd destr = do {
     n \<leftarrow> deref m nd;
     (d1, m) \<leftarrow> (if leftChild n \<noteq> NULL then destroy_priv m (leftChild n) destr else Some ([], m));
     n \<leftarrow> deref m nd;
     (d2, m) \<leftarrow> (if rightChild n \<noteq> NULL then destroy_priv m (rightChild n) destr else Some ([], m));
     n \<leftarrow> deref m nd;
     Some (d1 @ d2 @ (if destr then [node_value n] else []), free_node m nd) }"

definition destroy :: "('k, 'v) mem \<Rightarrow> addr \<Rightarrow> bool \<Rightarrow> ('v list \<times> ('k, 'v) mem) option" where
  "destroy m r destr = (if r \<noteq> NULL then destroy_priv m r destr else Some ([], m))"

text \<open>\<open>strcmp(a, b) < 0\<close>: characters are compared as \<open>unsigned char\<close>.\<close>

fun strcmp_less :: "string \<Rightarrow> string \<Rightarrow> bool" where
  "strcmp_less a [] = False"
| "strcmp_less [] (b # bs) = True"
| "strcmp_less (a # as) (b # bs) =
     (if char_unsigned a < char_unsigned b then True
      else if char_unsigned b < char_unsigned a then False else strcmp_less as bs)"

datatype complaint =
    WrongParent addr
  | WrongOrder addr addr
  | WrongBalance addr int int
  | OutOfRange addr int

text \<open>\<open>check_avl_get_depth\<close>: the depth and the messages printed to \<open>stderr\<close>, in order.\<close>

partial_function (option) check_avl_get_depth ::
  "(string, 'v) mem \<Rightarrow> addr \<Rightarrow> (int \<times> complaint list) option" where
  "check_avl_get_depth m nd =
     (if nd = NULL then Some (0, [])
      else do {
        n \<leftarrow> deref m nd;
        (left, c1) \<leftarrow> check_avl_get_depth m (leftChild n);
        c2 \<leftarrow> (if left \<noteq> 0 then do {
                 ln \<leftarrow> deref m (leftChild n);
                 Some ((if parent ln \<noteq> nd then [WrongParent (leftChild n)] else []) @
                   (if \<not> strcmp_less (node_key ln) (node_key n)
                    then [WrongOrder (leftChild n) nd] else [])) }
               else Some []);
        (right, c3) \<leftarrow> check_avl_get_depth m (rightChild n);
        c4 \<leftarrow> (if right \<noteq> 0 then do {
                 rn \<leftarrow> deref m (rightChild n);
                 Some ((if parent rn \<noteq> nd then [WrongParent (rightChild n)] else []) @
                   (if \<not> strcmp_less (node_key n) (node_key rn)
                    then [WrongOrder nd (rightChild n)] else [])) }
               else Some []);
        let diff = right - left;
        Some ((if right > left then right else left) + 1,
          c1 @ c2 @ c3 @ c4 @
          (if bf n \<noteq> diff then [WrongBalance nd diff (bf n)] else []) @
          (if diff < -1 \<or> diff > 1 then [OutOfRange nd diff] else [])) })"

text \<open>The loops evaluate by their equations.\<close>

declare find_loop.simps [code] insert_loop.simps [code] leftmost.simps [code]
  rightmost.simps [code] climb_right.simps [code] climb_left.simps [code]
  delete_loop.simps [code] destroy_priv.simps [code] check_avl_get_depth.simps [code]

end
