(* ===== verification/MapAvl.thy ===== *)
theory MapAvl
  imports Prelude
begin

text \<open>
  The abstract counterpart of the map: trees with balance factors, the path from the root to a
  position as a list of crumbs, and the two repair loops of the code as recursions over that path.
  Nothing here mentions memory; MapShape relates it to the heap of MapHeap.
\<close>

section \<open>Trees and paths\<close>

datatype 'e avl_tree = Lf | Nd "'e avl_tree" 'e int "'e avl_tree"

text \<open>A crumb is a node seen from one of its children: the other child is kept in it.\<close>

datatype 'e crumb = InL 'e int "'e avl_tree" | InR "'e avl_tree" 'e int

type_synonym 'e path = "'e crumb list"

fun plug :: "'e path \<Rightarrow> 'e avl_tree \<Rightarrow> 'e avl_tree" where
  "plug [] t = t"
| "plug (InL e b r # cs) t = plug cs (Nd t e b r)"
| "plug (InR l e b # cs) t = plug cs (Nd l e b t)"

fun height :: "'e avl_tree \<Rightarrow> nat" where
  "height Lf = 0"
| "height (Nd l e b r) = max (height l) (height r) + 1"

fun elems :: "'e avl_tree \<Rightarrow> 'e list" where
  "elems Lf = []"
| "elems (Nd l e b r) = elems l @ e # elems r"

fun avl :: "'e avl_tree \<Rightarrow> bool" where
  "avl Lf = True"
| "avl (Nd l e b r) =
     (avl l \<and> avl r \<and> b = int (height r) - int (height l) \<and> -1 \<le> b \<and> b \<le> 1)"

fun root_bf :: "'e avl_tree \<Rightarrow> int" where
  "root_bf Lf = 0"
| "root_bf (Nd l e b r) = b"

text \<open>What stands left and right of the hole, in order.\<close>

fun before :: "'e path \<Rightarrow> 'e list" where
  "before [] = []"
| "before (InL e b r # cs) = before cs"
| "before (InR l e b # cs) = before cs @ elems l @ [e]"

fun after :: "'e path \<Rightarrow> 'e list" where
  "after [] = []"
| "after (InL e b r # cs) = e # elems r @ after cs"
| "after (InR l e b # cs) = after cs"

lemma elems_plug: "elems (plug cs t) = before cs @ elems t @ after cs"
  by (induction cs t rule: plug.induct) auto

lemma plug_append: "plug (cs @ ds) t = plug ds (plug cs t)"
  by (induction cs t rule: plug.induct) auto

lemma before_append: "before (cs @ ds) = before ds @ before cs"
  by (induction cs rule: before.induct) auto

lemma after_append: "after (cs @ ds) = after cs @ after ds"
  by (induction cs rule: after.induct) auto

lemma avl_plugD: "avl (plug cs t) \<Longrightarrow> avl t"
  by (induction cs t rule: plug.induct) auto

lemma avl_plug_same_height:
  "avl (plug cs t) \<Longrightarrow> avl t' \<Longrightarrow> height t' = height t \<Longrightarrow> avl (plug cs t')"
proof (induction cs t arbitrary: t' rule: plug.induct)
  case (2 e b r cs t)
  have "avl (Nd t e b r)" by (rule avl_plugD) (use "2.prems"(1) in simp)
  with "2.prems"(2,3) have "avl (Nd t' e b r)" by simp
  with "2.prems"(1,3) show ?case using "2.IH"[of "Nd t' e b r"] by simp
next
  case (3 l e b cs t)
  have "avl (Nd l e b t)" by (rule avl_plugD) (use "3.prems"(1) in simp)
  with "3.prems"(2,3) have "avl (Nd l e b t')" by simp
  with "3.prems"(1,3) show ?case using "3.IH"[of "Nd l e b t'"] by simp
qed simp

section \<open>Rotations\<close>

text \<open>The right subtree is too high, or the left one.\<close>

fun lift_right :: "'e avl_tree \<Rightarrow> 'e \<Rightarrow> 'e avl_tree \<Rightarrow> 'e avl_tree" where
  "lift_right x a (Nd (Nd b c bc d) e be y) =
     (if be < 0
      then Nd (Nd x a (if bc \<le> 0 then 0 else -1) b) c 0 (Nd d e (if bc < 0 then 1 else 0) y)
      else if be = 0 then Nd (Nd x a 1 (Nd b c bc d)) e (-1) y
      else Nd (Nd x a 0 (Nd b c bc d)) e 0 y)"
| "lift_right x a (Nd Lf e be y) =
     (if be = 0 then Nd (Nd x a 1 Lf) e (-1) y else Nd (Nd x a 0 Lf) e 0 y)"
| "lift_right x a Lf = Lf"

fun lift_left :: "'e avl_tree \<Rightarrow> 'e \<Rightarrow> 'e avl_tree \<Rightarrow> 'e avl_tree" where
  "lift_left (Nd x a ba (Nd b c bc d)) e y =
     (if ba > 0
      then Nd (Nd x a (if bc > 0 then -1 else 0) b) c 0 (Nd d e (if bc < 0 then 1 else 0) y)
      else if ba = 0 then Nd x a 1 (Nd (Nd b c bc d) e (-1) y)
      else Nd x a 0 (Nd (Nd b c bc d) e 0 y))"
| "lift_left (Nd x a ba Lf) e y =
     (if ba = 0 then Nd x a 1 (Nd Lf e (-1) y) else Nd x a 0 (Nd Lf e 0 y))"
| "lift_left Lf e y = Lf"

lemma elems_lift_right: "t \<noteq> Lf \<Longrightarrow> elems (lift_right x a t) = elems x @ a # elems t"
  by (cases "(x, a, t)" rule: lift_right.cases) auto

lemma elems_lift_left: "t \<noteq> Lf \<Longrightarrow> elems (lift_left t a y) = elems t @ a # elems y"
  by (cases "(t, a, y)" rule: lift_left.cases) auto

lemma avl_lift_right:
  assumes "avl x" "avl t" "height t = height x + 2"
  shows "avl (lift_right x a t) \<and>
    height (lift_right x a t) = (if root_bf t = 0 then height x + 3 else height x + 2)"
  using assms by (cases "(x, a, t)" rule: lift_right.cases) (auto simp: max_def split: if_splits)

lemma avl_lift_left:
  assumes "avl y" "avl t" "height t = height y + 2"
  shows "avl (lift_left t a y) \<and>
    height (lift_left t a y) = (if root_bf t = 0 then height y + 3 else height y + 2)"
  using assms by (cases "(t, a, y)" rule: lift_left.cases) (auto simp: max_def split: if_splits)

section \<open>The repair loop of insertion\<close>

text \<open>\<open>ins_up cs t\<close>: the subtree in the hole of \<open>cs\<close> has grown and is now \<open>t\<close>.\<close>

fun ins_up :: "'e path \<Rightarrow> 'e avl_tree \<Rightarrow> 'e avl_tree" where
  "ins_up [] t = t"
| "ins_up (InR l e b # cs) t =
     (if b < 0 then plug cs (Nd l e 0 t)
      else if b = 0 then ins_up cs (Nd l e 1 t)
      else plug cs (lift_right l e t))"
| "ins_up (InL e b r # cs) t =
     (if b > 0 then plug cs (Nd t e 0 r)
      else if b = 0 then ins_up cs (Nd t e (-1) r)
      else plug cs (lift_left t e r))"

text \<open>What the loop may rely on: \<open>t0\<close> is the subtree before it grew.\<close>

definition grown :: "'e path \<Rightarrow> 'e avl_tree \<Rightarrow> 'e avl_tree \<Rightarrow> bool" where
  "grown cs t0 t \<longleftrightarrow> avl (plug cs t0) \<and> avl t \<and> height t = height t0 + 1 \<and>
     (t0 = Lf \<or> root_bf t \<noteq> 0)"

lemma grown_not_Lf: "grown cs t0 t \<Longrightarrow> t \<noteq> Lf"
  by (auto simp: grown_def)

lemma grown_step_right:
  assumes "grown (InR l e 0 # cs) t0 t"
  shows "grown cs (Nd l e 0 t0) (Nd l e 1 t)"
proof -
  have "avl (Nd l e 0 t0)" using assms by (auto simp: grown_def dest: avl_plugD)
  then show ?thesis using assms by (auto simp: grown_def)
qed

lemma grown_step_left:
  assumes "grown (InL e 0 r # cs) t0 t"
  shows "grown cs (Nd t0 e 0 r) (Nd t e (-1) r)"
proof -
  have "avl (Nd t0 e 0 r)" using assms by (auto simp: grown_def dest: avl_plugD)
  then show ?thesis using assms by (auto simp: grown_def)
qed

lemma grown_crumb_right:
  assumes "grown (InR l e b # cs) t0 t"
  shows "avl l \<and> avl t0 \<and> -1 \<le> b \<and> b \<le> 1 \<and> b = int (height t0) - int (height l)
    \<and> height t = height t0 + 1 \<and> (b = 1 \<longrightarrow> root_bf t \<noteq> 0)"
proof -
  have "avl (Nd l e b t0)" using assms by (auto simp: grown_def dest: avl_plugD)
  then show ?thesis using assms by (auto simp: grown_def)
qed

lemma grown_crumb_left:
  assumes "grown (InL e b r # cs) t0 t"
  shows "avl r \<and> avl t0 \<and> -1 \<le> b \<and> b \<le> 1 \<and> b = int (height r) - int (height t0)
    \<and> height t = height t0 + 1 \<and> (b = -1 \<longrightarrow> root_bf t \<noteq> 0)"
proof -
  have "avl (Nd t0 e b r)" using assms by (auto simp: grown_def dest: avl_plugD)
  then show ?thesis using assms by (auto simp: grown_def)
qed

lemma avl_ins_up: "grown cs t0 t \<Longrightarrow> avl (ins_up cs t)"
proof (induction cs t arbitrary: t0 rule: ins_up.induct)
  case (1 t)
  then show ?case by (simp add: grown_def)
next
  case (2 l e b cs t)
  note c = grown_crumb_right[OF "2.prems"]
  have p: "avl (plug cs (Nd l e b t0))" and a: "avl t" using "2.prems" by (auto simp: grown_def)
  consider "b < 0" | "b = 0" | "b > 0" by linarith
  then show ?case
  proof cases
    case 1
    have "avl (plug cs (Nd l e 0 t))"
      by (rule avl_plug_same_height[OF p]) (use 1 c a in auto)
    with 1 show ?thesis by simp
  next
    case 2
    then show ?thesis using "2.IH" "2.prems" grown_step_right by fastforce
  next
    case 3
    then have b: "b = 1" using c by linarith
    then have "avl (lift_right l e t) \<and> height (lift_right l e t) = height l + 2"
      using avl_lift_right[of l t e] c a by auto
    then have "avl (plug cs (lift_right l e t))"
      by (intro avl_plug_same_height[OF p]) (use b c in auto)
    with b show ?thesis by simp
  qed
next
  case (3 e b r cs t)
  note c = grown_crumb_left[OF "3.prems"]
  have p: "avl (plug cs (Nd t0 e b r))" and a: "avl t" using "3.prems" by (auto simp: grown_def)
  consider "b > 0" | "b = 0" | "b < 0" by linarith
  then show ?case
  proof cases
    case 1
    have "avl (plug cs (Nd t e 0 r))"
      by (rule avl_plug_same_height[OF p]) (use 1 c a in auto)
    with 1 show ?thesis by simp
  next
    case 2
    then show ?thesis using "3.IH" "3.prems" grown_step_left by fastforce
  next
    case 3
    then have b: "b = -1" using c by linarith
    then have "avl (lift_left t e r) \<and> height (lift_left t e r) = height r + 2"
      using avl_lift_left[of r t e] c a by auto
    then have "avl (plug cs (lift_left t e r))"
      by (intro avl_plug_same_height[OF p]) (use b c in auto)
    with b show ?thesis by simp
  qed
qed

lemma elems_ins_up: "t \<noteq> Lf \<Longrightarrow> elems (ins_up cs t) = before cs @ elems t @ after cs"
  by (induction cs t rule: ins_up.induct)
    (auto simp: elems_plug elems_lift_right elems_lift_left)

end
