(* ===== verification/MapShape.thy ===== *)
theory MapShape
  imports MapHeap MapAvl
begin

text \<open>
  When a memory of MapHeap holds a tree of MapAvl: every node is allocated, its child pointers are
  the tops of its subtrees and its parent pointer is the node above. The frame lemmas say that a
  write elsewhere changes nothing, and the rotation lemmas that the pointer code computes the
  abstract rotations.
\<close>

section \<open>Elements and addresses\<close>

type_synonym ('k, 'v) entry = "addr \<times> 'k \<times> 'v"
type_synonym ('k, 'v) mtree = "('k, 'v) entry avl_tree"
type_synonym ('k, 'v) mpath = "('k, 'v) entry path"

fun top_of :: "('k, 'v) mtree \<Rightarrow> addr" where
  "top_of Lf = 0"
| "top_of (Nd l (a, k, v) b r) = a"

definition addrs :: "('k, 'v) mtree \<Rightarrow> addr list" where
  "addrs t = map fst (elems t)"

fun path_addrs :: "('k, 'v) mpath \<Rightarrow> addr list" where
  "path_addrs [] = []"
| "path_addrs (InL (a, k, v) b r # cs) = a # addrs r @ path_addrs cs"
| "path_addrs (InR l (a, k, v) b # cs) = addrs l @ a # path_addrs cs"

fun path_top :: "('k, 'v) mpath \<Rightarrow> addr" where
  "path_top [] = 0"
| "path_top (InL (a, k, v) b r # cs) = a"
| "path_top (InR l (a, k, v) b # cs) = a"

text \<open>The slot that holds the pointer to the subtree in the hole.\<close>

fun path_slot :: "('k, 'v) mpath \<Rightarrow> slot" where
  "path_slot [] = RootSlot"
| "path_slot (InL (a, k, v) b r # cs) = LeftSlot a"
| "path_slot (InR l (a, k, v) b # cs) = RightSlot a"

lemma addrs_simps [simp]:
  "addrs Lf = []"
  "addrs (Nd l (a, k, v) b r) = addrs l @ a # addrs r"
  by (simp_all add: addrs_def)

lemma top_in_addrs: "t \<noteq> Lf \<Longrightarrow> top_of t \<in> set (addrs t)"
  by (cases t rule: top_of.cases) auto

lemma mset_addrs_plug: "mset (addrs (plug cs t)) = mset (addrs t) + mset (path_addrs cs)"
  by (induction cs arbitrary: t rule: path_addrs.induct) (auto simp: ac_simps)

lemma set_addrs_plug: "set (addrs (plug cs t)) = set (addrs t) \<union> set (path_addrs cs)"
  using mset_addrs_plug[of cs t] by (metis set_mset_mset set_mset_union)

lemma distinct_addrs_plug:
  "distinct (addrs (plug cs t)) \<longleftrightarrow>
     distinct (addrs t) \<and> distinct (path_addrs cs) \<and> set (addrs t) \<inter> set (path_addrs cs) = {}"
proof -
  have "distinct (addrs (plug cs t)) \<longleftrightarrow> distinct (addrs t @ path_addrs cs)"
    using mset_addrs_plug[of cs t] by (metis mset_append mset_eq_imp_distinct_iff)
  then show ?thesis by auto
qed

section \<open>Trees in memory\<close>

type_synonym ('k, 'v) nodes = "addr \<rightharpoonup> ('k, 'v) node"

fun tree_at :: "('k, 'v) nodes \<Rightarrow> addr \<Rightarrow> ('k, 'v) mtree \<Rightarrow> bool" where
  "tree_at h q Lf = True"
| "tree_at h q (Nd l (a, k, v) b r) \<longleftrightarrow>
     a \<noteq> 0 \<and>
     h a = Some \<lparr>parent = q, bf = b, leftChild = top_of l, rightChild = top_of r,
                node_value = v, node_key = k\<rparr> \<and>
     tree_at h a l \<and> tree_at h a r"

text \<open>\<open>path_at h cs x\<close>: the surroundings of a hole that holds the pointer \<open>x\<close>.\<close>

fun path_at :: "('k, 'v) nodes \<Rightarrow> ('k, 'v) mpath \<Rightarrow> addr \<Rightarrow> bool" where
  "path_at h [] x = True"
| "path_at h (InL (a, k, v) b r # cs) x \<longleftrightarrow>
     a \<noteq> 0 \<and>
     h a = Some \<lparr>parent = path_top cs, bf = b, leftChild = x, rightChild = top_of r,
                node_value = v, node_key = k\<rparr> \<and>
     tree_at h a r \<and> path_at h cs a"
| "path_at h (InR l (a, k, v) b # cs) x \<longleftrightarrow>
     a \<noteq> 0 \<and>
     h a = Some \<lparr>parent = path_top cs, bf = b, leftChild = top_of l, rightChild = x,
                node_value = v, node_key = k\<rparr> \<and>
     tree_at h a l \<and> path_at h cs a"

fun path_root :: "('k, 'v) mpath \<Rightarrow> addr \<Rightarrow> addr" where
  "path_root [] x = x"
| "path_root (c # cs) x = path_root cs (path_top (c # cs))"

lemma tree_at_plug:
  "tree_at h 0 (plug cs t) \<longleftrightarrow> path_at h cs (top_of t) \<and> tree_at h (path_top cs) t"
  by (induction cs arbitrary: t rule: path_addrs.induct) auto

lemma top_plug: "top_of (plug cs t) = path_root cs (top_of t)"
  by (induction cs arbitrary: t rule: path_addrs.induct) auto

text \<open>The memory holds the map \<open>t\<close>.\<close>

definition map_at :: "('k, 'v) mem \<Rightarrow> ('k, 'v) mtree \<Rightarrow> bool" where
  "map_at m t \<longleftrightarrow> root m = top_of t \<and> tree_at (heap m) 0 t \<and> distinct (addrs t)"

text \<open>The same, split at a hole.\<close>

lemma map_at_plug:
  "map_at m (plug cs t) \<longleftrightarrow>
     root m = path_root cs (top_of t) \<and> path_at (heap m) cs (top_of t) \<and>
     tree_at (heap m) (path_top cs) t \<and>
     distinct (addrs t) \<and> distinct (path_addrs cs) \<and> set (addrs t) \<inter> set (path_addrs cs) = {}"
  by (auto simp: map_at_def tree_at_plug top_plug distinct_addrs_plug)

lemma tree_at_nonzero: "tree_at h q t \<Longrightarrow> 0 \<notin> set (addrs t)"
  by (induction h q t rule: tree_at.induct) auto

lemma path_at_nonzero: "path_at h cs x \<Longrightarrow> 0 \<notin> set (path_addrs cs)"
  by (induction h cs x rule: path_at.induct) (auto dest: tree_at_nonzero)

lemma tree_at_dom: "tree_at h q t \<Longrightarrow> set (addrs t) \<subseteq> dom h"
  by (induction h q t rule: tree_at.induct) auto

lemma path_at_dom: "path_at h cs x \<Longrightarrow> set (path_addrs cs) \<subseteq> dom h"
  by (induction h cs x rule: path_at.induct) (auto dest: tree_at_dom)

lemma top_eq_0: "tree_at h q t \<Longrightarrow> top_of t = 0 \<longleftrightarrow> t = Lf"
  by (cases t rule: top_of.cases) auto

lemma top_notin: "0 \<notin> A \<Longrightarrow> set (addrs t) \<inter> A = {} \<Longrightarrow> top_of t \<notin> A"
  using top_in_addrs[of t] by (cases "t = Lf") auto

section \<open>Frame\<close>

lemma tree_at_cong:
  "(\<And>x. x \<in> set (addrs t) \<Longrightarrow> h' x = h x) \<Longrightarrow> tree_at h' q t \<longleftrightarrow> tree_at h q t"
  by (induction h q t rule: tree_at.induct) auto

lemma path_at_cong:
  "(\<And>x. x \<in> set (path_addrs cs) \<Longrightarrow> h' x = h x) \<Longrightarrow> path_at h' cs y \<longleftrightarrow> path_at h cs y"
proof (induction h cs y rule: path_at.induct)
  case (2 h a k v b r cs x)
  then have "path_at h' cs a \<longleftrightarrow> path_at h cs a" and "tree_at h' a r \<longleftrightarrow> tree_at h a r"
    by (auto intro!: tree_at_cong)
  with "2.prems" show ?case by simp
next
  case (3 h l a k v b cs x)
  then have "path_at h' cs a \<longleftrightarrow> path_at h cs a" and "tree_at h' a l \<longleftrightarrow> tree_at h a l"
    by (auto intro!: tree_at_cong)
  with "3.prems" show ?case by simp
qed simp

lemma tree_at_upd [frame_simps]: "a \<notin> set (addrs t) \<Longrightarrow> tree_at (h(a := n)) q t = tree_at h q t"
  by (rule tree_at_cong) auto

lemma path_at_upd [frame_simps]:
  "a \<notin> set (path_addrs cs) \<Longrightarrow> path_at (h(a := n)) cs y = path_at h cs y"
  by (rule path_at_cong) auto

text \<open>Only the parent pointer of the top node depends on what is above a subtree.\<close>

lemma tree_at_reparent:
  "tree_at h q (Nd l (a, k, v) b r) \<Longrightarrow> distinct (addrs (Nd l (a, k, v) b r)) \<Longrightarrow>
   tree_at (h(a \<mapsto> \<lparr>parent = q', bf = b, leftChild = top_of l, rightChild = top_of r,
                   node_value = v, node_key = k\<rparr>)) q' (Nd l (a, k, v) b r)"
  by (auto simp: frame_simps)

section \<open>Single accesses\<close>

lemma NULL_0 [simp]: "NULL = 0"
  by (simp add: NULL_def)

lemma deref_Some [step_simps]: "p \<noteq> 0 \<Longrightarrow> heap m p = Some n \<Longrightarrow> deref m p = Some n"
  by (simp add: deref_def)

lemma store_Some [step_simps]:
  "p \<noteq> 0 \<Longrightarrow> heap m p = Some n \<Longrightarrow> store m p f = Some (m\<lparr>heap := (heap m)(p \<mapsto> f n)\<rparr>)"
  by (simp add: store_def deref_def)

lemmas setters [step_simps] = SET_PARENT_def set_left_def set_right_def set_bf_def PARENT_def

text \<open>\<open>if (b) SET_PARENT(b, a);\<close> for the top of a subtree.\<close>

lemma SET_PARENT_if_tree:
  assumes "tree_at (heap m) q t" "distinct (addrs t)"
  shows "\<exists>m'. SET_PARENT_if m (top_of t) q' = Some m' \<and> root m' = root m \<and>
    tree_at (heap m') q' t \<and> (\<forall>x. x \<noteq> top_of t \<or> t = Lf \<longrightarrow> heap m' x = heap m x)"
proof (cases t rule: top_of.cases)
  case 1
  then show ?thesis by (simp add: SET_PARENT_if_def)
next
  case (2 l a k v b r)
  then show ?thesis using assms
    by (auto simp: SET_PARENT_if_def step_simps frame_simps)
qed

section \<open>Rotations in memory\<close>

lemma rotate_right_side_at:
  assumes "tree_at (heap m) q (Nd x (a, ka, va) ba t)"
    and "distinct (addrs (Nd x (a, ka, va) ba t))" and "t \<noteq> Lf"
    and "root_bf t < 0 \<longrightarrow> (\<exists>b c bc d e y. t = Nd (Nd b c bc d) e (root_bf t) y)"
  shows "\<exists>m' q'. (if root_bf t < 0 then rotRightLeft m a (top_of t) else rotLeft m a (top_of t)) =
      Some (top_of (lift_right x (a, ka, va) t), m') \<and> root m' = root m \<and>
    tree_at (heap m') q' (lift_right x (a, ka, va) t) \<and>
    (\<forall>z. z \<notin> set (a # addrs t) \<longrightarrow> heap m' z = heap m z)"
proof (cases "((x, (a, ka, va), t))" rule: lift_right.cases)
  case (1 x' a' b c bc d e be y)
  obtain ca ck cv where c: "c = (ca, ck, cv)" by (cases c)
  obtain ea ek ev where e: "e = (ea, ek, ev)" by (cases e)
  show ?thesis
  proof (cases "be < 0")
    case True
    show ?thesis
      using assms 1 c e True
      by (cases b rule: top_of.cases; cases d rule: top_of.cases)
        (auto simp: rotRightLeft_def SET_PARENT_if_def step_simps frame_simps Let_def)
  next
    case False
    then show ?thesis
      using assms 1 c e
      by (auto simp: rotLeft_def SET_PARENT_if_def step_simps frame_simps Let_def)
  qed
next
  case (2 x' a' e be y)
  obtain ea ek ev where e: "e = (ea, ek, ev)" by (cases e)
  then show ?thesis
    using assms 2
    by (auto simp: rotLeft_def SET_PARENT_if_def step_simps frame_simps Let_def)
next
  case (3 x' a')
  then show ?thesis using assms by simp
qed

lemma rotate_left_side_at:
  assumes "tree_at (heap m) q (Nd t (a, ka, va) ba y)"
    and "distinct (addrs (Nd t (a, ka, va) ba y))" and "t \<noteq> Lf"
    and "root_bf t > 0 \<longrightarrow> (\<exists>x e b c bc d. t = Nd x e (root_bf t) (Nd b c bc d))"
  shows "\<exists>m' q'. (if root_bf t > 0 then rotLeftRight m a (top_of t) else rotRight m a (top_of t)) =
      Some (top_of (lift_left t (a, ka, va) y), m') \<and> root m' = root m \<and>
    tree_at (heap m') q' (lift_left t (a, ka, va) y) \<and>
    (\<forall>z. z \<notin> set (a # addrs t) \<longrightarrow> heap m' z = heap m z)"
proof (cases "((t, (a, ka, va), y))" rule: lift_left.cases)
  case (1 x e be b c bc d a' y')
  obtain ca ck cv where c: "c = (ca, ck, cv)" by (cases c)
  obtain ea ek ev where e: "e = (ea, ek, ev)" by (cases e)
  show ?thesis
  proof (cases "be > 0")
    case True
    show ?thesis
      using assms 1 c e True
      by (cases b rule: top_of.cases; cases d rule: top_of.cases)
        (auto simp: rotLeftRight_def SET_PARENT_if_def step_simps frame_simps Let_def)
  next
    case False
    then show ?thesis
      using assms 1 c e
      by (auto simp: rotRight_def SET_PARENT_if_def step_simps frame_simps Let_def)
  qed
next
  case (2 x e be a' y')
  obtain ea ek ev where e: "e = (ea, ek, ev)" by (cases e)
  then show ?thesis
    using assms 2
    by (auto simp: rotRight_def SET_PARENT_if_def step_simps frame_simps Let_def)
next
  case (3 a' y')
  then show ?thesis using assms by simp
qed

lemma relink_at:
  assumes "tree_at (heap m) q t" and "distinct (addrs t)" and "t \<noteq> Lf"
    and "path_at (heap m) cs a" and "root m = path_root cs a"
    and "distinct (path_addrs cs)" and "set (addrs t) \<inter> set (path_addrs cs) = {}"
    and "a \<noteq> 0" and "a \<notin> set (path_addrs cs)"
  shows "\<exists>m'. relink m a (top_of t) (path_top cs) = Some m' \<and> map_at m' (plug cs t) \<and>
    (\<forall>z. z \<notin> set (addrs t) \<union> set (path_addrs cs) \<longrightarrow> heap m' z = heap m z)"
proof -
  obtain l e k v b r where t: "t = Nd l (e, k, v) b r" using \<open>t \<noteq> Lf\<close> by (cases t rule: top_of.cases) auto
  have sib: "a \<noteq> top_of s" if "set (addrs s) \<subseteq> set (path_addrs cs)" for s :: "('a, 'b) mtree"
    using that assms(8,9) top_in_addrs[of s] by (cases "s = Lf") auto
  show ?thesis
  proof (cases cs rule: path_addrs.cases)
    case 1
    then show ?thesis using assms t
      by (auto simp: relink_def map_at_def step_simps frame_simps)
  next
    case (2 p kp vp bp s cs')
    then show ?thesis using assms t sib
      by (auto simp: relink_def map_at_plug step_simps frame_simps)
  next
    case (3 s p kp vp bp cs')
    then show ?thesis using assms t sib[of s]
      by (auto simp: relink_def map_at_plug step_simps frame_simps)
  qed
qed


text \<open>A rotation and the relinking after it, as both loops use them.\<close>

lemma addrs_lift_right: "t \<noteq> Lf \<Longrightarrow> addrs (lift_right x e t) = addrs x @ fst e # addrs t"
  by (simp add: addrs_def elems_lift_right)

lemma addrs_lift_left: "t \<noteq> Lf \<Longrightarrow> addrs (lift_left t e y) = addrs t @ fst e # addrs y"
  by (simp add: addrs_def elems_lift_left)

lemma lift_right_not_Lf: "t \<noteq> Lf \<Longrightarrow> lift_right x e t \<noteq> Lf"
  using elems_lift_right[of t x e] by auto

lemma lift_left_not_Lf: "t \<noteq> Lf \<Longrightarrow> lift_left t e y \<noteq> Lf"
  using elems_lift_left[of t e y] by auto

lemma rotate_relink_right:
  assumes at: "map_at m (plug cs (Nd x (a, ka, va) ba t))" and t: "t \<noteq> Lf"
    and s: "root_bf t < 0 \<longrightarrow> (\<exists>b c bc d e y. t = Nd (Nd b c bc d) e (root_bf t) y)"
  shows "\<exists>m1 m2. (if root_bf t < 0 then rotRightLeft m a (top_of t) else rotLeft m a (top_of t)) =
      Some (top_of (lift_right x (a, ka, va) t), m1) \<and>
    relink m1 a (top_of (lift_right x (a, ka, va) t)) (path_top cs) = Some m2 \<and>
    map_at m2 (plug cs (lift_right x (a, ka, va) t)) \<and>
    (\<forall>z. z \<notin> set (addrs (plug cs (Nd x (a, ka, va) ba t))) \<longrightarrow> heap m2 z = heap m z)"
proof -
  let ?T = "lift_right x (a, ka, va) t"
  note at' = at[unfolded map_at_plug]
  have "tree_at (heap m) (path_top cs) (Nd x (a, ka, va) ba t)"
    and "distinct (addrs (Nd x (a, ka, va) ba t))" using at' by auto
  from rotate_right_side_at[OF this t s] obtain m1 q where
    m1: "(if root_bf t < 0 then rotRightLeft m a (top_of t) else rotLeft m a (top_of t)) =
      Some (top_of ?T, m1)" "root m1 = root m" "tree_at (heap m1) q ?T"
    and fr: "\<forall>z. z \<notin> set (a # addrs t) \<longrightarrow> heap m1 z = heap m z" by blast
  have p: "path_at (heap m1) cs a"
    using at' fr by (subst path_at_cong[of cs "heap m1" "heap m"]) auto
  have "\<exists>m2. relink m1 a (top_of ?T) (path_top cs) = Some m2 \<and> map_at m2 (plug cs ?T) \<and>
    (\<forall>z. z \<notin> set (addrs ?T) \<union> set (path_addrs cs) \<longrightarrow> heap m2 z = heap m1 z)"
    by (rule relink_at[OF m1(3)]) (use at' m1(2) p t in \<open>auto simp: addrs_lift_right lift_right_not_Lf\<close>)
  then obtain m2 where m2: "relink m1 a (top_of ?T) (path_top cs) = Some m2" "map_at m2 (plug cs ?T)"
    and "\<forall>z. z \<notin> set (addrs ?T) \<union> set (path_addrs cs) \<longrightarrow> heap m2 z = heap m1 z" by blast
  then have "\<forall>z. z \<notin> set (addrs (plug cs (Nd x (a, ka, va) ba t))) \<longrightarrow> heap m2 z = heap m z"
    using fr t by (auto simp: set_addrs_plug addrs_lift_right)
  with m1(1) m2 show ?thesis by blast
qed

lemma rotate_relink_left:
  assumes at: "map_at m (plug cs (Nd t (a, ka, va) ba y))" and t: "t \<noteq> Lf"
    and s: "root_bf t > 0 \<longrightarrow> (\<exists>x e b c bc d. t = Nd x e (root_bf t) (Nd b c bc d))"
  shows "\<exists>m1 m2. (if root_bf t > 0 then rotLeftRight m a (top_of t) else rotRight m a (top_of t)) =
      Some (top_of (lift_left t (a, ka, va) y), m1) \<and>
    relink m1 a (top_of (lift_left t (a, ka, va) y)) (path_top cs) = Some m2 \<and>
    map_at m2 (plug cs (lift_left t (a, ka, va) y)) \<and>
    (\<forall>z. z \<notin> set (addrs (plug cs (Nd t (a, ka, va) ba y))) \<longrightarrow> heap m2 z = heap m z)"
proof -
  let ?T = "lift_left t (a, ka, va) y"
  note at' = at[unfolded map_at_plug]
  have "tree_at (heap m) (path_top cs) (Nd t (a, ka, va) ba y)"
    and "distinct (addrs (Nd t (a, ka, va) ba y))" using at' by auto
  from rotate_left_side_at[OF this t s] obtain m1 q where
    m1: "(if root_bf t > 0 then rotLeftRight m a (top_of t) else rotRight m a (top_of t)) =
      Some (top_of ?T, m1)" "root m1 = root m" "tree_at (heap m1) q ?T"
    and fr: "\<forall>z. z \<notin> set (a # addrs t) \<longrightarrow> heap m1 z = heap m z" by blast
  have p: "path_at (heap m1) cs a"
    using at' fr by (subst path_at_cong[of cs "heap m1" "heap m"]) auto
  have "\<exists>m2. relink m1 a (top_of ?T) (path_top cs) = Some m2 \<and> map_at m2 (plug cs ?T) \<and>
    (\<forall>z. z \<notin> set (addrs ?T) \<union> set (path_addrs cs) \<longrightarrow> heap m2 z = heap m1 z)"
    by (rule relink_at[OF m1(3)]) (use at' m1(2) p t in \<open>auto simp: addrs_lift_left lift_left_not_Lf\<close>)
  then obtain m2 where m2: "relink m1 a (top_of ?T) (path_top cs) = Some m2" "map_at m2 (plug cs ?T)"
    and "\<forall>z. z \<notin> set (addrs ?T) \<union> set (path_addrs cs) \<longrightarrow> heap m2 z = heap m1 z" by blast
  then have "\<forall>z. z \<notin> set (addrs (plug cs (Nd t (a, ka, va) ba y))) \<longrightarrow> heap m2 z = heap m z"
    using fr t by (auto simp: set_addrs_plug addrs_lift_left)
  with m1(1) m2 show ?thesis by blast
qed

text \<open>An AVL subtree that leans to one side has the grandchild the double rotation needs.\<close>

lemma leans_left:
  assumes "avl t" "root_bf t < 0"
  shows "\<exists>b c bc d e y. t = Nd (Nd b c bc d) e (root_bf t) y"
proof (cases t)
  case (Nd l e b y)
  then have "l \<noteq> Lf" using assms by auto
  with Nd show ?thesis by (cases l) auto
qed (use assms in simp)

lemma leans_right:
  assumes "avl t" "root_bf t > 0"
  shows "\<exists>x e b c bc d. t = Nd x e (root_bf t) (Nd b c bc d)"
proof (cases t)
  case (Nd x e b r)
  then have "r \<noteq> Lf" using assms by auto
  with Nd show ?thesis by (cases r) auto
qed (use assms in simp)

end
