(* ===== verification/MapInsert.thy ===== *)
theory MapInsert
  imports MapShape
begin

text \<open>
  Search and insertion. The search loop computes the abstract descent, whatever the comparison is;
  under a \<open>key_order\<close> the descent ends at the key or at the only hole where it can be put. The
  insertion loop computes \<open>ins_up\<close>, so inserting a new key keeps the AVL shape and the order.
\<close>

section \<open>Reading a node of the tree\<close>

text \<open>Changing the balance factor of the node above a hole.\<close>

lemma map_at_deref:
  assumes "map_at m (plug cs (Nd l (a, k, v) b r))"
  shows "a \<noteq> 0" and "deref m a = Some \<lparr>parent = path_top cs, bf = b, leftChild = top_of l,
      rightChild = top_of r, node_value = v, node_key = k\<rparr>"
  using assms by (auto simp: map_at_plug deref_def)

lemma set_bf_at:
  assumes "map_at m (plug cs (Nd l (a, k, v) b r))"
  shows "\<exists>m'. set_bf m a b' = Some m' \<and> map_at m' (plug cs (Nd l (a, k, v) b' r)) \<and>
    (\<forall>z. z \<noteq> a \<longrightarrow> heap m' z = heap m z)"
  using assms by (auto simp: map_at_plug step_simps frame_simps)

lemma top_of_sibling:
  assumes "map_at m (plug cs (Nd l e b r))" and "l \<noteq> Lf \<or> r \<noteq> Lf"
  shows "top_of l \<noteq> top_of r"
proof -
  obtain a k v where e: "e = (a, k, v)" by (cases e)
  have t: "tree_at (heap m) a l" "tree_at (heap m) a r" and d: "set (addrs l) \<inter> set (addrs r) = {}"
    using assms(1) e by (auto simp: map_at_plug)
  show ?thesis
    using assms(2) top_eq_0[OF t(1)] top_eq_0[OF t(2)] top_in_addrs[of l] top_in_addrs[of r] d
    by (metis disjoint_iff)
qed

lemma deref_top:
  assumes "map_at m (plug cs (Nd l e b r))"
  shows "l \<noteq> Lf \<Longrightarrow> \<exists>n. deref m (top_of l) = Some n \<and> bf n = root_bf l"
    and "r \<noteq> Lf \<Longrightarrow> \<exists>n. deref m (top_of r) = Some n \<and> bf n = root_bf r"
proof -
  obtain a k v where e: "e = (a, k, v)" by (cases e)
  have t: "tree_at (heap m) a l" "tree_at (heap m) a r" using assms e by (auto simp: map_at_plug)
  show "l \<noteq> Lf \<Longrightarrow> \<exists>n. deref m (top_of l) = Some n \<and> bf n = root_bf l"
    using t(1) by (cases l rule: top_of.cases) (auto simp: deref_def)
  show "r \<noteq> Lf \<Longrightarrow> \<exists>n. deref m (top_of r) = Some n \<and> bf n = root_bf r"
    using t(2) by (cases r rule: top_of.cases) (auto simp: deref_def)
qed

section \<open>Search\<close>

definition ekey :: "('k, 'v) entry \<Rightarrow> 'k" where
  "ekey x = fst (snd x)"

definition eval_of :: "('k, 'v) entry \<Rightarrow> 'v" where
  "eval_of x = snd (snd x)"

lemma entry_simps [simp]: "ekey (a, k, v) = k" "eval_of (a, k, v) = v"
  by (simp_all add: ekey_def eval_of_def)

text \<open>The descent of the search loop on the abstract tree.\<close>

fun descend ::
  "('k \<Rightarrow> 'k \<Rightarrow> dir) \<Rightarrow> 'k \<Rightarrow> ('k, 'v) mpath \<Rightarrow> ('k, 'v) mtree \<Rightarrow> ('k, 'v) mpath \<times> ('k, 'v) mtree" where
  "descend cmp k cs Lf = (cs, Lf)"
| "descend cmp k cs (Nd l e b r) =
     (case cmp k (ekey e) of
        Found \<Rightarrow> (cs, Nd l e b r)
      | GoLeft \<Rightarrow> descend cmp k (InL e b r # cs) l
      | GoRight \<Rightarrow> descend cmp k (InR l e b # cs) r)"

definition position_of :: "('k, 'v) mpath \<times> ('k, 'v) mtree \<Rightarrow> NodePosition" where
  "position_of p = (case p of (ds, s) \<Rightarrow>
     \<lparr>pos_node = (if s = Lf then path_top ds else top_of s),
      is_parent = (s = Lf), parent_ptr = path_slot ds\<rparr>)"

lemma read_path_slot:
  assumes "map_at m (plug cs t)"
  shows "read_slot m (path_slot cs) = Some (top_of t)"
proof (cases cs rule: path_addrs.cases)
  case 1
  then show ?thesis using assms by (simp add: map_at_def)
qed (use assms in \<open>auto simp: map_at_plug deref_def\<close>)

lemma plug_descend: "plug (fst (descend cmp k cs t)) (snd (descend cmp k cs t)) = plug cs t"
  by (induction cmp k cs t rule: descend.induct) (auto split: dir.splits)

lemma find_loop_at:
  assumes "map_at m (plug cs t)"
  shows "find_loop cmp m (path_slot cs) (path_top cs) k = Some (position_of (descend cmp k cs t))"
  using assms
proof (induction cmp k cs t rule: descend.induct)
  case (1 cmp k cs)
  then show ?case
    by (simp add: find_loop.simps[of _ _ "path_slot cs"] read_path_slot position_of_def)
next
  case (2 cmp k cs l e b r)
  obtain a ka va where e: "e = (a, ka, va)" by (cases e)
  have at: "map_at m (plug cs (Nd l (a, ka, va) b r))" using "2.prems" e by simp
  show ?case
    using "2.IH" "2.prems" read_path_slot[OF "2.prems"] map_at_deref[OF at] e
    by (subst find_loop.simps) (auto simp: position_of_def split: dir.splits)
qed

lemma find_node_at:
  assumes "map_at m t"
  shows "find_node cmp m RootSlot k = Some (position_of (descend cmp k [] t))"
proof -
  have "find_loop cmp m RootSlot 0 k = Some (position_of (descend cmp k [] t))"
    using find_loop_at[of m "[]" t cmp k] assms by simp
  moreover have "read_slot m RootSlot = Some (top_of t)"
    using read_path_slot[of m "[]" t] assms by simp
  moreover have "top_of t \<noteq> 0 \<Longrightarrow> PARENT m (top_of t) = Some 0"
    using assms by (cases t rule: top_of.cases) (auto simp: map_at_def PARENT_def deref_def)
  ultimately show ?thesis by (simp add: find_node_def)
qed

section \<open>Key orders\<close>

text \<open>
  What the search relies on: the comparison is a linear order on the keys \<open>ok\<close>. It is the
  interface between the map and its key types.
\<close>

locale key_order =
  fixes cmp :: "'k \<Rightarrow> 'k \<Rightarrow> dir" and ok :: "'k \<Rightarrow> bool"
  assumes found_iff: "ok a \<Longrightarrow> ok b \<Longrightarrow> cmp a b = Found \<longleftrightarrow> a = b"
    and mirror: "ok a \<Longrightarrow> ok b \<Longrightarrow> cmp a b = GoRight \<longleftrightarrow> cmp b a = GoLeft"
    and left_trans: "ok a \<Longrightarrow> ok b \<Longrightarrow> ok c \<Longrightarrow> cmp a b = GoLeft \<Longrightarrow> cmp b c = GoLeft \<Longrightarrow> cmp a c = GoLeft"

definition key_sorted :: "('k \<Rightarrow> 'k \<Rightarrow> dir) \<Rightarrow> ('k \<Rightarrow> bool) \<Rightarrow> ('k, 'v) entry list \<Rightarrow> bool" where
  "key_sorted cmp ok es \<longleftrightarrow>
     sorted_wrt (\<lambda>x y. cmp (ekey x) (ekey y) = GoLeft) es \<and> (\<forall>x \<in> set es. ok (ekey x))"

text \<open>The contents of a map as a function from keys to values.\<close>

definition contents :: "('k, 'v) entry list \<Rightarrow> ('k \<rightharpoonup> 'v)" where
  "contents es = map_of (map (\<lambda>x. (ekey x, eval_of x)) es)"

text \<open>
  The invariant of a map: the memory holds the tree \<open>t\<close>, its balance factors are right, its keys
  are in order.
\<close>

definition map_inv ::
  "('k \<Rightarrow> 'k \<Rightarrow> dir) \<Rightarrow> ('k \<Rightarrow> bool) \<Rightarrow> ('k, 'v) mem \<Rightarrow> ('k, 'v) mtree \<Rightarrow> bool" where
  "map_inv cmp ok m t \<longleftrightarrow> map_at m t \<and> avl t \<and> key_sorted cmp ok (elems t)"

lemma contents_append: "contents (xs @ ys) = contents ys ++ contents xs"
  by (simp add: contents_def)

lemma contents_Cons: "contents (x # xs) = (contents xs)(ekey x \<mapsto> eval_of x)"
  by (simp add: contents_def)

lemma contents_Nil [simp]: "contents [] = Map.empty"
  by (simp add: contents_def)

lemma dom_contents: "dom (contents es) = ekey ` set es"
  by (auto simp: contents_def dom_map_of_conv_image_fst image_image)

lemma key_sorted_append:
  "key_sorted cmp ok (xs @ ys) \<longleftrightarrow> key_sorted cmp ok xs \<and> key_sorted cmp ok ys \<and>
     (\<forall>x \<in> set xs. \<forall>y \<in> set ys. cmp (ekey x) (ekey y) = GoLeft)"
  by (auto simp: key_sorted_def sorted_wrt_append)

lemma key_sorted_Cons:
  "key_sorted cmp ok (x # ys) \<longleftrightarrow> ok (ekey x) \<and> key_sorted cmp ok ys \<and>
     (\<forall>y \<in> set ys. cmp (ekey x) (ekey y) = GoLeft)"
  by (auto simp: key_sorted_def)

lemma key_sorted_Nil [simp]: "key_sorted cmp ok []"
  by (simp add: key_sorted_def)

lemmas key_sorted_simps = key_sorted_append key_sorted_Cons

lemma key_sorted_ok: "key_sorted cmp ok es \<Longrightarrow> x \<in> set es \<Longrightarrow> ok (ekey x)"
  by (simp add: key_sorted_def)

context key_order
begin

lemma left_irrefl: "ok a \<Longrightarrow> cmp a a \<noteq> GoLeft"
  using found_iff[of a a] by simp

lemma left_neq: "ok a \<Longrightarrow> ok b \<Longrightarrow> cmp a b = GoLeft \<Longrightarrow> a \<noteq> b"
  using left_irrefl by blast

text \<open>The descent ends between the smaller and the larger keys.\<close>

lemma descend_between:
  assumes "key_sorted cmp ok (elems (plug cs t))" and "ok k"
    and "\<forall>x \<in> set (before cs). cmp (ekey x) k = GoLeft"
    and "\<forall>x \<in> set (after cs). cmp k (ekey x) = GoLeft"
    and "descend cmp k cs t = (ds, s)"
  shows "(\<forall>x \<in> set (before ds). cmp (ekey x) k = GoLeft) \<and>
    (\<forall>x \<in> set (after ds). cmp k (ekey x) = GoLeft) \<and>
    (\<forall>l e b r. s = Nd l e b r \<longrightarrow> ekey e = k)"
  using assms
proof (induction t arbitrary: cs)
  case Lf
  then show ?case by simp
next
  case (Nd l e b r)
  have s: "key_sorted cmp ok (before cs @ elems l @ e # elems r @ after cs)"
    using Nd.prems(1) by (simp add: elems_plug)
  have oke: "ok (ekey e)" using s by (simp add: key_sorted_simps)
  show ?case
  proof (cases "cmp k (ekey e)")
    case Found
    then have "k = ekey e" using found_iff[OF Nd.prems(2) oke] by simp
    then show ?thesis using Found Nd.prems by auto
  next
    case GoLeft
    have "cmp k (ekey x) = GoLeft" if "x \<in> set (e # elems r @ after cs)" for x
    proof -
      have "x = e \<or> cmp (ekey e) (ekey x) = GoLeft"
        using that s by (auto simp: key_sorted_simps)
      moreover have "ok (ekey x)" using key_sorted_ok[OF s, of x] that by auto
      ultimately show ?thesis using GoLeft left_trans[OF Nd.prems(2) oke, of "ekey x"] by auto
    qed
    then have "\<forall>x \<in> set (after (InL e b r # cs)). cmp k (ekey x) = GoLeft" by simp
    with Nd.prems(1-3) show ?thesis
      by (intro Nd.IH(1)[of "InL e b r # cs"]) (use Nd.prems(5) GoLeft in simp_all)
  next
    case GoRight
    then have ek: "cmp (ekey e) k = GoLeft" using mirror[OF Nd.prems(2) oke] by simp
    have "cmp (ekey x) k = GoLeft" if "x \<in> set (before cs @ elems l @ [e])" for x
    proof -
      have "x = e \<or> cmp (ekey x) (ekey e) = GoLeft"
        using that s by (auto simp: key_sorted_simps)
      moreover have "ok (ekey x)" using key_sorted_ok[OF s, of x] that by auto
      ultimately show ?thesis using ek left_trans[OF _ oke Nd.prems(2), of "ekey x"] by auto
    qed
    then have "\<forall>x \<in> set (before (InR l e b # cs)). cmp (ekey x) k = GoLeft" by simp
    with Nd.prems(1,2,4) show ?thesis
      by (intro Nd.IH(2)[of "InR l e b # cs"]) (use Nd.prems(5) GoRight in simp_all)
  qed
qed

lemma descend_root:
  assumes "key_sorted cmp ok (elems t)" and "ok k" and "descend cmp k [] t = (ds, s)"
  shows "t = plug ds s" and "\<forall>x \<in> set (before ds). cmp (ekey x) k = GoLeft"
    and "\<forall>x \<in> set (after ds). cmp k (ekey x) = GoLeft"
    and "s = Nd l e b r \<Longrightarrow> ekey e = k"
proof -
  show "t = plug ds s" using plug_descend[of cmp k "[]" t] assms(3) by simp
  have "(\<forall>x \<in> set (before ds). cmp (ekey x) k = GoLeft) \<and>
    (\<forall>x \<in> set (after ds). cmp k (ekey x) = GoLeft) \<and>
    (\<forall>l e b r. s = Nd l e b r \<longrightarrow> ekey e = k)"
    by (rule descend_between[of "[]" t]) (use assms in auto)
  then show "\<forall>x \<in> set (before ds). cmp (ekey x) k = GoLeft"
    and "\<forall>x \<in> set (after ds). cmp k (ekey x) = GoLeft"
    and "s = Nd l e b r \<Longrightarrow> ekey e = k" by blast+
qed

text \<open>The contents at the key the descent looked for, and elsewhere.\<close>

lemma contents_below:
  assumes "\<forall>x \<in> set es. cmp (ekey x) k = GoLeft" "\<forall>x \<in> set es. ok (ekey x)" "ok k"
  shows "contents es k = None"
proof -
  have "k \<notin> ekey ` set es" using assms left_neq by blast
  then show ?thesis using dom_contents[of es] by (metis domIff)
qed

lemma contents_above:
  assumes "\<forall>x \<in> set es. cmp k (ekey x) = GoLeft" "\<forall>x \<in> set es. ok (ekey x)" "ok k"
  shows "contents es k = None"
proof -
  have "k \<notin> ekey ` set es" using assms left_neq by blast
  then show ?thesis using dom_contents[of es] by (metis domIff)
qed

lemma descend_contents:
  assumes "key_sorted cmp ok (elems t)" and "ok k" and d: "descend cmp k [] t = (ds, s)"
  shows "contents (elems t) k = (case s of Lf \<Rightarrow> None | Nd l e b r \<Rightarrow> Some (eval_of e))"
proof -
  note r = descend_root[OF assms]
  have s: "key_sorted cmp ok (before ds @ elems s @ after ds)"
    using assms(1) r(1) by (simp add: elems_plug)
  have ok: "\<forall>x \<in> set (before ds). ok (ekey x)" "\<forall>x \<in> set (after ds). ok (ekey x)"
    using s by (auto simp: key_sorted_def)
  note none = contents_below[OF r(2) ok(1) assms(2)] contents_above[OF r(3) ok(2) assms(2)]
  show ?thesis
  proof (cases s)
    case Lf
    then show ?thesis using r(1) none by (simp add: elems_plug contents_append map_add_def)
  next
    case (Nd l e b u)
    have k: "ekey e = k" using r(4) Nd by blast
    have "contents (elems l) k = None"
      using s Nd k by (intro contents_below) (auto simp: key_sorted_simps dest: key_sorted_ok)
    then show ?thesis using r(1) Nd none k
      by (simp add: elems_plug contents_append contents_Cons map_add_def)
  qed
qed

text \<open>A new entry in the hole the descent found.\<close>

lemma insert_in_hole:
  assumes "key_sorted cmp ok (before ds @ after ds)" and "ok k"
    and "\<forall>x \<in> set (before ds). cmp (ekey x) k = GoLeft"
    and "\<forall>x \<in> set (after ds). cmp k (ekey x) = GoLeft"
  shows "key_sorted cmp ok (before ds @ (a, k, v) # after ds)"
    and "contents (before ds @ (a, k, v) # after ds) = (contents (before ds @ after ds))(k \<mapsto> v)"
proof -
  show "key_sorted cmp ok (before ds @ (a, k, v) # after ds)"
    using assms by (auto simp: key_sorted_simps)
  have "contents (before ds) k = None"
    using assms by (intro contents_below) (auto simp: key_sorted_simps dest: key_sorted_ok)
  then show "contents (before ds @ (a, k, v) # after ds) = (contents (before ds @ after ds))(k \<mapsto> v)"
    by (auto simp: contents_append contents_Cons map_add_def fun_eq_iff split: option.splits)
qed

end

section \<open>Insertion\<close>

text \<open>One round of the repair loop of \<open>insert_priv\<close>, coming from the right and from the left.\<close>

lemma insert_loop_right:
  assumes "deref m a = Some \<lparr>parent = p, bf = b, leftChild = lp, rightChild = x,
      node_value = v, node_key = k\<rparr>" and "a \<noteq> 0"
  shows "insert_loop m x a =
    (if b < 0 then set_bf m a 0
     else if b = 0 then do { m \<leftarrow> set_bf m a 1; insert_loop m a p }
     else do {
       nn \<leftarrow> deref m x;
       (n0, m) \<leftarrow> (if bf nn < 0 then rotRightLeft m a x else rotLeft m a x);
       relink m a n0 p })"
  using assms by (auto simp: insert_loop.simps[of m x a] set_bf_def store_def PARENT_def deref_def Let_def)

lemma insert_loop_left:
  assumes "deref m a = Some \<lparr>parent = p, bf = b, leftChild = x, rightChild = rp,
      node_value = v, node_key = k\<rparr>" and "a \<noteq> 0" and "x \<noteq> rp"
  shows "insert_loop m x a =
    (if b > 0 then set_bf m a 0
     else if b = 0 then do { m \<leftarrow> set_bf m a (-1); insert_loop m a p }
     else do {
       nn \<leftarrow> deref m x;
       (n0, m) \<leftarrow> (if bf nn > 0 then rotLeftRight m a x else rotRight m a x);
       relink m a n0 p })"
  using assms by (auto simp: insert_loop.simps[of m x a] set_bf_def store_def PARENT_def deref_def Let_def)

lemma insert_loop_at:
  assumes "map_at m (plug cs t)" and "grown cs t0 t"
  shows "\<exists>m'. insert_loop m (top_of t) (path_top cs) = Some m' \<and> map_at m' (ins_up cs t) \<and>
    (\<forall>z. z \<notin> set (addrs (plug cs t)) \<longrightarrow> heap m' z = heap m z)"
  using assms
proof (induction cs t arbitrary: m t0 rule: ins_up.induct)
  case (1 t)
  then show ?case by (simp add: insert_loop.simps)
next
  case (2 l e b cs t)
  obtain a k v where e: "e = (a, k, v)" by (cases e)
  have t: "t \<noteq> Lf" using "2.prems"(2) by (rule grown_not_Lf)
  have at: "map_at m (plug cs (Nd l (a, k, v) b t))" using "2.prems"(1) e by simp
  note g = grown_crumb_right[OF "2.prems"(2)]
  note step = insert_loop_right[OF map_at_deref(2)[OF at] map_at_deref(1)[OF at]]
  consider "b < 0" | "b = 0" | "b > 0" by linarith
  then show ?case
  proof cases
    case 1
    then show ?thesis using set_bf_at[OF at, of 0] step e by (auto simp: set_addrs_plug)
  next
    case 2
    obtain m1 where m1: "set_bf m a 1 = Some m1" "map_at m1 (plug cs (Nd l e 1 t))"
      "\<forall>z. z \<noteq> a \<longrightarrow> heap m1 z = heap m z" using set_bf_at[OF at, of 1] e by blast
    have "grown cs (Nd l e 0 t0) (Nd l e 1 t)" using "2.prems"(2) 2 by (simp add: grown_step_right)
    from "2.IH"[OF _ _ m1(2) this] 2 obtain m2 where m2: "insert_loop m1 a (path_top cs) = Some m2"
      "map_at m2 (ins_up cs (Nd l e 1 t))"
      "\<forall>z. z \<notin> set (addrs (plug cs (Nd l e 1 t))) \<longrightarrow> heap m2 z = heap m1 z" using e by auto
    then show ?thesis using 2 step e m1 by (auto simp: set_addrs_plug)
  next
    case 3
    have "root_bf t < 0 \<longrightarrow> (\<exists>b c bc d e y. t = Nd (Nd b c bc d) e (root_bf t) y)"
      using leans_left[of t] "2.prems"(2) unfolding grown_def by blast
    from rotate_relink_right[OF at t this] obtain m1 m2 where
      "(if root_bf t < 0 then rotRightLeft m a (top_of t) else rotLeft m a (top_of t)) =
        Some (top_of (lift_right l (a, k, v) t), m1)"
      "relink m1 a (top_of (lift_right l (a, k, v) t)) (path_top cs) = Some m2"
      "map_at m2 (plug cs (lift_right l (a, k, v) t))"
      "\<forall>z. z \<notin> set (addrs (plug cs (Nd l (a, k, v) b t))) \<longrightarrow> heap m2 z = heap m z" by blast
    then show ?thesis using 3 step e deref_top(2)[OF at t] by auto
  qed
next
  case (3 e b r cs t)
  obtain a k v where e: "e = (a, k, v)" by (cases e)
  have t: "t \<noteq> Lf" using "3.prems"(2) by (rule grown_not_Lf)
  have at: "map_at m (plug cs (Nd t (a, k, v) b r))" using "3.prems"(1) e by simp
  note g = grown_crumb_left[OF "3.prems"(2)]
  have "top_of t \<noteq> top_of r" using top_of_sibling[OF at] t by simp
  note step = insert_loop_left[OF map_at_deref(2)[OF at] map_at_deref(1)[OF at] this]
  consider "b > 0" | "b = 0" | "b < 0" by linarith
  then show ?case
  proof cases
    case 1
    then show ?thesis using set_bf_at[OF at, of 0] step e by (auto simp: set_addrs_plug)
  next
    case 2
    obtain m1 where m1: "set_bf m a (-1) = Some m1" "map_at m1 (plug cs (Nd t e (-1) r))"
      "\<forall>z. z \<noteq> a \<longrightarrow> heap m1 z = heap m z" using set_bf_at[OF at, of "-1"] e by blast
    have "grown cs (Nd t0 e 0 r) (Nd t e (-1) r)" using "3.prems"(2) 2 by (simp add: grown_step_left)
    from "3.IH"[OF _ _ m1(2) this] 2 obtain m2 where m2: "insert_loop m1 a (path_top cs) = Some m2"
      "map_at m2 (ins_up cs (Nd t e (-1) r))"
      "\<forall>z. z \<notin> set (addrs (plug cs (Nd t e (-1) r))) \<longrightarrow> heap m2 z = heap m1 z" using e by auto
    then show ?thesis using 2 step e m1 by (auto simp: set_addrs_plug)
  next
    case 3
    have "root_bf t > 0 \<longrightarrow> (\<exists>x e b c bc d. t = Nd x e (root_bf t) (Nd b c bc d))"
      using leans_right[of t] "3.prems"(2) unfolding grown_def by blast
    from rotate_relink_left[OF at t this] obtain m1 m2 where
      "(if root_bf t > 0 then rotLeftRight m a (top_of t) else rotRight m a (top_of t)) =
        Some (top_of (lift_left t (a, k, v) r), m1)"
      "relink m1 a (top_of (lift_left t (a, k, v) r)) (path_top cs) = Some m2"
      "map_at m2 (plug cs (lift_left t (a, k, v) r))"
      "\<forall>z. z \<notin> set (addrs (plug cs (Nd t (a, k, v) b r))) \<longrightarrow> heap m2 z = heap m z" by blast
    then show ?thesis using 3 step e deref_top(1)[OF at t] by auto
  qed
qed

text \<open>Insertion of a new key in a hole: the new node and the whole of \<open>insert_priv\<close>.\<close>

lemma insert_new_at:
  assumes at: "map_at m (plug ds Lf)" and av: "avl (plug ds Lf)"
    and new: "new \<noteq> 0" "heap m new = None"
  shows "\<exists>m1 m2. new_node m new k v = Some m1 \<and>
    insert_priv m1 new (path_top ds) (path_slot ds) = Some m2 \<and>
    map_at m2 (ins_up ds (Nd Lf (new, k, v) 0 Lf)) \<and>
    (\<forall>z. z \<notin> set (path_addrs ds) \<union> {new} \<longrightarrow> heap m2 z = heap m z)"
proof -
  let ?leaf = "\<lparr>parent = path_top ds, bf = 0, leftChild = 0, rightChild = 0,
    node_value = v, node_key = k\<rparr>"
  let ?new = "m\<lparr>heap := (heap m)(new \<mapsto> ?leaf\<lparr>parent := 0\<rparr>)\<rparr>"
  let ?m = "m\<lparr>heap := (heap m)(new \<mapsto> ?leaf)\<rparr>"
  have nin: "new \<notin> set (path_addrs ds)" using at new(2) path_at_dom by (fastforce simp: map_at_plug)
  have n: "new_node m new k v = Some ?new" using new(1) by (simp add: new_node_def)
  have sp: "SET_PARENT ?new new (path_top ds) = Some ?m" using new(1) by (simp add: step_simps)
  have "\<exists>m'. write_slot ?m (path_slot ds) new = Some m' \<and> map_at m' (plug ds (Nd Lf (new, k, v) 0 Lf)) \<and>
    (\<forall>z. z \<notin> set (path_addrs ds) \<union> {new} \<longrightarrow> heap m' z = heap m z)"
  proof (cases ds rule: path_addrs.cases)
    case 1
    then show ?thesis using at new by (auto simp: map_at_def)
  qed (use at new nin in \<open>auto simp: map_at_plug step_simps frame_simps\<close>)
  then obtain m' where m': "write_slot ?m (path_slot ds) new = Some m'"
      "map_at m' (plug ds (Nd Lf (new, k, v) 0 Lf))"
      "\<forall>z. z \<notin> set (path_addrs ds) \<union> {new} \<longrightarrow> heap m' z = heap m z" by blast
  have "grown ds Lf (Nd Lf (new, k, v) 0 Lf)" using av by (simp add: grown_def)
  from insert_loop_at[OF m'(2) this] obtain m2 where
    m2: "insert_loop m' new (path_top ds) = Some m2" "map_at m2 (ins_up ds (Nd Lf (new, k, v) 0 Lf))"
    "\<forall>z. z \<notin> set (addrs (plug ds (Nd Lf (new, k, v) 0 Lf))) \<longrightarrow> heap m2 z = heap m' z" by auto
  have "insert_priv ?new new (path_top ds) (path_slot ds) = Some m2"
    using sp m'(1) m2(1) by (simp add: insert_priv_def)
  with n m'(3) m2(2,3) show ?thesis by (auto simp: set_addrs_plug)
qed

section \<open>Insertion and search under a key order\<close>

context key_order
begin

lemma find_absent:
  assumes inv: "map_inv cmp ok m t" and k: "ok k" "contents (elems t) k = None"
  obtains ds where "descend cmp k [] t = (ds, Lf)" "t = plug ds Lf"
    "find_node cmp m RootSlot k =
      Some \<lparr>pos_node = path_top ds, is_parent = True, parent_ptr = path_slot ds\<rparr>"
proof -
  obtain ds s where d: "descend cmp k [] t = (ds, s)" by fastforce
  have so: "key_sorted cmp ok (elems t)" and at: "map_at m t" using inv by (auto simp: map_inv_def)
  have s: "s = Lf" using descend_contents[OF so k(1) d] k(2) by (cases s) auto
  have "find_node cmp m RootSlot k =
      Some \<lparr>pos_node = path_top ds, is_parent = True, parent_ptr = path_slot ds\<rparr>"
    using find_node_at[OF at, of cmp k] d s by (simp add: position_of_def)
  with d[unfolded s] descend_root(1)[OF so k(1) d, unfolded s] show thesis by (rule that)
qed

lemma find_present:
  assumes inv: "map_inv cmp ok m t" and k: "ok k" "contents (elems t) k = Some v"
  obtains a ds l b r where "t = plug ds (Nd l (a, k, v) b r)" "a \<noteq> 0"
    "find_node cmp m RootSlot k =
      Some \<lparr>pos_node = a, is_parent = False, parent_ptr = path_slot ds\<rparr>"
proof -
  obtain ds s where d: "descend cmp k [] t = (ds, s)" by fastforce
  have so: "key_sorted cmp ok (elems t)" and at: "map_at m t" using inv by (auto simp: map_inv_def)
  obtain l e b r where s: "s = Nd l e b r" and v: "eval_of e = v"
    using descend_contents[OF so k(1) d] k(2) by (cases s) auto
  have "ekey e = k" by (rule descend_root(4)[OF so k(1) d s])
  then obtain a where e: "e = (a, k, v)" using v by (cases e) simp
  have t: "t = plug ds (Nd l (a, k, v) b r)" using descend_root(1)[OF so k(1) d] s e by simp
  have a: "a \<noteq> 0" by (rule map_at_deref(1)) (use at t in simp)
  have "find_node cmp m RootSlot k =
      Some \<lparr>pos_node = a, is_parent = False, parent_ptr = path_slot ds\<rparr>"
    using find_node_at[OF at, of cmp k] d s e by (simp add: position_of_def)
  with t a show thesis by (rule that)
qed

lemma insert_new_key:
  fixes m :: "('k, 'v) mem"
  assumes inv: "map_inv cmp ok m t" and k: "ok k" "contents (elems t) k = None"
    and new: "new \<noteq> 0" "heap m new = None"
  obtains ds :: "('k, 'v) mpath" and m1 m2 t' xs ys where
    "find_node cmp m RootSlot k =
      Some \<lparr>pos_node = path_top ds, is_parent = True, parent_ptr = path_slot ds\<rparr>"
    "new_node m new k v = Some m1"
    "insert_priv m1 new (path_top ds) (path_slot ds) = Some m2"
    "map_inv cmp ok m2 t'" "elems t = xs @ ys" "elems t' = xs @ (new, k, v) # ys"
    "\<forall>z. z \<notin> set (addrs t) \<union> {new} \<longrightarrow> heap m2 z = heap m z"
proof -
  obtain ds where d: "descend cmp k [] t = (ds, Lf)" and t: "t = plug ds Lf"
    and f: "find_node cmp m RootSlot k =
      Some \<lparr>pos_node = path_top ds, is_parent = True, parent_ptr = path_slot ds\<rparr>"
    using find_absent[OF inv k] by blast
  let ?t = "ins_up ds (Nd Lf (new, k, v) 0 Lf)"
  have so: "key_sorted cmp ok (elems t)" and at: "map_at m (plug ds Lf)" and av: "avl (plug ds Lf)"
    using inv t by (auto simp: map_inv_def)
  obtain m1 m2 where m: "new_node m new k v = Some m1"
      "insert_priv m1 new (path_top ds) (path_slot ds) = Some m2" "map_at m2 ?t"
    and fr: "\<forall>z. z \<notin> set (path_addrs ds) \<union> {new} \<longrightarrow> heap m2 z = heap m z"
    using insert_new_at[OF at av new] by blast
  have e: "elems ?t = before ds @ (new, k, v) # after ds" by (simp add: elems_ins_up)
  have et: "elems t = before ds @ after ds" using t by (simp add: elems_plug)
  note r = descend_root(2,3)[OF so k(1) d]
  note h = insert_in_hole[OF so[unfolded et] k(1) r]
  have "grown ds Lf (Nd Lf (new, k, v) 0 Lf)" using av by (simp add: grown_def)
  then have "avl ?t" by (rule avl_ins_up)
  then have inv': "map_inv cmp ok m2 ?t" using m(3) h(1) e by (simp add: map_inv_def)
  have "set (path_addrs ds) = set (addrs t)" using t by (simp add: set_addrs_plug)
  with fr have fr': "\<forall>z. z \<notin> set (addrs t) \<union> {new} \<longrightarrow> heap m2 z = heap m z" by simp
  show thesis by (rule that[OF f m(1,2) inv' et e fr'])
qed

end

end
