(* ===== verification/MapDelete.thy ===== *)
theory MapDelete
  imports MapInsert
begin

text \<open>
  Deletion on the abstract trees: the repair loop and the removal of a node, their effect on the
  order and on the balance. MapRemove shows that \<open>delete_priv\<close> computes them in memory.
\<close>

section \<open>The repair loop of deletion on paths\<close>

text \<open>\<open>del_up cs t\<close>: the subtree in the hole of \<open>cs\<close> has lost one level and is now \<open>t\<close>.\<close>

fun del_up :: "'e path \<Rightarrow> 'e avl_tree \<Rightarrow> 'e avl_tree" where
  "del_up [] t = t"
| "del_up (InL e b r # cs) t =
     (if b < 0 then del_up cs (Nd t e 0 r)
      else if b = 0 then plug cs (Nd t e 1 r)
      else if root_bf r = 0 then plug cs (lift_right t e r)
      else del_up cs (lift_right t e r))"
| "del_up (InR l e b # cs) t =
     (if b > 0 then del_up cs (Nd l e 0 t)
      else if b = 0 then plug cs (Nd l e (-1) t)
      else if root_bf l = 0 then plug cs (lift_left l e t)
      else del_up cs (lift_left l e t))"

definition shrunk :: "'e path \<Rightarrow> 'e avl_tree \<Rightarrow> 'e avl_tree \<Rightarrow> bool" where
  "shrunk cs t0 t \<longleftrightarrow> avl (plug cs t0) \<and> avl t \<and> height t0 = height t + 1"

lemma shrunk_left:
  assumes "shrunk (InL e b r # cs) t0 t"
  shows "avl r" "avl t" "-1 \<le> b" "b \<le> 1" "b = int (height r) - int (height t) - 1"
    and "b = -1 \<Longrightarrow> shrunk cs (Nd t0 e b r) (Nd t e 0 r)"
    and "b = 0 \<Longrightarrow> avl (plug cs (Nd t e 1 r))"
    and "b = 1 \<Longrightarrow> r \<noteq> Lf"
    and "b = 1 \<Longrightarrow> root_bf r = 0 \<Longrightarrow> avl (plug cs (lift_right t e r))"
    and "b = 1 \<Longrightarrow> root_bf r \<noteq> 0 \<Longrightarrow> shrunk cs (Nd t0 e b r) (lift_right t e r)"
proof -
  have p: "avl (plug cs (Nd t0 e b r))" using assms by (simp add: shrunk_def)
  then have n: "avl (Nd t0 e b r)" by (rule avl_plugD)
  have t: "avl t" "height t0 = height t + 1" using assms by (simp_all add: shrunk_def)
  show "avl r" "avl t" "-1 \<le> b" "b \<le> 1" "b = int (height r) - int (height t) - 1"
    using n t by auto
  show "b = -1 \<Longrightarrow> shrunk cs (Nd t0 e b r) (Nd t e 0 r)"
    using n t p by (auto simp: shrunk_def)
  show "b = 0 \<Longrightarrow> avl (plug cs (Nd t e 1 r))"
    by (rule avl_plug_same_height[OF p]) (use n t in auto)
  show "b = 1 \<Longrightarrow> r \<noteq> Lf" using n t by auto
  assume b: "b = 1"
  then have l: "avl (lift_right t e r) \<and>
      height (lift_right t e r) = (if root_bf r = 0 then height t + 3 else height t + 2)"
    using n t by (intro avl_lift_right) auto
  show "root_bf r = 0 \<Longrightarrow> avl (plug cs (lift_right t e r))"
    by (rule avl_plug_same_height[OF p]) (use n t l b in auto)
  show "root_bf r \<noteq> 0 \<Longrightarrow> shrunk cs (Nd t0 e b r) (lift_right t e r)"
    using n t l p b by (auto simp: shrunk_def)
qed

lemma shrunk_right:
  assumes "shrunk (InR l e b # cs) t0 t"
  shows "avl l" "avl t" "-1 \<le> b" "b \<le> 1" "b = int (height t) + 1 - int (height l)"
    and "b = 1 \<Longrightarrow> shrunk cs (Nd l e b t0) (Nd l e 0 t)"
    and "b = 0 \<Longrightarrow> avl (plug cs (Nd l e (-1) t))"
    and "b = -1 \<Longrightarrow> l \<noteq> Lf"
    and "b = -1 \<Longrightarrow> root_bf l = 0 \<Longrightarrow> avl (plug cs (lift_left l e t))"
    and "b = -1 \<Longrightarrow> root_bf l \<noteq> 0 \<Longrightarrow> shrunk cs (Nd l e b t0) (lift_left l e t)"
proof -
  have p: "avl (plug cs (Nd l e b t0))" using assms by (simp add: shrunk_def)
  then have n: "avl (Nd l e b t0)" by (rule avl_plugD)
  have t: "avl t" "height t0 = height t + 1" using assms by (simp_all add: shrunk_def)
  show "avl l" "avl t" "-1 \<le> b" "b \<le> 1" "b = int (height t) + 1 - int (height l)"
    using n t by auto
  show "b = 1 \<Longrightarrow> shrunk cs (Nd l e b t0) (Nd l e 0 t)"
    using n t p by (auto simp: shrunk_def)
  show "b = 0 \<Longrightarrow> avl (plug cs (Nd l e (-1) t))"
    by (rule avl_plug_same_height[OF p]) (use n t in auto)
  show "b = -1 \<Longrightarrow> l \<noteq> Lf" using n t by auto
  assume b: "b = -1"
  then have h: "avl (lift_left l e t) \<and>
      height (lift_left l e t) = (if root_bf l = 0 then height t + 3 else height t + 2)"
    using n t by (intro avl_lift_left) auto
  show "root_bf l = 0 \<Longrightarrow> avl (plug cs (lift_left l e t))"
    by (rule avl_plug_same_height[OF p]) (use n t h b in auto)
  show "root_bf l \<noteq> 0 \<Longrightarrow> shrunk cs (Nd l e b t0) (lift_left l e t)"
    using n t h p b by (auto simp: shrunk_def)
qed

lemma del_up_correct:
  "shrunk cs t0 t \<Longrightarrow> avl (del_up cs t) \<and> elems (del_up cs t) = before cs @ elems t @ after cs"
proof (induction cs t arbitrary: t0 rule: del_up.induct)
  case (1 t)
  then show ?case by (simp add: shrunk_def)
next
  case (2 e b r cs t)
  note s = shrunk_left[OF "2.prems"]
  consider "b = -1" | "b = 0" | "b = 1" "root_bf r = 0" | "b = 1" "root_bf r \<noteq> 0"
    using s(3,4) by linarith
  then show ?case
  proof cases
    case 1
    then show ?thesis using "2.IH"(1)[OF _ s(6)] by simp
  next
    case 2
    then show ?thesis using s(7) by (simp add: elems_plug)
  next
    case 3
    then show ?thesis using s(8,9) by (simp add: elems_plug elems_lift_right)
  next
    case 4
    then show ?thesis using "2.IH"(2)[OF _ _ _ s(10)] s(8) by (simp add: elems_lift_right)
  qed
next
  case (3 l e b cs t)
  note s = shrunk_right[OF "3.prems"]
  consider "b = 1" | "b = 0" | "b = -1" "root_bf l = 0" | "b = -1" "root_bf l \<noteq> 0"
    using s(3,4) by linarith
  then show ?case
  proof cases
    case 1
    then show ?thesis using "3.IH"(1)[OF _ s(6)] by simp
  next
    case 2
    then show ?thesis using s(7) by (simp add: elems_plug)
  next
    case 3
    then show ?thesis using s(8,9) by (simp add: elems_plug elems_lift_left)
  next
    case 4
    then show ?thesis using "3.IH"(2)[OF _ _ _ s(10)] s(8) by (simp add: elems_lift_left)
  qed
qed

section \<open>Removal of a node\<close>

fun go_right :: "'e path \<Rightarrow> 'e avl_tree \<Rightarrow> 'e path \<times> 'e avl_tree" where
  "go_right ds Lf = (ds, Lf)"
| "go_right ds (Nd l e b Lf) = (ds, Nd l e b Lf)"
| "go_right ds (Nd l e b r) = go_right (InR l e b # ds) r"

fun go_left :: "'e path \<Rightarrow> 'e avl_tree \<Rightarrow> 'e path \<times> 'e avl_tree" where
  "go_left ds Lf = (ds, Lf)"
| "go_left ds (Nd Lf e b r) = (ds, Nd Lf e b r)"
| "go_left ds (Nd l e b r) = go_left (InL e b r # ds) l"

lemma go_right_spec:
  "t \<noteq> Lf \<Longrightarrow> after ds = [] \<Longrightarrow>
   \<exists>es l e b. go_right ds t = (es, Nd l e b Lf) \<and> plug es (Nd l e b Lf) = plug ds t \<and> after es = []"
  by (induction ds t rule: go_right.induct) auto

lemma go_left_spec:
  "t \<noteq> Lf \<Longrightarrow> before ds = [] \<Longrightarrow>
   \<exists>es e b r. go_left ds t = (es, Nd Lf e b r) \<and> plug es (Nd Lf e b r) = plug ds t \<and> before es = []"
  by (induction ds t rule: go_left.induct) auto

text \<open>\<open>del_node cs t\<close>: the top node of \<open>t\<close>, which sits in the hole of \<open>cs\<close>, goes.\<close>

fun del_node :: "'e path \<Rightarrow> 'e avl_tree \<Rightarrow> 'e avl_tree" where
  "del_node cs Lf = plug cs Lf"
| "del_node cs (Nd l e b r) =
     (if l \<noteq> Lf \<and> r \<noteq> Lf then
        (if b \<le> 0 then
           (case go_right [] l of
              (ds, Nd ll x xb u) \<Rightarrow> del_up (ds @ InL x b r # cs) ll
            | (ds, Lf) \<Rightarrow> Lf)
         else
           (case go_left [] r of
              (ds, Nd u x xb rr) \<Rightarrow> del_up (ds @ InR l x b # cs) rr
            | (ds, Lf) \<Rightarrow> Lf))
      else del_up cs (if l \<noteq> Lf then l else r))"

lemma avl_plug_elem:
  assumes "avl (plug cs (Nd l e b r))"
  shows "avl (plug cs (Nd l e' b r))"
  by (rule avl_plug_same_height[OF assms]) (use avl_plugD[OF assms] in auto)

lemma shrunk_single:
  assumes "avl (plug cs (Nd l e b r))" and "l = Lf \<or> r = Lf"
  shows "shrunk cs (Nd l e b r) (if l \<noteq> Lf then l else r)"
  using assms avl_plugD[OF assms(1)] by (auto simp: shrunk_def)

lemma shrunk_max:
  assumes "avl (plug cs (Nd (plug ds (Nd ll x xb Lf)) e b r))"
  shows "shrunk (ds @ InL x b r # cs) (Nd ll x xb Lf) ll"
proof -
  have a: "avl (Nd ll x xb Lf)" using avl_plugD[OF assms] by (auto dest: avl_plugD)
  have "avl (plug (ds @ InL x b r # cs) (Nd ll x xb Lf))"
    using avl_plug_elem[OF assms, of x] by (simp add: plug_append)
  with a show ?thesis by (simp add: shrunk_def)
qed

lemma shrunk_min:
  assumes "avl (plug cs (Nd l e b (plug ds (Nd Lf x xb rr))))"
  shows "shrunk (ds @ InR l x b # cs) (Nd Lf x xb rr) rr"
proof -
  have a: "avl (Nd Lf x xb rr)" using avl_plugD[OF assms] by (auto dest: avl_plugD)
  have "avl (plug (ds @ InR l x b # cs) (Nd Lf x xb rr))"
    using avl_plug_elem[OF assms, of x] by (simp add: plug_append)
  with a show ?thesis by (simp add: shrunk_def)
qed

lemma del_node_correct:
  assumes "avl (plug cs (Nd l e b r))"
  shows "avl (del_node cs (Nd l e b r))"
    and "elems (del_node cs (Nd l e b r)) = before cs @ elems l @ elems r @ after cs"
proof -
  have "avl (del_node cs (Nd l e b r)) \<and>
    elems (del_node cs (Nd l e b r)) = before cs @ elems l @ elems r @ after cs"
  proof (cases "l \<noteq> Lf \<and> r \<noteq> Lf")
    case False
    then show ?thesis using del_up_correct[OF shrunk_single[OF assms]] by auto
  next
    case True
    show ?thesis
    proof (cases "b \<le> 0")
      case b: True
      obtain ds ll x xb where g: "go_right [] l = (ds, Nd ll x xb Lf)"
        and l: "plug ds (Nd ll x xb Lf) = l" and d: "after ds = []"
        using go_right_spec[of l "[]"] True by auto
      have "shrunk (ds @ InL x b r # cs) (Nd ll x xb Lf) ll"
        using assms l by (auto intro: shrunk_max)
      from del_up_correct[OF this] show ?thesis
        using True b g d l[symmetric] by (simp add: before_append after_append elems_plug)
    next
      case b: False
      obtain ds x xb rr where g: "go_left [] r = (ds, Nd Lf x xb rr)"
        and r: "plug ds (Nd Lf x xb rr) = r" and d: "before ds = []"
        using go_left_spec[of r "[]"] True by auto
      have "shrunk (ds @ InR l x b # cs) (Nd Lf x xb rr) rr"
        using assms r by (auto intro: shrunk_min)
      from del_up_correct[OF this] show ?thesis
        using True b g d r[symmetric] by (simp add: before_append after_append elems_plug)
    qed
  qed
  then show "avl (del_node cs (Nd l e b r))"
    and "elems (del_node cs (Nd l e b r)) = before cs @ elems l @ elems r @ after cs" by auto
qed

end
