(* ===== verification/MapRemove.thy ===== *)
theory MapRemove
  imports MapDelete
begin

text \<open>
  Deletion in memory: the repair loop, the two ways of finding the node that takes the place of the
  deleted one, the whole of \<open>delete_priv\<close>, and what deleting a key does to the contents of the map.
\<close>

section \<open>The repair loop in memory\<close>

text \<open>One round, coming from the left and from the right.\<close>

lemma delete_loop_left:
  assumes "deref m a = Some \<lparr>parent = p, bf = b, leftChild = x, rightChild = rp,
      node_value = v, node_key = k\<rparr>" and "a \<noteq> 0" and "il \<or> (\<not> ir \<and> n0 = x)"
  shows "delete_loop m n0 a il ir =
    (if b < 0 then do { m \<leftarrow> set_bf m a 0; delete_loop m a p False ir }
     else if b = 0 then set_bf m a 1
     else do {
       bn \<leftarrow> deref m rp;
       (n1, m) \<leftarrow> (if bf bn < 0 then rotRightLeft m a rp else rotLeft m a rp);
       m \<leftarrow> relink m a n1 p;
       if bf bn = 0 then Some m else delete_loop m n1 p False ir })"
  using assms by (auto simp: delete_loop.simps[of m n0 a] Let_def split_def cong: if_cong)

lemma delete_loop_right:
  assumes "deref m a = Some \<lparr>parent = p, bf = b, leftChild = lp, rightChild = x,
      node_value = v, node_key = k\<rparr>" and "a \<noteq> 0" and "\<not> il" and "ir \<or> n0 \<noteq> lp"
  shows "delete_loop m n0 a il ir =
    (if b > 0 then do { m \<leftarrow> set_bf m a 0; delete_loop m a p il False }
     else if b = 0 then set_bf m a (-1)
     else do {
       bn \<leftarrow> deref m lp;
       (n1, m) \<leftarrow> (if bf bn > 0 then rotLeftRight m a lp else rotRight m a lp);
       m \<leftarrow> relink m a n1 p;
       if bf bn = 0 then Some m else delete_loop m n1 p il False })"
  using assms by (auto simp: delete_loop.simps[of m n0 a] Let_def split_def cong: if_cong)

text \<open>
  How the loop finds out on which side it is: by a flag in its first round, and by the pointer
  \<open>n0\<close> afterwards, which must not be null then.
\<close>

fun side_known :: "'e path \<Rightarrow> bool \<Rightarrow> bool \<Rightarrow> bool \<Rightarrow> bool" where
  "side_known [] ptr il ir = True"
| "side_known (InL e b r # cs) ptr il ir = (\<not> ir \<and> (il \<or> ptr))"
| "side_known (InR l e b # cs) ptr il ir = (\<not> il \<and> (ir \<or> ptr))"

lemma side_known_ptr: "side_known cs True False False"
  by (cases "(cs, True, False, False)" rule: side_known.cases) auto

lemma delete_loop_at:
  assumes "map_at m (plug cs t)" and "shrunk cs t0 t"
    and "side_known cs (n0 = top_of t \<and> t \<noteq> Lf) il ir"
  shows "\<exists>m'. delete_loop m n0 (path_top cs) il ir = Some m' \<and> map_at m' (del_up cs t) \<and>
    (\<forall>z. z \<notin> set (addrs (plug cs t)) \<longrightarrow> heap m' z = heap m z)"
  using assms
proof (induction cs t arbitrary: m t0 n0 il ir rule: del_up.induct)
  case (1 t)
  then show ?case by (simp add: delete_loop.simps)
next
  case (2 e b r cs t)
  obtain a k v where e: "e = (a, k, v)" by (cases e)
  have at: "map_at m (plug cs (Nd t (a, k, v) b r))" using "2.prems"(1) e by simp
  note s = shrunk_left[OF "2.prems"(2)]
  have "il \<or> (\<not> ir \<and> n0 = top_of t)" and ir: "\<not> ir" using "2.prems"(3) by auto
  note step = delete_loop_left[OF map_at_deref(2)[OF at] map_at_deref(1)[OF at] this(1)]
  consider "b = -1" | "b = 0" | "b = 1" using s(3,4) by linarith
  then show ?case
  proof cases
    case 1
    obtain m1 where m1: "set_bf m a 0 = Some m1" "map_at m1 (plug cs (Nd t e 0 r))"
      "\<forall>z. z \<noteq> a \<longrightarrow> heap m1 z = heap m z" using set_bf_at[OF at, of 0] e by blast
    have k: "side_known cs (a = top_of (Nd t e 0 r) \<and> Nd t e 0 r \<noteq> Lf) False ir"
      using ir e side_known_ptr by simp
    from "2.IH"(1)[OF _ m1(2) s(6)[OF 1] k] 1 obtain m2 where
      m2: "delete_loop m1 a (path_top cs) False ir = Some m2" "map_at m2 (del_up cs (Nd t e 0 r))"
      "\<forall>z. z \<notin> set (addrs (plug cs (Nd t e 0 r))) \<longrightarrow> heap m2 z = heap m1 z" by auto
    then show ?thesis using 1 step e m1 by (auto simp: set_addrs_plug)
  next
    case 2
    then show ?thesis using set_bf_at[OF at, of 1] step e by (auto simp: set_addrs_plug)
  next
    case 3
    have "root_bf r < 0 \<longrightarrow> (\<exists>b c bc d e y. r = Nd (Nd b c bc d) e (root_bf r) y)"
      using leans_left[OF s(1)] by blast
    from rotate_relink_right[OF at s(8)[OF 3] this] obtain m1 m2 where
      m1: "(if root_bf r < 0 then rotRightLeft m a (top_of r) else rotLeft m a (top_of r)) =
        Some (top_of (lift_right t (a, k, v) r), m1)"
      and m2: "relink m1 a (top_of (lift_right t (a, k, v) r)) (path_top cs) = Some m2"
      "map_at m2 (plug cs (lift_right t (a, k, v) r))"
      "\<forall>z. z \<notin> set (addrs (plug cs (Nd t (a, k, v) b r))) \<longrightarrow> heap m2 z = heap m z" by blast
    obtain bn where bn: "deref m (top_of r) = Some bn" "bf bn = root_bf r"
      using deref_top(2)[OF at s(8)[OF 3]] by blast
    show ?thesis
    proof (cases "root_bf r = 0")
      case True
      then show ?thesis using 3 step e bn m1 m2 by auto
    next
      case False
      let ?T = "lift_right t (a, k, v) r"
      have k: "side_known cs (top_of ?T = top_of ?T \<and> ?T \<noteq> Lf) False ir"
        using ir side_known_ptr lift_right_not_Lf[OF s(8)[OF 3]] by simp
      from "2.IH"(2)[OF _ _ False, of m2 _ "top_of ?T" False ir] k m2(2) s(10)[OF 3 False] 3 e
      obtain m3 where m3: "delete_loop m2 (top_of ?T) (path_top cs) False ir = Some m3"
        "map_at m3 (del_up cs ?T)"
        "\<forall>z. z \<notin> set (addrs (plug cs ?T)) \<longrightarrow> heap m3 z = heap m2 z" by auto
      have "set (addrs (plug cs ?T)) = set (addrs (plug cs (Nd t (a, k, v) b r)))"
        using s(8)[OF 3] by (auto simp: set_addrs_plug addrs_lift_right)
      then show ?thesis using 3 False step e bn m1 m2 m3 by auto
    qed
  qed
next
  case (3 l e b cs t)
  obtain a k v where e: "e = (a, k, v)" by (cases e)
  have at: "map_at m (plug cs (Nd l (a, k, v) b t))" using "3.prems"(1) e by simp
  note s = shrunk_right[OF "3.prems"(2)]
  have il: "\<not> il" and "ir \<or> (n0 = top_of t \<and> t \<noteq> Lf)" using "3.prems"(3) by auto
  moreover have "t \<noteq> Lf \<Longrightarrow> top_of l \<noteq> top_of t" using top_of_sibling[OF at] by simp
  ultimately have "ir \<or> n0 \<noteq> top_of l" by auto
  note step = delete_loop_right[OF map_at_deref(2)[OF at] map_at_deref(1)[OF at] il this]
  consider "b = 1" | "b = 0" | "b = -1" using s(3,4) by linarith
  then show ?case
  proof cases
    case 1
    obtain m1 where m1: "set_bf m a 0 = Some m1" "map_at m1 (plug cs (Nd l e 0 t))"
      "\<forall>z. z \<noteq> a \<longrightarrow> heap m1 z = heap m z" using set_bf_at[OF at, of 0] e by blast
    have k: "side_known cs (a = top_of (Nd l e 0 t) \<and> Nd l e 0 t \<noteq> Lf) il False"
      using il e side_known_ptr by simp
    from "3.IH"(1)[OF _ m1(2) s(6)[OF 1] k] 1 obtain m2 where
      m2: "delete_loop m1 a (path_top cs) il False = Some m2" "map_at m2 (del_up cs (Nd l e 0 t))"
      "\<forall>z. z \<notin> set (addrs (plug cs (Nd l e 0 t))) \<longrightarrow> heap m2 z = heap m1 z" by auto
    then show ?thesis using 1 step e m1 by (auto simp: set_addrs_plug)
  next
    case 2
    then show ?thesis using set_bf_at[OF at, of "-1"] step e by (auto simp: set_addrs_plug)
  next
    case 3
    have "root_bf l > 0 \<longrightarrow> (\<exists>x e b c bc d. l = Nd x e (root_bf l) (Nd b c bc d))"
      using leans_right[OF s(1)] by blast
    from rotate_relink_left[OF at s(8)[OF 3] this] obtain m1 m2 where
      m1: "(if root_bf l > 0 then rotLeftRight m a (top_of l) else rotRight m a (top_of l)) =
        Some (top_of (lift_left l (a, k, v) t), m1)"
      and m2: "relink m1 a (top_of (lift_left l (a, k, v) t)) (path_top cs) = Some m2"
      "map_at m2 (plug cs (lift_left l (a, k, v) t))"
      "\<forall>z. z \<notin> set (addrs (plug cs (Nd l (a, k, v) b t))) \<longrightarrow> heap m2 z = heap m z" by blast
    obtain bn where bn: "deref m (top_of l) = Some bn" "bf bn = root_bf l"
      using deref_top(1)[OF at s(8)[OF 3]] by blast
    show ?thesis
    proof (cases "root_bf l = 0")
      case True
      then show ?thesis using 3 step e bn m1 m2 by auto
    next
      case False
      let ?T = "lift_left l (a, k, v) t"
      have k: "side_known cs (top_of ?T = top_of ?T \<and> ?T \<noteq> Lf) il False"
        using il side_known_ptr lift_left_not_Lf[OF s(8)[OF 3]] by simp
      from "3.IH"(2)[OF _ _ False, of m2 _ "top_of ?T" il False] k m2(2) s(10)[OF 3 False] 3 e
      obtain m3 where m3: "delete_loop m2 (top_of ?T) (path_top cs) il False = Some m3"
        "map_at m3 (del_up cs ?T)"
        "\<forall>z. z \<notin> set (addrs (plug cs ?T)) \<longrightarrow> heap m3 z = heap m2 z" by auto
      have "set (addrs (plug cs ?T)) = set (addrs (plug cs (Nd l (a, k, v) b t)))"
        using s(8)[OF 3] by (auto simp: set_addrs_plug addrs_lift_left)
      then show ?thesis using 3 False step e bn m1 m2 m3 by auto
    qed
  qed
qed


section \<open>A segment of a path in memory\<close>

text \<open>
  \<open>seg_at h q ds y\<close>: the nodes of \<open>ds\<close> with what hangs off them, below the node \<open>q\<close> and above a
  hole that holds the pointer \<open>y\<close>.
\<close>

fun seg_top :: "('k, 'v) mpath \<Rightarrow> addr \<Rightarrow> addr" where
  "seg_top [] q = q"
| "seg_top (c # ds) q = path_top (c # ds)"

fun seg_at :: "('k, 'v) nodes \<Rightarrow> addr \<Rightarrow> ('k, 'v) mpath \<Rightarrow> addr \<Rightarrow> bool" where
  "seg_at h q [] y = True"
| "seg_at h q (InL (a, k, v) b r # ds) y \<longleftrightarrow>
     a \<noteq> 0 \<and>
     h a = Some \<lparr>parent = seg_top ds q, bf = b, leftChild = y, rightChild = top_of r,
                node_value = v, node_key = k\<rparr> \<and>
     tree_at h a r \<and> seg_at h q ds a"
| "seg_at h q (InR l (a, k, v) b # ds) y \<longleftrightarrow>
     a \<noteq> 0 \<and>
     h a = Some \<lparr>parent = seg_top ds q, bf = b, leftChild = top_of l, rightChild = y,
                node_value = v, node_key = k\<rparr> \<and>
     tree_at h a l \<and> seg_at h q ds a"

lemma path_top_append: "path_top (ds @ cs) = seg_top ds (path_top cs)"
  by (cases ds rule: path_top.cases) auto

lemma path_at_append:
  "path_at h (ds @ cs) y \<longleftrightarrow> seg_at h (path_top cs) ds y \<and> path_at h cs (path_root ds y)"
  by (induction ds arbitrary: y rule: path_addrs.induct) (auto simp: path_top_append)

lemma path_root_append: "path_root (ds @ cs) y = path_root cs (path_root ds y)"
  by (induction ds arbitrary: y rule: path_addrs.induct) auto

lemma path_addrs_append: "path_addrs (ds @ cs) = path_addrs ds @ path_addrs cs"
  by (induction ds rule: path_addrs.induct) auto

lemma seg_at_cong:
  "(\<And>x. x \<in> set (path_addrs ds) \<Longrightarrow> h' x = h x) \<Longrightarrow> seg_at h' q ds y \<longleftrightarrow> seg_at h q ds y"
proof (induction h q ds y rule: seg_at.induct)
  case (2 h q a k v b r ds y)
  then have "seg_at h' q ds a \<longleftrightarrow> seg_at h q ds a" and "tree_at h' a r \<longleftrightarrow> tree_at h a r"
    by (auto intro!: tree_at_cong)
  with "2.prems" show ?case by simp
next
  case (3 h q l a k v b ds y)
  then have "seg_at h' q ds a \<longleftrightarrow> seg_at h q ds a" and "tree_at h' a l \<longleftrightarrow> tree_at h a l"
    by (auto intro!: tree_at_cong)
  with "3.prems" show ?case by simp
qed simp

lemma seg_at_upd [frame_simps]:
  "a \<notin> set (path_addrs ds) \<Longrightarrow> seg_at (h(a := n)) q ds y = seg_at h q ds y"
  by (rule seg_at_cong) auto

text \<open>Hanging a segment below another node.\<close>

lemma path_root_in: "ds \<noteq> [] \<Longrightarrow> path_root ds y \<in> set (path_addrs ds)"
  by (induction ds arbitrary: y rule: path_addrs.induct) fastforce+

lemma seg_reparent:
  assumes "seg_at h q ds y" and "ds \<noteq> []" and "distinct (path_addrs ds)"
  shows "\<exists>n. path_root ds y \<noteq> 0 \<and> h (path_root ds y) = Some n \<and>
    seg_at (h(path_root ds y \<mapsto> n\<lparr>parent := q'\<rparr>)) q' ds y"
  using assms
proof (induction h q ds y rule: seg_at.induct)
  case (1 h q y)
  then show ?case by simp
next
  case (2 h q a k v b r ds y)
  show ?case
  proof (cases "ds = []")
    case True
    then show ?thesis using "2.prems" by (simp add: frame_simps fun_upd_def[symmetric])
  next
    case False
    then obtain n where "path_root ds a \<noteq> 0" "h (path_root ds a) = Some n"
      "seg_at (h(path_root ds a \<mapsto> n\<lparr>parent := q'\<rparr>)) q' ds a" using "2.IH"[OF _ False] "2.prems" by fastforce
    moreover have "seg_top ds q' = seg_top ds q" using False by (cases ds) auto
    moreover have "path_root ds a \<notin> set (addrs r)" "path_root ds a \<noteq> a"
      using path_root_in[OF False, of a] "2.prems"(3) by auto
    ultimately show ?thesis using "2.prems"(1)
      by (intro exI[of _ n]) (simp add: frame_simps fun_upd_other del: fun_upd_apply)
  qed
next
  case (3 h q l a k v b ds y)
  show ?case
  proof (cases "ds = []")
    case True
    then show ?thesis using "3.prems" by (simp add: frame_simps fun_upd_def[symmetric])
  next
    case False
    then obtain n where "path_root ds a \<noteq> 0" "h (path_root ds a) = Some n"
      "seg_at (h(path_root ds a \<mapsto> n\<lparr>parent := q'\<rparr>)) q' ds a" using "3.IH"[OF _ False] "3.prems" by fastforce
    moreover have "seg_top ds q' = seg_top ds q" using False by (cases ds) auto
    moreover have "path_root ds a \<notin> set (addrs l)" "path_root ds a \<noteq> a"
      using path_root_in[OF False, of a] "3.prems"(3) by auto
    ultimately show ?thesis using "3.prems"(1)
      by (intro exI[of _ n]) (simp add: frame_simps fun_upd_other del: fun_upd_apply)
  qed
qed

text \<open>The last two statements before the loop put the node \<open>x\<close> in the place of the deleted one.\<close>

lemma hook_at:
  assumes p: "path_at (heap m) cs c" "root m = path_root cs c" "distinct (path_addrs cs)"
    and x: "x \<noteq> 0" "x \<notin> set (path_addrs cs)" "heap m x = Some n"
  shows "\<exists>m2 m3. write_slot m (path_slot cs) x = Some m2 \<and>
    SET_PARENT_if m2 x (path_top cs) = Some m3 \<and> path_at (heap m3) cs x \<and>
    root m3 = path_root cs x \<and> heap m3 x = Some (n\<lparr>parent := path_top cs\<rparr>) \<and>
    (\<forall>z. z \<noteq> x \<and> z \<notin> set (path_addrs cs) \<longrightarrow> heap m3 z = heap m z)"
proof (cases cs rule: path_addrs.cases)
  case 1
  then show ?thesis using assms by (auto simp: SET_PARENT_if_def step_simps)
qed (use assms in \<open>auto simp: SET_PARENT_if_def step_simps frame_simps\<close>)

lemma hook_null_at:
  assumes p: "path_at (heap m) cs c" "root m = path_root cs c" "distinct (path_addrs cs)"
  shows "\<exists>m2. write_slot m (path_slot cs) 0 = Some m2 \<and>
    SET_PARENT_if m2 0 (path_top cs) = Some m2 \<and> path_at (heap m2) cs 0 \<and>
    root m2 = path_root cs 0 \<and> (\<forall>z. z \<notin> set (path_addrs cs) \<longrightarrow> heap m2 z = heap m z)"
proof (cases cs rule: path_addrs.cases)
  case 1
  then show ?thesis using assms by (auto simp: SET_PARENT_if_def step_simps)
qed (use assms in \<open>auto simp: SET_PARENT_if_def step_simps frame_simps\<close>)

text \<open>Both for the top of a subtree: the node \<open>c\<close> above it goes and the subtree moves up.\<close>

lemma hook_tree_at:
  assumes p: "path_at (heap m) cs c" "root m = path_root cs c" "distinct (path_addrs cs)"
    and t: "tree_at (heap m) q t" "distinct (addrs t)" "set (addrs t) \<inter> set (path_addrs cs) = {}"
  shows "\<exists>m2 m3. write_slot m (path_slot cs) (top_of t) = Some m2 \<and>
    SET_PARENT_if m2 (top_of t) (path_top cs) = Some m3 \<and> map_at m3 (plug cs t) \<and>
    (\<forall>z. z \<notin> set (addrs t) \<union> set (path_addrs cs) \<longrightarrow> heap m3 z = heap m z)"
proof (cases t rule: top_of.cases)
  case 1
  then show ?thesis using hook_null_at[OF p] p(3) by (fastforce simp: map_at_plug)
next
  case (2 l a k v b r)
  have a: "a \<noteq> 0" "a \<notin> set (path_addrs cs)" using t 2 by auto
  obtain n where n: "heap m a = Some n" using t(1) 2 by auto
  from hook_at[OF p a n] obtain m2 m3 where m3: "write_slot m (path_slot cs) a = Some m2"
    "SET_PARENT_if m2 a (path_top cs) = Some m3" "path_at (heap m3) cs a" "root m3 = path_root cs a"
    "heap m3 a = Some (n\<lparr>parent := path_top cs\<rparr>)"
    and fr: "\<forall>z. z \<noteq> a \<and> z \<notin> set (path_addrs cs) \<longrightarrow> heap m3 z = heap m z" by blast
  have "tree_at (heap m3) a s = tree_at (heap m) a s" if "s = l \<or> s = r" for s
    using that t 2 fr by (intro tree_at_cong) auto
  then have "map_at m3 (plug cs t)" using t p(3) 2 m3 n by (auto simp: map_at_plug)
  with m3 fr 2 show ?thesis by auto
qed


section \<open>The node that takes the place of the deleted one\<close>

lemma rightmost_at:
  assumes "tree_at (heap m) q t" and "t \<noteq> Lf"
  shows "rightmost m (top_of t) = Some (top_of (snd (go_right ds t)))"
  using assms
proof (induction ds t arbitrary: q rule: go_right.induct)
  case (2 ds l e b)
  then show ?case by (cases e) (simp add: rightmost.simps deref_def)
next
  case (3 ds l e b rl re rb rr)
  obtain a k v where e: "e = (a, k, v)" by (cases e)
  have r: "tree_at (heap m) a (Nd rl re rb rr)" using "3.prems" e by simp
  have n: "top_of (Nd rl re rb rr) \<noteq> 0" using top_eq_0[OF r] by simp
  have "deref m a = Some \<lparr>parent = q, bf = b, leftChild = top_of l,
      rightChild = top_of (Nd rl re rb rr), node_value = v, node_key = k\<rparr>"
    using "3.prems" e by (simp add: deref_def)
  then have "rightmost m a = rightmost m (top_of (Nd rl re rb rr))"
    using n by (subst rightmost.simps) simp
  then show ?case using "3.IH"[OF r] e by simp
qed simp

lemma leftmost_at:
  assumes "tree_at (heap m) q t" and "t \<noteq> Lf"
  shows "leftmost m (top_of t) = Some (top_of (snd (go_left ds t)))"
  using assms
proof (induction ds t arbitrary: q rule: go_left.induct)
  case (2 ds e b r)
  then show ?case by (cases e) (simp add: leftmost.simps deref_def)
next
  case (3 ds ll le lb lr e b r)
  obtain a k v where e: "e = (a, k, v)" by (cases e)
  have l: "tree_at (heap m) a (Nd ll le lb lr)" using "3.prems" e by simp
  have n: "top_of (Nd ll le lb lr) \<noteq> 0" using top_eq_0[OF l] by simp
  have "deref m a = Some \<lparr>parent = q, bf = b, leftChild = top_of (Nd ll le lb lr),
      rightChild = top_of r, node_value = v, node_key = k\<rparr>"
    using "3.prems" e by (simp add: deref_def)
  then have "leftmost m a = leftmost m (top_of (Nd ll le lb lr))"
    using n by (subst leftmost.simps) simp
  then show ?case using "3.IH"[OF l] e by simp
qed simp

lemma tree_at_plug_seg:
  "tree_at h q (plug ds t) \<longleftrightarrow> seg_at h q ds (top_of t) \<and> tree_at h (seg_top ds q) t"
  by (induction ds arbitrary: t rule: path_addrs.induct) auto

text \<open>
  What \<open>cut_from_left\<close> leaves behind: \<open>x\<close>, the largest node of the left subtree, has the
  children and the balance factor of the deleted node, the path to its old place hangs below it,
  and its left subtree has moved up.
\<close>

definition moved_up ::
  "('k, 'v) nodes \<Rightarrow> ('k, 'v) mpath \<Rightarrow> ('k, 'v) entry \<Rightarrow> int \<Rightarrow> addr \<Rightarrow> addr \<Rightarrow> ('k, 'v) mtree \<Rightarrow> bool" where
  "moved_up h ds x b lp rp t \<longleftrightarrow>
     (case x of (a, k, v) \<Rightarrow> a \<noteq> 0 \<and>
       (\<exists>p. h a = Some \<lparr>parent = p, bf = b, leftChild = lp, rightChild = rp,
          node_value = v, node_key = k\<rparr>) \<and>
       seg_at h a ds (top_of t) \<and> tree_at h (seg_top ds a) t)"

text \<open>
  The part both directions share: \<open>t\<close> moves up below \<open>p\<close>, and the path \<open>ds\<close> is hung below \<open>x\<close>,
  whose record may be anything by then.
\<close>

lemma move_up_at:
  assumes s: "seg_at (heap m) c ds (top_of t)" "tree_at (heap m) x t" "tree_at (heap m) x r"
    and ds: "ds \<noteq> []" "distinct (x # path_addrs ds @ addrs t)"
    and r: "set (addrs r) \<inter> set (x # path_addrs ds @ addrs t) = {}"
  shows "\<exists>m' n. SET_PARENT_if m (top_of t) (seg_top ds c) = Some m' \<and> root m' = root m \<and>
    heap m' x = heap m x \<and> path_root ds (top_of t) \<notin> {0, x} \<and>
    heap m' (path_root ds (top_of t)) = Some n \<and>
    (\<forall>h xn. h = (heap m')(x \<mapsto> xn, path_root ds (top_of t) \<mapsto> n\<lparr>parent := x\<rparr>) \<longrightarrow>
      seg_at h x ds (top_of t) \<and> tree_at h x r \<and> tree_at h (seg_top ds x) t \<and>
      (\<forall>z. z \<notin> set (x # path_addrs ds @ addrs t) \<longrightarrow> h z = heap m z))"
proof -
  let ?a = "path_root ds (top_of t)"
  have q: "seg_top ds c = seg_top ds x" using ds(1) by (cases ds) auto
  have "distinct (addrs t)" using ds by simp
  from SET_PARENT_if_tree[OF s(2) this, of "seg_top ds c"] obtain m' where
    m': "SET_PARENT_if m (top_of t) (seg_top ds c) = Some m'" "root m' = root m"
      "tree_at (heap m') (seg_top ds c) t"
    and f: "\<forall>z. z \<noteq> top_of t \<or> t = Lf \<longrightarrow> heap m' z = heap m z" by blast
  have f': "heap m' z = heap m z" if "z \<notin> set (addrs t)" for z
    using that f top_in_addrs[of t] by metis
  have dj: "z \<notin> set (addrs t) \<and> z \<noteq> x" if "z \<in> set (path_addrs ds)" for z
    using ds(2) that by auto
  have sg: "seg_at (heap m') c ds (top_of t)"
    by (rule iffD2[OF seg_at_cong s(1)]) (use dj f' in blast)
  have dds: "distinct (path_addrs ds)" using ds(2) by simp
  obtain n where n: "?a \<noteq> 0" "heap m' ?a = Some n"
      "seg_at ((heap m')(?a \<mapsto> n\<lparr>parent := x\<rparr>)) x ds (top_of t)"
    using seg_reparent[OF sg ds(1) dds, of x] by blast
  have a: "?a \<in> set (path_addrs ds)" by (rule path_root_in[OF ds(1)])
  have "seg_at ((heap m')(x \<mapsto> xn, ?a \<mapsto> n\<lparr>parent := x\<rparr>)) x ds (top_of t)" for xn
    by (rule iffD2[OF seg_at_cong n(3)]) (use dj in \<open>auto simp: fun_upd_def\<close>)
  moreover have "tree_at ((heap m')(x \<mapsto> xn, ?a \<mapsto> n\<lparr>parent := x\<rparr>)) x r" for xn
    by (rule iffD2[OF tree_at_cong s(3)]) (use r a f' in \<open>auto simp: disjoint_iff\<close>)
  moreover have "tree_at ((heap m')(x \<mapsto> xn, ?a \<mapsto> n\<lparr>parent := x\<rparr>)) (seg_top ds x) t" for xn
    by (rule iffD2[OF tree_at_cong m'(3)[unfolded q]]) (use ds(2) dj[OF a] in auto)
  moreover have "heap m' x = heap m x" using f' ds(2) by simp
  ultimately show ?thesis using m'(1,2) n dj[OF a] a f' by auto
qed

lemma cut_from_left_at:
  assumes c: "deref m c = Some \<lparr>parent = par, bf = b, leftChild = top_of l, rightChild = top_of r,
      node_value = vc, node_key = kc\<rparr>"
    and t: "tree_at (heap m) c l" "tree_at (heap m) c r" "c \<noteq> 0"
    and d: "distinct (c # addrs l @ addrs r)" and r: "r \<noteq> Lf" and l: "l \<noteq> Lf"
    and g: "go_right [] l = (ds, Nd ll (x, kx, vx) xb Lf)" "after ds = []"
      "plug ds (Nd ll (x, kx, vx) xb Lf) = l"
  shows "\<exists>ct m1. cut_from_left m c par = Some (ct, m1) \<and> new_mom ct = x \<and> cut_a ct = seg_top ds x \<and>
    side_known (ds @ [InL (x, kx, vx) b r]) (cut_n0 ct = top_of ll \<and> ll \<noteq> Lf) (is_left ct) (is_right ct) \<and>
    root m1 = root m \<and>
    moved_up (heap m1) ds (x, kx, vx) b (path_root ds (top_of ll)) (top_of r) ll \<and>
    tree_at (heap m1) x r \<and>
    (\<forall>z. z \<notin> set (addrs l) \<union> set (addrs r) \<longrightarrow> heap m1 z = heap m z)"
proof -
  have nm: "rightmost m (top_of l) = Some x" using rightmost_at[OF t(1) l, of "[]"] g by simp
  obtain rl ra rk rv rb rr where re: "r = Nd rl (ra, rk, rv) rb rr" using r by (cases r rule: top_of.cases) auto
  have al: "set (addrs l) = set (addrs (Nd ll (x, kx, vx) xb Lf)) \<union> set (path_addrs ds)"
    using set_addrs_plug[of ds "Nd ll (x, kx, vx) xb Lf"] g(3) by simp
  have dl: "distinct (addrs (plug ds (Nd ll (x, kx, vx) xb Lf)))" using d g(3) by simp
  note dd = dl[unfolded distinct_addrs_plug]
  have ne: "set (addrs l) \<inter> set (addrs r) = {}" "c \<notin> set (addrs l)" "c \<notin> set (addrs r)" using d by auto
  show ?thesis
  proof (cases ds rule: path_addrs.cases)
    case 1
    have li: "l = Nd ll (x, kx, vx) xb Lf" using g(3) 1 by simp
    show ?thesis
      using c t d nm 1 re unfolding li
      by (auto simp: cut_from_left_def moved_up_def step_simps frame_simps deref_def Let_def)
  next
    case (2 a k v b' s ds')
    then show ?thesis using g(2) by simp
  next
    case (3 pl p kp vp pb ds')
    have seg: "seg_at (heap m) c ds x" and tx: "tree_at (heap m) p (Nd ll (x, kx, vx) xb Lf)"
      using tree_at_plug_seg[of "heap m" c ds "Nd ll (x, kx, vx) xb Lf", unfolded g(3)] t(1)
      by (simp_all add: 3)
    have pc: "p \<noteq> c" using ne(2) al 3 by auto
    have ra: "ra \<noteq> 0" "ra \<notin> set (addrs l)" using t(2) ne(1) re by auto
    have A: "\<exists>m1 m2 m3 m4. set_right m x ra = Some m1 \<and> SET_PARENT m1 ra x = Some m2 \<and>
        PARENT m2 x = Some p \<and> set_bf m2 x b = Some m3 \<and>
        map_option leftChild (deref m3 x) = Some (top_of ll) \<and>
        set_right m3 p (top_of ll) = Some m4 \<and> root m4 = root m \<and>
        heap m4 x = Some \<lparr>parent = p, bf = b, leftChild = top_of ll, rightChild = ra,
          node_value = vx, node_key = kx\<rparr> \<and> x \<noteq> 0 \<and>
        tree_at (heap m4) x r \<and> seg_at (heap m4) c ds (top_of ll) \<and> tree_at (heap m4) x ll \<and>
        (\<forall>z. z \<notin> {x, ra, p} \<longrightarrow> heap m4 z = heap m z)"
      using seg tx t(2,3) dd d ra al ne re 3
      by (auto simp: step_simps frame_simps deref_def)
    obtain m1 m2 m3 m4 where A: "set_right m x ra = Some m1" "SET_PARENT m1 ra x = Some m2"
        "PARENT m2 x = Some p" "set_bf m2 x b = Some m3"
        "map_option leftChild (deref m3 x) = Some (top_of ll)"
        "set_right m3 p (top_of ll) = Some m4" "root m4 = root m" "x \<noteq> 0"
      and A_x: "heap m4 x = Some \<lparr>parent = p, bf = b, leftChild = top_of ll, rightChild = ra,
          node_value = vx, node_key = kx\<rparr>"
      and A_t: "tree_at (heap m4) x r" "seg_at (heap m4) c ds (top_of ll)" "tree_at (heap m4) x ll"
      and A_f: "\<forall>z. z \<notin> {x, ra, p} \<longrightarrow> heap m4 z = heap m z" using A by blast
    let ?la = "path_root ds (top_of ll)"
    have "ds \<noteq> []" "distinct (x # path_addrs ds @ addrs ll)"
      "set (addrs r) \<inter> set (x # path_addrs ds @ addrs ll) = {}" "seg_top ds c = p"
      using 3 dd ne(1) al by auto
    from move_up_at[OF A_t(2,3,1) this(1-3), unfolded this(4)] obtain m5 n where
      B: "SET_PARENT_if m4 (top_of ll) p = Some m5" "root m5 = root m4" "heap m5 x = heap m4 x"
        "?la \<noteq> 0" "?la \<noteq> x" "heap m5 ?la = Some n"
      and C: "\<And>h xn. h = (heap m5)(x \<mapsto> xn, ?la \<mapsto> n\<lparr>parent := x\<rparr>) \<Longrightarrow>
        seg_at h x ds (top_of ll) \<and> tree_at h x r \<and> tree_at h (seg_top ds x) ll \<and>
        (\<forall>z. z \<notin> set (x # path_addrs ds @ addrs ll) \<longrightarrow> h z = heap m4 z)" by blast
    have laa: "?la = top_of l" using g(3) 3 top_plug[of ds "Nd ll (x, kx, vx) xb Lf"] by simp
    let ?x = "\<lparr>parent = p, bf = b, leftChild = ?la, rightChild = ra, node_value = vx, node_key = kx\<rparr>"
    let ?m6 = "m5\<lparr>heap := (heap m5)(x \<mapsto> ?x)\<rparr>"
    let ?m7 = "m5\<lparr>heap := (heap m5)(x \<mapsto> ?x, ?la \<mapsto> n\<lparr>parent := x\<rparr>)\<rparr>"
    have D: "set_left m5 x ?la = Some ?m6" "SET_PARENT ?m6 ?la x = Some ?m7"
      using A(8) A_x B by (auto simp: step_simps)
    have "cut_from_left m c par = Some (\<lparr>new_mom = x, cut_n0 = top_of ll, cut_a = p,
        is_left = False, is_right = (top_of ll = 0)\<rparr>, ?m7)"
      using c nm A B(1) D pc re laa by (auto simp: cut_from_left_def Let_def)
    moreover have "heap ?m7 z = heap m z" if "z \<notin> set (addrs l) \<union> set (addrs r)" for z
      using that A_f C[of "heap ?m7" ?x] al re 3 by auto
    moreover have "top_of ll = 0 \<longleftrightarrow> ll = Lf" by (rule top_eq_0[OF A_t(3)])
    ultimately show ?thesis
      using 3 A(7,8) B(2,5) re C[of "heap ?m7" ?x] by (auto simp: moved_up_def)
  qed
qed
lemma cut_from_right_at:
  assumes c: "deref m c = Some \<lparr>parent = par, bf = b, leftChild = top_of l, rightChild = top_of r,
      node_value = vc, node_key = kc\<rparr>"
    and t: "tree_at (heap m) c l" "tree_at (heap m) c r" "c \<noteq> 0"
    and d: "distinct (c # addrs l @ addrs r)" and r: "r \<noteq> Lf" and l: "l \<noteq> Lf"
    and g: "go_left [] r = (ds, Nd Lf (x, kx, vx) xb rr)" "before ds = []"
      "plug ds (Nd Lf (x, kx, vx) xb rr) = r"
  shows "\<exists>ct m1. cut_from_right m c par = Some (ct, m1) \<and> new_mom ct = x \<and> cut_a ct = seg_top ds x \<and>
    side_known (ds @ [InR l (x, kx, vx) b]) (cut_n0 ct = top_of rr \<and> rr \<noteq> Lf) (is_left ct) (is_right ct) \<and>
    root m1 = root m \<and>
    moved_up (heap m1) ds (x, kx, vx) b (top_of l) (path_root ds (top_of rr)) rr \<and>
    tree_at (heap m1) x l \<and>
    (\<forall>z. z \<notin> set (addrs l) \<union> set (addrs r) \<longrightarrow> heap m1 z = heap m z)"
proof -
  have nm: "leftmost m (top_of r) = Some x" using leftmost_at[OF t(2) r, of "[]"] g by simp
  obtain ll la lk lv lb lr where le: "l = Nd ll (la, lk, lv) lb lr" using l by (cases l rule: top_of.cases) auto
  have ar: "set (addrs r) = set (addrs (Nd Lf (x, kx, vx) xb rr)) \<union> set (path_addrs ds)"
    using set_addrs_plug[of ds "Nd Lf (x, kx, vx) xb rr"] g(3) by simp
  have dr: "distinct (addrs (plug ds (Nd Lf (x, kx, vx) xb rr)))" using d g(3) by simp
  note dd = dr[unfolded distinct_addrs_plug]
  have ne: "set (addrs l) \<inter> set (addrs r) = {}" "c \<notin> set (addrs l)" "c \<notin> set (addrs r)" using d by auto
  show ?thesis
  proof (cases ds rule: path_addrs.cases)
    case 1
    have ri: "r = Nd Lf (x, kx, vx) xb rr" using g(3) 1 by simp
    show ?thesis
      using c t d nm 1 le unfolding ri
      by (auto simp: cut_from_right_def moved_up_def step_simps frame_simps deref_def Let_def)
  next
    case (3 s a k v b' ds')
    then show ?thesis using g(2) by simp
  next
    case (2 p kp vp pb pr ds')
    have seg: "seg_at (heap m) c ds x" and tx: "tree_at (heap m) p (Nd Lf (x, kx, vx) xb rr)"
      using tree_at_plug_seg[of "heap m" c ds "Nd Lf (x, kx, vx) xb rr", unfolded g(3)] t(2)
      by (simp_all add: 2)
    have pc: "p \<noteq> c" using ne(3) ar 2 by auto
    have la: "la \<noteq> 0" "la \<notin> set (addrs r)" using t(1) ne(1) le by auto
    have A: "\<exists>m1 m2 m3 m4. set_left m x la = Some m1 \<and> SET_PARENT m1 la x = Some m2 \<and>
        PARENT m2 x = Some p \<and> set_bf m2 x b = Some m3 \<and>
        map_option rightChild (deref m3 x) = Some (top_of rr) \<and>
        set_left m3 p (top_of rr) = Some m4 \<and> root m4 = root m \<and>
        heap m4 x = Some \<lparr>parent = p, bf = b, leftChild = la, rightChild = top_of rr,
          node_value = vx, node_key = kx\<rparr> \<and> x \<noteq> 0 \<and>
        tree_at (heap m4) x l \<and> seg_at (heap m4) c ds (top_of rr) \<and> tree_at (heap m4) x rr \<and>
        (\<forall>z. z \<notin> {x, la, p} \<longrightarrow> heap m4 z = heap m z)"
      using seg tx t(1,3) dd d la ar ne le 2
      by (auto simp: step_simps frame_simps deref_def)
    obtain m1 m2 m3 m4 where A: "set_left m x la = Some m1" "SET_PARENT m1 la x = Some m2"
        "PARENT m2 x = Some p" "set_bf m2 x b = Some m3"
        "map_option rightChild (deref m3 x) = Some (top_of rr)"
        "set_left m3 p (top_of rr) = Some m4" "root m4 = root m" "x \<noteq> 0"
      and A_x: "heap m4 x = Some \<lparr>parent = p, bf = b, leftChild = la, rightChild = top_of rr,
          node_value = vx, node_key = kx\<rparr>"
      and A_t: "tree_at (heap m4) x l" "seg_at (heap m4) c ds (top_of rr)" "tree_at (heap m4) x rr"
      and A_f: "\<forall>z. z \<notin> {x, la, p} \<longrightarrow> heap m4 z = heap m z" using A by blast
    let ?ra = "path_root ds (top_of rr)"
    have "ds \<noteq> []" "distinct (x # path_addrs ds @ addrs rr)"
      "set (addrs l) \<inter> set (x # path_addrs ds @ addrs rr) = {}" "seg_top ds c = p"
      using 2 dd ne(1) ar by auto
    from move_up_at[OF A_t(2,3,1) this(1-3), unfolded this(4)] obtain m5 n where
      B: "SET_PARENT_if m4 (top_of rr) p = Some m5" "root m5 = root m4" "heap m5 x = heap m4 x"
        "?ra \<noteq> 0" "?ra \<noteq> x" "heap m5 ?ra = Some n"
      and C: "\<And>h xn. h = (heap m5)(x \<mapsto> xn, ?ra \<mapsto> n\<lparr>parent := x\<rparr>) \<Longrightarrow>
        seg_at h x ds (top_of rr) \<and> tree_at h x l \<and> tree_at h (seg_top ds x) rr \<and>
        (\<forall>z. z \<notin> set (x # path_addrs ds @ addrs rr) \<longrightarrow> h z = heap m4 z)" by blast
    have raa: "?ra = top_of r" using g(3) 2 top_plug[of ds "Nd Lf (x, kx, vx) xb rr"] by simp
    let ?x = "\<lparr>parent = p, bf = b, leftChild = la, rightChild = ?ra, node_value = vx, node_key = kx\<rparr>"
    let ?m6 = "m5\<lparr>heap := (heap m5)(x \<mapsto> ?x)\<rparr>"
    let ?m7 = "m5\<lparr>heap := (heap m5)(x \<mapsto> ?x, ?ra \<mapsto> n\<lparr>parent := x\<rparr>)\<rparr>"
    have D: "set_right m5 x ?ra = Some ?m6" "SET_PARENT ?m6 ?ra x = Some ?m7"
      using A(8) A_x B by (auto simp: step_simps)
    have "cut_from_right m c par = Some (\<lparr>new_mom = x, cut_n0 = top_of rr, cut_a = p,
        is_left = (top_of rr = 0), is_right = False\<rparr>, ?m7)"
      using c nm A B(1) D pc le raa by (auto simp: cut_from_right_def Let_def)
    moreover have "heap ?m7 z = heap m z" if "z \<notin> set (addrs l) \<union> set (addrs r)" for z
      using that A_f C[of "heap ?m7" ?x] ar le 2 by auto
    moreover have "top_of rr = 0 \<longleftrightarrow> rr = Lf" by (rule top_eq_0[OF A_t(3)])
    ultimately show ?thesis
      using 2 A(7,8) B(2,5) le C[of "heap ?m7" ?x] by (auto simp: moved_up_def)
  qed
qed

text \<open>The whole of the code before the loop: the tree is the old one with \<open>x\<close> in place of \<open>c\<close>.\<close>

lemma moved_up_hook:
  assumes mu: "moved_up (heap m) ds (x, k, v) b (top_of l) (top_of r) t"
    and s: "c = InL (x, k, v) b s \<and> l = plug ds t \<and> r = s \<or> c = InR s (x, k, v) b \<and> l = s \<and> r = plug ds t"
    and ts: "tree_at (heap m) x s"
    and p: "path_at (heap m) cs a" "root m = path_root cs a"
    and d: "distinct (x # path_addrs ds @ addrs t @ addrs s @ path_addrs cs)"
  shows "\<exists>m2 m3. write_slot m (path_slot cs) x = Some m2 \<and>
    SET_PARENT_if m2 x (path_top cs) = Some m3 \<and> map_at m3 (plug (ds @ c # cs) t) \<and>
    (\<forall>z. z \<noteq> x \<and> z \<notin> set (path_addrs cs) \<longrightarrow> heap m3 z = heap m z)"
proof -
  obtain q where x: "x \<noteq> 0" "heap m x = Some \<lparr>parent = q, bf = b, leftChild = top_of l,
      rightChild = top_of r, node_value = v, node_key = k\<rparr>"
    and sg: "seg_at (heap m) x ds (top_of t)" and tt: "tree_at (heap m) (seg_top ds x) t"
    using mu by (auto simp: moved_up_def)
  have dc: "distinct (path_addrs cs)" and xc: "x \<notin> set (path_addrs cs)" using d by auto
  from hook_at[OF p dc x(1) xc x(2)] obtain m2 m3 where
    h: "write_slot m (path_slot cs) x = Some m2" "SET_PARENT_if m2 x (path_top cs) = Some m3"
      "path_at (heap m3) cs x" "root m3 = path_root cs x"
      "heap m3 x = Some \<lparr>parent = path_top cs, bf = b, leftChild = top_of l,
        rightChild = top_of r, node_value = v, node_key = k\<rparr>"
    and f: "\<forall>z. z \<noteq> x \<and> z \<notin> set (path_addrs cs) \<longrightarrow> heap m3 z = heap m z" by auto
  have "seg_at (heap m3) x ds (top_of t)" by (rule iffD2[OF seg_at_cong sg]) (use f d in auto)
  moreover have "tree_at (heap m3) (seg_top ds x) t" by (rule iffD2[OF tree_at_cong tt]) (use f d in auto)
  moreover have "tree_at (heap m3) x s" by (rule iffD2[OF tree_at_cong ts]) (use f d in auto)
  ultimately have "map_at m3 (plug (ds @ c # cs) t)"
    using s x(1) h d by (auto simp: map_at_plug path_at_append path_root_append path_addrs_append
        path_top_append top_plug)
  with h(1,2) f show ?thesis by blast
qed

section \<open>Deletion in memory\<close>

lemma parent_child_ptr_at:
  assumes "map_at m (plug cs (Nd l (c, k, v) b r))"
  shows "parent_child_ptr m c (path_top cs) = Some (path_slot cs)"
proof -
  have c: "c \<noteq> 0" and dj: "c \<notin> set (path_addrs cs)" and p: "path_at (heap m) cs c"
    using assms by (auto simp: map_at_plug)
  have "c \<noteq> top_of s" if "c \<notin> set (addrs s)" for s :: "('a, 'b) mtree"
    using that c top_in_addrs[of s] by (cases "s = Lf") auto
  then show ?thesis
    using p dj by (cases cs rule: path_addrs.cases) (auto simp: parent_child_ptr_def deref_def)
qed

lemma side_known_prefix:
  "es \<noteq> [] \<Longrightarrow> side_known (ds @ es @ cs) p il ir = side_known (ds @ es) p il ir"
  by (cases "(ds @ es, p, il, ir)" rule: side_known.cases) (auto simp: Cons_eq_append_conv append_eq_Cons_conv)

lemma delete_finish:
  assumes at: "map_at m (plug es t)" and sh: "shrunk es t0 t"
    and sd: "side_known es (n0 = top_of t \<and> t \<noteq> Lf) il ir"
    and c: "c \<noteq> 0" "heap m c = Some cn" "c \<notin> set (addrs (plug es t))"
  shows "\<exists>m'. delete_loop m n0 (path_top es) il ir = Some m' \<and> deref m' c = Some cn \<and>
    map_at (free_node m' c) (del_up es t) \<and>
    (\<forall>z. z \<notin> set (addrs (plug es t)) \<longrightarrow> heap m' z = heap m z)"
proof -
  obtain m' where m': "delete_loop m n0 (path_top es) il ir = Some m'" "map_at m' (del_up es t)"
    "\<forall>z. z \<notin> set (addrs (plug es t)) \<longrightarrow> heap m' z = heap m z"
    using delete_loop_at[OF at sh sd] by blast
  have "addrs (del_up es t) = addrs (plug es t)"
    using del_up_correct[OF sh] by (simp add: addrs_def elems_plug)
  then have "map_at (free_node m' c) (del_up es t)"
    using m'(2) c(3) by (simp add: map_at_def free_node_def frame_simps)
  with m' c show ?thesis by (auto simp: deref_def)
qed

lemma delete_priv_run:
  assumes "deref m c = Some cn" and "parent_child_ptr m c (parent cn) = Some s"
    and "(if leftChild cn \<noteq> NULL \<and> rightChild cn \<noteq> NULL
      then (if bf cn \<le> 0 then cut_from_left m c (parent cn) else cut_from_right m c (parent cn))
      else Some
        (\<lparr>new_mom = (if leftChild cn \<noteq> NULL then leftChild cn else rightChild cn),
          cut_n0 = c, cut_a = parent cn,
          is_left = (case s of LeftSlot _ \<Rightarrow> True | _ \<Rightarrow> False),
          is_right = (case s of RightSlot _ \<Rightarrow> True | _ \<Rightarrow> False)\<rparr>, m)) = Some (ct, m1)"
    and "write_slot m1 s (new_mom ct) = Some m2" and "SET_PARENT_if m2 (new_mom ct) (parent cn) = Some m3"
    and "delete_loop m3 (cut_n0 ct) (cut_a ct) (is_left ct) (is_right ct) = Some m4"
    and "deref m4 c = Some cn'"
  shows "delete_priv m c destr = Some (if destr then [node_value cn'] else [], free_node m4 c)"
  by (simp only: delete_priv_def assms Let_def bind.bind_lunit prod.case)

lemma delete_priv_at:
  assumes at: "map_at m (plug cs (Nd l (c, k, v) b r))" and av: "avl (plug cs (Nd l (c, k, v) b r))"
  shows "\<exists>m'. delete_priv m c destr = Some (if destr then [v] else [], m') \<and>
    map_at m' (del_node cs (Nd l (c, k, v) b r)) \<and> heap m' c = None \<and>
    (\<forall>z. z \<notin> set (addrs (plug cs (Nd l (c, k, v) b r))) \<longrightarrow> heap m' z = heap m z)"
proof -
  let ?t = "Nd l (c, k, v) b r" and ?par = "path_top cs"
  let ?cn = "\<lparr>parent = ?par, bf = b, leftChild = top_of l, rightChild = top_of r,
    node_value = v, node_key = k\<rparr>"
  note at' = at[unfolded map_at_plug]
  have c: "deref m c = Some ?cn" "c \<noteq> 0" using map_at_deref[OF at] by auto
  have t: "tree_at (heap m) c l" "tree_at (heap m) c r" using at' by auto
  have d: "distinct (c # addrs l @ addrs r @ path_addrs cs)" using at' by auto
  have p: "path_at (heap m) cs c" "root m = path_root cs c" "distinct (path_addrs cs)"
    using at' by auto
  note s = parent_child_ptr_at[OF at]
  note z = top_eq_0[OF t(1)] top_eq_0[OF t(2)]
  define two where "two \<longleftrightarrow> l \<noteq> Lf \<and> r \<noteq> Lf"
  have finish: "?thesis"
    if cut: "(if two then if b \<le> 0 then cut_from_left m c ?par else cut_from_right m c ?par
        else Some (\<lparr>new_mom = (if l \<noteq> Lf then top_of l else top_of r), cut_n0 = c, cut_a = ?par,
          is_left = (case path_slot cs of LeftSlot _ \<Rightarrow> True | _ \<Rightarrow> False),
          is_right = (case path_slot cs of RightSlot _ \<Rightarrow> True | _ \<Rightarrow> False)\<rparr>, m)) = Some (ct, m1)"
      and h: "write_slot m1 (path_slot cs) (new_mom ct) = Some m2"
        "SET_PARENT_if m2 (new_mom ct) ?par = Some m3" "map_at m3 (plug es u)" "shrunk es t0 u"
      and a: "cut_a ct = path_top es"
      and sd: "side_known es (cut_n0 ct = top_of u \<and> u \<noteq> Lf) (is_left ct) (is_right ct)"
      and u: "del_node cs ?t = del_up es u"
      and f: "\<forall>z. z \<notin> set (addrs l @ addrs r @ path_addrs cs) \<longrightarrow> heap m3 z = heap m z"
      and ad: "set (addrs (plug es u)) = set (addrs l @ addrs r @ path_addrs cs)"
    for ct m1 m2 m3 es u t0
  proof -
    have "heap m3 c = Some ?cn" using f d c by (auto simp: deref_def)
    from delete_finish[OF h(3,4) sd c(2) this] obtain m' where
      m': "delete_loop m3 (cut_n0 ct) (path_top es) (is_left ct) (is_right ct) = Some m'"
        "deref m' c = Some ?cn" "map_at (free_node m' c) (del_up es u)"
        "\<forall>z. z \<notin> set (addrs (plug es u)) \<longrightarrow> heap m' z = heap m3 z" using ad d by auto
    have "delete_priv m c destr = Some (if destr then [v] else [], free_node m' c)"
      using delete_priv_run[OF c(1), of "path_slot cs" ct m1 m2 m3 m' ?cn destr] s cut h(1,2) m'(1,2) a z
      by (auto simp: two_def cong: if_cong)
    then show ?thesis using m' u f ad by (auto simp: free_node_def set_addrs_plug)
  qed
  show ?thesis
  proof (cases two)
    case False
    let ?u = "if l \<noteq> Lf then l else r"
    have lr: "l = Lf \<or> r = Lf" using False two_def by simp
    have tu: "tree_at (heap m) c ?u" "distinct (addrs ?u)" "set (addrs ?u) \<inter> set (path_addrs cs) = {}"
      using t d by auto
    obtain m2 m3 where "write_slot m (path_slot cs) (top_of ?u) = Some m2"
      "SET_PARENT_if m2 (top_of ?u) ?par = Some m3" "map_at m3 (plug cs ?u)"
      "\<forall>z. z \<notin> set (addrs ?u) \<union> set (path_addrs cs) \<longrightarrow> heap m3 z = heap m z"
      using hook_tree_at[OF p tu] by blast
    moreover have "side_known cs (c = top_of ?u \<and> ?u \<noteq> Lf)
        (case path_slot cs of LeftSlot _ \<Rightarrow> True | _ \<Rightarrow> False)
        (case path_slot cs of RightSlot _ \<Rightarrow> True | _ \<Rightarrow> False)"
      by (cases cs rule: path_addrs.cases) auto
    moreover have "set (addrs (plug cs ?u)) = set (addrs l @ addrs r @ path_addrs cs)"
      using lr by (auto simp: set_addrs_plug)
    moreover have "del_node cs ?t = del_up cs ?u" using False two_def by auto
    ultimately show ?thesis
      using False lr
      by (intro finish[of "\<lparr>new_mom = top_of ?u, cut_n0 = c, cut_a = ?par,
          is_left = (case path_slot cs of LeftSlot _ \<Rightarrow> True | _ \<Rightarrow> False),
          is_right = (case path_slot cs of RightSlot _ \<Rightarrow> True | _ \<Rightarrow> False)\<rparr>" m m2 m3 cs ?u ?t])
        (use shrunk_single[OF av lr] in auto)
  next
    case True
    then have lr: "l \<noteq> Lf" "r \<noteq> Lf" by (auto simp: two_def)
    have dlr: "distinct (c # addrs l @ addrs r)" using d by auto
    show ?thesis
    proof (cases "b \<le> 0")
      case b: True
      obtain ds ll x kx vx xb where g: "go_right [] l = (ds, Nd ll (x, kx, vx) xb Lf)" "after ds = []"
        "plug ds (Nd ll (x, kx, vx) xb Lf) = l" using go_right_spec[of l "[]"] lr by auto
      from cut_from_left_at[OF c(1) t c(2) dlr lr(2,1) g] obtain ct m1 where
        cut: "cut_from_left m c ?par = Some (ct, m1)" "new_mom ct = x" "cut_a ct = seg_top ds x"
          "side_known (ds @ [InL (x, kx, vx) b r]) (cut_n0 ct = top_of ll \<and> ll \<noteq> Lf)
            (is_left ct) (is_right ct)" "root m1 = root m"
        and mu: "moved_up (heap m1) ds (x, kx, vx) b (path_root ds (top_of ll)) (top_of r) ll"
          "tree_at (heap m1) x r"
        and f: "\<forall>z. z \<notin> set (addrs l) \<union> set (addrs r) \<longrightarrow> heap m1 z = heap m z" by blast
      have dm: "distinct (x # path_addrs ds @ addrs ll @ addrs r @ path_addrs cs)"
        "set (addrs l) = set (x # path_addrs ds @ addrs ll)"
        using d distinct_addrs_plug[of ds "Nd ll (x, kx, vx) xb Lf"]
          set_addrs_plug[of ds "Nd ll (x, kx, vx) xb Lf"] by (auto simp: g(3))
      have p1: "path_at (heap m1) cs c" "root m1 = path_root cs c"
        using p f cut(5) d by (auto intro!: iffD2[OF path_at_cong p(1)])
      have mu': "moved_up (heap m1) ds (x, kx, vx) b (top_of (plug ds ll)) (top_of r) ll"
        using mu(1) by (simp add: top_plug)
      obtain m2 m3 where h: "write_slot m1 (path_slot cs) x = Some m2"
        "SET_PARENT_if m2 x ?par = Some m3" "map_at m3 (plug (ds @ InL (x, kx, vx) b r # cs) ll)"
        and f3: "\<forall>z. z \<noteq> x \<and> z \<notin> set (path_addrs cs) \<longrightarrow> heap m3 z = heap m1 z"
        using moved_up_hook[OF mu' _ mu(2) p1 dm(1), of "InL (x, kx, vx) b r"] by blast
      show ?thesis
      proof (rule finish[of ct m1 m2 m3 "ds @ InL (x, kx, vx) b r # cs" ll])
        show "shrunk (ds @ InL (x, kx, vx) b r # cs) (Nd ll (x, kx, vx) xb Lf) ll"
          using av g(3) by (auto intro: shrunk_max)
        show "cut_a ct = path_top (ds @ InL (x, kx, vx) b r # cs)"
          using cut(3) by (simp add: path_top_append)
        show "side_known (ds @ InL (x, kx, vx) b r # cs) (cut_n0 ct = top_of ll \<and> ll \<noteq> Lf)
            (is_left ct) (is_right ct)"
          using cut(4) side_known_prefix[of "[InL (x, kx, vx) b r]" ds cs] by simp
      qed (use lr b two_def cut h f f3 dm g in \<open>auto simp: set_addrs_plug path_addrs_append\<close>)
    next
      case b: False
      obtain ds x kx vx xb rr where g: "go_left [] r = (ds, Nd Lf (x, kx, vx) xb rr)" "before ds = []"
        "plug ds (Nd Lf (x, kx, vx) xb rr) = r" using go_left_spec[of r "[]"] lr by auto
      from cut_from_right_at[OF c(1) t c(2) dlr lr(2,1) g] obtain ct m1 where
        cut: "cut_from_right m c ?par = Some (ct, m1)" "new_mom ct = x" "cut_a ct = seg_top ds x"
          "side_known (ds @ [InR l (x, kx, vx) b]) (cut_n0 ct = top_of rr \<and> rr \<noteq> Lf)
            (is_left ct) (is_right ct)" "root m1 = root m"
        and mu: "moved_up (heap m1) ds (x, kx, vx) b (top_of l) (path_root ds (top_of rr)) rr"
          "tree_at (heap m1) x l"
        and f: "\<forall>z. z \<notin> set (addrs l) \<union> set (addrs r) \<longrightarrow> heap m1 z = heap m z" by blast
      have dm: "distinct (x # path_addrs ds @ addrs rr @ addrs l @ path_addrs cs)"
        "set (addrs r) = set (x # path_addrs ds @ addrs rr)"
        using d distinct_addrs_plug[of ds "Nd Lf (x, kx, vx) xb rr"]
          set_addrs_plug[of ds "Nd Lf (x, kx, vx) xb rr"] by (auto simp: g(3))
      have p1: "path_at (heap m1) cs c" "root m1 = path_root cs c"
        using p f cut(5) d by (auto intro!: iffD2[OF path_at_cong p(1)])
      have mu': "moved_up (heap m1) ds (x, kx, vx) b (top_of l) (top_of (plug ds rr)) rr"
        using mu(1) by (simp add: top_plug)
      obtain m2 m3 where h: "write_slot m1 (path_slot cs) x = Some m2"
        "SET_PARENT_if m2 x ?par = Some m3" "map_at m3 (plug (ds @ InR l (x, kx, vx) b # cs) rr)"
        and f3: "\<forall>z. z \<noteq> x \<and> z \<notin> set (path_addrs cs) \<longrightarrow> heap m3 z = heap m1 z"
        using moved_up_hook[OF mu' _ mu(2) p1 dm(1), of "InR l (x, kx, vx) b"] by blast
      show ?thesis
      proof (rule finish[of ct m1 m2 m3 "ds @ InR l (x, kx, vx) b # cs" rr])
        show "shrunk (ds @ InR l (x, kx, vx) b # cs) (Nd Lf (x, kx, vx) xb rr) rr"
          using av g(3) by (auto intro: shrunk_min)
        show "cut_a ct = path_top (ds @ InR l (x, kx, vx) b # cs)"
          using cut(3) by (simp add: path_top_append)
        show "side_known (ds @ InR l (x, kx, vx) b # cs) (cut_n0 ct = top_of rr \<and> rr \<noteq> Lf)
            (is_left ct) (is_right ct)"
          using cut(4) side_known_prefix[of "[InR l (x, kx, vx) b]" ds cs] by simp
      qed (use lr b two_def cut h f f3 dm g in \<open>auto simp: set_addrs_plug path_addrs_append\<close>)
    qed
  qed
qed

section \<open>Deletion under a key order\<close>

context key_order
begin

lemma remove_between:
  assumes s: "key_sorted cmp ok (xs @ (a, k, v) # ys)"
  shows "key_sorted cmp ok (xs @ ys)"
    and "contents (xs @ ys) = (contents (xs @ (a, k, v) # ys))(k := None)"
proof -
  have k: "ok k" and x: "\<forall>x \<in> set xs. cmp (ekey x) k = GoLeft"
    and y: "\<forall>y \<in> set ys. cmp k (ekey y) = GoLeft"
    using s by (simp_all add: key_sorted_simps)
  have xo: "\<forall>x \<in> set xs. ok (ekey x)" and yo: "\<forall>y \<in> set ys. ok (ekey y)"
    using s by (simp_all add: key_sorted_def)
  show "key_sorted cmp ok (xs @ ys)" using s by (simp add: key_sorted_simps)
  have "contents xs k = None" by (rule contents_below[OF x xo k])
  moreover have "contents ys k = None" by (rule contents_above[OF y yo k])
  ultimately show "contents (xs @ ys) = (contents (xs @ (a, k, v) # ys))(k := None)"
    by (auto simp: contents_append contents_Cons map_add_def fun_eq_iff split: option.splits)
qed

text \<open>The entry of a key is unique, so a sorted list of entries is a map.\<close>

lemma contents_between:
  assumes "key_sorted cmp ok (xs @ (a, k, v) # ys)"
  shows "contents (xs @ (a, k, v) # ys) = (contents (xs @ ys))(k \<mapsto> v)"
    and "contents (xs @ ys) k = None"
proof -
  note r = remove_between(2)[OF assms]
  then show n: "contents (xs @ ys) k = None" by simp
  then have "contents xs k = None" by (auto simp: contents_append map_add_def split: option.splits)
  then have "contents (xs @ (a, k, v) # ys) k = Some v" by (simp add: contents_append contents_Cons map_add_def)
  with r show "contents (xs @ (a, k, v) # ys) = (contents (xs @ ys))(k \<mapsto> v)" by (auto simp: fun_eq_iff)
qed

lemma delete_key:
  fixes m :: "('k, 'v) mem"
  assumes inv: "map_inv cmp ok m t" and k: "ok k" "contents (elems t) k = Some v"
  obtains a m' t' s xs ys where
    "find_node cmp m RootSlot k = Some \<lparr>pos_node = a, is_parent = False, parent_ptr = s\<rparr>"
    "delete_priv m a destr = Some (if destr then [v] else [], m')"
    "map_inv cmp ok m' t'" "elems t = xs @ (a, k, v) # ys" "elems t' = xs @ ys" "heap m' a = None"
    "\<forall>z. z \<notin> set (addrs t) \<longrightarrow> heap m' z = heap m z"
proof -
  obtain a ds l b r where t: "t = plug ds (Nd l (a, k, v) b r)" and "a \<noteq> 0"
    and f: "find_node cmp m RootSlot k =
      Some \<lparr>pos_node = a, is_parent = False, parent_ptr = path_slot ds\<rparr>"
    by (rule find_present[OF inv k])
  let ?t = "del_node ds (Nd l (a, k, v) b r)"
  have so: "key_sorted cmp ok (elems t)" and at: "map_at m (plug ds (Nd l (a, k, v) b r))"
    and av: "avl (plug ds (Nd l (a, k, v) b r))" using inv t by (auto simp: map_inv_def)
  obtain m' where m': "delete_priv m a destr = Some (if destr then [v] else [], m')" "map_at m' ?t"
      "heap m' a = None" "\<forall>z. z \<notin> set (addrs t) \<longrightarrow> heap m' z = heap m z"
    using delete_priv_at[OF at av] t by blast
  note dn = del_node_correct[OF av]
  have e: "elems ?t = (before ds @ elems l) @ elems r @ after ds" using dn(2) by (simp del: del_node.simps)
  have et: "elems t = (before ds @ elems l) @ (a, k, v) # elems r @ after ds"
    using t by (simp add: elems_plug)
  note rb = remove_between[OF so[unfolded et]]
  have inv': "map_inv cmp ok m' ?t" using m'(2) dn(1) rb(1) e by (simp add: map_inv_def del: del_node.simps)
  show thesis by (rule that[OF f m'(1) inv' et e m'(3,4)])
qed

end

end
