(* ===== verification/MapKeys.thy ===== *)
theory MapKeys
  imports MapRemove
begin

text \<open>
  The key types of the map and their orders. The character loop of \<open>string_find\<close> is a linear order
  on the strings whose characters compare as positive numbers: every C string where \<open>char\<close> is
  unsigned, the ASCII strings where it is signed. Integer keys are ordered by their own order.
\<close>

definition string_ok :: "(char \<Rightarrow> int) \<Rightarrow> string \<Rightarrow> bool" where
  "string_ok cval s \<longleftrightarrow> (\<forall>c \<in> set s. 0 < cval c)"

lemma string_ok_simps [simp]:
  "string_ok cval []"
  "string_ok cval (c # s) \<longleftrightarrow> 0 < cval c \<and> string_ok cval s"
  by (simp_all add: string_ok_def)

lemma of_char_bounds: "(0::int) \<le> of_char c" "(of_char c :: int) < 256"
proof -
  have "(of_char c :: nat) < 256" by (rule nat_of_char_less_256)
  moreover have "(of_char c :: int) = int (of_char c)" by (simp only: of_nat_of_char)
  ultimately show "(0::int) \<le> of_char c" "(of_char c :: int) < 256" by linarith+
qed

lemma inj_of_char_int: "inj (of_char :: char \<Rightarrow> int)"
  by (rule injI) simp

lemma inj_char_unsigned: "inj char_unsigned"
  using inj_of_char_int by (simp add: char_unsigned_def [abs_def])

lemma inj_char_signed: "inj char_signed"
proof (rule injI)
  fix x y assume "char_signed x = char_signed y"
  then have "(of_char x :: int) = of_char y"
    using of_char_bounds[of x] of_char_bounds[of y] by (auto simp: char_signed_def split: if_splits)
  then show "x = y" by simp
qed

lemma string_dir_Found:
  "inj cval \<Longrightarrow> string_ok cval a \<Longrightarrow> string_ok cval b \<Longrightarrow> string_dir cval a b = Found \<longleftrightarrow> a = b"
  by (induction cval a b rule: string_dir.induct) (auto dest: injD)

lemma string_dir_mirror:
  "string_ok cval a \<Longrightarrow> string_ok cval b \<Longrightarrow>
    string_dir cval a b = GoRight \<longleftrightarrow> string_dir cval b a = GoLeft"
  by (induction cval a b rule: string_dir.induct) auto

lemma string_dir_trans:
  "string_ok cval a \<Longrightarrow> string_ok cval b \<Longrightarrow> string_ok cval c \<Longrightarrow>
    string_dir cval a b = GoLeft \<Longrightarrow> string_dir cval b c = GoLeft \<Longrightarrow> string_dir cval a c = GoLeft"
proof (induction cval a b arbitrary: c rule: string_dir.induct)
  case (3 cval x xs)
  then show ?case by (cases c) (auto split: if_splits)
next
  case (4 cval k ks x xs)
  then obtain y ys where c: "c = y # ys" by (cases c) (auto split: if_splits)
  consider "cval k < cval x" | "cval k = cval x" "string_dir cval ks xs = GoLeft"
    using "4.prems" by (auto split: if_splits)
  then show ?case
  proof cases
    case 1
    have "cval x \<le> cval y" using "4.prems" c by (auto split: if_splits)
    with 1 c show ?thesis by simp
  next
    case 2
    show ?thesis
    proof (cases "cval x < cval y")
      case True
      with 2 c show ?thesis by simp
    next
      case False
      then have e: "cval x = cval y" and "string_dir cval xs ys = GoLeft"
        using "4.prems" c by (auto split: if_splits)
      then have "string_dir cval ks ys = GoLeft"
        using "4.IH"[of ys] "4.prems" 2 c by simp
      with 2 e c show ?thesis by simp
    qed
  qed
qed auto

lemma string_key_order:
  assumes "inj cval"
  shows "key_order (string_dir cval) (string_ok cval)"
proof
  fix a b c
  assume a: "string_ok cval a" and b: "string_ok cval b"
  show "string_dir cval a b = Found \<longleftrightarrow> a = b" using assms a b by (rule string_dir_Found)
  show "string_dir cval a b = GoRight \<longleftrightarrow> string_dir cval b a = GoLeft"
    using a b by (rule string_dir_mirror)
  assume "string_ok cval c" "string_dir cval a b = GoLeft" "string_dir cval b c = GoLeft"
  then show "string_dir cval a c = GoLeft" by (rule string_dir_trans[OF a b])
qed

text \<open>The three instances of the interface.\<close>

interpretation strU: key_order "string_dir char_unsigned" "string_ok char_unsigned"
  by (rule string_key_order) (rule inj_char_unsigned)

interpretation strS: key_order "string_dir char_signed" "string_ok char_signed"
  by (rule string_key_order) (rule inj_char_signed)

interpretation num: key_order "num_dir :: 'k::linorder \<Rightarrow> 'k \<Rightarrow> dir" "\<lambda>_. True"
  by unfold_locales (auto simp: num_dir_def split: if_splits)

text \<open>Where \<open>char\<close> is signed the admissible keys are the ASCII strings.\<close>

lemma string_ok_unsigned: "string_ok char_unsigned s \<longleftrightarrow> CHR 0x00 \<notin> set s"
proof -
  have "0 < char_unsigned c \<longleftrightarrow> c \<noteq> CHR 0x00" for c
  proof -
    have "(of_char c :: int) = of_char (CHR 0x00) \<longleftrightarrow> c = CHR 0x00"
      using inj_of_char_int by (metis injD)
    then have "(of_char c :: int) = 0 \<longleftrightarrow> c = CHR 0x00" by simp
    then show ?thesis using of_char_bounds(1)[of c] by (auto simp: char_unsigned_def)
  qed
  then show ?thesis by (auto simp: string_ok_def)
qed

end
