(* ===== verification/MapIter.thy ===== *)
theory MapIter
  imports MapKeys
begin

text \<open>
  Reading a whole map: the smallest and the largest node, the steps of the iterators in key order,
  the destruction of all nodes, and the self check.
\<close>

section \<open>Positions\<close>

text \<open>Every element of a tree is the top of a subtree.\<close>

lemma at_position:
  assumes "elems t = xs @ e # ys"
  shows "\<exists>cs l b r. t = plug cs (Nd l e b r) \<and> xs = before cs @ elems l \<and> ys = elems r @ after cs"
  using assms
proof (induction t arbitrary: xs ys)
  case Lf
  then show ?case by simp
next
  case (Nd l x b r)
  consider us where "elems l = xs @ e # us" "ys = us @ x # elems r"
    | "xs = elems l" "x = e" "ys = elems r"
    | us where "elems r = us @ e # ys" "xs = elems l @ x # us"
    using Nd.prems by (fastforce simp: append_eq_append_conv2 append_eq_Cons_conv Cons_eq_append_conv)
  then show ?case
  proof cases
    case 1
    obtain cs l' b' r' where "l = plug cs (Nd l' e b' r')" "xs = before cs @ elems l'"
      "us = elems r' @ after cs" using Nd.IH(1)[OF 1(1)] by blast
    then show ?thesis using 1(2)
      by (intro exI[of _ "cs @ [InL x b r]"] exI[of _ l'] exI[of _ b'] exI[of _ r'])
        (simp add: plug_append before_append after_append)
  next
    case 2
    then show ?thesis by (intro exI[of _ "[]"] exI) auto
  next
    case 3
    obtain cs l' b' r' where "r = plug cs (Nd l' e b' r')" "us = before cs @ elems l'"
      "ys = elems r' @ after cs" using Nd.IH(2)[OF 3(1)] by blast
    then show ?thesis using 3(2)
      by (intro exI[of _ "cs @ [InR l x b]"] exI[of _ l'] exI[of _ b'] exI[of _ r'])
        (simp add: plug_append before_append after_append)
  qed
qed

section \<open>Smallest and largest node\<close>

text \<open>The address of the first (last) node of a list, or null.\<close>

definition first_addr :: "('k, 'v) entry list \<Rightarrow> addr" where
  "first_addr es = (case es of [] \<Rightarrow> 0 | e # _ \<Rightarrow> fst e)"

definition last_addr :: "('k, 'v) entry list \<Rightarrow> addr" where
  "last_addr es = first_addr (rev es)"

lemma first_addr_simps [simp]:
  "first_addr [] = 0" "first_addr (e # es) = fst e"
  "first_addr (xs @ ys) = (if xs = [] then first_addr ys else first_addr xs)"
  by (auto simp: first_addr_def split: list.splits)

lemma last_addr_simps [simp]:
  "last_addr [] = 0" "last_addr (e # es) = (if es = [] then fst e else last_addr es)"
  "last_addr (xs @ ys) = (if ys = [] then last_addr xs else last_addr ys)"
  by (auto simp: last_addr_def)

lemma elems_Nil [simp]: "elems t = [] \<longleftrightarrow> t = Lf"
  by (cases t) auto

lemma top_go_left: "t \<noteq> Lf \<Longrightarrow> top_of (snd (go_left ds t)) = first_addr (elems t)"
proof (induction ds t rule: go_left.induct)
  case (2 ds e b r)
  then show ?case by (cases e) simp
qed auto

lemma top_go_right: "t \<noteq> Lf \<Longrightarrow> top_of (snd (go_right ds t)) = last_addr (elems t)"
proof (induction ds t rule: go_right.induct)
  case (2 ds l e b)
  then show ?case by (cases e) simp
qed auto

lemma leftmost_first: "tree_at (heap m) q t \<Longrightarrow> t \<noteq> Lf \<Longrightarrow> leftmost m (top_of t) = Some (first_addr (elems t))"
  using leftmost_at[of m q t "[]"] top_go_left[of t "[]"] by simp

lemma rightmost_last: "tree_at (heap m) q t \<Longrightarrow> t \<noteq> Lf \<Longrightarrow> rightmost m (top_of t) = Some (last_addr (elems t))"
  using rightmost_at[of m q t "[]"] top_go_right[of t "[]"] by simp

lemma map_Min_at:
  assumes "map_at m t"
  shows "map_Min m (root m) = Some (first_addr (elems t))"
  using assms leftmost_first[of m 0 t] top_eq_0[of "heap m" 0 t]
  by (cases "t = Lf") (auto simp: map_Min_def map_at_def)

lemma map_Max_at:
  assumes "map_at m t"
  shows "map_Max m (root m) = Some (last_addr (elems t))"
  using assms rightmost_last[of m 0 t] top_eq_0[of "heap m" 0 t]
  by (cases "t = Lf") (auto simp: map_Max_def map_at_def)

section \<open>Steps of the iterators\<close>

lemma climb_right_at:
  assumes "map_at m (plug cs t)" and "t \<noteq> Lf"
  shows "climb_right m (top_of t) = Some (first_addr (after cs))"
  using assms
proof (induction cs arbitrary: t rule: path_addrs.induct)
  case 1
  then show ?case
    by (cases t rule: top_of.cases) (auto simp: map_at_def climb_right.simps PARENT_def deref_def)
next
  case (2 a k v b r cs)
  have at: "map_at m (plug cs (Nd t (a, k, v) b r))" using "2.prems"(1) by simp
  have "PARENT m (top_of t) = Some a" using "2.prems"
    by (cases t rule: top_of.cases) (auto simp: map_at_plug PARENT_def deref_def)
  moreover have "top_of t \<noteq> top_of r" using top_of_sibling[OF at] "2.prems"(2) by simp
  ultimately show ?case using map_at_deref[OF at] by (subst climb_right.simps) simp
next
  case (3 l a k v b cs)
  have at: "map_at m (plug cs (Nd l (a, k, v) b t))" using "3.prems"(1) by simp
  have "PARENT m (top_of t) = Some a" using "3.prems"
    by (cases t rule: top_of.cases) (auto simp: map_at_plug PARENT_def deref_def)
  then show ?case using map_at_deref[OF at] "3.IH"[OF at] by (subst climb_right.simps) simp
qed

lemma climb_left_at:
  assumes "map_at m (plug cs t)" and "t \<noteq> Lf"
  shows "climb_left m (top_of t) = Some (last_addr (before cs))"
  using assms
proof (induction cs arbitrary: t rule: path_addrs.induct)
  case 1
  then show ?case
    by (cases t rule: top_of.cases) (auto simp: map_at_def climb_left.simps PARENT_def deref_def)
next
  case (2 a k v b r cs)
  have at: "map_at m (plug cs (Nd t (a, k, v) b r))" using "2.prems"(1) by simp
  have "PARENT m (top_of t) = Some a" using "2.prems"
    by (cases t rule: top_of.cases) (auto simp: map_at_plug PARENT_def deref_def)
  then show ?case using map_at_deref[OF at] "2.IH"[OF at] by (subst climb_left.simps) simp
next
  case (3 l a k v b cs)
  have at: "map_at m (plug cs (Nd l (a, k, v) b t))" using "3.prems"(1) by simp
  have "PARENT m (top_of t) = Some a" using "3.prems"
    by (cases t rule: top_of.cases) (auto simp: map_at_plug PARENT_def deref_def)
  moreover have "top_of t \<noteq> top_of l" using top_of_sibling[OF at] "3.prems"(2) by simp
  ultimately show ?case using map_at_deref[OF at] by (subst climb_left.simps) simp
qed

lemma iter_up_at:
  assumes "map_at m t" and "elems t = xs @ e # ys"
  shows "iter_up m (fst e) = Some (first_addr ys)"
proof -
  obtain cs l b r where t: "t = plug cs (Nd l e b r)" and ys: "ys = elems r @ after cs"
    using at_position[OF assms(2)] by blast
  obtain a k v where e: "e = (a, k, v)" by (cases e)
  have at: "map_at m (plug cs (Nd l (a, k, v) b r))" using assms(1) t e by simp
  have r: "tree_at (heap m) a r" using at by (simp add: map_at_plug)
  show ?thesis
    using map_at_deref(2)[OF at] leftmost_first[OF r] climb_right_at[OF at] top_eq_0[OF r] ys e
    by (auto simp: iter_up_def)
qed

lemma iter_down_at:
  assumes "map_at m t" and "elems t = xs @ e # ys"
  shows "iter_down m (fst e) = Some (last_addr xs)"
proof -
  obtain cs l b r where t: "t = plug cs (Nd l e b r)" and xs: "xs = before cs @ elems l"
    using at_position[OF assms(2)] by blast
  obtain a k v where e: "e = (a, k, v)" by (cases e)
  have at: "map_at m (plug cs (Nd l (a, k, v) b r))" using assms(1) t e by simp
  have l: "tree_at (heap m) a l" using at by (simp add: map_at_plug)
  show ?thesis
    using map_at_deref(2)[OF at] rightmost_last[OF l] climb_left_at[OF at] top_eq_0[OF l] xs e
    by (auto simp: iter_down_def)
qed

section \<open>Destruction\<close>

fun post_order :: "('k, 'v) mtree \<Rightarrow> 'v list" where
  "post_order Lf = []"
| "post_order (Nd l e b r) = post_order l @ post_order r @ [eval_of e]"

lemma mset_post_order: "mset (post_order t) = mset (map eval_of (elems t))"
  by (induction t) auto

lemma restrict_map_all [simp]: "m |` UNIV = m"
  by (simp add: restrict_map_def)

lemma destroy_priv_at:
  assumes "tree_at (heap m) q t" and "distinct (addrs t)" and "t \<noteq> Lf"
  shows "\<exists>m'. destroy_priv m (top_of t) destr = Some (if destr then post_order t else [], m') \<and>
    root m' = root m \<and> heap m' = heap m |` (- set (addrs t))"
  using assms
proof (induction t arbitrary: m q)
  case (Nd l e b r)
  obtain a k v where e: "e = (a, k, v)" by (cases e)
  let ?cn = "\<lparr>parent = q, bf = b, leftChild = top_of l, rightChild = top_of r,
    node_value = v, node_key = k\<rparr>"
  have a: "deref m a = Some ?cn" "a \<noteq> 0" using Nd.prems e by (auto simp: deref_def)
  have t: "tree_at (heap m) a l" "tree_at (heap m) a r" using Nd.prems e by auto
  have d: "distinct (addrs l)" "distinct (addrs r)" "a \<notin> set (addrs l)" "a \<notin> set (addrs r)"
    "set (addrs l) \<inter> set (addrs r) = {}" using Nd.prems e by auto
  obtain m1 where m1: "(if top_of l \<noteq> 0 then destroy_priv m (top_of l) destr else Some ([], m)) =
      Some (if destr then post_order l else [], m1)" "root m1 = root m"
      "heap m1 = heap m |` (- set (addrs l))"
    using Nd.IH(1)[OF t(1) d(1)] top_eq_0[OF t(1)] by (cases "l = Lf") (auto split: if_splits)
  have a1: "deref m1 a = Some ?cn" using a d m1(3) by (auto simp: deref_def restrict_map_def)
  have "tree_at (heap m1) a r" by (rule iffD2[OF tree_at_cong t(2)]) (use m1(3) d in \<open>auto simp: restrict_map_def\<close>)
  then obtain m2 where m2: "(if top_of r \<noteq> 0 then destroy_priv m1 (top_of r) destr else Some ([], m1)) =
      Some (if destr then post_order r else [], m2)" "root m2 = root m1"
      "heap m2 = heap m1 |` (- set (addrs r))"
    using Nd.IH(2)[OF _ d(2)] top_eq_0[OF t(2)] by (cases "r = Lf") (auto split: if_splits)
  have a2: "deref m2 a = Some ?cn" using a1 d m2(3) by (auto simp: deref_def restrict_map_def)
  have "destroy_priv m a destr = Some ((if destr then post_order l else []) @
      (if destr then post_order r else []) @ (if destr then [v] else []), free_node m2 a)"
    by (subst destroy_priv.simps)
      (simp only: a(1) a1 a2 m1(1) m2(1) bind.bind_lunit prod.case node.select_convs NULL_0)
  moreover have "heap (free_node m2 a) = heap m |` (- set (addrs (Nd l e b r)))"
    using m1(3) m2(3) e by (auto simp: free_node_def restrict_map_def fun_eq_iff)
  ultimately show ?case using e m1(2) m2(2) by (auto simp: free_node_def)
qed simp

lemma destroy_at:
  assumes "map_at m t"
  shows "\<exists>m'. destroy m (root m) destr = Some (if destr then post_order t else [], m') \<and>
    heap m' = heap m |` (- set (addrs t))"
  using assms destroy_priv_at[of m 0 t destr] top_eq_0[of "heap m" 0 t]
  by (cases "t = Lf") (auto simp: destroy_def map_at_def)


section \<open>The self check\<close>

text \<open>What the check compares: every key with the keys of its children, by \<open>strcmp\<close>.\<close>

fun top_key :: "('k, 'v) mtree \<Rightarrow> 'k option" where
  "top_key Lf = None"
| "top_key (Nd l (a, k, v) b r) = Some k"

fun heap_order :: "(string, 'v) mtree \<Rightarrow> bool" where
  "heap_order Lf = True"
| "heap_order (Nd l (a, k, v) b r) \<longleftrightarrow>
     (\<forall>k'. top_key l = Some k' \<longrightarrow> strcmp_less k' k) \<and>
     (\<forall>k'. top_key r = Some k' \<longrightarrow> strcmp_less k k') \<and> heap_order l \<and> heap_order r"

text \<open>On a well-linked tree the check returns the height, and reports nothing but order and balance.\<close>

lemma check_at:
  assumes "tree_at (heap m) q t"
  shows "\<exists>cs. check_avl_get_depth m (top_of t) = Some (int (height t), cs) \<and>
    (cs = [] \<longleftrightarrow> avl t \<and> heap_order t)"
  using assms
proof (induction t arbitrary: q)
  case Lf
  then show ?case by (simp add: check_avl_get_depth.simps)
next
  case (Nd l e b r)
  obtain a k v where e: "e = (a, k, v)" by (cases e)
  let ?cn = "\<lparr>parent = q, bf = b, leftChild = top_of l, rightChild = top_of r,
    node_value = v, node_key = k\<rparr>"
  have a: "deref m a = Some ?cn" "a \<noteq> 0" using Nd.prems e by (auto simp: deref_def)
  have t: "tree_at (heap m) a l" "tree_at (heap m) a r" using Nd.prems e by auto
  obtain c1 where c1: "check_avl_get_depth m (top_of l) = Some (int (height l), c1)"
    "c1 = [] \<longleftrightarrow> avl l \<and> heap_order l" using Nd.IH(1)[OF t(1)] by blast
  obtain c3 where c3: "check_avl_get_depth m (top_of r) = Some (int (height r), c3)"
    "c3 = [] \<longleftrightarrow> avl r \<and> heap_order r" using Nd.IH(2)[OF t(2)] by blast
  obtain c2 where c2: "(if int (height l) \<noteq> 0 then do {
        ln \<leftarrow> deref m (top_of l);
        Some ((if parent ln \<noteq> a then [WrongParent (top_of l)] else []) @
          (if \<not> strcmp_less (node_key ln) k then [WrongOrder (top_of l) a] else [])) }
      else Some []) = Some c2" "c2 = [] \<longleftrightarrow> (\<forall>k'. top_key l = Some k' \<longrightarrow> strcmp_less k' k)"
    using t(1) by (cases l rule: top_of.cases) (auto simp: deref_def)
  obtain c4 where c4: "(if int (height r) \<noteq> 0 then do {
        rn \<leftarrow> deref m (top_of r);
        Some ((if parent rn \<noteq> a then [WrongParent (top_of r)] else []) @
          (if \<not> strcmp_less k (node_key rn) then [WrongOrder a (top_of r)] else [])) }
      else Some []) = Some c4" "c4 = [] \<longleftrightarrow> (\<forall>k'. top_key r = Some k' \<longrightarrow> strcmp_less k k')"
    using t(2) by (cases r rule: top_of.cases) (auto simp: deref_def)
  let ?d = "int (height r) - int (height l)"
  have "check_avl_get_depth m a = Some ((if int (height r) > int (height l) then int (height r)
      else int (height l)) + 1, c1 @ c2 @ c3 @ c4 @ (if b \<noteq> ?d then [WrongBalance a ?d b] else []) @
      (if ?d < -1 \<or> ?d > 1 then [OutOfRange a ?d] else []))"
    using a(2) by (subst check_avl_get_depth.simps)
      (simp only: a(1) c1(1) c2(1) c3(1) c4(1) bind.bind_lunit prod.case node.select_convs NULL_0
        Let_def if_False)
  then show ?case using e c1(2) c2(2) c3(2) c4(2) by (auto simp: max_def)
qed

lemma string_dir_Nil: "string_dir cval a [] \<noteq> GoLeft"
  by (cases a) auto

lemma strcmp_less_dir:
  "string_ok char_unsigned x \<Longrightarrow> string_ok char_unsigned y \<Longrightarrow>
   string_dir char_unsigned x y = GoLeft \<longleftrightarrow> strcmp_less x y"
  by (induction x y rule: strcmp_less.induct) (auto simp: string_ok_def string_dir_Nil)

lemma sorted_heap_order:
  assumes "key_sorted (string_dir char_unsigned) (string_ok char_unsigned) (elems t)"
  shows "heap_order t"
  using assms
proof (induction t)
  case (Nd l e b r)
  obtain a k v where e: "e = (a, k, v)" by (cases e)
  have top: "\<exists>x \<in> set (elems u). ekey x = k'" if "top_key u = Some k'" for u :: "(string, 'a) mtree" and k'
    using that by (cases u rule: top_of.cases) auto
  have ok: "\<forall>x \<in> set (elems l) \<union> set (elems r). string_ok char_unsigned (ekey x)" "string_ok char_unsigned k"
    using Nd.prems e by (auto simp: key_sorted_def)
  have "\<forall>x \<in> set (elems l). strcmp_less (ekey x) k" "\<forall>x \<in> set (elems r). strcmp_less k (ekey x)"
    using Nd.prems e ok strcmp_less_dir by (auto simp: key_sorted_simps)
  moreover have "heap_order l" "heap_order r" using Nd by (simp_all add: key_sorted_simps)
  ultimately show ?case using e top[of l] top[of r] by auto
qed simp

section \<open>Height\<close>

text \<open>An AVL tree of height \<open>h\<close> has at least \<open>2^(h/2) - 1\<close> nodes.\<close>

lemma avl_height: "avl t \<Longrightarrow> 2 ^ (height t div 2) \<le> length (elems t) + 1"
proof (induction "height t" arbitrary: t rule: less_induct)
  case less
  show ?case
  proof (cases t)
    case (Nd l e b r)
    have h: "avl l" "avl r" "height t \<le> height l + 2" "height t \<le> height r + 2"
      "height l < height t" "height r < height t"
      using less.prems Nd by auto
    have "(2::nat) ^ (height l div 2) \<le> length (elems l) + 1" "(2::nat) ^ (height r div 2) \<le> length (elems r) + 1"
      using less.hyps[OF h(5,1)] less.hyps[OF h(6,2)] by auto
    moreover have "(2::nat) ^ (height t div 2) \<le> 2 * 2 ^ (height l div 2)"
    proof -
      have "height t div 2 \<le> Suc (height l div 2)" using h(3) by linarith
      then have "(2::nat) ^ (height t div 2) \<le> 2 ^ Suc (height l div 2)" by (rule power_increasing) simp
      then show ?thesis by simp
    qed
    moreover have "(2::nat) ^ (height t div 2) \<le> 2 * 2 ^ (height r div 2)"
    proof -
      have "height t div 2 \<le> Suc (height r div 2)" using h(4) by linarith
      then have "(2::nat) ^ (height t div 2) \<le> 2 ^ Suc (height r div 2)" by (rule power_increasing) simp
      then show ?thesis by simp
    qed
    ultimately have "(2::nat) ^ (height t div 2) \<le> 2 * (length (elems l) + 1)"
      "(2::nat) ^ (height t div 2) \<le> 2 * (length (elems r) + 1)"
      by (meson le_trans mult_le_mono2)+
    then show ?thesis using Nd by simp
  qed simp
qed

end
