(* ===== verification/MapContract.thy ===== *)
theory MapContract
  imports MapIter
begin

text \<open>
  What the map functions promise their callers, for string keys and for integer keys. The list
  \<open>es\<close> of the entries of a map, in key order and with the address of each node, is the abstract
  state: insertion and deletion change one entry and leave every other node where it is.
\<close>

section \<open>Maps as sorted lists of entries\<close>

definition holds_map ::
  "('k \<Rightarrow> 'k \<Rightarrow> dir) \<Rightarrow> ('k \<Rightarrow> bool) \<Rightarrow> ('k, 'v) mem \<Rightarrow> ('k, 'v) entry list \<Rightarrow> bool" where
  "holds_map cmp ok m es \<longleftrightarrow> (\<exists>t. map_inv cmp ok m t \<and> elems t = es)"

abbreviation string_map :: "(char \<Rightarrow> int) \<Rightarrow> (string, 'v) mem \<Rightarrow> (string, 'v) entry list \<Rightarrow> bool" where
  "string_map cval \<equiv> holds_map (string_dir cval) (string_ok cval)"

abbreviation num_map :: "('k::linorder, 'v) mem \<Rightarrow> ('k, 'v) entry list \<Rightarrow> bool" where
  "num_map \<equiv> holds_map num_dir (\<lambda>_. True)"

text \<open>The nodes of the map are the allocated addresses \<open>fst ` set es\<close>.\<close>

lemma holds_map_nodes:
  assumes "holds_map cmp ok m es" and "(a, k, v) \<in> set es"
  shows "a \<noteq> 0" and "\<exists>n. deref m a = Some n \<and> node_key n = k \<and> node_value n = v"
proof -
  obtain t where t: "map_at m t" "elems t = es" using assms(1) by (auto simp: holds_map_def map_inv_def)
  obtain xs ys where "elems t = xs @ (a, k, v) # ys" using assms(2) t(2) by (meson split_list)
  from at_position[OF this] obtain cs l b r where "t = plug cs (Nd l (a, k, v) b r)" by blast
  from map_at_deref[OF t(1)[unfolded this]]
  show "a \<noteq> 0" "\<exists>n. deref m a = Some n \<and> node_key n = k \<and> node_value n = v" by simp_all
qed

lemma holds_map_keys: "holds_map cmp ok m es \<Longrightarrow> (a, k, v) \<in> set es \<Longrightarrow> ok k"
  by (force simp: holds_map_def map_inv_def key_sorted_def)

lemma holds_map_sorted: "holds_map cmp ok m es \<Longrightarrow> key_sorted cmp ok es"
  by (auto simp: holds_map_def map_inv_def)

lemma holds_map_empty: "root m = 0 \<Longrightarrow> holds_map cmp ok m []"
  by (auto simp: holds_map_def map_inv_def map_at_def intro!: exI[of _ Lf])

context key_order
begin

lemma holds_absent:
  assumes "holds_map cmp ok m es" "ok k" "contents es k = None"
  shows "\<exists>p s. find_node cmp m RootSlot k = Some \<lparr>pos_node = p, is_parent = True, parent_ptr = s\<rparr>"
proof -
  obtain t where t: "map_inv cmp ok m t" "elems t = es" using assms(1) by (auto simp: holds_map_def)
  have k: "contents (elems t) k = None" using assms(3) t(2) by simp
  show ?thesis by (rule find_absent[OF t(1) assms(2) k]) blast
qed

lemma holds_present:
  assumes "holds_map cmp ok m es" "ok k" "contents es k = Some v"
  shows "\<exists>a s. find_node cmp m RootSlot k = Some \<lparr>pos_node = a, is_parent = False, parent_ptr = s\<rparr> \<and>
    (a, k, v) \<in> set es"
proof -
  obtain t where t: "map_inv cmp ok m t" "elems t = es" using assms(1) by (auto simp: holds_map_def)
  obtain a ds l b r where "t = plug ds (Nd l (a, k, v) b r)"
    and f: "find_node cmp m RootSlot k = Some \<lparr>pos_node = a, is_parent = False, parent_ptr = path_slot ds\<rparr>"
    by (rule find_present[OF t(1) assms(2), of v]) (use assms(3) t(2) in simp)
  then have "(a, k, v) \<in> set es" using t(2) by (auto simp: elems_plug)
  with f show ?thesis by blast
qed

lemma holds_insert:
  fixes m :: "('k, 'v) mem"
  assumes "holds_map cmp ok m es" "ok k" "contents es k = None" "new \<noteq> 0" "heap m new = None"
  shows "\<exists>p s m1 m2 xs ys.
    find_node cmp m RootSlot k = Some \<lparr>pos_node = p, is_parent = True, parent_ptr = s\<rparr> \<and>
    new_node m new k v = Some m1 \<and> insert_priv m1 new p s = Some m2 \<and>
    es = xs @ ys \<and> holds_map cmp ok m2 (xs @ (new, k, v) # ys) \<and>
    (\<forall>z. z \<notin> fst ` set es \<union> {new} \<longrightarrow> heap m2 z = heap m z)"
proof -
  obtain t where t: "map_inv cmp ok m t" "elems t = es" using assms(1) by (auto simp: holds_map_def)
  have k: "contents (elems t) k = None" using assms(3) t(2) by simp
  obtain ds :: "('k, 'v) mpath" and m1 m2 t' xs ys where
    f: "find_node cmp m RootSlot k =
      Some \<lparr>pos_node = path_top ds, is_parent = True, parent_ptr = path_slot ds\<rparr>"
    and n: "new_node m new k v = Some m1" "insert_priv m1 new (path_top ds) (path_slot ds) = Some m2"
    and i: "map_inv cmp ok m2 t'" "elems t = xs @ ys" "elems t' = xs @ (new, k, v) # ys"
    and fr: "\<forall>z. z \<notin> set (addrs t) \<union> {new} \<longrightarrow> heap m2 z = heap m z"
    by (rule insert_new_key[OF t(1) assms(2) k assms(4,5)])
  have "holds_map cmp ok m2 (xs @ (new, k, v) # ys)" using i by (auto simp: holds_map_def)
  moreover have "set (addrs t) = fst ` set es" using t(2) by (simp add: addrs_def)
  ultimately show ?thesis using f n i(2) fr t(2) by metis
qed

lemma holds_delete:
  fixes m :: "('k, 'v) mem"
  assumes "holds_map cmp ok m es" "ok k" "contents es k = Some v"
  shows "\<exists>a s m' xs ys.
    find_node cmp m RootSlot k = Some \<lparr>pos_node = a, is_parent = False, parent_ptr = s\<rparr> \<and>
    delete_priv m a destr = Some (if destr then [v] else [], m') \<and>
    es = xs @ (a, k, v) # ys \<and> holds_map cmp ok m' (xs @ ys) \<and> heap m' a = None \<and>
    (\<forall>z. z \<notin> fst ` set es \<longrightarrow> heap m' z = heap m z)"
proof -
  obtain t where t: "map_inv cmp ok m t" "elems t = es" using assms(1) by (auto simp: holds_map_def)
  have k: "contents (elems t) k = Some v" using assms(3) t(2) by simp
  obtain a m' t' s xs ys where
    f: "find_node cmp m RootSlot k = Some \<lparr>pos_node = a, is_parent = False, parent_ptr = s\<rparr>"
    and d: "delete_priv m a destr = Some (if destr then [v] else [], m')"
    and i: "map_inv cmp ok m' t'" "elems t = xs @ (a, k, v) # ys" "elems t' = xs @ ys"
    and h: "heap m' a = None" "\<forall>z. z \<notin> set (addrs t) \<longrightarrow> heap m' z = heap m z"
    by (rule delete_key[OF t(1) assms(2) k])
  have "holds_map cmp ok m' (xs @ ys)" using i by (auto simp: holds_map_def)
  moreover have "set (addrs t) = fst ` set es" using t(2) by (simp add: addrs_def)
  ultimately show ?thesis using f d i(2) h t(2) by metis
qed

end


section \<open>A map to evaluate on\<close>

definition demo :: "(string, nat) mem" where
  "demo = \<lparr>heap = [8 \<mapsto> \<lparr>parent = 16, bf = 0, leftChild = 0, rightChild = 0, node_value = 1, node_key = ''a''\<rparr>,
       16 \<mapsto> \<lparr>parent = 0, bf = 0, leftChild = 8, rightChild = 24, node_value = 2, node_key = ''b''\<rparr>,
       24 \<mapsto> \<lparr>parent = 16, bf = 0, leftChild = 0, rightChild = 0, node_value = 3, node_key = ''c''\<rparr>],
     root = 16\<rparr>"

definition demo_entries :: "(string, nat) entry list" where
  "demo_entries = [(8, ''a'', 1), (16, ''b'', 2), (24, ''c'', 3)]"

definition num_demo :: "(nat, nat) mem" where
  "num_demo = \<lparr>heap = [8 \<mapsto> \<lparr>parent = 16, bf = 0, leftChild = 0, rightChild = 0, node_value = 1, node_key = 5\<rparr>,
       16 \<mapsto> \<lparr>parent = 0, bf = 0, leftChild = 8, rightChild = 24, node_value = 2, node_key = 7\<rparr>,
       24 \<mapsto> \<lparr>parent = 16, bf = 0, leftChild = 0, rightChild = 0, node_value = 3, node_key = 9\<rparr>],
     root = 16\<rparr>"

definition num_demo_entries :: "(nat, nat) entry list" where
  "num_demo_entries = [(8, 5, 1), (16, 7, 2), (24, 9, 3)]"

lemma demo_map: "string_map char_unsigned demo demo_entries"
  unfolding holds_map_def
  by (rule exI[of _ "Nd (Nd Lf (8, ''a'', 1) 0 Lf) (16, ''b'', 2) 0 (Nd Lf (24, ''c'', 3) 0 Lf)"])
    (simp add: map_inv_def map_at_def demo_def demo_entries_def key_sorted_def string_ok_def
      char_unsigned_def)

lemma num_demo_map: "num_map num_demo num_demo_entries"
  unfolding holds_map_def
  by (rule exI[of _ "Nd (Nd Lf (8, 5, 1) 0 Lf) (16, 7, 2) 0 (Nd Lf (24, 9, 3) 0 Lf)"])
    (simp add: map_inv_def map_at_def num_demo_def num_demo_entries_def key_sorted_def num_dir_def)

section \<open>Insertion\<close>

text \<open>
  C1. Inserting a string key that is not in the map succeeds on every map: the result is the new
  node, \<open>*target\<close> becomes NULL, the entry is put at its place in key order, the balance is
  restored, all other nodes keep their address, key and value, and no memory outside the map is
  touched.
\<close>

theorem string_insert_new:
  assumes "inj cval" and "string_map cval m es" and "string_ok cval k" and "contents es k = None"
    and "new \<noteq> 0" and "heap m new = None"
  shows "\<exists>m' xs ys. string_tag_insert cval m new k v tgt = Some (new, TNull, m') \<and>
    es = xs @ ys \<and> string_map cval m' (xs @ (new, k, v) # ys) \<and>
    contents (xs @ (new, k, v) # ys) = (contents es)(k \<mapsto> v) \<and>
    (\<forall>z. z \<notin> fst ` set es \<union> {new} \<longrightarrow> heap m' z = heap m z)"
proof -
  note ko = string_key_order[OF assms(1)]
  from key_order.holds_insert[OF ko assms(2-6), of v] obtain p s m1 m2 xs ys where
    "string_find cval m RootSlot k = Some \<lparr>pos_node = p, is_parent = True, parent_ptr = s\<rparr>"
    "new_node m new k v = Some m1" "insert_priv m1 new p s = Some m2"
    and h: "es = xs @ ys" "string_map cval m2 (xs @ (new, k, v) # ys)"
      "\<forall>z. z \<notin> fst ` set es \<union> {new} \<longrightarrow> heap m2 z = heap m z"
    unfolding string_find_def by blast
  then have "string_tag_insert cval m new k v tgt = Some (new, TNull, m2)"
    by (simp add: string_tag_insert_def)
  moreover note key_order.contents_between(1)[OF ko holds_map_sorted[OF h(2)]]
  ultimately show ?thesis using h by auto
qed

theorem string_insert_new_witness:
  "\<exists>m' xs ys. string_tag_insert char_unsigned demo 32 ''bb'' 4 TNull = Some (32, TNull, m') \<and>
    demo_entries = xs @ ys \<and> string_map char_unsigned m' (xs @ (32, ''bb'', 4) # ys) \<and>
    contents (xs @ (32, ''bb'', 4) # ys) = (contents demo_entries)(''bb'' \<mapsto> 4) \<and>
    (\<forall>z. z \<notin> fst ` set demo_entries \<union> {32} \<longrightarrow> heap m' z = heap demo z)"
  by (rule string_insert_new[OF inj_char_unsigned demo_map])
    (simp_all add: demo_def demo_entries_def contents_def char_unsigned_def)

text \<open>
  The same for the integer keys, whenever the caller passes a \<open>target\<close>.
\<close>

theorem num_insert_new:
  fixes m :: "('k::linorder, 'v) mem"
  assumes "num_map m es" and "contents es k = None" and "new \<noteq> 0" and "heap m new = None"
  shows "\<exists>m' xs ys. num_insert m new k v (Some tgt) = Some (new, TNull, m') \<and>
    es = xs @ ys \<and> num_map m' (xs @ (new, k, v) # ys) \<and>
    contents (xs @ (new, k, v) # ys) = (contents es)(k \<mapsto> v) \<and>
    (\<forall>z. z \<notin> fst ` set es \<union> {new} \<longrightarrow> heap m' z = heap m z)"
proof -
  from num.holds_insert[OF assms(1) TrueI assms(2-4), of v] obtain p s m1 m2 xs ys where
    "num_find m RootSlot k = Some \<lparr>pos_node = p, is_parent = True, parent_ptr = s\<rparr>"
    "new_node m new k v = Some m1" "insert_priv m1 new p s = Some m2"
    and h: "es = xs @ ys" "num_map m2 (xs @ (new, k, v) # ys)"
      "\<forall>z. z \<notin> fst ` set es \<union> {new} \<longrightarrow> heap m2 z = heap m z"
    unfolding num_find_def by blast
  then have "num_insert m new k v (Some tgt) = Some (new, TNull, m2)"
    by (simp add: num_insert_def)
  moreover note num.contents_between(1)[OF holds_map_sorted[OF h(2)]]
  ultimately show ?thesis using h by auto
qed

theorem num_insert_new_witness:
  "\<exists>m' xs ys. num_insert num_demo 32 6 4 (Some TNull) = Some (32, TNull, m') \<and>
    num_demo_entries = xs @ ys \<and> num_map m' (xs @ (32, 6, 4) # ys) \<and>
    contents (xs @ (32, 6, 4) # ys) = (contents num_demo_entries)(6 \<mapsto> 4) \<and>
    (\<forall>z. z \<notin> fst ` set num_demo_entries \<union> {32} \<longrightarrow> heap m' z = heap num_demo z)"
  by (rule num_insert_new[OF num_demo_map])
    (simp_all add: num_demo_def num_demo_entries_def contents_def)

text \<open>
  Inserting a key that is present, with \<open>*target\<close> NULL on entry, changes nothing: the result
  is the node that holds the key and \<open>*target\<close> becomes the marker \<open>(Node*)(-1)\<close>.
\<close>

theorem string_insert_existing:
  assumes "inj cval" and "string_map cval m es" and "string_ok cval k" and "contents es k = Some v0"
  shows "\<exists>a. string_tag_insert cval m new k v TNull = Some (a, TExists, m) \<and> (a, k, v0) \<in> set es"
proof -
  from key_order.holds_present[OF string_key_order[OF assms(1)] assms(2-4)] obtain a s where
    "string_find cval m RootSlot k = Some \<lparr>pos_node = a, is_parent = False, parent_ptr = s\<rparr>"
    "(a, k, v0) \<in> set es" unfolding string_find_def by blast
  then show ?thesis by (auto simp: string_tag_insert_def)
qed

theorem string_insert_existing_witness:
  "\<exists>a. string_tag_insert char_unsigned demo 32 ''b'' 4 TNull = Some (a, TExists, demo) \<and>
    (a, ''b'', 2) \<in> set demo_entries"
  by (rule string_insert_existing[OF inj_char_unsigned demo_map])
    (simp_all add: demo_entries_def contents_def char_unsigned_def)

section \<open>Deletion\<close>

text \<open>
  C2. Deleting a string key returns true exactly when the key is in the map. Then its node is
  freed, \<open>destruct\<close> (when given) is called exactly once and on the value of the key, the other
  nodes keep their address, key and value, and the balance is restored; otherwise nothing changes.
\<close>

theorem string_delete_spec:
  assumes "inj cval" and "string_map cval m es" and "string_ok cval k"
  shows "case contents es k of
      None \<Rightarrow> string_delete cval m k destr = Some (False, [], m)
    | Some v \<Rightarrow> \<exists>m' a xs ys. string_delete cval m k destr = Some (True, if destr then [v] else [], m') \<and>
        es = xs @ (a, k, v) # ys \<and> string_map cval m' (xs @ ys) \<and>
        contents (xs @ ys) = (contents es)(k := None) \<and> heap m' a = None \<and>
        (\<forall>z. z \<notin> fst ` set es \<longrightarrow> heap m' z = heap m z)"
proof (cases "contents es k")
  case None
  note ko = string_key_order[OF assms(1)]
  show ?thesis
    using key_order.holds_absent[OF ko assms(2,3) None] None
    by (auto simp: string_delete_def string_find_def)
next
  case (Some v)
  note ko = string_key_order[OF assms(1)]
  from key_order.holds_delete[OF ko assms(2,3) Some, of destr] obtain a s m' xs ys where
    "string_find cval m RootSlot k = Some \<lparr>pos_node = a, is_parent = False, parent_ptr = s\<rparr>"
    "delete_priv m a destr = Some (if destr then [v] else [], m')"
    and h: "es = xs @ (a, k, v) # ys" "string_map cval m' (xs @ ys)" "heap m' a = None"
      "\<forall>z. z \<notin> fst ` set es \<longrightarrow> heap m' z = heap m z"
    unfolding string_find_def by blast
  then have "string_delete cval m k destr = Some (True, if destr then [v] else [], m')"
    by (simp add: string_delete_def)
  moreover have "contents (xs @ ys) = (contents es)(k := None)"
    using key_order.remove_between(2)[OF ko] holds_map_sorted[OF assms(2)] h(1) by simp
  ultimately show ?thesis using h Some by auto
qed

theorem string_delete_spec_witness:
  "case contents demo_entries ''b'' of
      None \<Rightarrow> string_delete char_unsigned demo ''b'' True = Some (False, [], demo)
    | Some v \<Rightarrow> \<exists>m' a xs ys. string_delete char_unsigned demo ''b'' True = Some (True, if True then [v] else [], m') \<and>
        demo_entries = xs @ (a, ''b'', v) # ys \<and> string_map char_unsigned m' (xs @ ys) \<and>
        contents (xs @ ys) = (contents demo_entries)(''b'' := None) \<and> heap m' a = None \<and>
        (\<forall>z. z \<notin> fst ` set demo_entries \<longrightarrow> heap m' z = heap demo z)"
  by (rule string_delete_spec[OF inj_char_unsigned demo_map]) (simp add: char_unsigned_def)

text \<open>The same for the integer keys.\<close>

theorem num_delete_spec:
  fixes m :: "('k::linorder, 'v) mem"
  assumes "num_map m es"
  shows "case contents es k of
      None \<Rightarrow> num_delete m k destr = Some (False, [], m)
    | Some v \<Rightarrow> \<exists>m' a xs ys. num_delete m k destr = Some (True, if destr then [v] else [], m') \<and>
        es = xs @ (a, k, v) # ys \<and> num_map m' (xs @ ys) \<and>
        contents (xs @ ys) = (contents es)(k := None) \<and> heap m' a = None \<and>
        (\<forall>z. z \<notin> fst ` set es \<longrightarrow> heap m' z = heap m z)"
proof (cases "contents es k")
  case None
  then show ?thesis
    using num.holds_absent[OF assms TrueI None] by (auto simp: num_delete_def num_find_def)
next
  case (Some v)
  from num.holds_delete[OF assms TrueI Some, of destr] obtain a s m' xs ys where
    "num_find m RootSlot k = Some \<lparr>pos_node = a, is_parent = False, parent_ptr = s\<rparr>"
    "delete_priv m a destr = Some (if destr then [v] else [], m')"
    and h: "es = xs @ (a, k, v) # ys" "num_map m' (xs @ ys)" "heap m' a = None"
      "\<forall>z. z \<notin> fst ` set es \<longrightarrow> heap m' z = heap m z"
    unfolding num_find_def by blast
  then have "num_delete m k destr = Some (True, if destr then [v] else [], m')"
    by (simp add: num_delete_def)
  moreover have "contents (xs @ ys) = (contents es)(k := None)"
    using num.remove_between(2) holds_map_sorted[OF assms] h(1) by simp
  ultimately show ?thesis using h Some by auto
qed

theorem num_delete_spec_witness:
  "case contents num_demo_entries 7 of
      None \<Rightarrow> num_delete num_demo 7 True = Some (False, [], num_demo)
    | Some v \<Rightarrow> \<exists>m' a xs ys. num_delete num_demo 7 True = Some (True, if True then [v] else [], m') \<and>
        num_demo_entries = xs @ (a, 7, v) # ys \<and> num_map m' (xs @ ys) \<and>
        contents (xs @ ys) = (contents num_demo_entries)(7 := None) \<and> heap m' a = None \<and>
        (\<forall>z. z \<notin> fst ` set num_demo_entries \<longrightarrow> heap m' z = heap num_demo z)"
  by (rule num_delete_spec[OF num_demo_map])

section \<open>Lookup\<close>

text \<open>
  C4. Looking up a string key returns the node that holds the key and its value, or NULL exactly
  when the key is not in the map.
\<close>

theorem string_get_spec:
  assumes "inj cval" and "string_map cval m es" and "string_ok cval k"
  shows "case contents es k of
      None \<Rightarrow> string_get cval m k = Some 0
    | Some v \<Rightarrow> \<exists>a n. string_get cval m k = Some a \<and> (a, k, v) \<in> set es \<and>
        deref m a = Some n \<and> node_key n = k \<and> node_value n = v"
proof (cases "contents es k")
  case None
  then show ?thesis
    using key_order.holds_absent[OF string_key_order[OF assms(1)] assms(2,3) None]
    by (auto simp: string_get_def string_find_def)
next
  case (Some v)
  from key_order.holds_present[OF string_key_order[OF assms(1)] assms(2,3) Some] obtain a s where
    "string_find cval m RootSlot k = Some \<lparr>pos_node = a, is_parent = False, parent_ptr = s\<rparr>"
    "(a, k, v) \<in> set es" unfolding string_find_def by blast
  then show ?thesis
    using holds_map_nodes(2)[OF assms(2)] Some by (fastforce simp: string_get_def)
qed

theorem string_get_spec_witness:
  "case contents demo_entries ''c'' of
      None \<Rightarrow> string_get char_unsigned demo ''c'' = Some 0
    | Some v \<Rightarrow> \<exists>a n. string_get char_unsigned demo ''c'' = Some a \<and> (a, ''c'', v) \<in> set demo_entries \<and>
        deref demo a = Some n \<and> node_key n = ''c'' \<and> node_value n = v"
  by (rule string_get_spec[OF inj_char_unsigned demo_map]) (simp add: char_unsigned_def)

text \<open>The same for the integer keys.\<close>

theorem num_get_spec:
  fixes m :: "('k::linorder, 'v) mem"
  assumes "num_map m es"
  shows "case contents es k of
      None \<Rightarrow> num_get m k = Some 0
    | Some v \<Rightarrow> \<exists>a n. num_get m k = Some a \<and> (a, k, v) \<in> set es \<and>
        deref m a = Some n \<and> node_key n = k \<and> node_value n = v"
proof (cases "contents es k")
  case None
  then show ?thesis
    using num.holds_absent[OF assms TrueI None] by (auto simp: num_get_def num_find_def)
next
  case (Some v)
  from num.holds_present[OF assms TrueI Some] obtain a s where
    "num_find m RootSlot k = Some \<lparr>pos_node = a, is_parent = False, parent_ptr = s\<rparr>"
    "(a, k, v) \<in> set es" unfolding num_find_def by blast
  then show ?thesis
    using holds_map_nodes(2)[OF assms] Some by (fastforce simp: num_get_def)
qed

theorem num_get_spec_witness:
  "case contents num_demo_entries 9 of
      None \<Rightarrow> num_get num_demo 9 = Some 0
    | Some v \<Rightarrow> \<exists>a n. num_get num_demo 9 = Some a \<and> (a, 9, v) \<in> set num_demo_entries \<and>
        deref num_demo a = Some n \<and> node_key n = 9 \<and> node_value n = v"
  by (rule num_get_spec[OF num_demo_map])

end
