(* ===== verification/MapTable.thy ===== *)
theory MapTable
  imports MapContract
begin

text \<open>
  The compiler's view of a string map: the class Table of src/global.h (its iteration, lookup of
  key and value, and \<open>clear\<close>), whole histories of insertions and deletions, and the self check.
\<close>

section \<open>Table\<close>

definition string_new_map :: addr where "string_new_map = NULL"

record Table = table :: addr

definition Table_first :: "('k, 'v) mem \<Rightarrow> Table \<Rightarrow> Table option" where
  "Table_first m t = do { p \<leftarrow> map_Min m (table t); Some \<lparr>table = p\<rparr> }"

definition Table_last :: "('k, 'v) mem \<Rightarrow> Table \<Rightarrow> Table option" where
  "Table_last m t = do { p \<leftarrow> map_Max m (table t); Some \<lparr>table = p\<rparr> }"

definition Table_inc :: "('k, 'v) mem \<Rightarrow> Table \<Rightarrow> Table option" where
  "Table_inc m t = do { p \<leftarrow> iter_up m (table t); Some (t\<lparr>table := p\<rparr>) }"

definition Table_dec :: "('k, 'v) mem \<Rightarrow> Table \<Rightarrow> Table option" where
  "Table_dec m t = do { p \<leftarrow> iter_down m (table t); Some (t\<lparr>table := p\<rparr>) }"

definition Table_bool :: "Table \<Rightarrow> bool" where
  "Table_bool t \<longleftrightarrow> table t \<noteq> NULL"

definition getKey :: "('k, 'v) mem \<Rightarrow> Table \<Rightarrow> 'k option" where
  "getKey m t = map_option node_key (deref m (table t))"

definition getValue :: "('k, 'v) mem \<Rightarrow> Table \<Rightarrow> 'v option" where
  "getValue m t = map_option node_value (deref m (table t))"

definition Table_clear :: "('k, 'v) mem \<Rightarrow> Table \<Rightarrow> bool \<Rightarrow> ('v list \<times> Table \<times> ('k, 'v) mem) option" where
  "Table_clear m t destr = do {
     (d, m) \<leftarrow> destroy m (table t) destr;
     Some (d, t\<lparr>table := string_new_map\<rparr>, m) }"

text \<open>\<open>for (Table it = t.first(); it; ++it)\<close>, collecting what the body sees, and the loop downwards.\<close>

partial_function (option) for_up :: "('k, 'v) mem \<Rightarrow> Table \<Rightarrow> ('k \<times> 'v) list option" where
  "for_up m it =
     (if Table_bool it
      then do { k \<leftarrow> getKey m it; v \<leftarrow> getValue m it; it \<leftarrow> Table_inc m it;
                rest \<leftarrow> for_up m it; Some ((k, v) # rest) }
      else Some [])"

partial_function (option) for_down :: "('k, 'v) mem \<Rightarrow> Table \<Rightarrow> ('k \<times> 'v) list option" where
  "for_down m it =
     (if Table_bool it
      then do { k \<leftarrow> getKey m it; v \<leftarrow> getValue m it; it \<leftarrow> Table_dec m it;
                rest \<leftarrow> for_down m it; Some ((k, v) # rest) }
      else Some [])"

declare for_up.simps [code] for_down.simps [code]

definition key_values :: "('k, 'v) entry list \<Rightarrow> ('k \<times> 'v) list" where
  "key_values es = map (\<lambda>e. (ekey e, eval_of e)) es"

lemma entry_at:
  assumes "map_at m t" and "e \<in> set (elems t)"
  shows "fst e \<noteq> 0" and "\<exists>n. deref m (fst e) = Some n \<and> node_key n = ekey e \<and> node_value n = eval_of e"
proof -
  obtain a k v where e: "e = (a, k, v)" by (cases e)
  obtain xs ys where "elems t = xs @ (a, k, v) # ys" using assms(2) e by (meson split_list)
  from at_position[OF this] obtain cs l b r where "t = plug cs (Nd l (a, k, v) b r)" by blast
  from map_at_deref[OF assms(1)[unfolded this]] e
  show "fst e \<noteq> 0" "\<exists>n. deref m (fst e) = Some n \<and> node_key n = ekey e \<and> node_value n = eval_of e"
    by simp_all
qed

lemma for_up_at:
  assumes "map_at m t" and "elems t = xs @ ys"
  shows "for_up m \<lparr>table = first_addr ys\<rparr> = Some (key_values ys)"
  using assms
proof (induction ys arbitrary: xs)
  case Nil
  then show ?case by (simp add: for_up.simps Table_bool_def key_values_def)
next
  case (Cons e ys)
  have e: "e \<in> set (elems t)" using Cons.prems(2) by simp
  have "for_up m \<lparr>table = first_addr ys\<rparr> = Some (key_values ys)"
    by (rule Cons.IH[of "xs @ [e]"]) (use Cons.prems in simp_all)
  then show ?case
    using entry_at[OF Cons.prems(1) e] iter_up_at[OF Cons.prems]
    by (subst for_up.simps) (auto simp: Table_bool_def getKey_def getValue_def Table_inc_def key_values_def)
qed

lemma for_down_at:
  assumes "map_at m t" and "elems t = xs @ ys"
  shows "for_down m \<lparr>table = last_addr xs\<rparr> = Some (key_values (rev xs))"
  using assms
proof (induction xs arbitrary: ys rule: rev_induct)
  case Nil
  then show ?case by (simp add: for_down.simps Table_bool_def key_values_def)
next
  case (snoc e xs)
  have e: "e \<in> set (elems t)" using snoc.prems(2) by simp
  have "for_down m \<lparr>table = last_addr xs\<rparr> = Some (key_values (rev xs))"
    by (rule snoc.IH[of "e # ys"]) (use snoc.prems in simp_all)
  moreover have "iter_down m (fst e) = Some (last_addr xs)"
    by (rule iter_down_at[OF snoc.prems(1)]) (use snoc.prems(2) in simp)
  ultimately show ?case
    using entry_at[OF snoc.prems(1) e]
    by (subst for_down.simps) (auto simp: Table_bool_def getKey_def getValue_def Table_dec_def key_values_def)
qed

text \<open>
  C5. A loop over a Table, from \<open>first()\<close> with \<open>++\<close> or from \<open>last()\<close> with \<open>--\<close>, ends, and its
  body sees every entry exactly once, in ascending (descending) key order.
\<close>

theorem Table_iteration:
  assumes "holds_map cmp ok m es"
  shows "Option.bind (Table_first m \<lparr>table = root m\<rparr>) (for_up m) = Some (key_values es) \<and>
    Option.bind (Table_last m \<lparr>table = root m\<rparr>) (for_down m) = Some (rev (key_values es))"
proof -
  obtain t where t: "map_at m t" "elems t = es" using assms by (auto simp: holds_map_def map_inv_def)
  have "Option.bind (Table_first m \<lparr>table = root m\<rparr>) (for_up m) = Some (key_values es)"
    using map_Min_at[OF t(1)] for_up_at[OF t(1), of "[]" es] t(2) by (simp add: Table_first_def)
  moreover have "Option.bind (Table_last m \<lparr>table = root m\<rparr>) (for_down m) = Some (rev (key_values es))"
    using map_Max_at[OF t(1)] for_down_at[OF t(1), of es "[]"] t(2)
    by (simp add: Table_last_def key_values_def rev_map)
  ultimately show ?thesis ..
qed

theorem Table_iteration_witness:
  "Option.bind (Table_first demo \<lparr>table = root demo\<rparr>) (for_up demo) =
    Some [(''a'', 1), (''b'', 2), (''c'', 3)] \<and>
   Option.bind (Table_last demo \<lparr>table = root demo\<rparr>) (for_down demo) =
    Some [(''c'', 3), (''b'', 2), (''a'', 1)]"
  using Table_iteration[OF demo_map] by (simp add: key_values_def demo_entries_def)

text \<open>
  C6. \<open>clear\<close> frees every node of the map and nothing else, calls \<open>destruct\<close> (when given) exactly
  once on each value, and leaves the empty map.
\<close>

theorem Table_clear_spec:
  assumes "holds_map cmp ok m es"
  shows "\<exists>d m'. Table_clear m \<lparr>table = root m\<rparr> destr = Some (d, \<lparr>table = string_new_map\<rparr>, m') \<and>
    heap m' = heap m |` (- fst ` set es) \<and> mset d = (if destr then mset (map eval_of es) else {#})"
proof -
  obtain t where t: "map_at m t" "elems t = es" using assms by (auto simp: holds_map_def map_inv_def)
  have "fst ` set es = set (addrs t)" using t(2) by (simp add: addrs_def)
  with destroy_at[OF t(1), of destr] t(2) show ?thesis
    by (auto simp: Table_clear_def mset_post_order)
qed

theorem Table_clear_spec_witness:
  "\<exists>d m'. Table_clear demo \<lparr>table = root demo\<rparr> True = Some (d, \<lparr>table = string_new_map\<rparr>, m') \<and>
    heap m' = heap demo |` (- fst ` set demo_entries) \<and>
    mset d = (if True then mset (map eval_of demo_entries) else {#})"
  by (rule Table_clear_spec[OF demo_map])

section \<open>Histories\<close>

text \<open>
  A client that inserts (with \<open>*target\<close> NULL) and deletes string keys, one request after the other.
  \<open>malloc\<close> is the address the allocator returns for a node, given what is allocated.
\<close>

datatype 'v request = Insert string 'v | Delete string

fun serve :: "(char \<Rightarrow> int) \<Rightarrow> ((string, 'v) nodes \<Rightarrow> addr) \<Rightarrow> (string, 'v) mem \<Rightarrow> 'v request list
    \<Rightarrow> (string, 'v) mem option" where
  "serve cval malloc m [] = Some m"
| "serve cval malloc m (Insert k v # rs) = do {
     (_, _, m) \<leftarrow> string_tag_insert cval m (malloc (heap m)) k v TNull;
     serve cval malloc m rs }"
| "serve cval malloc m (Delete k # rs) = do {
     (_, _, m) \<leftarrow> string_delete cval m k False;
     serve cval malloc m rs }"

text \<open>What the requests mean for a finite map.\<close>

fun meaning :: "'v request list \<Rightarrow> (string \<rightharpoonup> 'v) \<Rightarrow> (string \<rightharpoonup> 'v)" where
  "meaning [] f = f"
| "meaning (Insert k v # rs) f = meaning rs (if k \<in> dom f then f else f(k \<mapsto> v))"
| "meaning (Delete k # rs) f = meaning rs (f(k := None))"

fun request_key :: "'v request \<Rightarrow> string" where
  "request_key (Insert k v) = k"
| "request_key (Delete k) = k"

text \<open>The memory of the process: the map, and the nodes \<open>h\<close> that belong to others.\<close>

definition owns :: "(char \<Rightarrow> int) \<Rightarrow> (string, 'v) nodes \<Rightarrow> (string, 'v) mem \<Rightarrow> (string, 'v) entry list \<Rightarrow> bool" where
  "owns cval h m es \<longleftrightarrow> string_map cval m es \<and>
     (\<forall>z. if z \<in> fst ` set es then h z = None else heap m z = h z)"

lemma owns_dom:
  assumes "owns cval h m es"
  shows "dom (heap m) = dom h \<union> fst ` set es" and "finite (dom h) \<Longrightarrow> finite (dom (heap m))"
proof -
  have sm: "string_map cval m es" using assms by (simp add: owns_def)
  have "heap m z \<noteq> None" if z: "z \<in> fst ` set es" for z
  proof -
    obtain e where e: "e \<in> set es" "z = fst e" using z by blast
    obtain k v where "e = (z, k, v)" using e(2) by (cases e) simp
    from holds_map_nodes[OF sm, of z k v] e(1) this show ?thesis
      by (auto simp: deref_def split: if_splits)
  qed
  moreover have "heap m z = h z" if "z \<notin> fst ` set es" for z
    using assms that by (simp add: owns_def)
  moreover have "h z = None" if "z \<in> fst ` set es" for z
    using assms that by (simp add: owns_def)
  ultimately have "z \<in> dom (heap m) \<longleftrightarrow> z \<in> dom h \<union> fst ` set es" for z by (metis UnCI UnE domIff)
  then show "dom (heap m) = dom h \<union> fst ` set es" by blast
  then show "finite (dom h) \<Longrightarrow> finite (dom (heap m))" by simp
qed

lemma owns_insert:
  assumes "inj cval" "owns cval h m es" "string_ok cval k" "contents es k = None"
    and new: "new \<noteq> 0" "new \<notin> dom (heap m)"
  shows "\<exists>m' es'. string_tag_insert cval m new k v tgt = Some (new, TNull, m') \<and> owns cval h m' es' \<and>
    contents es' = (contents es)(k \<mapsto> v)"
proof -
  have sm: "string_map cval m es" and n: "heap m new = None" using assms(2) new by (auto simp: owns_def)
  note ko = string_key_order[OF assms(1)]
  from key_order.holds_insert[OF ko sm assms(3,4) new(1) n, of v] obtain p s m1 m' xs ys where
    f: "string_find cval m RootSlot k = Some \<lparr>pos_node = p, is_parent = True, parent_ptr = s\<rparr>"
      "new_node m new k v = Some m1" "insert_priv m1 new p s = Some m'"
    and h: "es = xs @ ys" "string_map cval m' (xs @ (new, k, v) # ys)"
      "\<forall>z. z \<notin> fst ` set es \<union> {new} \<longrightarrow> heap m' z = heap m z"
    unfolding string_find_def by blast
  have r: "string_tag_insert cval m new k v tgt = Some (new, TNull, m')"
    using f by (simp add: string_tag_insert_def)
  have c: "contents (xs @ (new, k, v) # ys) = (contents es)(k \<mapsto> v)"
    using key_order.contents_between(1)[OF ko holds_map_sorted[OF h(2)]] h(1) by simp
  have n': "h new = None" "fst ` set (xs @ (new, k, v) # ys) = insert new (fst ` set es)"
    using owns_dom(1)[OF assms(2)] new(2) h(1) by auto
  have "owns cval h m' (xs @ (new, k, v) # ys)"
    unfolding owns_def n'(2) using h(2,3) assms(2) n'(1) by (simp add: owns_def)
  with r c show ?thesis by blast
qed


lemma owns_delete:
  assumes "inj cval" "owns cval h m es" "string_ok cval k"
  shows "\<exists>r d m' es'. string_delete cval m k destr = Some (r, d, m') \<and> owns cval h m' es' \<and>
    contents es' = (contents es)(k := None)"
proof (cases "contents es k")
  case None
  have sm: "string_map cval m es" using assms(2) by (simp add: owns_def)
  have "string_delete cval m k destr = Some (False, [], m)"
    using key_order.holds_absent[OF string_key_order[OF assms(1)] sm assms(3) None]
    by (auto simp: string_delete_def string_find_def)
  moreover have "contents es = (contents es)(k := None)" using None by auto
  ultimately show ?thesis using assms(2) by blast
next
  case (Some v)
  have sm: "string_map cval m es" using assms(2) by (simp add: owns_def)
  note ko = string_key_order[OF assms(1)]
  from key_order.holds_delete[OF ko sm assms(3) Some, of destr] obtain a s m' xs ys where
    f: "string_find cval m RootSlot k = Some \<lparr>pos_node = a, is_parent = False, parent_ptr = s\<rparr>"
      "delete_priv m a destr = Some (if destr then [v] else [], m')"
    and h: "es = xs @ (a, k, v) # ys" "string_map cval m' (xs @ ys)" "heap m' a = None"
      "\<forall>z. z \<notin> fst ` set es \<longrightarrow> heap m' z = heap m z"
    unfolding string_find_def by blast
  have r: "string_delete cval m k destr = Some (True, if destr then [v] else [], m')"
    using f by (simp add: string_delete_def)
  have c: "contents (xs @ ys) = (contents es)(k := None)"
    using key_order.remove_between(2)[OF ko] holds_map_sorted[OF sm] h(1) by simp
  have "a \<notin> fst ` set (xs @ ys)"
  proof
    assume "a \<in> fst ` set (xs @ ys)"
    then obtain e where e: "e \<in> set (xs @ ys)" "a = fst e" by blast
    obtain k' v' where "e = (a, k', v')" using e(2) by (cases e) simp
    from holds_map_nodes[OF h(2), of a k' v'] e(1) this h(3) show False
      by (auto simp: deref_def split: if_splits)
  qed
  then have "fst ` set (xs @ ys) = fst ` set es - {a}" using h(1) by auto
  moreover have "h a = None" "a \<in> fst ` set es" using assms(2) h(1) by (auto simp: owns_def)
  ultimately have "owns cval h m' (xs @ ys)"
    unfolding owns_def using h(2,3,4) assms(2) by (simp add: owns_def) (metis)
  with r c show ?thesis by blast
qed

lemma serve_owns:
  assumes "inj cval" and "\<And>h. finite (dom h) \<Longrightarrow> malloc h \<noteq> 0 \<and> malloc h \<notin> dom h" and "finite (dom h)"
    and "owns cval h m es" and "\<forall>r \<in> set rs. string_ok cval (request_key r)"
  shows "\<exists>m' es'. serve cval malloc m rs = Some m' \<and> owns cval h m' es' \<and>
    contents es' = meaning rs (contents es)"
  using assms(4,5)
proof (induction rs arbitrary: m es)
  case Nil
  then show ?case by auto
next
  case (Cons r rs)
  have fm: "finite (dom (heap m))" by (rule owns_dom(2)[OF Cons.prems(1) assms(3)])
  show ?case
  proof (cases r)
    case (Insert k v)
    have k: "string_ok cval k" using Cons.prems(2) Insert by simp
    show ?thesis
    proof (cases "contents es k")
      case None
      from owns_insert[OF assms(1) Cons.prems(1) k None] assms(2)[OF fm] obtain m1 es1 where
        s: "string_tag_insert cval m (malloc (heap m)) k v TNull = Some (malloc (heap m), TNull, m1)"
          "owns cval h m1 es1" "contents es1 = (contents es)(k \<mapsto> v)" by blast
      have "meaning (r # rs) (contents es) = meaning rs (contents es1)"
        unfolding s(3) using Insert None by (simp add: domIff)
      with Cons.IH[OF s(2)] Cons.prems(2) s(1) Insert show ?thesis by auto
    next
      case (Some w)
      have sm: "string_map cval m es" using Cons.prems(1) by (simp add: owns_def)
      from key_order.holds_present[OF string_key_order[OF assms(1)] sm k Some] obtain a s where
        "string_find cval m RootSlot k = Some \<lparr>pos_node = a, is_parent = False, parent_ptr = s\<rparr>"
        unfolding string_find_def by blast
      then have "string_tag_insert cval m (malloc (heap m)) k v TNull = Some (a, TExists, m)"
        by (simp add: string_tag_insert_def)
      then show ?thesis using Cons.IH[OF Cons.prems(1)] Cons.prems(2) Insert Some by (auto simp: domIff)
    qed
  next
    case (Delete k)
    have k: "string_ok cval k" using Cons.prems(2) Delete by simp
    from owns_delete[OF assms(1) Cons.prems(1) k, of False] obtain b d m1 es1 where
      s: "string_delete cval m k False = Some (b, d, m1)" "owns cval h m1 es1"
        "contents es1 = (contents es)(k := None)" by blast
    have "meaning (r # rs) (contents es) = meaning rs (contents es1)"
      unfolding s(3) using Delete by simp
    with Cons.IH[OF s(2)] Cons.prems(2) s(1) Delete show ?thesis by auto
  qed
qed

text \<open>
  C7. Any history of insertions and deletions of string keys, from the empty map and with any
  allocator that returns fresh non-null addresses, runs to its end; the final map holds exactly
  what the history means, in key order and balanced; clearing it gives the memory back as it was,
  so nothing leaks and nothing foreign is touched.
\<close>

theorem history_correct:
  assumes "inj cval" and "\<And>h. finite (dom h) \<Longrightarrow> malloc h \<noteq> 0 \<and> malloc h \<notin> dom h" and "finite (dom h)"
    and "\<forall>r \<in> set rs. string_ok cval (request_key r)"
  shows "\<exists>m es d m'. serve cval malloc \<lparr>heap = h, root = string_new_map\<rparr> rs = Some m \<and>
    string_map cval m es \<and> contents es = meaning rs Map.empty \<and>
    Table_clear m \<lparr>table = root m\<rparr> True = Some (d, \<lparr>table = string_new_map\<rparr>, m') \<and> heap m' = h"
proof -
  have "owns cval h \<lparr>heap = h, root = string_new_map\<rparr> []"
    by (simp add: owns_def holds_map_empty string_new_map_def)
  from serve_owns[OF assms(1-3) this assms(4)] obtain m es where
    s: "serve cval malloc \<lparr>heap = h, root = string_new_map\<rparr> rs = Some m" "owns cval h m es"
      "contents es = meaning rs Map.empty" by auto
  have sm: "string_map cval m es" using s(2) by (simp add: owns_def)
  then obtain t where t: "map_at m t" "elems t = es" by (auto simp: holds_map_def map_inv_def)
  obtain m' where m': "destroy m (root m) True = Some (post_order t, m')"
    "heap m' = heap m |` (- set (addrs t))" using destroy_at[OF t(1), of True] by auto
  have "heap m' = h"
    using m'(2) s(2) t(2) by (fastforce simp: owns_def addrs_def restrict_map_def)
  with s sm m'(1) show ?thesis by (auto simp: Table_clear_def)
qed

text \<open>An allocator as the theorem wants it.\<close>

definition bump :: "(addr \<rightharpoonup> 'n) \<Rightarrow> addr" where
  "bump h = 8 * Suc (Max (insert 0 (dom h)))"

lemma bump_fresh: "finite (dom h) \<Longrightarrow> bump h \<noteq> 0 \<and> bump h \<notin> dom h"
proof -
  assume f: "finite (dom h)"
  have "x < bump h" if "x \<in> dom h" for x
  proof -
    have "x \<le> Max (insert 0 (dom h))" using f that by simp
    then show ?thesis by (simp add: bump_def)
  qed
  then show ?thesis by (auto simp: bump_def)
qed

theorem history_correct_witness:
  "\<exists>m es d m'. serve char_unsigned bump \<lparr>heap = Map.empty, root = string_new_map\<rparr>
      [Insert ''b'' (1::nat), Insert ''a'' 2, Delete ''b''] = Some m \<and>
    string_map char_unsigned m es \<and> contents es = [''a'' \<mapsto> 2] \<and>
    Table_clear m \<lparr>table = root m\<rparr> True = Some (d, \<lparr>table = string_new_map\<rparr>, m') \<and> heap m' = Map.empty"
proof -
  have m: "meaning [Insert ''b'' (1::nat), Insert ''a'' 2, Delete ''b''] Map.empty = [''a'' \<mapsto> 2]"
    by (auto simp: fun_eq_iff)
  show ?thesis
    using history_correct[OF inj_char_unsigned, of bump Map.empty
        "[Insert ''b'' (1::nat), Insert ''a'' 2, Delete ''b'']", unfolded m]
    by (simp add: bump_fresh char_unsigned_def)
qed


section \<open>Self check\<close>

text \<open>
  C8. On every string map the self check prints nothing and returns the height of the tree, and a
  map of height \<open>h\<close> has at least \<open>2^(h/2) - 1\<close> entries: searching, inserting and deleting take
  logarithmically many steps.
\<close>

theorem check_passes:
  assumes "string_map char_unsigned m es"
  shows "\<exists>d. check_avl_get_depth m (root m) = Some (int d, []) \<and> 2 ^ (d div 2) \<le> length es + 1"
proof -
  obtain t where t: "map_at m t" "avl t" "elems t = es"
      "key_sorted (string_dir char_unsigned) (string_ok char_unsigned) (elems t)"
    using assms by (auto simp: holds_map_def map_inv_def)
  obtain cs where cs: "check_avl_get_depth m (top_of t) = Some (int (height t), cs)"
    "cs = [] \<longleftrightarrow> avl t \<and> heap_order t" using check_at[of m 0 t] t(1) by (auto simp: map_at_def)
  then have "check_avl_get_depth m (root m) = Some (int (height t), [])"
    using t(1,2) sorted_heap_order[OF t(4)] by (simp add: map_at_def)
  then show ?thesis using avl_height[OF t(2)] t(3) by blast
qed

theorem check_passes_witness:
  "\<exists>d. check_avl_get_depth demo (root demo) = Some (int d, []) \<and> 2 ^ (d div 2) \<le> length demo_entries + 1"
  by (rule check_passes[OF demo_map])



section \<open>Where the code falls short\<close>

text \<open>
  With a signed \<open>char\<close> the comparison of \<open>string_find\<close> is not an order: of two strings where
  one is the other followed by a byte of at least 0x80, each is greater than the other. A map then
  loses keys: after inserting three different keys the first one is not found. With an unsigned
  \<open>char\<close> the same calls find it.
\<close>

definition umlaut_key :: string where
  "umlaut_key = [CHR ''a'', CHR 0xC3, CHR 0xA4]"

definition three_keys :: "(char \<Rightarrow> int) \<Rightarrow> (string, nat) mem option" where
  "three_keys cval = do {
     (_, _, m) \<leftarrow> string_tag_insert cval \<lparr>heap = Map.empty, root = string_new_map\<rparr> 8 umlaut_key 1 TNull;
     (_, _, m) \<leftarrow> string_tag_insert cval m 16 ''a'' 2 TNull;
     (_, _, m) \<leftarrow> string_tag_insert cval m 24 ''b'' 3 TNull;
     Some m }"

theorem signed_char_loses_key:
  "string_dir char_signed umlaut_key ''a'' = GoRight \<and> string_dir char_signed ''a'' umlaut_key = GoRight \<and>
   Option.bind (three_keys char_signed) (\<lambda>m. string_get char_signed m umlaut_key) = Some 0 \<and>
   Option.bind (three_keys char_unsigned) (\<lambda>m. string_get char_unsigned m umlaut_key) = Some 8"
  by code_simp


text \<open>
  The insertions for integer keys write through \<open>target\<close> on every path, so a call with a
  null \<open>target\<close>, which the table of return values documents, never returns.
\<close>

theorem num_insert_needs_target:
  fixes m :: "('k::linorder, 'v) mem"
  assumes "num_map m es"
  shows "num_insert m new k v None = None"
proof (cases "contents es k")
  case None
  then show ?thesis using num.holds_absent[OF assms TrueI None]
    by (auto simp: num_insert_def num_find_def bind_eq_None_conv split: option.splits)
next
  case (Some w)
  then show ?thesis using num.holds_present[OF assms TrueI Some]
    by (auto simp: num_insert_def num_find_def)
qed

theorem num_insert_needs_target_witness: "num_insert num_demo 32 7 4 None = None"
  by (rule num_insert_needs_target[OF num_demo_map])

end
