(* ===== verification/MapLayout.thy ===== *)
theory MapLayout
  imports Prelude
begin

text \<open>
  What MapHeap takes for granted about the representation of a node: the word that holds the parent
  pointer together with the balance factor, and the block of bytes that holds the key, the tag and
  the value of a node, with the sizes and offsets the code computes for them.
\<close>

section \<open>The word of parent and balance factor\<close>

text \<open>
  \<open>PARENT\<close> and \<open>SET_PARENT\<close> as the macros of map.cc write them, and the bit fields \<open>bf\<close> and
  \<open>u_bf\<close>: the low two bits of the word, signed and unsigned.
\<close>

definition word_PARENT :: "u64 \<Rightarrow> u64" where
  "word_PARENT w = w AND NOT 3"

definition word_u_bf :: "u64 \<Rightarrow> u64" where
  "word_u_bf w = w AND 3"

definition word_SET_PARENT :: "u64 \<Rightarrow> u64 \<Rightarrow> u64" where
  "word_SET_PARENT w p = p OR word_u_bf w"

definition word_bf :: "u64 \<Rightarrow> int" where
  "word_bf w = sint (ucast w :: 2 word)"

definition word_set_bf :: "u64 \<Rightarrow> int \<Rightarrow> u64" where
  "word_set_bf w b = (w AND NOT 3) OR ucast (word_of_int b :: 2 word)"

lemma three_mask: "(3 :: u64) = mask 2"
  by (simp add: mask_eq_exp_minus_1)

text \<open>The bits of the four operations.\<close>

lemma bit_packed:
  "bit (word_PARENT w) n \<longleftrightarrow> bit w n \<and> 2 \<le> n"
  "bit (word_SET_PARENT w p) n \<longleftrightarrow> bit p n \<or> bit w n \<and> n < 2"
  "bit (word_set_bf w b) n \<longleftrightarrow> (if n < 2 then bit b n else bit w n)"
proof -
  show "bit (word_PARENT w) n \<longleftrightarrow> bit w n \<and> 2 \<le> n"
    unfolding word_PARENT_def three_mask by (auto simp: bit_simps dest: bit_imp_le_length)
  show "bit (word_SET_PARENT w p) n \<longleftrightarrow> bit p n \<or> bit w n \<and> n < 2"
    unfolding word_SET_PARENT_def word_u_bf_def three_mask by (auto simp: bit_simps)
  show "bit (word_set_bf w b) n \<longleftrightarrow> (if n < 2 then bit b n else bit w n)"
    unfolding word_set_bf_def three_mask by (auto simp: bit_simps dest: bit_imp_le_length)
qed

lemma low_bits_zero:
  assumes "p AND 3 = (0 :: u64)" and "bit p n"
  shows "2 \<le> n"
proof (rule ccontr)
  assume "\<not> 2 \<le> n"
  then have "bit (p AND mask 2) n" using assms(2) by (simp add: bit_simps)
  then show False using assms(1) by (simp add: three_mask)
qed

lemma word_bf_cong: "(\<And>n. n < 2 \<Longrightarrow> bit w n = bit v n) \<Longrightarrow> word_bf w = word_bf v"
proof -
  assume "\<And>n. n < 2 \<Longrightarrow> bit w n = bit v n"
  then have "(ucast w :: 2 word) = ucast v" by (intro bit_word_eqI) (simp add: bit_simps)
  then show ?thesis by (simp add: word_bf_def)
qed

text \<open>
  Sharing one word is safe: for a pointer aligned to 4 bytes, \<open>SET_PARENT\<close> followed by
  \<open>PARENT\<close> gives the pointer back and keeps the balance factor, and writing a balance factor
  between -2 and 1 gives it back and keeps the parent.
\<close>

theorem packed_parent:
  assumes "p AND 3 = 0" and "-2 \<le> b" and "b \<le> 1"
  shows "word_PARENT (word_SET_PARENT w p) = p \<and> word_bf (word_SET_PARENT w p) = word_bf w \<and>
    word_bf (word_set_bf w b) = b \<and> word_PARENT (word_set_bf w b) = word_PARENT w"
proof (intro conjI)
  note low = low_bits_zero[OF assms(1)]
  show "word_PARENT (word_SET_PARENT w p) = p"
    by (rule bit_word_eqI) (auto simp: bit_packed dest: low)
  show "word_bf (word_SET_PARENT w p) = word_bf w"
    by (rule word_bf_cong) (auto simp: bit_packed dest: low)
  have "b \<in> {-2, -1, 0, 1}" using assms(2,3) by auto
  then have "sint (word_of_int b :: 2 word) = b" by auto
  moreover have "(ucast (word_set_bf w b) :: 2 word) = word_of_int b"
    by (rule bit_word_eqI) (simp add: bit_packed bit_simps)
  ultimately show "word_bf (word_set_bf w b) = b" by (simp add: word_bf_def)
  show "word_PARENT (word_set_bf w b) = word_PARENT w"
    by (rule bit_word_eqI) (auto simp: bit_packed)
qed

theorem packed_parent_witness:
  "word_PARENT (word_SET_PARENT 0x1003 0x2000) = 0x2000 \<and>
   word_bf (word_SET_PARENT 0x1003 0x2000) = word_bf 0x1003 \<and>
   word_bf (word_set_bf 0x1003 1) = 1 \<and> word_PARENT (word_set_bf 0x1003 1) = word_PARENT 0x1003"
  by (rule packed_parent) simp_all


section \<open>The block of a node\<close>

text \<open>
  Memory as a list of bytes; an access outside the block is \<open>None\<close>. In a Node of a 64-bit target
  the value field is at offset 24, the key at offset 32, and the struct takes 40 bytes.
\<close>

type_synonym bytes = "u8 list"

definition read_bytes :: "bytes \<Rightarrow> nat \<Rightarrow> nat \<Rightarrow> bytes option" where
  "read_bytes buf off n = (if off + n \<le> length buf then Some (take n (drop off buf)) else None)"

definition write_bytes :: "nat \<Rightarrow> bytes \<Rightarrow> bytes \<Rightarrow> bytes option" where
  "write_bytes off bs buf =
     (if off + length bs \<le> length buf then Some (take off buf @ bs @ drop (off + length bs) buf) else None)"

fun strlen :: "bytes \<Rightarrow> nat option" where
  "strlen [] = None"
| "strlen (b # bs) = (if b = 0 then Some 0 else map_option Suc (strlen bs))"

definition c_string :: "bytes \<Rightarrow> nat \<Rightarrow> bytes option" where
  "c_string buf off = do { n \<leftarrow> strlen (drop off buf); read_bytes buf off n }"

definition le_bytes :: "u32 \<Rightarrow> bytes" where
  "le_bytes w = map (\<lambda>i. ucast (drop_bit (8 * i) w)) [0, 1, 2, 3]"

definition from_le_bytes :: "bytes \<Rightarrow> u32" where
  "from_le_bytes bs = foldr (\<lambda>b w. push_bit 8 w OR ucast b) bs 0"

text \<open>The rounding of the length of the key, and the size \<open>malloc\<close> is asked for.\<close>

definition key_space :: "u32 \<Rightarrow> u32 \<Rightarrow> bool \<Rightarrow> u32" where
  "key_space len value_size use_tag =
     (let keylen = len + 1 in
      if use_tag then
        (if value_size \<ge> 4 then push_bit 3 (drop_bit 3 (keylen + 7)) else keylen)
      else if value_size \<ge> 8 then push_bit 3 (drop_bit 3 (keylen + 7))
      else if value_size \<ge> 4 then push_bit 2 (drop_bit 2 (keylen + 3))
      else if value_size \<ge> 2 then push_bit 1 (drop_bit 1 (keylen + 1))
      else keylen)"

definition node_size :: "u32 \<Rightarrow> u32 \<Rightarrow> bool \<Rightarrow> u64" where
  "node_size keylen value_size use_tag =
     (if use_tag
      then (if keylen + value_size \<le> 4 then 40 else 40 + ucast keylen - 4 + ucast value_size)
      else (if keylen + value_size \<le> 8 then 40 else 40 + ucast keylen - 8 + ucast value_size))"

datatype value_field = Placed u32 u32 | Inline u64

text \<open>
  \<open>string_tag_new_node\<close>: \<open>key\<close> is the memory from the key pointer to the end of its buffer, \<open>src\<close>
  the memory at \<open>value.src_ptr\<close>, \<open>garbage\<close> what \<open>malloc\<close> leaves in the block.
\<close>

definition string_tag_new_node ::
  "(nat \<Rightarrow> u8) \<Rightarrow> bytes \<Rightarrow> u32 \<Rightarrow> u64 \<Rightarrow> bytes \<Rightarrow> u32 \<Rightarrow> bool \<Rightarrow> (bytes \<times> value_field) option" where
  "string_tag_new_node garbage key tag value src value_size use_tag = do {
     len \<leftarrow> strlen key;
     let keylen = key_space (of_nat len) value_size use_tag;
     let blk = map garbage [0..<unat (node_size keylen value_size use_tag)];
     kb \<leftarrow> read_bytes key 0 (unat keylen);
     blk \<leftarrow> write_bytes 32 kb blk;
     let val_ptr = 32 + unat keylen;
     if use_tag then do {
       blk \<leftarrow> write_bytes val_ptr (le_bytes tag) blk;
       blk \<leftarrow> (if value_size \<noteq> 0
              then do { vb \<leftarrow> read_bytes src 0 (unat value_size); write_bytes (val_ptr + 4) vb blk }
              else Some blk);
       Some (blk, Placed (of_nat (val_ptr - 24)) (value_size + 4)) }
     else if value_size \<noteq> 0 then do {
       vb \<leftarrow> read_bytes src 0 (unat value_size);
       blk \<leftarrow> write_bytes val_ptr vb blk;
       Some (blk, Placed (of_nat (val_ptr - 24)) value_size) }
     else Some (blk, Inline value) }"

text \<open>\<open>typ_new_node\<close> of \<open>DEFINE_NEW_NODE_FOR\<close>, for an 8-byte key.\<close>

definition num_new_node ::
  "(nat \<Rightarrow> u8) \<Rightarrow> bytes \<Rightarrow> u64 \<Rightarrow> bytes \<Rightarrow> u32 \<Rightarrow> (bytes \<times> value_field) option" where
  "num_new_node garbage key value src value_size = do {
     let blk = map garbage [0..<unat (40 + ucast value_size :: u64)];
     blk \<leftarrow> write_bytes 32 key blk;
     if value_size \<noteq> 0 then do {
       vb \<leftarrow> read_bytes src 0 (unat value_size);
       blk \<leftarrow> write_bytes 40 vb blk;
       Some (blk, Placed 16 value_size) }
     else Some (blk, Inline value) }"

subsection \<open>Reading what was written\<close>

lemma write_bytes_props:
  assumes "write_bytes off bs buf = Some buf'"
  shows "length buf' = length buf" and "read_bytes buf' off (length bs) = Some bs"
    and "a + n \<le> off \<or> off + length bs \<le> a \<Longrightarrow> read_bytes buf' a n = read_bytes buf a n"
proof -
  have l: "off + length bs \<le> length buf" and b: "buf' = take off buf @ bs @ drop (off + length bs) buf"
    using assms by (auto simp: write_bytes_def split: if_splits)
  show len: "length buf' = length buf" using l b by simp
  show "read_bytes buf' off (length bs) = Some bs" using l b by (simp add: read_bytes_def)
  assume "a + n \<le> off \<or> off + length bs \<le> a"
  then show "read_bytes buf' a n = read_bytes buf a n"
  proof
    assume "a + n \<le> off"
    then have "take n (drop a buf') = take n (drop a buf)"
      using l b by (intro nth_equalityI) (auto simp: nth_append)
    then show ?thesis using len by (simp add: read_bytes_def)
  next
    assume "off + length bs \<le> a"
    then have "drop a buf' = drop a buf"
      using l b by (intro nth_equalityI) (auto simp: nth_append)
    then show ?thesis using len by (simp add: read_bytes_def)
  qed
qed

lemma write_bytes_Some: "off + length bs \<le> length buf \<Longrightarrow> \<exists>buf'. write_bytes off bs buf = Some buf'"
  by (simp add: write_bytes_def)

lemma strlen_spec: "strlen buf = Some n \<Longrightarrow> n < length buf \<and> buf ! n = 0 \<and> 0 \<notin> set (take n buf)"
proof (induction buf arbitrary: n)
  case (Cons b bs)
  then show ?case by (cases "b = 0") (auto split: option.splits)
qed simp

lemma strlen_unique:
  "n < length buf \<Longrightarrow> buf ! n = 0 \<Longrightarrow> 0 \<notin> set (take n buf) \<Longrightarrow> strlen buf = Some n"
proof (induction buf arbitrary: n)
  case (Cons b bs)
  then show ?case by (cases n) auto
qed simp

text \<open>A block that starts with a copied key and its NUL reads as that key.\<close>

lemma c_string_copied:
  assumes "read_bytes buf off k = Some (take k key)" and "strlen key = Some n" and "n < k" and "k \<le> length key"
  shows "c_string buf off = Some (take n key)"
proof -
  have t: "take k (drop off buf) = take k key" "off + k \<le> length buf"
    using assms(1) by (auto simp: read_bytes_def split: if_splits)
  have pre: "take n (drop off buf) = take n key"
    using arg_cong[OF t(1), of "take n"] assms(3) by (simp add: min_def)
  have "drop off buf ! n = take k (drop off buf) ! n" using assms(3) by simp
  also have "\<dots> = key ! n" using t(1) assms(3) by simp
  finally have "strlen (drop off buf) = Some n"
    using strlen_spec[OF assms(2)] pre t(2) assms(3) by (intro strlen_unique) auto
  then show ?thesis using pre t(2) assms(3) by (simp add: c_string_def read_bytes_def)
qed

subsection \<open>Sizes\<close>

lemma unat_round_down: "unat (push_bit n (drop_bit n y)) = unat y div 2 ^ n * 2 ^ n" for y :: u32
proof -
  have "unat y div 2 ^ n * 2 ^ n \<le> unat y" by simp
  also have "\<dots> < 2 ^ 32" using unsigned_less[of y] by simp
  finally have l: "unat y div 2 ^ n * 2 ^ n < 2 ^ LENGTH(32)" by simp
  have "unat (push_bit n (drop_bit n y)) = take_bit LENGTH(32) (unat y div 2 ^ n * 2 ^ n)"
    by (simp only: unsigned_push_bit_eq unat_drop_bit_eq) (simp only: push_bit_eq_mult drop_bit_eq_div)
  then show ?thesis using l by (simp only: take_bit_nat_eq_self)
qed

lemma unat_round_up:
  fixes x :: u32
  assumes "unat x + c < 2 ^ 32"
  shows "unat (push_bit n (drop_bit n (x + of_nat c))) = (unat x + c) div 2 ^ n * 2 ^ n"
  using assms by (simp add: unat_round_down unat_word_ariths unat_of_nat)

lemma key_space_bounds:
  assumes "len + 9 < 2 ^ 32"
  shows "len + 1 \<le> unat (key_space (of_nat len) value_size use_tag)"
    and "unat (key_space (of_nat len) value_size use_tag) \<le> len + 8"
proof -
  have l: "unat (of_nat len + 1 :: u32) = len + 1"
    using assms by (simp add: unat_word_ariths unat_of_nat)
  have r: "unat (push_bit 3 (drop_bit 3 (of_nat len + 1 + 7 :: u32))) = (len + 8) div 8 * 8"
    "unat (push_bit 2 (drop_bit 2 (of_nat len + 1 + 3 :: u32))) = (len + 4) div 4 * 4"
    "unat (push_bit 1 (drop_bit 1 (of_nat len + 1 + 1 :: u32))) = (len + 2) div 2 * 2"
    using unat_round_up[of "of_nat len + 1" 7 3] unat_round_up[of "of_nat len + 1" 3 2]
      unat_round_up[of "of_nat len + 1" 1 1] assms l by simp_all
  have "unat (key_space (of_nat len) value_size use_tag) \<in>
      {(len + 8) div 8 * 8, (len + 4) div 4 * 4, (len + 2) div 2 * 2, len + 1}"
    using l r by (simp add: key_space_def Let_def)
  moreover have "len + 1 \<le> (len + 8) div 8 * 8" "(len + 8) div 8 * 8 \<le> len + 8"
    "len + 1 \<le> (len + 4) div 4 * 4" "(len + 4) div 4 * 4 \<le> len + 8"
    "len + 1 \<le> (len + 2) div 2 * 2" "(len + 2) div 2 * 2 \<le> len + 8" by presburger+
  ultimately show "len + 1 \<le> unat (key_space (of_nat len) value_size use_tag)"
    "unat (key_space (of_nat len) value_size use_tag) \<le> len + 8" by auto
qed

lemma node_size_nat:
  assumes "unat keylen + unat value_size < 2 ^ 32"
  shows "unat (node_size keylen value_size True) =
      (if unat keylen + unat value_size \<le> 4 then 40 else 36 + unat keylen + unat value_size)"
    and "unat (node_size keylen value_size False) =
      (if unat keylen + unat value_size \<le> 8 then 40 else 32 + unat keylen + unat value_size)"
proof -
  have s: "keylen + value_size \<le> 4 \<longleftrightarrow> unat keylen + unat value_size \<le> 4"
    "keylen + value_size \<le> 8 \<longleftrightarrow> unat keylen + unat value_size \<le> 8"
    using assms by (simp_all add: word_le_nat_alt unat_word_ariths)
  have "40 + ucast keylen - 4 + ucast value_size = (of_nat (36 + unat keylen + unat value_size) :: u64)"
    "40 + ucast keylen - 8 + ucast value_size = (of_nat (32 + unat keylen + unat value_size) :: u64)"
    by simp_all
  moreover have "unat (of_nat (36 + unat keylen + unat value_size) :: u64) = 36 + unat keylen + unat value_size"
    "unat (of_nat (32 + unat keylen + unat value_size) :: u64) = 32 + unat keylen + unat value_size"
    using assms by (simp_all only: unat_of_nat) simp_all
  ultimately show "unat (node_size keylen value_size True) =
      (if unat keylen + unat value_size \<le> 4 then 40 else 36 + unat keylen + unat value_size)"
    "unat (node_size keylen value_size False) =
      (if unat keylen + unat value_size \<le> 8 then 40 else 32 + unat keylen + unat value_size)"
    unfolding node_size_def s by (simp_all split: if_splits)
qed

text \<open>
  A tagged node, as the compiler's symbol tables use them, is laid out soundly: when the key
  buffer is readable up to the rounded length, no write leaves the block that \<open>malloc\<close> was asked
  for, the key reads back as the string it was, the tag is found at the stored offset, the value
  directly after it, and the stored size covers both.
\<close>

theorem string_node_layout:
  assumes "strlen key = Some len" and "len + 17 + unat value_size < 2 ^ 32"
    and "unat (key_space (of_nat len) value_size True) \<le> length key" and "unat value_size \<le> length src"
  shows "\<exists>blk off. string_tag_new_node garbage key tag value src value_size True =
      Some (blk, Placed off (value_size + 4)) \<and>
    length blk = unat (node_size (key_space (of_nat len) value_size True) value_size True) \<and>
    c_string blk 32 = Some (take len key) \<and>
    read_bytes blk (24 + unat off) 4 = Some (le_bytes tag) \<and>
    read_bytes blk (24 + unat off + 4) (unat value_size) = Some (take (unat value_size) src)"
proof -
  define ks where "ks = unat (key_space (of_nat len) value_size True)"
  let ?n = "unat (node_size (key_space (of_nat len) value_size True) value_size True)"
  have k: "len + 1 \<le> ks" "ks \<le> len + 8" using key_space_bounds[of len] assms(2) by (simp_all add: ks_def)
  have n: "?n = (if ks + unat value_size \<le> 4 then 40 else 36 + ks + unat value_size)"
    unfolding ks_def by (rule node_size_nat(1)) (use k assms(2) in \<open>simp add: ks_def\<close>)
  have n': "36 + ks + unat value_size \<le> ?n" using n by simp
  let ?b0 = "map garbage [0..<?n]"
  have kb: "read_bytes key 0 ks = Some (take ks key)" using assms(3) by (simp add: read_bytes_def ks_def)
  have lk: "length (take ks key) = ks" using assms(3) by (simp add: ks_def)
  obtain b1 where b1: "write_bytes 32 (take ks key) ?b0 = Some b1"
    using write_bytes_Some[of 32 "take ks key" ?b0] lk n' by auto
  have lt: "length (le_bytes tag) = 4" by (simp add: le_bytes_def)
  have l1: "length b1 = ?n" using write_bytes_props(1)[OF b1] by simp
  obtain b2 where b2: "write_bytes (32 + ks) (le_bytes tag) b1 = Some b2"
    using write_bytes_Some[of "32 + ks" "le_bytes tag" b1] lt l1 n' by auto
  have l2: "length b2 = ?n" using write_bytes_props(1)[OF b2] l1 by simp
  define vb where "vb = take (unat value_size) src"
  have vb: "read_bytes src 0 (unat value_size) = Some vb" "length vb = unat value_size"
    using assms(4) by (simp_all add: read_bytes_def vb_def)
  obtain b3 where b3: "write_bytes (36 + ks) vb b2 = Some b3"
    using write_bytes_Some[of "36 + ks" vb b2] vb l2 n' by auto
  have z: "b3 = b2" if "value_size = 0"
    using b3 vb that by (simp add: write_bytes_def split: if_splits)
  have off: "unat (of_nat (32 + ks - 24) :: u32) = 8 + ks"
    using k assms(2) by (simp only: unat_of_nat) simp
  have "string_tag_new_node garbage key tag value src value_size True =
      Some (b3, Placed (of_nat (32 + ks - 24)) (value_size + 4))"
    using assms(1) kb b1 b2 b3 vb z unfolding ks_def by (simp add: string_tag_new_node_def Let_def)
  moreover have "length b3 = ?n" using write_bytes_props(1)[OF b3] l2 by simp
  moreover have "read_bytes b3 32 ks = Some (take ks key)"
    using write_bytes_props(2,3)[OF b1] write_bytes_props(3)[OF b2, of 32 ks]
      write_bytes_props(3)[OF b3, of 32 ks] lk by simp
  then have "c_string b3 32 = Some (take len key)"
    by (rule c_string_copied) (use assms(1,3) k in \<open>auto simp: ks_def\<close>)
  moreover have "read_bytes b3 (32 + ks) 4 = Some (le_bytes tag)"
    using write_bytes_props(2)[OF b2] write_bytes_props(3)[OF b3, of "32 + ks" 4] lt by simp
  moreover have "read_bytes b3 (36 + ks) (unat value_size) = Some vb"
    using write_bytes_props(2)[OF b3] vb(2) by simp
  ultimately show ?thesis
    using off unfolding vb_def by (intro exI[of _ b3] exI[of _ "of_nat (32 + ks - 24)"]) (simp add: ac_simps)
qed

theorem string_node_layout_witness:
  "\<exists>blk off. string_tag_new_node (\<lambda>_. 0xFF) [0x61, 0x62, 0, 9, 9, 9, 9, 9] 7 0 [1, 2, 3, 4, 5, 6, 7, 8] 8 True =
      Some (blk, Placed off (8 + 4)) \<and>
    length blk = unat (node_size (key_space (of_nat 2) 8 True) 8 True) \<and>
    c_string blk 32 = Some (take 2 [0x61, 0x62, 0, 9, 9, 9, 9, 9]) \<and>
    read_bytes blk (24 + unat off) 4 = Some (le_bytes 7) \<and>
    read_bytes blk (24 + unat off + 4) (unat (8 :: u32)) = Some (take (unat (8 :: u32)) [1, 2, 3, 4, 5, 6, 7, 8])"
  by (rule string_node_layout) (simp_all add: key_space_def Let_def)

text \<open>
  The rounding reads behind the key: for a buffer that ends with the NUL of the key, creating
  a node with a value of 8 bytes reads past the end of the buffer.
\<close>

theorem string_node_reads_past_key:
  "string_tag_new_node garbage [0x61, 0x62, 0] tag value [1, 2, 3, 4, 5, 6, 7, 8] 8 use_tag = None"
  by (simp add: string_tag_new_node_def key_space_def read_bytes_def Let_def)

end
