(* ===== verification/LLTypes.thy ===== *)
theory LLTypes
  imports Prelude
begin

text \<open>
  Types as the compiler sees them: the LLVM types it uses, mirrored in clib/types.h, the attribute
  bits of the same file, and volvoxc::FullType of src/global.h, which adds attributes, the mangled
  name and the element types. The types the compiler keeps in global variables are a record.
\<close>

section \<open>Attributes\<close>

definition A_signed :: u32 where "A_signed = push_bit 0 1"
definition A_imaginary :: u32 where "A_imaginary = push_bit 0 1"
definition A_full_constr_destr :: u32 where "A_full_constr_destr = push_bit 0 1"
definition A_complex :: u32 where "A_complex = push_bit 8 1"
definition A_const :: u32 where "A_const = push_bit 1 1"
definition A_shared :: u32 where "A_shared = push_bit 2 1"
definition A_unique :: u32 where "A_unique = push_bit 3 1"
definition A_ref :: u32 where "A_ref = push_bit 5 1"
definition A_getter :: u32 where "A_getter = push_bit 8 1"
definition A_setter :: u32 where "A_setter = push_bit 9 1"
definition A_cstring :: u32 where "A_cstring = push_bit 13 1"
definition A_optional :: u32 where "A_optional = push_bit 15 1"
definition A_constructor_value_return :: u32 where "A_constructor_value_return = push_bit 17 1"
definition A_c_api :: u32 where "A_c_api = push_bit 20 1"
definition A_by_value :: u32 where "A_by_value = push_bit 20 1"
definition A_destructor :: u32 where "A_destructor = push_bit 21 1"
definition A_constructor :: u32 where "A_constructor = push_bit 22 1"
definition A_conversion :: u32 where "A_conversion = push_bit 23 1"
definition A_method :: u32 where "A_method = push_bit 24 1"
definition A_interface :: u32 where "A_interface = push_bit 30 1"

lemmas attr_defs = A_signed_def A_imaginary_def A_full_constr_destr_def A_complex_def A_const_def
  A_shared_def A_unique_def A_ref_def A_getter_def A_setter_def A_cstring_def A_optional_def
  A_constructor_value_return_def A_c_api_def A_by_value_def A_destructor_def A_constructor_def
  A_conversion_def A_method_def A_interface_def

text \<open>\<open>attr & flag\<close> as a condition.\<close>

definition has :: "u32 \<Rightarrow> u32 \<Rightarrow> bool" where
  "has attr flag \<longleftrightarrow> attr AND flag \<noteq> 0"

lemma has_zero [simp]: "has 0 f = False"
  by (simp add: has_def)

section \<open>LLVM types\<close>

text \<open>
  The constructors are the type IDs of clib/types.h. A struct type is identified by its name when it
  has one, an array type by the number of its elements (0 when it is only known at run time).
\<close>

datatype ltype =
    HalfTy | BFloatTy | FloatTy | DoubleTy | X86_FP80Ty | FP128Ty | PPC_FP128Ty
  | VoidTy | LabelTy | MetadataTy | X86_AMXTy | TokenTy
  | IntegerTy (int_bits: nat)
  | FunctionTy
  | PointerTy
  | StructTy "string option" "ltype list"
  | ArrayTy nat ltype
  | FixedVectorTy nat ltype
  | ScalableVectorTy nat ltype

fun isIntegerTy :: "ltype \<Rightarrow> bool" where
  "isIntegerTy (IntegerTy _) = True" | "isIntegerTy _ = False"

fun isStructTy :: "ltype \<Rightarrow> bool" where
  "isStructTy (StructTy _ _) = True" | "isStructTy _ = False"

fun isArrayTy :: "ltype \<Rightarrow> bool" where
  "isArrayTy (ArrayTy _ _) = True" | "isArrayTy _ = False"

definition isFloatTy :: "ltype \<Rightarrow> bool" where "isFloatTy t \<longleftrightarrow> t = FloatTy"
definition isDoubleTy :: "ltype \<Rightarrow> bool" where "isDoubleTy t \<longleftrightarrow> t = DoubleTy"
definition isPointerTy :: "ltype \<Rightarrow> bool" where "isPointerTy t \<longleftrightarrow> t = PointerTy"
definition isVoidTy :: "ltype \<Rightarrow> bool" where "isVoidTy t \<longleftrightarrow> t = VoidTy"
definition isFunctionTy :: "ltype \<Rightarrow> bool" where "isFunctionTy t \<longleftrightarrow> t = FunctionTy"

text \<open>\<open>Type::isFloatingPointTy\<close>.\<close>

definition isFloatingPointTy :: "ltype \<Rightarrow> bool" where
  "isFloatingPointTy t \<longleftrightarrow>
     t \<in> {HalfTy, BFloatTy, FloatTy, DoubleTy, X86_FP80Ty, FP128Ty, PPC_FP128Ty}"

lemmas type_tests = isFloatTy_def isDoubleTy_def isPointerTy_def isVoidTy_def isFunctionTy_def
  isFloatingPointTy_def

text \<open>The dimensions of an array type, outermost first, and what is left below them.\<close>

fun array_dims :: "ltype \<Rightarrow> nat list" where
  "array_dims (ArrayTy n t) = n # array_dims t"
| "array_dims t = []"

fun array_elem :: "ltype \<Rightarrow> ltype" where
  "array_elem (ArrayTy n t) = array_elem t"
| "array_elem t = t"

section \<open>FullType\<close>

text \<open>
  \<open>fields\<close> are the fields of a struct in the order of their index. \<open>elem_type\<close> points to one
  FullType for an array, vector, set or pointer and to two for a map; the list is empty for NULL.
  A NULL \<open>type\<close> is \<open>None\<close>.
\<close>

datatype FullType = FullType
  (ft_type: "ltype option")
  (type_attr: u32)
  (mangled_name: "string option")
  (fields_by_idx: "(string \<times> FullType) list")
  (elem_type: "FullType list")

text \<open>Global variables that hold types and properties of the target.\<close>

record globals =
  llvm_string_type :: ltype
  llvm_map_type :: ltype
  llvm_vec_type :: ltype
  llvm_closure_type :: ltype
  llvm_size_type :: ltype
  llvm_c32_type :: ltype
  support_fp80 :: bool
  target_bytes :: nat

definition FullTypes_differ :: "FullType option \<Rightarrow> FullType option \<Rightarrow> bool" where
  "FullTypes_differ a b \<longleftrightarrow>
     (case (a, b) of
        (None, None) \<Rightarrow> False
      | (Some a, Some b) \<Rightarrow> ft_type a \<noteq> ft_type b \<or> type_attr a \<noteq> type_attr b
      | _ \<Rightarrow> True)"

definition FullTypes_equal :: "FullType option \<Rightarrow> FullType option \<Rightarrow> bool" where
  "FullTypes_equal a b \<longleftrightarrow> \<not> FullTypes_differ a b"

section \<open>Decimal numbers in text\<close>

fun digits :: "nat \<Rightarrow> string" where
  "digits n = (if n < 10 then [char_of (48 + n)] else digits (n div 10) @ [char_of (48 + n mod 10)])"

declare digits.simps [simp del]

definition of_digit :: "char \<Rightarrow> nat" where
  "of_digit c = of_char c - 48"

definition is_digit :: "char \<Rightarrow> bool" where
  "is_digit c \<longleftrightarrow> (48 :: nat) \<le> of_char c \<and> (of_char c :: nat) \<le> 57"

definition read_decimal :: "string \<Rightarrow> nat" where
  "read_decimal s = foldl (\<lambda>n c. 10 * n + of_digit c) 0 s"

lemma of_digit_char: "n < 10 \<Longrightarrow> of_digit (char_of (48 + n)) = n"
  by (simp add: of_digit_def)

lemma is_digit_char: "(n :: nat) < 10 \<Longrightarrow> is_digit (char_of (48 + n))"
  by (simp add: is_digit_def)

lemma read_decimal_snoc: "read_decimal (s @ [c]) = 10 * read_decimal s + of_digit c"
  by (simp add: read_decimal_def)

lemma read_digits [simp]: "read_decimal (digits n) = n"
proof (induction n rule: digits.induct)
  case (1 n)
  then show ?case
    by (cases "n < 10")
      (simp_all add: digits.simps[of n] read_decimal_snoc of_digit_char read_decimal_def[of "[_]"])
qed

lemma digits_are_digits: "c \<in> set (digits n) \<Longrightarrow> is_digit c"
proof (induction n rule: digits.induct)
  case (1 n)
  then show ?case by (cases "n < 10") (auto simp: digits.simps[of n] is_digit_char)
qed

lemma digits_not_Nil [simp]: "digits n \<noteq> []"
  by (simp add: digits.simps)

end
