(* ===== verification/Mangler.thy ===== *)
theory Mangler
  imports LLTypes
begin

text \<open>
  src/mangler.cc: the encoding of types, operators and names in linker symbols. Text that is written
  to a stream is a string here; an abort, an exception of \<open>substr\<close> and a null or out-of-range
  access are \<open>None\<close>.
\<close>

section \<open>Types\<close>

definition integer_code :: "nat \<Rightarrow> bool \<Rightarrow> string" where
  "integer_code bitwidth is_signed =
     (if bitwidth = 1 then ''b''
      else if bitwidth \<le> 8 then (if is_signed then ''c'' else ''h'')
      else if bitwidth \<le> 16 then (if is_signed then ''s'' else ''t'')
      else if bitwidth \<le> 32 then (if is_signed then ''i'' else ''j'')
      else (if is_signed then ''x'' else ''y''))"

text \<open>\<open>operator<<(raw_ostream&, FullType*)\<close>.\<close>

fun mangle_ft :: "globals \<Rightarrow> FullType \<Rightarrow> string option" where
  "mangle_ft g (FullType ty attr nm fs els) = do {
     t \<leftarrow> ty;
     body \<leftarrow>
       (if t = llvm_map_type g then
          (case els of
             k # v # _ \<Rightarrow>
               if ft_type v \<noteq> None
               then do { a \<leftarrow> mangle_ft g k; b \<leftarrow> mangle_ft g v; Some (''U3mapI'' @ a @ ''E'' @ b) }
               else do { a \<leftarrow> mangle_ft g k; Some (''U3set'' @ a) }
           | _ \<Rightarrow> None)
        else if isPointerTy t then do {
          target \<leftarrow>
            (if has attr A_cstring then Some ''c''
             else (case els of
                 [] \<Rightarrow> Some ''v''
               | e # _ \<Rightarrow> do {
                   te \<leftarrow> ft_type e;
                   if isVoidTy te then Some ''v''
                   else if \<not> (has attr A_unique \<or> has attr A_shared \<or> has attr A_const) then None
                   else mangle_ft g e }));
          Some (''P'' @ (if has attr A_shared then ''S'' else '''') @
            (if has attr A_const \<or> has attr A_cstring then ''K'' else '''') @ target) }
        else if t = llvm_vec_type g then
          (case els of e # _ \<Rightarrow> do { a \<leftarrow> mangle_ft g e; Some (''U3vec'' @ a) } | [] \<Rightarrow> None)
        else if has attr A_complex then Some (if isStructTy t then ''Cd'' else ''Cf'')
        else if isDoubleTy t then Some (if has attr A_signed then ''Gd'' else ''d'')
        else if isFloatTy t then Some (if has attr A_signed then ''Gf'' else ''f'')
        else if isIntegerTy t then Some (integer_code (int_bits t) (has attr A_signed))
        else if isArrayTy t then
          (case els of
             e # _ \<Rightarrow> do {
               a \<leftarrow> mangle_ft g e;
               Some (concat (map (\<lambda>n. ''A'' @ digits n) (array_dims t)) @ a) }
           | [] \<Rightarrow> None)
        else Some (case nm of None \<Rightarrow> '''' | Some s \<Rightarrow> s));
     Some ((if has attr A_ref then ''R'' else '''') @ body) }"

section \<open>Operators and names\<close>

definition unary_codes :: "(string \<times> string) list" where
  "unary_codes = [(''+'', ''ps''), (''-'', ''ng'')]"

definition binary_codes :: "(string \<times> string) list" where
  "binary_codes =
     [(''+'', ''pl''), (''-'', ''mi''), (''*'', ''ml''), (''/'', ''dv''), (''%'', ''rm''),
      (''^'', ''eo''), (''='', ''aS''), (''+='', ''pL''), (''-='', ''mI''), (''*='', ''mL''),
      (''/='', ''dV''), (''%='', ''rM''), (''=='', ''eq''), (''!='', ''ne''), (''<'', ''lt''),
      (''>'', ''gt''), (''<='', ''le''), (''>='', ''ge''), (''<=>'', ''ss'')]"

text \<open>\<open>name.substr(n, name.length() - n)\<close>, which throws when the name is shorter than \<open>n\<close>.\<close>

definition substr_from :: "nat \<Rightarrow> string \<Rightarrow> string option" where
  "substr_from n s = (if n \<le> length s then Some (drop n s) else None)"

definition MangleOp :: "string \<Rightarrow> string \<Rightarrow> bool \<Rightarrow> bool \<Rightarrow> string option" where
  "MangleOp buf name reverse unary = do {
     op \<leftarrow> substr_from (if unary then 5 else if reverse then 7 else 6) name;
     code \<leftarrow> map_of (if unary then unary_codes else binary_codes) op;
     Some (buf @ code) }"

definition source_name :: "string \<Rightarrow> string" where
  "source_name s = digits (length s) @ s"

definition MangleBase ::
  "string \<Rightarrow> string list \<Rightarrow> string \<Rightarrow> string option \<Rightarrow> u32 \<Rightarrow> bool \<Rightarrow> bool \<Rightarrow> bool \<Rightarrow> string option" where
  "MangleBase buf path name receiver_type_name flags is_op reverse unary = do {
     let buf =
       (if path \<noteq> [] \<or> has flags A_method
        then buf @ ''N'' @ concat (map source_name path) @
          (case receiver_type_name of
             None \<Rightarrow> ''''
           | Some r \<Rightarrow> (if r \<noteq> [] \<and> is_digit (hd r) then r else source_name r))
        else buf);
     buf \<leftarrow>
       (if has flags A_destructor then
          (if name = [] then None
           else Some (buf @ digits (length name - 1) @ tl name @
             (if has flags A_full_constr_destr then ''D1'' else ''D2'')))
        else if has flags A_constructor then
          Some (buf @ source_name name @ (if has flags A_full_constr_destr then ''C1'' else ''C2''))
        else if is_op then MangleOp buf name reverse unary
        else Some (buf @ source_name name));
     Some (if path \<noteq> [] \<or> (has flags A_method \<and> \<not> has flags A_conversion) then buf @ ''E'' else buf) }"

definition isalnum :: "char \<Rightarrow> bool" where
  "isalnum c \<longleftrightarrow> (let n = of_char c :: nat in
     48 \<le> n \<and> n \<le> 57 \<or> 65 \<le> n \<and> n \<le> 90 \<or> 97 \<le> n \<and> n \<le> 122)"

text \<open>The mangled types of the arguments that are written.\<close>

fun mangle_args :: "globals \<Rightarrow> FullType list \<Rightarrow> string option" where
  "mangle_args g [] = Some ''''"
| "mangle_args g (t # ts) = do { a \<leftarrow> mangle_ft g t; b \<leftarrow> mangle_args g ts; Some (a @ b) }"

definition receiver_name :: "FullType list \<Rightarrow> nat \<Rightarrow> string option option" where
  "receiver_name arg_types i = do {
     r \<leftarrow> (if i < length arg_types then Some (arg_types ! i) else None);
     t \<leftarrow> ft_type r;
     Some (if \<not> isStructTy t \<and> has (type_attr r) A_complex then Some ''3c32'' else mangled_name r) }"

definition Mangle :: "globals \<Rightarrow> string list \<Rightarrow> string \<Rightarrow> FullType list \<Rightarrow> u32 \<Rightarrow> string option" where
  "Mangle g path name arg_types flags =
     (if name = [] then None
      else do {
        let op = last name;
        let is_op = (\<not> isalnum op \<and> op \<noteq> CHR ''_'');
        let unary = (is_op \<and> hd name = CHR ''u'');
        let reverse = (is_op \<and> hd name \<noteq> CHR ''u'' \<and> hd name = CHR ''r'');
        rec_tname \<leftarrow>
          (if has flags A_method \<and>
              \<not> (has flags A_destructor \<or> has flags A_constructor \<or> has flags A_conversion)
           then receiver_name arg_types (if reverse then 1 else 0)
           else Some None);
        buf \<leftarrow> MangleBase ''_Z'' path name rec_tname flags is_op reverse unary;
        let buf = (if has flags A_conversion then buf @ ''cv'' else buf);
        args \<leftarrow>
          (if length arg_types > 0 \<and> \<not> has flags A_method \<or> length arg_types > 1
           then (if reverse then mangle_ft g (hd arg_types)
                 else mangle_args g (if \<not> has flags A_method \<or> has flags A_constructor_value_return
                                     then arg_types else tl arg_types))
           else Some ''v'');
        Some (buf @ args @ (if has flags A_conversion then ''Ev'' else '''')) })"

text \<open>\<open>createAnonFnName\<close>, with its static counter as state.\<close>

definition createAnonFnName :: "nat \<Rightarrow> string \<times> nat" where
  "createAnonFnName anon_fn_idx = (''__anon_fn.'' @ digits anon_fn_idx, Suc anon_fn_idx)"


section \<open>Decoding of names\<close>

definition source_ident :: "string \<Rightarrow> bool" where
  "source_ident s \<longleftrightarrow> s \<noteq> [] \<and> \<not> is_digit (hd s) \<and> (isalnum (last s) \<or> last s = CHR ''_'')"

text \<open>A number is read off a text up to the first character that is no digit.\<close>

lemma digits_prefix:
  assumes "digits a @ x = digits b @ y"
    and "x = [] \<or> \<not> is_digit (hd x)" and "y = [] \<or> \<not> is_digit (hd y)"
  shows "a = b \<and> x = y"
proof -
  have tw: "takeWhile is_digit (digits n @ z) = digits n \<and> dropWhile is_digit (digits n @ z) = z"
    if "z = [] \<or> \<not> is_digit (hd z)" for n z
  proof -
    have "takeWhile is_digit (digits n @ z) = digits n @ takeWhile is_digit z"
      by (rule takeWhile_append2) (rule digits_are_digits)
    moreover have "dropWhile is_digit (digits n @ z) = dropWhile is_digit z"
      by (rule dropWhile_append2) (rule digits_are_digits)
    ultimately show ?thesis using that by (cases z) auto
  qed
  have d: "digits a = digits b" and xy: "x = y" using tw[OF assms(2), of a] tw[OF assms(3), of b] assms(1) by metis+
  have "a = b" using arg_cong[OF d, of read_decimal] by simp
  with xy show ?thesis by simp
qed

lemma source_name_prefix:
  assumes "source_ident a" "source_ident b" "source_name a @ x = source_name b @ y"
  shows "a = b \<and> x = y"
proof -
  have "length a = length b \<and> a @ x = b @ y"
    by (rule digits_prefix) (use assms in \<open>auto simp: source_name_def source_ident_def\<close>)
  then show ?thesis by auto
qed

lemma source_name_digit: "is_digit (hd (source_name s @ x))"
  using digits_are_digits[of "hd (digits (length s))" "length s"] by (simp add: source_name_def)

lemma source_name_not_Nil [simp]: "source_name s \<noteq> []"
  by (simp add: source_name_def)

lemma source_names_prefix:
  assumes "\<forall>s \<in> set ps. source_ident s" "\<forall>s \<in> set qs. source_ident s"
    and "concat (map source_name ps) @ x = concat (map source_name qs) @ y"
    and "x \<noteq> []" "\<not> is_digit (hd x)" "y \<noteq> []" "\<not> is_digit (hd y)"
  shows "ps = qs \<and> x = y"
  using assms
proof (induction ps arbitrary: qs)
  case Nil
  then show ?case
  proof (cases qs)
    case (Cons q qs')
    have "is_digit (hd x)" using Nil.prems(3) Cons source_name_digit[of q] by simp
    with Nil.prems(5) show ?thesis by simp
  qed simp
next
  case (Cons p ps)
  show ?case
  proof (cases qs)
    case Nil
    have "is_digit (hd y)"
      using arg_cong[OF Cons.prems(3), of hd] Nil source_name_digit[of p "concat (map source_name ps) @ x"] by simp
    with Cons.prems(7) show ?thesis by simp
  next
    case (Cons q qs')
    have "p = q \<and> concat (map source_name ps) @ x = concat (map source_name qs') @ y"
      by (rule source_name_prefix) (use Cons Cons.prems in auto)
    then show ?thesis using Cons.IH[of qs'] Cons.prems Cons by auto
  qed
qed

text \<open>The name part of a symbol of a plain function.\<close>

lemma MangleBase_plain:
  "MangleBase ''_Z'' path name None 0 False reverse unary =
     Some (''_Z'' @ (if path \<noteq> [] then ''N'' @ concat (map source_name (path @ [name])) @ ''E''
                     else source_name name))"
  by (auto simp: MangleBase_def Let_def)

text \<open>The encoding of the arguments of a plain function.\<close>

definition args_code :: "globals \<Rightarrow> FullType list \<Rightarrow> string option" where
  "args_code g ts = (if ts = [] then Some ''v'' else mangle_args g ts)"

lemma Mangle_plain:
  assumes "source_ident name"
  shows "Mangle g path name ts 0 = do { a \<leftarrow> args_code g ts;
    Some (''_Z'' @ (if path \<noteq> [] then ''N'' @ concat (map source_name (path @ [name])) @ ''E''
                    else source_name name) @ a) }"
proof -
  have "isalnum (last name) \<or> last name = CHR ''_''" and "name \<noteq> []" using assms by (auto simp: source_ident_def)
  then show ?thesis by (auto simp: Mangle_def MangleBase_plain args_code_def Let_def)
qed

lemma not_digit_E: "\<not> is_digit CHR ''E''" "\<not> is_digit CHR ''N''"
  by (simp_all add: is_digit_def)

text \<open>
  C11. Two plain functions get the same linker symbol only if they have the same module path, the
  same name and the same encoded argument list: lengths and letters of the path cannot be read in
  two ways.
\<close>

theorem Mangle_separates:
  assumes "\<forall>s \<in> set p1 \<union> set p2. source_ident s" and "source_ident n1" and "source_ident n2"
    and "Mangle g p1 n1 ts1 0 = Some lsym" and "Mangle g p2 n2 ts2 0 = Some lsym"
  shows "p1 = p2 \<and> n1 = n2 \<and> args_code g ts1 = args_code g ts2"
proof -
  obtain a1 where a1: "args_code g ts1 = Some a1" "lsym = ''_Z'' @ (if p1 \<noteq> []
      then ''N'' @ concat (map source_name (p1 @ [n1])) @ ''E'' else source_name n1) @ a1"
    using assms(4) by (auto simp: Mangle_plain[OF assms(2)] bind_Some_iff)
  obtain a2 where a2: "args_code g ts2 = Some a2" "lsym = ''_Z'' @ (if p2 \<noteq> []
      then ''N'' @ concat (map source_name (p2 @ [n2])) @ ''E'' else source_name n2) @ a2"
    using assms(5) by (auto simp: Mangle_plain[OF assms(3)] bind_Some_iff)
  have N: "\<not> is_digit (hd (''N'' @ z))" for z by (simp add: not_digit_E)
  show ?thesis
  proof (cases "p1 = []"; cases "p2 = []")
    assume "p1 = []" "p2 = []"
    then have "source_name n1 @ a1 = source_name n2 @ a2" using a1(2) a2(2) by simp
    from source_name_prefix[OF assms(2,3) this] a1(1) a2(1) \<open>p1 = []\<close> \<open>p2 = []\<close> show ?thesis by simp
  next
    assume p: "p1 = []" "p2 \<noteq> []"
    then have "source_name n1 @ a1 = ''N'' @ concat (map source_name (p2 @ [n2])) @ ''E'' @ a2"
      using a1(2) a2(2) by simp
    then show ?thesis using source_name_digit[of n1 a1] N by metis
  next
    assume p: "p1 \<noteq> []" "p2 = []"
    then have "source_name n2 @ a2 = ''N'' @ concat (map source_name (p1 @ [n1])) @ ''E'' @ a1"
      using a1(2) a2(2) by simp
    then show ?thesis using source_name_digit[of n2 a2] N by metis
  next
    assume p: "p1 \<noteq> []" "p2 \<noteq> []"
    then have "concat (map source_name (p1 @ [n1])) @ (''E'' @ a1) =
        concat (map source_name (p2 @ [n2])) @ (''E'' @ a2)" using a1(2) a2(2) by simp
    then have "p1 @ [n1] = p2 @ [n2] \<and> ''E'' @ a1 = ''E'' @ a2"
      by (rule source_names_prefix[rotated 2]) (use assms in \<open>auto simp: not_digit_E\<close>)
    then show ?thesis using a1(1) a2(1) by simp
  qed
qed

text \<open>Globals of a 64-bit target, as the builtin declarations set them.\<close>

definition target64 :: globals where
  "target64 = \<lparr>llvm_string_type = StructTy (Some ''string'') [PointerTy, IntegerTy 64],
     llvm_map_type = StructTy (Some ''__map'') [PointerTy], llvm_vec_type = StructTy (Some ''__vec'') [PointerTy],
     llvm_closure_type = StructTy (Some ''__closure'') [PointerTy, PointerTy],
     llvm_size_type = IntegerTy 64, llvm_c32_type = FixedVectorTy 2 FloatTy,
     support_fp80 = True, target_bytes = 8\<rparr>"

definition scalar :: "ltype \<Rightarrow> u32 \<Rightarrow> FullType" where
  "scalar t a = FullType (Some t) a None [] []"

theorem Mangle_separates_witness:
  "([''volvox''] :: string list) = [''volvox''] \<and> ''sin'' = ''sin'' \<and>
   args_code target64 [scalar DoubleTy 0] = args_code target64 [scalar DoubleTy A_const]"
proof (rule Mangle_separates)
  show "Mangle target64 [''volvox''] ''sin'' [scalar DoubleTy 0] 0 = Some ''_ZN6volvox3sinEd''"
    "Mangle target64 [''volvox''] ''sin'' [scalar DoubleTy A_const] 0 = Some ''_ZN6volvox3sinEd''"
    by code_simp+
qed (simp_all add: source_ident_def is_digit_def isalnum_def)

section \<open>Scalar types\<close>

definition scalar_types :: "FullType list" where
  "scalar_types =
     [scalar (IntegerTy 1) 0, scalar (IntegerTy 8) 0, scalar (IntegerTy 16) 0,
      scalar (IntegerTy 32) 0, scalar (IntegerTy 64) 0, scalar (IntegerTy 8) A_signed,
      scalar (IntegerTy 16) A_signed, scalar (IntegerTy 32) A_signed, scalar (IntegerTy 64) A_signed,
      scalar FloatTy 0, scalar DoubleTy 0, scalar FloatTy A_imaginary, scalar DoubleTy A_imaginary,
      scalar (FixedVectorTy 2 FloatTy) A_complex, scalar (StructTy (Some ''complex'') [DoubleTy, DoubleTy]) A_complex,
      scalar PointerTy 0, scalar PointerTy A_cstring]"

text \<open>
  Overloads that differ in the scalar type of one argument get different symbols: booleans,
  the integers of every width and signedness, real, imaginary and complex floats and the two kinds
  of pointer all have an encoding, and no two of them the same.
\<close>

theorem scalar_codes_differ:
  assumes "isStructTy (llvm_map_type g)" and "isStructTy (llvm_vec_type g)"
    and "llvm_map_type g \<noteq> StructTy (Some ''complex'') [DoubleTy, DoubleTy]"
    and "llvm_vec_type g \<noteq> StructTy (Some ''complex'') [DoubleTy, DoubleTy]"
  shows "distinct (map (mangle_ft g) scalar_types) \<and> None \<notin> set (map (mangle_ft g) scalar_types)"
proof -
  have n: "llvm_map_type g \<noteq> t" "llvm_vec_type g \<noteq> t" if "\<not> isStructTy t" for t
    using assms(1,2) that by auto
  have "map (mangle_ft g) scalar_types = map Some
    [''b'', ''h'', ''t'', ''j'', ''y'', ''c'', ''s'', ''i'', ''x'', ''f'', ''d'', ''Gf'', ''Gd'',
     ''Cf'', ''Cd'', ''Pv'', ''PKc'']"
    using assms(3,4) by (simp add: scalar_types_def scalar_def n n[symmetric] type_tests integer_code_def
        has_def attr_defs)
  then show ?thesis by simp
qed

theorem scalar_codes_differ_witness:
  "distinct (map (mangle_ft target64) scalar_types) \<and> None \<notin> set (map (mangle_ft target64) scalar_types)"
  by (rule scalar_codes_differ) (simp_all add: target64_def)

text \<open>
  C12. The encoding of array types is ambiguous: the number of elements is followed by the element
  type without a separator, so the digits run into the length of a struct name. Two overloads of one
  function, with different argument types, get the same linker symbol.
\<close>

definition struct_arg :: "string \<Rightarrow> FullType" where
  "struct_arg s = FullType (Some (StructTy (Some s) [])) 0 (Some (source_name s)) [] []"

definition array_arg :: "nat \<Rightarrow> FullType \<Rightarrow> FullType" where
  "array_arg n e = FullType (map_option (ArrayTy n) (ft_type e)) 0 None [] [e]"


text \<open>
  Every binary operator of the language has its own two-letter code, and so have the two unary
  ones; any other operator name aborts.
\<close>

theorem operator_codes:
  "distinct (map fst binary_codes) \<and> distinct (map snd binary_codes) \<and>
   distinct (map snd unary_codes) \<and>
   list_all (\<lambda>c. length c = 2) (map snd (binary_codes @ unary_codes)) \<and>
   MangleOp buf (''binary'' @ op) False False = map_option (\<lambda>c. buf @ c) (map_of binary_codes op) \<and>
   MangleOp buf (''reverse'' @ op) True False = map_option (\<lambda>c. buf @ c) (map_of binary_codes op) \<and>
   MangleOp buf (''unary'' @ op) False True = map_option (\<lambda>c. buf @ c) (map_of unary_codes op)"
  by (auto simp: MangleOp_def substr_from_def binary_codes_def unary_codes_def split: option.splits)

end
