(* ===== verification/Conv.thy ===== *)
theory Conv
  imports Mangler
begin

text \<open>
  The conversions between types of src/types.cc: significant bits, the type that fits a number of
  bits, and \<open>getConv\<close>, which finds the conversion of a value or rejects it. The function object
  that \<open>getConv\<close> returns is the LLVM instruction it builds; the meaning of these instructions on
  integers is given below, as LLVM documents it.
\<close>

section \<open>Bit widths\<close>

definition getBitWidth :: "ltype option \<Rightarrow> nat \<times> bool" where
  "getBitWidth type =
     (case type of
        None \<Rightarrow> (0, False)
      | Some (IntegerTy w) \<Rightarrow> (w, False)
      | Some DoubleTy \<Rightarrow> (53, True)
      | Some FloatTy \<Rightarrow> (24, True)
      | Some X86_FP80Ty \<Rightarrow> (64, True)
      | Some FP128Ty \<Rightarrow> (113, True)
      | Some BFloatTy \<Rightarrow> (8, True)
      | Some _ \<Rightarrow> (0, False))"

definition getFittingType :: "globals \<Rightarrow> nat \<Rightarrow> bool \<Rightarrow> bool \<Rightarrow> ltype" where
  "getFittingType g bitwidth is_float maybe_f80 =
     (if bitwidth = 1 then IntegerTy 1
      else if is_float then
        (if bitwidth > 53 \<and> maybe_f80 then
           (if support_fp80 g \<and> bitwidth \<le> 64 then X86_FP80Ty else FP128Ty)
         else if bitwidth > 24 then DoubleTy
         else if bitwidth > 8 then FloatTy
         else BFloatTy)
      else if bitwidth > 32 then (if bitwidth > 64 then IntegerTy 65 else IntegerTy 64)
      else if bitwidth > 16 then IntegerTy 32
      else if bitwidth > 8 then IntegerTy 16
      else IntegerTy 8)"

section \<open>Conversions\<close>

text \<open>The instruction a conversion builds; \<open>CallFn\<close> calls a conversion function of the program.\<close>

datatype conv =
    NoConversion
  | CallFn string
  | Volvox2CStr
  | IntToPtr
  | PtrToInt ltype
  | PtrToBool
  | FloatToBool
  | IntToBool
  | FPCast ltype
  | SIToFP ltype
  | UIToFP ltype
  | FPToSI ltype
  | FPToUI ltype
  | IntCast ltype bool

datatype conv_match_t = exact_match | conversion_match | untyped_match

text \<open>
  The outcome: \<open>Crash\<close> for a null dereference or \<open>abort()\<close>, otherwise the function object or null
  (\<open>Result None\<close>). The second component of \<open>getConv\<close> is what was written to \<open>*match\<close>, if anything.
\<close>

datatype 'a outcome = Crash | Result 'a

type_synonym conv_result = "conv option outcome \<times> conv_match_t option"

text \<open>
  \<open>AutoErr\<close> and \<open>ExplicitErr\<close>: they print and abort when a source location is given (\<open>Loc.File\<close>
  not null, here \<open>loc\<close>) and return null otherwise.
\<close>

definition ConvErr :: "bool \<Rightarrow> conv option outcome" where
  "ConvErr loc = (if loc then Crash else Result None)"

text \<open>The name of a struct type, or \<open>None\<close> for other types and anonymous structs.\<close>

fun struct_name :: "ltype \<Rightarrow> string option" where
  "struct_name (StructTy n _) = n"
| "struct_name _ = None"

definition signed_attr :: "bool \<Rightarrow> u32" where
  "signed_attr s = (if s then A_signed else 0)"

text \<open>
  The mangled name of the type on the other side of a conversion function; for structs it is the
  name of the LLVM type. \<open>Inl ()\<close> stands for an anonymous struct.
\<close>

definition conversion_symbol ::
  "globals \<Rightarrow> string \<Rightarrow> string \<Rightarrow> ltype \<Rightarrow> bool \<Rightarrow> (unit + string) option" where
  "conversion_symbol g type_name infx other other_is_signed =
     (if isStructTy other \<and> struct_name other = None then Some (Inl ())
      else do {
        m \<leftarrow> mangle_ft g (FullType (Some other) (signed_attr other_is_signed) (struct_name other) [] []);
        Some (Inr (''_ZN'' @ type_name @ infx @ m)) })"

text \<open>Explicit conversion to a struct: a constructor of that struct.\<close>

definition getConv_constructor ::
  "globals \<Rightarrow> (string \<Rightarrow> string option) \<Rightarrow> ltype \<Rightarrow> ltype \<Rightarrow> bool \<Rightarrow> bool \<Rightarrow> conv option outcome option" where
  "getConv_constructor g getConversion expr_type desired_type loc expr_is_signed =
     (if isStructTy desired_type then
        (case struct_name desired_type of
           None \<Rightarrow> Some (ConvErr loc)
         | Some n \<Rightarrow>
             (case conversion_symbol g n ''C1E'' expr_type expr_is_signed of
                None \<Rightarrow> Some Crash
              | Some (Inl _) \<Rightarrow> None
              | Some (Inr symb) \<Rightarrow>
                  (case getConversion symb of
                     Some f \<Rightarrow> Some (Result (Some (CallFn f)))
                   | None \<Rightarrow> Some (ConvErr loc))))
      else None)"

text \<open>Conversion of a struct value.\<close>

definition getConv_struct ::
  "globals \<Rightarrow> (string \<Rightarrow> string option) \<Rightarrow> ltype \<Rightarrow> ltype \<Rightarrow> bool \<Rightarrow> bool \<Rightarrow> conv option outcome" where
  "getConv_struct g getConversion expr_type desired_type loc desired_is_signed =
     (if expr_type = llvm_string_type g \<and> isPointerTy desired_type then Result (Some Volvox2CStr)
      else (case struct_name expr_type of
          None \<Rightarrow> Result (Some NoConversion)
        | Some n \<Rightarrow>
            (case conversion_symbol g n ''cv'' desired_type desired_is_signed of
               None \<Rightarrow> Crash
             | Some (Inl _) \<Rightarrow> Result (Some NoConversion)
             | Some (Inr symb) \<Rightarrow>
                 (case getConversion symb of
                    Some f \<Rightarrow> Result (Some (CallFn f))
                  | None \<Rightarrow> ConvErr loc))))"

text \<open>
  The loop over the dimensions of two array types: the element types when every dimension that is
  known on both sides is the same.
\<close>

fun match_dims :: "ltype \<Rightarrow> ltype \<Rightarrow> (ltype \<times> ltype) option" where
  "match_dims (ArrayTy n e) (ArrayTy d de) =
     (if n \<noteq> 0 \<and> d \<noteq> 0 \<and> n \<noteq> d then None
      else if isArrayTy e then match_dims e de
      else Some (e, de))"
| "match_dims _ _ = None"

text \<open>Numbers and booleans; both widths are positive here.\<close>

definition getConv_number ::
  "ltype \<Rightarrow> ltype \<Rightarrow> bool \<Rightarrow> bool \<Rightarrow> bool \<Rightarrow> bool \<Rightarrow> bool \<Rightarrow> conv_result" where
  "getConv_number expr_type desired_type loc expr_is_signed desired_is_signed is_explicit is_unknown_type =
     (let (desired_bitwidth, float_desired) = getBitWidth (Some desired_type);
          (expr_bitwidth, float_expr) = getBitWidth (Some expr_type);
          conv = (\<lambda>c. (Result (Some c), Some conversion_match));
          untyped = (\<lambda>c. (Result (Some c), Some untyped_match));
          err = (ConvErr loc, Some conversion_match)
      in
      if desired_bitwidth = 1 then
        (if expr_bitwidth = 1 then conv NoConversion
         else if \<not> is_explicit \<and> float_expr then err
         else if \<not> is_explicit \<and> expr_is_signed then err
         else if float_expr then conv FloatToBool
         else conv IntToBool)
      else if float_desired then
        (if float_expr then
           (if desired_bitwidth = expr_bitwidth then conv NoConversion
            else if is_explicit \<or> is_unknown_type \<or> desired_bitwidth \<ge> expr_bitwidth
            then conv (FPCast desired_type)
            else err)
         else if isIntegerTy expr_type then
           (if is_explicit \<or> is_unknown_type \<or> desired_bitwidth \<ge> expr_bitwidth \<or> desired_bitwidth \<ge> 53
            then (if desired_bitwidth < 53 \<and> desired_bitwidth < expr_bitwidth then untyped else conv)
              (if expr_is_signed then SIToFP desired_type else UIToFP desired_type)
            else err)
         else err)
      else if isIntegerTy expr_type \<or> isFloatTy expr_type \<or> isDoubleTy expr_type then
        (if float_expr then
           (if is_explicit
            then conv (if desired_is_signed then FPToSI desired_type else FPToUI desired_type)
            else err)
         else if \<not> desired_is_signed then
           (if expr_is_signed then
              (if \<not> is_explicit \<and> \<not> is_unknown_type then err
               else if desired_bitwidth = expr_bitwidth then conv NoConversion
               else conv (IntCast desired_type True))
            else
              (if desired_bitwidth < expr_bitwidth then
                 (if is_explicit \<or> is_unknown_type then untyped (IntCast desired_type False) else err)
               else if desired_bitwidth = expr_bitwidth then conv NoConversion
               else conv (IntCast desired_type False)))
         else
           (if expr_is_signed then
              (if desired_bitwidth < expr_bitwidth then
                 (if is_explicit \<or> is_unknown_type then conv (IntCast desired_type True) else err)
               else conv (IntCast desired_type True))
            else
              (if desired_bitwidth < expr_bitwidth then
                 (if is_explicit \<or> is_unknown_type then
                    (if desired_bitwidth = expr_bitwidth then conv NoConversion
                     else conv (IntCast desired_type False))
                  else err)
               else conv (IntCast desired_type False))))
      else err)"

text \<open>
  \<open>getConv\<close>. \<open>expr_type\<close> may be null: that is checked only after the test for an imaginary value,
  which reads it when the attribute bit is set.
\<close>

definition getConv ::
  "globals \<Rightarrow> (string \<Rightarrow> string option) \<Rightarrow> ltype option \<Rightarrow> ltype \<Rightarrow> bool \<Rightarrow> u32 \<Rightarrow> u32 \<Rightarrow> bool \<Rightarrow> bool
   \<Rightarrow> conv_result" where
  "getConv g getConversion expr_type_ptr desired_type loc expr_attr desired_attr is_explicit is_unknown_type =
     (case expr_type_ptr of
        None \<Rightarrow> (if has expr_attr A_imaginary then Crash else Result None, None)
      | Some expr_type \<Rightarrow>
        let expr_is_signed = has expr_attr A_signed;
            expr_is_imag = (has expr_attr A_imaginary \<and> (isFloatTy expr_type \<or> isDoubleTy expr_type));
            desired_is_signed = has desired_attr A_signed;
            desired_is_imag = (has desired_attr A_imaginary \<and> (isFloatTy desired_type \<or> isDoubleTy desired_type));
            desired_bitwidth = fst (getBitWidth (Some desired_type));
            expr_bitwidth = fst (getBitWidth (Some expr_type));
            cm = Some conversion_match
        in
        if expr_is_imag \<noteq> desired_is_imag then (Result None, None)
        else if expr_type = desired_type \<and> (expr_is_signed = desired_is_signed \<or> \<not> isIntegerTy expr_type)
        then (Result (Some NoConversion), Some exact_match)
        else
          (case (if is_explicit
                 then getConv_constructor g getConversion expr_type desired_type loc expr_is_signed
                 else None) of
             Some r \<Rightarrow> (r, cm)
           | None \<Rightarrow>
             if isStructTy expr_type then
               (getConv_struct g getConversion expr_type desired_type loc desired_is_signed, cm)
             else if isArrayTy expr_type then
               (case match_dims expr_type desired_type of
                  None \<Rightarrow> (Result None, cm)
                | Some (expr_elem, desired_elem) \<Rightarrow>
                    if expr_elem = desired_elem \<and>
                       (expr_is_signed = desired_is_signed \<or> \<not> isIntegerTy expr_elem)
                    then (Result (Some NoConversion), Some exact_match)
                    else (Result None, cm))
             else if isPointerTy desired_type then
               (if is_explicit then Result (Some IntToPtr) else ConvErr loc, cm)
             else if isPointerTy expr_type then
               (if is_explicit then
                  (if desired_type = llvm_size_type g then Result (Some (PtrToInt desired_type))
                   else if desired_bitwidth = 1 then Result (Some PtrToBool)
                   else ConvErr loc)
                else ConvErr loc, cm)
             else if desired_bitwidth = 0 \<or> expr_bitwidth = 0 then (Result None, cm)
             else getConv_number expr_type desired_type loc expr_is_signed desired_is_signed
                    is_explicit is_unknown_type))"


section \<open>Meaning of the integer conversions\<close>

text \<open>
  The value of the low \<open>w\<close> bits of a register, read as a signed or an unsigned number, and the
  register after an instruction: \<open>CreateIntCast\<close> truncates, or extends by sign or zero.
\<close>

definition int_value :: "nat \<Rightarrow> bool \<Rightarrow> int \<Rightarrow> int" where
  "int_value w is_signed p = (if is_signed then signed_take_bit (w - 1) p else take_bit w p)"

fun apply_conv :: "conv \<Rightarrow> nat \<Rightarrow> int \<Rightarrow> int option" where
  "apply_conv NoConversion w p = Some p"
| "apply_conv (IntCast t is_signed) w p = Some (take_bit (int_bits t) (int_value w is_signed p))"
| "apply_conv IntToBool w p = Some (if take_bit w p \<noteq> 0 then 1 else 0)"
| "apply_conv _ w p = None"

definition int_range :: "nat \<Rightarrow> bool \<Rightarrow> int set" where
  "int_range w is_signed =
     (if is_signed then {- (2 ^ (w - 1)) ..< 2 ^ (w - 1)} else {0 ..< 2 ^ w})"

lemma int_value_in_range: "int_value w s p \<in> int_range w s"
  by (simp add: int_value_def int_range_def signed_take_bit_int_greater_eq_minus_exp
      signed_take_bit_int_less_exp)

lemma int_value_id:
  assumes "x \<in> int_range v s"
  shows "int_value v s x = x"
  using assms by (auto simp: int_value_def int_range_def take_bit_int_eq_self signed_take_bit_int_eq_self_iff)

lemma int_value_take_bit:
  assumes "0 < v"
  shows "int_value v s (take_bit v x) = int_value v s x"
  using assms by (cases v) (simp_all add: int_value_def signed_take_bit_take_bit)

lemma take_bit_int_value:
  assumes "v \<le> w" "0 < v"
  shows "take_bit v (int_value w s p) = take_bit v p"
  using assms by (simp add: int_value_def take_bit_signed_take_bit min_def)

lemma range_subset:
  assumes "0 < w" "0 < v"
  shows "int_range w es \<subseteq> int_range v ds \<longleftrightarrow>
    (if es then ds \<and> w \<le> v else if ds then w < v else w \<le> v)"
proof -
  have m: "- (2 ^ (w - 1)) < (0 :: int)" by simp
  have l: "(2 :: int) ^ (w - 1) < 2 ^ (v - 1) \<longleftrightarrow> w < v" "(2 :: int) ^ (w - 1) \<le> 2 ^ (v - 1) \<longleftrightarrow> w \<le> v"
    using assms by auto
  have u: "(2 :: int) ^ w \<le> 2 ^ (v - 1) \<longleftrightarrow> w < v"
    using assms by auto
  have ne: "(- (2 ^ (w - 1)) :: int) < 2 ^ (w - 1)" by (rule order_less_trans[OF m]) simp
  show ?thesis
    using m l u ne by (auto simp: int_range_def ivl_subset not_less)
qed

lemmas conv_simps = getConv_def getConv_number_def getConv_constructor_def getBitWidth_def ConvErr_def Let_def

lemma getConv_ints:
  assumes "0 < w" "1 < v"
  shows "getConv g f (Some (IntegerTy w)) (IntegerTy v) loc ea da ex unk =
    (if w = v \<and> has ea A_signed = has da A_signed then (Result (Some NoConversion), Some exact_match)
     else getConv_number (IntegerTy w) (IntegerTy v) loc (has ea A_signed) (has da A_signed) ex unk)"
  using assms by (auto simp: getConv_def getConv_constructor_def getBitWidth_def Let_def type_tests)

lemma getConv_number_ints:
  assumes "0 < w" "1 < v"
  shows "getConv_number (IntegerTy w) (IntegerTy v) loc es ds ex unk =
    (let conv = (\<lambda>c. (Result (Some c), Some conversion_match));
         err = (ConvErr loc, Some conversion_match) in
     if \<not> ds \<and> es \<and> \<not> ex \<and> \<not> unk then err
     else if v < w \<and> \<not> ex \<and> \<not> unk then err
     else if \<not> ds \<and> v = w then conv NoConversion
     else if \<not> ds \<and> \<not> es \<and> v < w then (Result (Some (IntCast (IntegerTy v) False)), Some untyped_match)
     else conv (IntCast (IntegerTy v) es))"
  using assms by (auto simp: getConv_number_def getBitWidth_def Let_def type_tests)

lemma converted_mod:
  assumes "0 < w" and "1 < v"
    and "fst (getConv g f (Some (IntegerTy w)) (IntegerTy v) loc ea da ex unk) = Result (Some c)"
  shows "\<exists>q. apply_conv c w p = Some q \<and>
    take_bit v q = take_bit v (int_value w (has ea A_signed) p)"
proof -
  have "c = NoConversion \<and> v = w \<or> c = IntCast (IntegerTy v) (has ea A_signed)"
    using assms(3)
    by (auto simp: getConv_ints[OF assms(1,2)] getConv_number_ints[OF assms(1,2)] ConvErr_def Let_def
        split: if_splits)
  then show ?thesis using assms(1) by (auto simp: take_bit_int_value)
qed

lemma implicit_iff:
  assumes "0 < w" and "1 < v"
  shows "(\<exists>c. fst (getConv g f (Some (IntegerTy w)) (IntegerTy v) False ea da False False) = Result (Some c)) \<longleftrightarrow>
    int_range w (has ea A_signed) \<subseteq> int_range v (has da A_signed) \<or>
    w = v \<and> \<not> has ea A_signed \<and> has da A_signed"
  using assms
  by (auto simp: getConv_ints getConv_number_ints range_subset ConvErr_def Let_def)

text \<open>
  C13. Every conversion between integer types, implicit or explicit, computes the value of the
  operand modulo 2 to the width of the result.
\<close>

theorem integer_conversion_mod:
  assumes "0 < w" and "1 < v"
    and "fst (getConv g f (Some (IntegerTy w)) (IntegerTy v) loc ea da ex unk) = Result (Some c)"
  shows "\<exists>q. apply_conv c w p = Some q \<and>
    take_bit v q = take_bit v (int_value w (has ea A_signed) p)"
  using assms by (rule converted_mod)

theorem integer_conversion_mod_witness:
  "\<exists>q. apply_conv (IntCast (IntegerTy 64) True) 8 200 = Some q \<and>
    take_bit 64 q = take_bit 64 (int_value 8 True 200)"
  using integer_conversion_mod[of 8 64 target64 "\<lambda>_. None" False A_signed 0 True False "IntCast (IntegerTy 64) True" 200]
  by (simp add: getConv_ints getConv_number_ints has_def attr_defs)

text \<open>
  C14. A value of an integer type is converted without a cast exactly when all its values fit
  into the desired type, or when an unsigned type meets the signed type of the same width.
\<close>

theorem implicit_integer_conversion:
  assumes "0 < w" and "1 < v"
  shows "(\<exists>c. fst (getConv g f (Some (IntegerTy w)) (IntegerTy v) False ea da False False) = Result (Some c)) \<longleftrightarrow>
    int_range w (has ea A_signed) \<subseteq> int_range v (has da A_signed) \<or>
    w = v \<and> \<not> has ea A_signed \<and> has da A_signed"
  using assms by (rule implicit_iff)

theorem implicit_integer_conversion_witness:
  "(\<exists>c. fst (getConv target64 (\<lambda>_. None) (Some (IntegerTy 16)) (IntegerTy 8) False 0 0 False False) = Result (Some c)) \<longleftrightarrow>
    int_range 16 False \<subseteq> int_range 8 False \<or> (16 :: nat) = 8 \<and> \<not> False \<and> False"
  using implicit_integer_conversion[of 16 8 target64 "\<lambda>_. None" 0 0] by simp

text \<open>
  C15. A conversion that needs no cast keeps the value of every operand, with one exception: the
  conversion of an unsigned integer to the signed type of the same width, which reinterprets the
  upper half of the values.
\<close>

theorem implicit_conversion_keeps_value:
  assumes "0 < w" and "1 < v"
    and "fst (getConv g f (Some (IntegerTy w)) (IntegerTy v) False ea da False False) = Result (Some c)"
  shows "(\<forall>p. map_option (int_value v (has da A_signed)) (apply_conv c w p) =
              Some (int_value w (has ea A_signed) p)) \<longleftrightarrow>
    \<not> (w = v \<and> \<not> has ea A_signed \<and> has da A_signed)"
proof (cases "w = v \<and> \<not> has ea A_signed \<and> has da A_signed")
  case True
  have c: "c = IntCast (IntegerTy v) False"
    using assms True by (auto simp: getConv_ints getConv_number_ints Let_def)
  have "int_value v True (2 ^ w - 1) = - 1" and "int_value w False (2 ^ w - 1) = 2 ^ w - 1"
    using True assms(2)
    by (auto simp: int_value_def mask_eq_exp_minus_1[symmetric] signed_take_bit_def bit_mask_iff)
  then have "\<not> map_option (int_value v True) (apply_conv c w (2 ^ w - 1)) = Some (int_value w False (2 ^ w - 1))"
    using True assms(1,2) c by (simp add: int_value_take_bit)
  then show ?thesis using True by auto
next
  case False
  have r: "int_range w (has ea A_signed) \<subseteq> int_range v (has da A_signed)"
    using implicit_iff[of w v g f ea da] assms False by auto
  show ?thesis
  proof -
    have "map_option (int_value v (has da A_signed)) (apply_conv c w p) = Some (int_value w (has ea A_signed) p)" for p
    proof -
      obtain q where q: "apply_conv c w p = Some q" "take_bit v q = take_bit v (int_value w (has ea A_signed) p)"
        using converted_mod[OF assms] by blast
      have "int_value v (has da A_signed) q = int_value v (has da A_signed) (int_value w (has ea A_signed) p)"
        using q(2) int_value_take_bit[of v "has da A_signed"] assms(2) by (metis less_trans zero_less_one)
      also have "\<dots> = int_value w (has ea A_signed) p"
        using int_value_id int_value_in_range r by blast
      finally show ?thesis using q(1) by simp
    qed
    then show ?thesis using False by blast
  qed
qed

theorem implicit_conversion_keeps_value_witness:
  "(\<forall>p. map_option (int_value 32 True) (apply_conv (IntCast (IntegerTy 32) False) 32 p) =
        Some (int_value 32 False p)) \<longleftrightarrow> \<not> ((32 :: nat) = 32 \<and> \<not> False \<and> True)"
  using implicit_conversion_keeps_value[of 32 32 target64 "\<lambda>_. None" 0 A_signed "IntCast (IntegerTy 32) False"]
  by (simp add: getConv_ints getConv_number_ints has_def attr_defs)

end
