(* ===== verification/Protos.thy ===== *)
theory Protos
  imports Conv
begin

text \<open>
  Function prototypes: comparison (\<open>CompareProtos\<close>, src/types.cc), the overload sets built by
  declarations and definitions (src/parser.cc, src/main.cc), the choice of the prototype for a call
  (\<open>selectProto\<close>, src/functions.cc) and the method tables of interfaces (\<open>getInterfaceVtable\<close>).
\<close>

section \<open>Reference types and the LLVM signature\<close>

text \<open>
  \<open>MakeInterfaceArrayType\<close> and \<open>getReferenceType\<close>: a reference to an array carries the dimensions
  that are not known at compile time in front of the pointer.
\<close>

definition MakeInterfaceArrayType :: "ltype \<Rightarrow> ltype" where
  "MakeInterfaceArrayType array_type = (ArrayTy 0 ^^ length (array_dims array_type)) (array_elem array_type)"

definition getReferenceType :: "globals \<Rightarrow> ltype \<Rightarrow> ltype \<times> ltype option" where
  "getReferenceType g nominal_type =
     (if isArrayTy nominal_type then
        (let n_var_dim = length (filter (\<lambda>n. n = 0) (array_dims nominal_type));
             el_type = array_elem nominal_type
         in if n_var_dim \<noteq> 0
            then (StructTy None (replicate n_var_dim (llvm_size_type g) @ [PointerTy]), Some el_type)
            else (PointerTy, Some el_type))
      else if isFunctionTy nominal_type \<or> nominal_type = llvm_closure_type g
      then (llvm_closure_type g, None)
      else (PointerTy, None))"

datatype ArgAttr = NoAttr | ByRef ltype | ByRefSized ltype nat | ByVal ltype

record Signature =
  sig_args :: "ltype list"
  sig_attrs :: "ArgAttr list"
  sig_ret :: ltype
  IsStructRet :: bool
  sig_varargs :: bool

text \<open>
  One argument of the constructor \<open>PrototypeAST::PrototypeAST\<close>; \<open>alloc_size\<close> is the size LLVM's data
  layout gives to a type, 0 for a type that is not sized.
\<close>

definition lower_arg :: "globals \<Rightarrow> (ltype \<Rightarrow> nat) \<Rightarrow> ltype \<Rightarrow> u32 \<Rightarrow> ltype \<times> ArgAttr" where
  "lower_arg g alloc_size t attr =
     (let argsize = alloc_size t; ref_type = fst (getReferenceType g t) in
      if has attr A_ref \<and> \<not> has attr A_by_value then
        (if argsize \<noteq> 0 then (PointerTy, ByRefSized t argsize)
         else (ref_type, if isPointerTy ref_type then ByRef t else NoAttr))
      else if argsize = 0 then (ref_type, NoAttr)
      else if has attr A_by_value then
        (PointerTy, if has attr A_constructor then ByRefSized t argsize else ByVal t)
      else (t, NoAttr))"

text \<open>The whole constructor; the types of arguments and result are not null.\<close>

definition lower_prototype ::
  "globals \<Rightarrow> (ltype \<Rightarrow> nat) \<Rightarrow> nat \<Rightarrow> u32 \<Rightarrow> (ltype \<times> u32) list \<Rightarrow> ltype \<Rightarrow> bool \<Rightarrow> Signature" where
  "lower_prototype g alloc_size sret_limit vis args ret is_varargs =
     (let lowered = map (\<lambda>(t, attr). lower_arg g alloc_size t attr) args;
          ret_size = (if \<not> has vis A_constructor \<or> \<not> isStructTy ret then alloc_size ret else 0);
          void_ret = (has vis (A_constructor OR A_destructor) \<and> isStructTy ret);
          by_value = ret_size \<le> sret_limit
      in \<lparr>sig_args = (if void_ret \<or> by_value then [] else [PointerTy]) @ map fst lowered,
          sig_attrs = map snd lowered,
          sig_ret = (if void_ret then VoidTy else if by_value then ret else VoidTy),
          IsStructRet = (\<not> void_ret \<and> \<not> by_value),
          sig_varargs = (is_varargs \<and> has vis A_c_api)\<rparr>)"

section \<open>Prototypes\<close>

record SourceLocation =
  File :: "string option"
  Line :: nat
  Col :: nat

text \<open>\<open>vtable_offs\<close> is -1 for a function that is no interface method.\<close>

record PrototypeAST =
  Name :: string
  Args :: "string list"
  RetType :: FullType
  ArgTypes :: "FullType list"
  LLVMArgTypes :: "ltype list"
  visibility :: u32
  IsVarArgs :: bool
  retLoc :: SourceLocation
  vtable_offs :: int

datatype ProtoMatchKind =
    protos_matching
  | protos_different
  | protos_conflicting
  | protos_conflicting_c_api_A
  | protos_conflicting_c_api_B
  | protos_conflicting_c_signature

definition head_of :: "'a list \<Rightarrow> 'a option" where
  "head_of xs = (case xs of [] \<Rightarrow> None | x # _ \<Rightarrow> Some x)"

text \<open>
  The comparison of the argument types: the lengths, and the types from the first one that counts.
  For an interface method the receiver does not.
\<close>

definition args_differ :: "PrototypeAST \<Rightarrow> PrototypeAST \<Rightarrow> bool" where
  "args_differ a b \<longleftrightarrow>
     length (ArgTypes a) \<noteq> length (ArgTypes b) \<or>
     list_ex (\<lambda>(s, t). FullTypes_differ (Some s) (Some t))
       (drop (if has (visibility b) A_interface then 1 else 0) (zip (ArgTypes a) (ArgTypes b)))"

text \<open>
  \<open>CompareProtos\<close>. A method has its receiver as first argument, so the first LLVM argument type
  of a method exists.
\<close>

definition CompareProtos :: "PrototypeAST \<Rightarrow> PrototypeAST \<Rightarrow> ProtoMatchKind" where
  "CompareProtos a b =
     (let differing = visibility a XOR visibility b;
          different = (if has (visibility a AND visibility b) A_c_api \<and> Name a = Name b
                       then protos_conflicting_c_signature else protos_different)
      in
      if has differing (A_method OR A_constructor OR A_destructor OR A_setter) then protos_different
      else if has (visibility a) A_method \<and> head_of (LLVMArgTypes a) \<noteq> head_of (LLVMArgTypes b)
      then protos_different
      else if args_differ a b then different
      else if FullTypes_differ (Some (RetType a)) (Some (RetType b)) then protos_conflicting
      else if has differing A_c_api then
        (if has (visibility a) A_c_api then protos_conflicting_c_api_A else protos_conflicting_c_api_B)
      else protos_matching)"

section \<open>Overload sets\<close>

text \<open>
  \<open>PrototypeAST::conflicts\<close>: -2 for a conflict, -1 for a new prototype, otherwise the index of the
  last one that matches.
\<close>

fun conflicts_loop :: "PrototypeAST \<Rightarrow> PrototypeAST list \<Rightarrow> int \<Rightarrow> int \<Rightarrow> int" where
  "conflicts_loop this [] i res = res"
| "conflicts_loop this (proto # protos) i res =
     (if has (visibility proto) A_setter \<and> \<not> has (visibility this) A_setter then -2
      else (case CompareProtos this proto of
          protos_matching \<Rightarrow> conflicts_loop this protos (i + 1) i
        | protos_different \<Rightarrow> conflicts_loop this protos (i + 1) res
        | protos_conflicting \<Rightarrow> -2
        | protos_conflicting_c_api_A \<Rightarrow> -2
        | protos_conflicting_c_api_B \<Rightarrow> -2
        | protos_conflicting_c_signature \<Rightarrow> conflicts_loop this protos (i + 1) res))"

definition conflicts :: "PrototypeAST \<Rightarrow> PrototypeAST list \<Rightarrow> int" where
  "conflicts this protos =
     (let res = conflicts_loop this protos 0 (-1) in
      if res = -1 \<and> has (visibility this) A_setter then
        (if length protos \<noteq> 1 \<or> length (ArgTypes this) \<noteq> 2 \<or> length (ArgTypes (protos ! 0)) \<noteq> 1 \<or>
            FullTypes_differ (Some (RetType (protos ! 0))) (Some (ArgTypes this ! 1))
         then -2 else -1)
      else res)"

text \<open>
  \<open>check_and_add_proto\<close>, for definitions and methods: the result, the overload set and the
  indentation of the interactive prompt, which a conflict resets.
\<close>

definition check_and_add_proto ::
  "PrototypeAST list \<Rightarrow> PrototypeAST \<Rightarrow> int \<Rightarrow> bool \<times> PrototypeAST list \<times> int" where
  "check_and_add_proto protos Proto prompt_indent =
     (let match_idx = conflicts Proto protos in
      if match_idx = -2 then (False, protos, 0)
      else if match_idx = -1 then (True, protos @ [Proto], prompt_indent)
      else (True, protos[nat match_idx := Proto], prompt_indent))"

text \<open>The declaration of a function that is no method (\<open>decl\<close>, \<open>HandleDeclaration\<close> in src/main.cc).\<close>

definition declare_function :: "PrototypeAST list \<Rightarrow> PrototypeAST \<Rightarrow> bool \<times> PrototypeAST list" where
  "declare_function protos Proto =
     (if conflicts Proto protos = -2 then (False, protos) else (True, protos @ [Proto]))"

section \<open>The members of an interface declaration\<close>

text \<open>
  A prototype made from its parts, with the LLVM argument types of the constructor; the types are
  not null.
\<close>

definition new_proto ::
  "globals \<Rightarrow> (ltype \<Rightarrow> nat) \<Rightarrow> nat \<Rightarrow> string \<Rightarrow> string list \<Rightarrow> u32 \<Rightarrow> SourceLocation \<Rightarrow> FullType \<Rightarrow> FullType list
   \<Rightarrow> int \<Rightarrow> PrototypeAST" where
  "new_proto g alloc_size sret_limit name args vis loc ret types offs =
     \<lparr>Name = name, Args = args, RetType = ret, ArgTypes = types,
      LLVMArgTypes = sig_args (lower_prototype g alloc_size sret_limit vis
        (map (\<lambda>t. (the (ft_type t), type_attr t)) types) (the (ft_type ret)) False),
      visibility = vis, IsVarArgs = False, retLoc = loc, vtable_offs = offs\<rparr>"

text \<open>
  One member of an interface in \<open>ParseInterface\<close>, after it has been parsed: a field \<open>name=type\<close>
  becomes a getter and a setter, a method is added unless it clashes with an earlier one. The
  result is the overload set of the name and the next free offset of the method table.
\<close>

definition add_interface_member ::
  "globals \<Rightarrow> (ltype \<Rightarrow> nat) \<Rightarrow> nat \<Rightarrow> PrototypeAST \<Rightarrow> PrototypeAST list \<Rightarrow> int
   \<Rightarrow> (PrototypeAST list \<times> int) option" where
  "add_interface_member g alloc_size sret_limit proto protos offset =
     (if has (visibility proto) A_setter then
        (if length (ArgTypes proto) = 1 then
           (if protos \<noteq> [] then None
            else (let recv = hd (ArgTypes proto);
                      getter = new_proto g alloc_size sret_limit (Name proto) [''this'']
                        (A_method OR A_interface OR A_getter) (retLoc proto) (RetType proto) [recv] offset;
                      setter = new_proto g alloc_size sret_limit (Name proto) [''this'', ''assignment_RHS'']
                        (A_method OR A_interface OR A_setter) (retLoc proto) (RetType proto)
                        [recv, RetType proto] (offset + 1)
                  in Some (protos @ [getter, setter], offset + 2)))
         else None)
      else if list_ex (\<lambda>existing. has (visibility existing) A_setter \<and> length (ArgTypes existing) = 1 \<or>
             CompareProtos proto existing \<noteq> protos_different) protos
      then None
      else Some (protos @ [proto\<lparr>vtable_offs := offset\<rparr>], offset + 1))"

section \<open>The prototype for a call\<close>

record FnArg =
  Conv :: "conv option"
  argtype :: "ltype option"
  argtype_attr :: u32
  arg_unknown_type :: bool
  is_anonymous_list :: bool

definition is_aggregate :: "FullType \<Rightarrow> bool" where
  "is_aggregate ft \<longleftrightarrow> (case ft_type ft of None \<Rightarrow> False | Some t \<Rightarrow> isStructTy t \<or> isArrayTy t)"

text \<open>
  One argument against the type the prototype wants: the conversion and the kind of match, which
  starts as \<open>untyped_match\<close>. The types of a prototype are not null.
\<close>

definition match_arg ::
  "globals \<Rightarrow> (string \<Rightarrow> string option) \<Rightarrow> FullType \<Rightarrow> FnArg \<Rightarrow> (conv option \<times> conv_match_t) outcome" where
  "match_arg g getConversion wanted arg =
     (case ft_type wanted of
        None \<Rightarrow> Crash
      | Some wanted_type \<Rightarrow>
        if (case argtype arg of None \<Rightarrow> False | Some t \<Rightarrow> isPointerTy t) \<and> has (type_attr wanted) A_optional
        then Result (None, exact_match)
        else if is_anonymous_list arg \<and> is_aggregate wanted then Result (Some NoConversion, untyped_match)
        else (case getConv g getConversion (argtype arg) wanted_type False (argtype_attr arg)
                     (type_attr wanted) False (arg_unknown_type arg) of
            (Crash, _) \<Rightarrow> Crash
          | (Result c, None) \<Rightarrow> Result (c, untyped_match)
          | (Result c, Some m) \<Rightarrow> Result (c, m)))"

text \<open>
  The state of the search: the conversions stored in the arguments and in the two buffers, and the
  indices of the candidates found so far.
\<close>

record selection =
  convs1 :: "conv option list"
  convs2 :: "conv option list"
  convs3 :: "conv option list"
  candidates_2 :: "nat list"
  candidates_3 :: "nat list"

definition set_convs2 :: "nat \<Rightarrow> conv option \<Rightarrow> selection \<Rightarrow> selection" where
  "set_convs2 i c s = (if candidates_2 s = [] then s\<lparr>convs2 := (convs2 s)[i := c]\<rparr> else s)"

definition set_convs3 :: "nat \<Rightarrow> conv option \<Rightarrow> selection \<Rightarrow> selection" where
  "set_convs3 i c s = (if candidates_3 s = [] then s\<lparr>convs3 := (convs3 s)[i := c]\<rparr> else s)"

text \<open>How a prototype fits: exactly, with conversions, with conversions of untyped arguments.\<close>

datatype fit = Exact | WithConv | WithUndefConv | NoMatch

fun weaken :: "fit \<Rightarrow> fit \<Rightarrow> fit" where
  "weaken Exact f = f"
| "weaken WithConv Exact = WithConv"
| "weaken WithConv f = f"
| "weaken WithUndefConv NoMatch = NoMatch"
| "weaken WithUndefConv f = WithUndefConv"
| "weaken NoMatch f = NoMatch"

fun match_args ::
  "globals \<Rightarrow> (string \<Rightarrow> string option) \<Rightarrow> nat \<Rightarrow> (FullType \<times> FnArg) list \<Rightarrow> fit \<Rightarrow> selection
   \<Rightarrow> (fit \<times> selection) outcome" where
  "match_args g getConversion i [] f s = Result (f, s)"
| "match_args g getConversion i ((wanted, arg) # args) f s =
     (case match_arg g getConversion wanted arg of
        Crash \<Rightarrow> Crash
      | Result (c, exact_match) \<Rightarrow>
          match_args g getConversion (i + 1) args f
            (set_convs3 i None (set_convs2 i None (s\<lparr>convs1 := (convs1 s)[i := None]\<rparr>)))
      | Result (c, conversion_match) \<Rightarrow>
          match_args g getConversion (i + 1) args (weaken WithConv f) (set_convs3 i c (set_convs2 i c s))
      | Result (c, untyped_match) \<Rightarrow>
          (if c \<noteq> None \<or> is_aggregate wanted \<and> is_anonymous_list arg
           then match_args g getConversion (i + 1) args (weaken WithUndefConv f) (set_convs3 i c s)
           else Result (NoMatch, s)))"

definition arg_offset :: "PrototypeAST \<Rightarrow> nat" where
  "arg_offset proto = (if has (visibility proto) A_method then 1 else 0)"

text \<open>
  The loop over the prototypes. \<open>Inl (j, checked)\<close>: the search ends with prototype \<open>j\<close>, with or
  without the check of reference arguments that follows.
\<close>

fun select_loop ::
  "globals \<Rightarrow> (string \<Rightarrow> string option) \<Rightarrow> FnArg list \<Rightarrow> nat \<Rightarrow> PrototypeAST list \<Rightarrow> selection
   \<Rightarrow> ((nat \<times> bool) option \<times> selection) outcome" where
  "select_loop g getConversion fnargs i_proto [] s = Result (None, s)"
| "select_loop g getConversion fnargs i_proto (proto # protos) s =
     (if IsVarArgs proto then Result (Some (i_proto, False), s)
      else if length (ArgTypes proto) \<noteq> length fnargs
      then select_loop g getConversion fnargs (i_proto + 1) protos s
      else (case match_args g getConversion (arg_offset proto)
                   (drop (arg_offset proto) (zip (ArgTypes proto) fnargs)) Exact s of
          Crash \<Rightarrow> Crash
        | Result (Exact, s) \<Rightarrow> Result (Some (i_proto, True), s)
        | Result (WithConv, s) \<Rightarrow> select_loop g getConversion fnargs (i_proto + 1) protos
            (s\<lparr>candidates_2 := candidates_2 s @ [i_proto]\<rparr>)
        | Result (WithUndefConv, s) \<Rightarrow> select_loop g getConversion fnargs (i_proto + 1) protos
            (s\<lparr>candidates_3 := candidates_3 s @ [i_proto]\<rparr>)
        | Result (NoMatch, s) \<Rightarrow> select_loop g getConversion fnargs (i_proto + 1) protos s))"

text \<open>An argument that is passed by reference must not need a conversion.\<close>

definition check_selected_proto :: "PrototypeAST list \<Rightarrow> nat \<Rightarrow> conv option list \<Rightarrow> int" where
  "check_selected_proto protos selected_idx convs =
     (if list_ex (\<lambda>(wanted, c). has (type_attr wanted) A_ref \<and> c \<noteq> None \<and> c \<noteq> Some NoConversion)
           (zip (ArgTypes (protos ! selected_idx)) convs)
      then -1 else int selected_idx)"

text \<open>
  \<open>selectProto\<close>: the index of the prototype, -1 after an error message, -2 when the name may be an
  explicit conversion to a basic type (\<open>names_basic_type\<close>: it is declared as a type in the builtin
  module), and the conversions stored in the arguments.
\<close>

definition selectProto ::
  "globals \<Rightarrow> (string \<Rightarrow> string option) \<Rightarrow> bool \<Rightarrow> PrototypeAST list \<Rightarrow> FnArg list
   \<Rightarrow> (int \<times> conv option list) outcome" where
  "selectProto g getConversion names_basic_type protos fnargs =
     (let none = map (\<lambda>_. None) fnargs in
      case select_loop g getConversion fnargs 0 protos
             \<lparr>convs1 = map Conv fnargs, convs2 = none, convs3 = none, candidates_2 = [], candidates_3 = []\<rparr> of
        Crash \<Rightarrow> Crash
      | Result (Some (j, False), s) \<Rightarrow> Result (int j, convs1 s)
      | Result (Some (j, True), s) \<Rightarrow> Result (check_selected_proto protos j (convs1 s), convs1 s)
      | Result (None, s) \<Rightarrow>
          (case candidates_2 s of
             [j] \<Rightarrow> Result (check_selected_proto protos j (convs2 s), convs2 s)
           | _ # _ # _ \<Rightarrow> Result (-1, convs1 s)
           | [] \<Rightarrow>
               (case candidates_3 s of
                  [j] \<Rightarrow> Result (check_selected_proto protos j (convs3 s), convs3 s)
                | _ # _ # _ \<Rightarrow> Result (-1, convs1 s)
                | [] \<Rightarrow> Result (if length fnargs = 1 \<and> names_basic_type then -2 else -1, convs1 s))))"

section \<open>Method tables\<close>

text \<open>The entries of a method table, and a write into the vector of entries.\<close>

datatype vt_entry = TableSize nat | NullPtr | FieldOffset nat | Method PrototypeAST

definition write_entry :: "int \<Rightarrow> vt_entry \<Rightarrow> vt_entry list \<Rightarrow> vt_entry list option" where
  "write_entry i e methods =
     (if 0 \<le> i \<and> i < int (length methods) then Some (methods[nat i := e]) else None)"

text \<open>The loop over the prototypes of one interface method; \<open>Some None\<close> when one of them is missing.\<close>

fun vtable_methods ::
  "PrototypeAST list \<Rightarrow> nat \<Rightarrow> PrototypeAST list \<Rightarrow> vt_entry list \<Rightarrow> vt_entry list option option" where
  "vtable_methods ft_protos selidx [] methods = Some (Some methods)"
| "vtable_methods ft_protos selidx (proto # protos) methods =
     (if list_ex (\<lambda>ft_proto. CompareProtos ft_proto proto = protos_matching) ft_protos then
        (if selidx < length ft_protos then do {
           methods \<leftarrow> write_entry (vtable_offs proto) (Method (ft_protos ! selidx)) methods;
           vtable_methods ft_protos (selidx + 1) protos methods }
         else None)
      else Some None)"

text \<open>One interface member: a virtual field that is a data field, or methods.\<close>

definition vtable_member ::
  "(string \<Rightarrow> (nat \<times> FullType) option) \<Rightarrow> (nat \<Rightarrow> nat) \<Rightarrow> (string \<Rightarrow> PrototypeAST list option) \<Rightarrow>
   string \<Rightarrow> PrototypeAST list \<Rightarrow> vt_entry list \<Rightarrow> vt_entry list option option" where
  "vtable_member field_of element_offset method_protos ident protos methods =
     (case (if length protos = 2 \<and> has (visibility (protos ! 0)) A_getter then field_of ident else None) of
        Some (FieldIndex, field_ft) \<Rightarrow>
          (if FullTypes_differ (Some field_ft) (Some (RetType (protos ! 0))) then Some None
           else do {
             let idx = vtable_offs (protos ! 0);
             methods \<leftarrow> write_entry idx NullPtr methods;
             methods \<leftarrow> write_entry (idx + 1) (FieldOffset (element_offset FieldIndex)) methods;
             Some (Some methods) })
      | None \<Rightarrow>
          (case method_protos ident of
             None \<Rightarrow> Some None
           | Some ft_protos \<Rightarrow> vtable_methods ft_protos 0 protos methods))"

fun vtable_members ::
  "(string \<Rightarrow> (nat \<times> FullType) option) \<Rightarrow> (nat \<Rightarrow> nat) \<Rightarrow> (string \<Rightarrow> PrototypeAST list option) \<Rightarrow>
   (string \<times> PrototypeAST list) list \<Rightarrow> vt_entry list \<Rightarrow> vt_entry list option option" where
  "vtable_members field_of element_offset method_protos [] methods = Some (Some methods)"
| "vtable_members field_of element_offset method_protos ((ident, protos) # members) methods =
     (case vtable_member field_of element_offset method_protos ident protos methods of
        Some (Some methods) \<Rightarrow> vtable_members field_of element_offset method_protos members methods
      | r \<Rightarrow> r)"

text \<open>
  \<open>getInterfaceVtable\<close>: \<open>None\<close> for an abort or an access out of range, \<open>Some None\<close> when the type does
  not implement the interface. Unwritten entries of the vector are null.
\<close>

definition getInterfaceVtable ::
  "nat \<Rightarrow> nat \<Rightarrow> FullType \<Rightarrow> (string \<Rightarrow> (nat \<times> FullType) option) \<Rightarrow> (nat \<Rightarrow> nat) \<Rightarrow>
   (string \<times> string \<Rightarrow> PrototypeAST list option) \<Rightarrow> (string \<times> PrototypeAST list) list
   \<Rightarrow> vt_entry list option option" where
  "getInterfaceVtable pointer_bytes n_entries ft field_of element_offset MethodProtos inter_protos =
     (case mangled_name ft of
        None \<Rightarrow> None
      | Some mangledType \<Rightarrow> do {
          methods \<leftarrow> write_entry 0 (TableSize (pointer_bytes * n_entries)) (replicate n_entries NullPtr);
          t \<leftarrow> ft_type ft;
          if isStructTy t
          then vtable_members field_of element_offset (\<lambda>ident. MethodProtos (mangledType, ident)) inter_protos methods
          else Some None })"


section \<open>Overload sets stay free of ambiguity\<close>

definition plain_proto :: "PrototypeAST \<Rightarrow> bool" where
  "plain_proto p \<longleftrightarrow> \<not> has (visibility p) A_interface"

definition kind_bits :: u32 where
  "kind_bits = A_method OR A_constructor OR A_destructor OR A_setter"

text \<open>What tells two prototypes of one name apart.\<close>

definition signature_of :: "PrototypeAST \<Rightarrow> u32 \<times> ltype option option \<times> (ltype option \<times> u32) list" where
  "signature_of p =
     (visibility p AND kind_bits,
      if has (visibility p) A_method then Some (head_of (LLVMArgTypes p)) else None,
      map (\<lambda>t. (ft_type t, type_attr t)) (ArgTypes p))"

definition told_apart :: "PrototypeAST \<Rightarrow> PrototypeAST \<Rightarrow> bool" where
  "told_apart a b \<longleftrightarrow> CompareProtos a b \<in> {protos_different, protos_conflicting_c_signature}"

lemma has_xor: "has (a XOR b) m \<longleftrightarrow> a AND m \<noteq> b AND m"
proof -
  have "(a XOR b) AND m = (a AND m) XOR (b AND m)" by (rule bit_eqI) (auto simp: bit_simps)
  moreover have "x XOR y = 0 \<longleftrightarrow> x = y" for x y :: u32 by (auto simp: bit_eq_iff bit_simps)
  ultimately show ?thesis by (simp add: has_def)
qed

lemma has_method_bits: "a AND kind_bits = b AND kind_bits \<Longrightarrow> has a A_method = has b A_method"
proof -
  assume "a AND kind_bits = b AND kind_bits"
  then have "(a AND kind_bits) AND A_method = (b AND kind_bits) AND A_method" by simp
  moreover have "kind_bits AND A_method = A_method" by (simp add: kind_bits_def attr_defs)
  ultimately show ?thesis by (simp add: has_def and.assoc)
qed

lemma args_differ_iff:
  assumes "plain_proto b"
  shows "args_differ a b \<longleftrightarrow> map (\<lambda>t. (ft_type t, type_attr t)) (ArgTypes a) \<noteq>
    map (\<lambda>t. (ft_type t, type_attr t)) (ArgTypes b)"
proof -
  have "list_ex (\<lambda>(s, t). FullTypes_differ (Some s) (Some t)) (zip xs ys) \<longleftrightarrow>
      map (\<lambda>t. (ft_type t, type_attr t)) xs \<noteq> map (\<lambda>t. (ft_type t, type_attr t)) ys"
    if "length xs = length ys" for xs ys
    using that by (induction xs ys rule: list_induct2) (auto simp: FullTypes_differ_def)
  then show ?thesis using assms
    by (auto simp: args_differ_def plain_proto_def dest: map_eq_imp_length_eq)
qed

lemma told_apart_iff:
  assumes "plain_proto b"
  shows "told_apart a b \<longleftrightarrow> signature_of a \<noteq> signature_of b"
proof (cases "visibility a AND kind_bits = visibility b AND kind_bits")
  case True
  then have m: "has (visibility a) A_method = has (visibility b) A_method" by (rule has_method_bits)
  show ?thesis using True m
    by (auto simp: told_apart_def CompareProtos_def has_xor kind_bits_def[symmetric] signature_of_def
        args_differ_iff[OF assms] Let_def)
next
  case False
  then show ?thesis by (auto simp: told_apart_def CompareProtos_def has_xor kind_bits_def[symmetric]
        signature_of_def Let_def)
qed

lemma matching_signature:
  assumes "plain_proto b" "CompareProtos a b = protos_matching"
  shows "signature_of a = signature_of b"
  using told_apart_iff[OF assms(1), of a] assms(2) by (simp add: told_apart_def)

text \<open>What the search for conflicts establishes.\<close>

lemma conflicts_loop_spec:
  assumes "conflicts_loop this protos i res = r" "r \<noteq> -2"
  shows "(\<forall>p \<in> set protos. told_apart this p \<or> CompareProtos this p = protos_matching) \<and>
    (r = res \<and> (\<forall>p \<in> set protos. told_apart this p) \<or>
     (\<exists>k < length protos. r = i + int k \<and> CompareProtos this (protos ! k) = protos_matching))"
  using assms
proof (induction this protos i res rule: conflicts_loop.induct)
  case (1 this i res)
  then show ?case by simp
next
  case (2 this proto protos i res)
  have shift: "\<exists>k < length (proto # protos). r = i + int k \<and> CompareProtos this ((proto # protos) ! k) = protos_matching"
    if h: "\<exists>k < length protos. r = i + 1 + int k \<and> CompareProtos this (protos ! k) = protos_matching"
  proof -
    obtain k where "k < length protos" "r = i + 1 + int k" "CompareProtos this (protos ! k) = protos_matching"
      using h by blast
    then show ?thesis by (intro exI[of _ "Suc k"]) simp
  qed
  have ns: "\<not> (has (visibility proto) A_setter \<and> \<not> has (visibility this) A_setter)"
    using "2.prems" by (metis conflicts_loop.simps(2))
  show ?case
  proof (cases "CompareProtos this proto")
    case protos_matching
    have "conflicts_loop this protos (i + 1) i = r" using "2.prems"(1) ns protos_matching by auto
    from "2.IH"(1)[OF ns protos_matching this "2.prems"(2)]
    have all: "\<forall>p \<in> set protos. told_apart this p \<or> CompareProtos this p = protos_matching"
      and r: "r = i \<or> (\<exists>k < length protos. r = i + 1 + int k \<and> CompareProtos this (protos ! k) = protos_matching)"
      by auto
    have "\<exists>k < length (proto # protos). r = i + int k \<and> CompareProtos this ((proto # protos) ! k) = protos_matching"
      using r
    proof
      assume "r = i"
      then show ?thesis using protos_matching by (intro exI[of _ 0]) simp
    qed (rule shift)
    then show ?thesis using all protos_matching by auto
  next
    case protos_different
    have "conflicts_loop this protos (i + 1) res = r" using "2.prems"(1) ns protos_different by auto
    from "2.IH"(2)[OF ns protos_different this "2.prems"(2)] protos_different shift
    show ?thesis by (auto simp: told_apart_def)
  next
    case protos_conflicting_c_signature
    have "conflicts_loop this protos (i + 1) res = r" using "2.prems"(1) ns protos_conflicting_c_signature by auto
    from "2.IH"(3)[OF ns protos_conflicting_c_signature this "2.prems"(2)] protos_conflicting_c_signature shift
    show ?thesis by (auto simp: told_apart_def)
  qed (use "2.prems" ns in auto)
qed

lemma conflicts_spec:
  assumes "conflicts this protos \<noteq> -2"
  shows "conflicts this protos = -1 \<and> (\<forall>p \<in> set protos. told_apart this p) \<or>
    (\<exists>k < length protos. conflicts this protos = int k \<and> CompareProtos this (protos ! k) = protos_matching)"
proof -
  let ?r = "conflicts_loop this protos 0 (-1)"
  have "conflicts this protos = ?r \<and> ?r \<noteq> -2"
    using assms by (auto simp: conflicts_def Let_def split: if_splits)
  then show ?thesis using conflicts_loop_spec[of this protos 0 "-1" ?r] by auto
qed

text \<open>A sequence of definitions of one name, from the empty overload set.\<close>

definition define_all :: "PrototypeAST list \<Rightarrow> PrototypeAST list" where
  "define_all ps = foldl (\<lambda>protos p. fst (snd (check_and_add_proto protos p 0))) [] ps"

lemma check_and_add_cases:
  assumes "check_and_add_proto protos p n = (ok, protos', n')"
  shows "(\<not> ok \<and> protos' = protos \<and> n' = 0) \<or>
    (ok \<and> n' = n \<and> protos' = protos @ [p] \<and> (\<forall>q \<in> set protos. told_apart p q)) \<or>
    (\<exists>k < length protos. ok \<and> n' = n \<and> protos' = protos[k := p] \<and> CompareProtos p (protos ! k) = protos_matching)"
  using assms conflicts_spec[of p protos]
  by (auto simp: check_and_add_proto_def Let_def split: if_splits)

lemma define_step:
  assumes "distinct (map signature_of protos)" "\<forall>q \<in> set protos. plain_proto q" "plain_proto p"
    and "check_and_add_proto protos p n = (ok, protos', n')"
  shows "distinct (map signature_of protos') \<and> (\<forall>q \<in> set protos'. plain_proto q) \<and>
    (if ok then p \<in> set protos' else protos' = protos)"
  using check_and_add_cases[OF assms(4)]
proof (elim disjE exE conjE)
  assume a: "protos' = protos @ [p]" "ok" and apart: "\<forall>q \<in> set protos. told_apart p q"
  then have "signature_of p \<notin> signature_of ` set protos" using assms(2) told_apart_iff by fastforce
  with a assms show ?thesis by auto
next
  fix k assume k: "k < length protos" "protos' = protos[k := p]" "ok"
    and m: "CompareProtos p (protos ! k) = protos_matching"
  have "signature_of p = signature_of (protos ! k)"
    using matching_signature[OF _ m] assms(2) k(1) by simp
  then have "map signature_of protos' = map signature_of protos"
    using k by (simp add: map_update list_update_same_conv)
  moreover have "\<forall>q \<in> set protos'. plain_proto q"
    using assms(2,3) k(2) set_update_subset_insert[of protos k p] by auto
  moreover have "p \<in> set protos'" using k by (simp add: set_update_memI)
  ultimately show ?thesis using assms(1) k(3) by simp
qed (use assms in simp)

lemma define_all_distinct:
  assumes "\<forall>p \<in> set ps. plain_proto p"
  shows "distinct (map signature_of (define_all ps)) \<and> (\<forall>q \<in> set (define_all ps). plain_proto q)"
  using assms
proof (induction ps rule: rev_induct)
  case Nil
  then show ?case by (simp add: define_all_def)
next
  case (snoc p ps)
  obtain ok q n where c: "check_and_add_proto (define_all ps) p 0 = (ok, q, n)"
    by (cases "check_and_add_proto (define_all ps) p 0") auto
  have q: "define_all (ps @ [p]) = q" using c by (simp add: define_all_def)
  have "distinct (map signature_of (define_all ps))" "\<forall>q \<in> set (define_all ps). plain_proto q" "plain_proto p"
    using snoc.IH snoc.prems by simp_all
  from define_step[OF this c] show ?case unfolding q by blast
qed



text \<open>Prototypes of functions with one argument, for the examples.\<close>

definition example_proto :: "string \<Rightarrow> FullType list \<Rightarrow> FullType \<Rightarrow> PrototypeAST" where
  "example_proto n ts r = \<lparr>Name = n, Args = replicate (length ts) ''x'', RetType = r, ArgTypes = ts,
     LLVMArgTypes = map (the \<circ> ft_type) ts, visibility = 0, IsVarArgs = False,
     retLoc = \<lparr>File = None, Line = 0, Col = 0\<rparr>, vtable_offs = -1\<rparr>"

definition example_arg :: "ltype \<Rightarrow> u32 \<Rightarrow> FnArg" where
  "example_arg t attr = \<lparr>Conv = None, argtype = Some t, argtype_attr = attr, arg_unknown_type = False,
     is_anonymous_list = False\<rparr>"

definition f_i32 :: PrototypeAST where
  "f_i32 = example_proto ''f'' [scalar (IntegerTy 32) A_signed] (scalar VoidTy 0)"

definition f_f64 :: PrototypeAST where
  "f_f64 = example_proto ''f'' [scalar DoubleTy 0] (scalar VoidTy 0)"

definition f_string :: PrototypeAST where
  "f_string = example_proto ''f'' [scalar (llvm_string_type target64) 0] (scalar VoidTy 0)"

lemmas example_protos = f_i32_def f_f64_def f_string_def example_proto_def


section \<open>Which prototype is chosen\<close>

text \<open>The fit of one argument and of a whole prototype, without the bookkeeping of \<open>selectProto\<close>.\<close>

definition fit_of_arg :: "globals \<Rightarrow> (string \<Rightarrow> string option) \<Rightarrow> FullType \<times> FnArg \<Rightarrow> fit" where
  "fit_of_arg g gc = (\<lambda>(wanted, arg). (case match_arg g gc wanted arg of
       Crash \<Rightarrow> NoMatch
     | Result (c, exact_match) \<Rightarrow> Exact
     | Result (c, conversion_match) \<Rightarrow> WithConv
     | Result (c, untyped_match) \<Rightarrow>
         if c \<noteq> None \<or> is_aggregate wanted \<and> is_anonymous_list arg then WithUndefConv else NoMatch))"

definition conv_of_arg :: "globals \<Rightarrow> (string \<Rightarrow> string option) \<Rightarrow> FullType \<times> FnArg \<Rightarrow> conv option" where
  "conv_of_arg g gc = (\<lambda>(wanted, arg). (case match_arg g gc wanted arg of
       Crash \<Rightarrow> None
     | Result (c, exact_match) \<Rightarrow> None
     | Result (c, _) \<Rightarrow> c))"

definition worst :: "fit list \<Rightarrow> fit" where
  "worst fs = (if NoMatch \<in> set fs then NoMatch else if WithUndefConv \<in> set fs then WithUndefConv
     else if WithConv \<in> set fs then WithConv else Exact)"

definition call_args :: "FnArg list \<Rightarrow> PrototypeAST \<Rightarrow> (FullType \<times> FnArg) list" where
  "call_args fnargs p = drop (arg_offset p) (zip (ArgTypes p) fnargs)"

definition fit_of :: "globals \<Rightarrow> (string \<Rightarrow> string option) \<Rightarrow> FnArg list \<Rightarrow> PrototypeAST \<Rightarrow> fit" where
  "fit_of g gc fnargs p =
     (if length (ArgTypes p) \<noteq> length fnargs then NoMatch
      else worst (map (fit_of_arg g gc) (call_args fnargs p)))"

definition convs_of :: "globals \<Rightarrow> (string \<Rightarrow> string option) \<Rightarrow> FnArg list \<Rightarrow> PrototypeAST \<Rightarrow> conv option list" where
  "convs_of g gc fnargs p =
     replicate (min (arg_offset p) (length fnargs)) None @ map (conv_of_arg g gc) (call_args fnargs p)"

fun positions :: "('a \<Rightarrow> bool) \<Rightarrow> nat \<Rightarrow> 'a list \<Rightarrow> nat list" where
  "positions P i [] = []"
| "positions P i (x # xs) = (if P x then [i] else []) @ positions P (i + 1) xs"

text \<open>What the bookkeeping leaves alone while the arguments from \<open>i\<close> on are matched.\<close>

definition keeps :: "nat \<Rightarrow> selection \<Rightarrow> selection \<Rightarrow> bool" where
  "keeps i s s' \<longleftrightarrow>
     candidates_2 s' = candidates_2 s \<and> candidates_3 s' = candidates_3 s \<and>
     length (convs2 s') = length (convs2 s) \<and> length (convs3 s') = length (convs3 s) \<and>
     take i (convs2 s') = take i (convs2 s) \<and> take i (convs3 s') = take i (convs3 s) \<and>
     (candidates_2 s \<noteq> [] \<longrightarrow> convs2 s' = convs2 s) \<and> (candidates_3 s \<noteq> [] \<longrightarrow> convs3 s' = convs3 s) \<and>
     (\<forall>n. convs1 s = replicate n None \<longrightarrow> convs1 s' = replicate n None)"

lemma keeps_refl [simp]: "keeps i s s"
  by (simp add: keeps_def)

lemma keeps_trans: "keeps i s t \<Longrightarrow> keeps i t u \<Longrightarrow> keeps i s u"
  unfolding keeps_def by metis

lemma keeps_Suc: "keeps (Suc i) s t \<Longrightarrow> keeps i s t"
proof -
  assume k: "keeps (Suc i) s t"
  have "take i xs = take i ys" if "take (Suc i) xs = take (Suc i) ys" for xs ys :: "conv option list"
    using arg_cong[OF that, of "take i"] by (simp add: min_def)
  with k show ?thesis unfolding keeps_def by metis
qed

lemma keeps_convs2: "keeps i s (set_convs2 i c s)"
  by (simp add: keeps_def set_convs2_def)

lemma keeps_convs3: "keeps i s (set_convs3 i c s)"
  by (simp add: keeps_def set_convs3_def)

lemma keeps_convs1: "keeps i s (s\<lparr>convs1 := (convs1 s)[i := None]\<rparr>)"
proof -
  have "(replicate n (None :: conv option))[i := None] = replicate n None" for n
    by (cases "i < n") (metis list_update_id nth_replicate, simp add: list_update_beyond)
  then show ?thesis by (simp add: keeps_def)
qed

lemma worst_weaken:
  assumes "f \<noteq> NoMatch"
  shows "worst (weaken f' f # fs) = worst (f # f' # fs)" "weaken f' f = NoMatch \<longleftrightarrow> f' = NoMatch"
  using assms by (cases f; cases f'; simp add: worst_def)+

lemma worst_Exact [simp]: "worst (f # Exact # fs) = worst (f # fs)" "worst (Exact # fs) = worst fs"
  by (simp_all add: worst_def)

lemma worst_NoMatch [simp]: "worst (f # NoMatch # fs) = NoMatch"
  by (simp add: worst_def)

lemma worst_single: "f \<noteq> NoMatch \<Longrightarrow> worst [f] = f"
  by (cases f) (simp_all add: worst_def)

lemma match_args_fit:
  assumes "\<forall>(w, a) \<in> set args. match_arg g gc w a \<noteq> Crash" and "f \<noteq> NoMatch"
  shows "\<exists>s'. match_args g gc i args f s = Result (worst (f # map (fit_of_arg g gc) args), s') \<and> keeps i s s'"
  using assms
proof (induction args arbitrary: i f s)
  case Nil
  then show ?case by (simp add: worst_single)
next
  case (Cons wa args)
  obtain w a where wa: "wa = (w, a)" by (cases wa)
  obtain c m where m: "match_arg g gc w a = Result (c, m)"
    using Cons.prems(1) wa by (cases "match_arg g gc w a") auto
  have tl: "\<forall>(w, a) \<in> set args. match_arg g gc w a \<noteq> Crash" using Cons.prems(1) by simp
  show ?case
  proof (cases m)
    case exact_match
    let ?s = "set_convs3 i None (set_convs2 i None (s\<lparr>convs1 := (convs1 s)[i := None]\<rparr>))"
    have "keeps i s ?s" by (metis keeps_convs1 keeps_convs2 keeps_convs3 keeps_trans)
    with Cons.IH[OF tl Cons.prems(2), of "i + 1" ?s] show ?thesis
      by (auto simp: wa m exact_match fit_of_arg_def dest: keeps_Suc intro: keeps_trans)
  next
    case conversion_match
    let ?s = "set_convs3 i c (set_convs2 i c s)"
    have k: "keeps i s ?s" by (metis keeps_convs2 keeps_convs3 keeps_trans)
    have n: "weaken WithConv f \<noteq> NoMatch" using worst_weaken(2)[OF Cons.prems(2)] by simp
    from k Cons.IH[OF tl n, of "i + 1" ?s] show ?thesis
      by (auto simp: wa m conversion_match fit_of_arg_def worst_weaken(1)[OF Cons.prems(2)]
          dest: keeps_Suc intro: keeps_trans)
  next
    case untyped_match
    let ?s = "set_convs3 i c s"
    have n: "weaken WithUndefConv f \<noteq> NoMatch" using worst_weaken(2)[OF Cons.prems(2)] by simp
    show ?thesis
    proof (cases "c \<noteq> None \<or> is_aggregate w \<and> is_anonymous_list a")
      case True
      with Cons.IH[OF tl n, of "i + 1" ?s] keeps_convs3[of i s c] show ?thesis
        by (auto simp: wa m untyped_match fit_of_arg_def worst_weaken(1)[OF Cons.prems(2)]
            dest: keeps_Suc intro: keeps_trans)
    next
      case False
      then show ?thesis by (auto simp: wa m untyped_match fit_of_arg_def)
    qed
  qed
qed


lemma list_update_step:
  assumes "take (Suc i) ys = take (Suc i) (xs[i := c])" "drop (Suc i) ys = zs" "i < length xs" "length ys = length xs"
  shows "drop i ys = c # zs"
proof -
  have "ys ! i = c" using arg_cong[OF assms(1), of "\<lambda>l. l ! i"] assms(3) by simp
  then show ?thesis using assms(2-4) by (metis Cons_nth_drop_Suc)
qed

text \<open>The conversions that are collected while no candidate of the class has been found.\<close>

lemma match_args_convs:
  assumes "\<forall>(w, a) \<in> set args. match_arg g gc w a \<noteq> Crash" and "f \<noteq> NoMatch"
    and "match_args g gc i args f s = Result (r, s')"
    and "i + length args = length (convs2 s)" and "i + length args = length (convs3 s)"
  shows "(candidates_2 s = [] \<and> (r = Exact \<or> r = WithConv) \<longrightarrow> drop i (convs2 s') = map (conv_of_arg g gc) args) \<and>
    (candidates_3 s = [] \<and> r \<noteq> NoMatch \<longrightarrow> drop i (convs3 s') = map (conv_of_arg g gc) args)"
  using assms
proof (induction args arbitrary: i f s)
  case Nil
  then show ?case by auto
next
  case (Cons wa args)
  obtain w a where wa: "wa = (w, a)" by (cases wa)
  obtain c m where m: "match_arg g gc w a = Result (c, m)"
    using Cons.prems(1) wa by (cases "match_arg g gc w a") auto
  have tl: "\<forall>(w, a) \<in> set args. match_arg g gc w a \<noteq> Crash" using Cons.prems(1) by simp
  have step: ?case if t: "match_args g gc (i + 1) args f' t = Result (r, s')" and f': "f' \<noteq> NoMatch"
      and t23: "candidates_2 t = candidates_2 s" "candidates_3 t = candidates_3 s"
      and l: "length (convs2 t) = length (convs2 s)" "length (convs3 t) = length (convs3 s)"
      and c2: "candidates_2 s = [] \<Longrightarrow> r = Exact \<or> r = WithConv \<Longrightarrow> convs2 t = (convs2 s)[i := conv_of_arg g gc wa]"
      and c3: "candidates_3 s = [] \<Longrightarrow> convs3 t = (convs3 s)[i := conv_of_arg g gc wa]" for t f'
  proof -
    have IH: "(candidates_2 s = [] \<and> (r = Exact \<or> r = WithConv) \<longrightarrow> drop (i + 1) (convs2 s') = map (conv_of_arg g gc) args) \<and>
      (candidates_3 s = [] \<and> r \<noteq> NoMatch \<longrightarrow> drop (i + 1) (convs3 s') = map (conv_of_arg g gc) args)"
      using Cons.IH[OF tl f' t] Cons.prems(4,5) l t23 by simp
    have k: "keeps (i + 1) t s'"
      using match_args_fit[OF tl f', of "i + 1" t] t by auto
    have k2: "take (Suc i) (convs2 s') = take (Suc i) (convs2 t)" "length (convs2 s') = length (convs2 s)"
      "take (Suc i) (convs3 s') = take (Suc i) (convs3 t)" "length (convs3 s') = length (convs3 s)"
      using k l by (simp_all add: keeps_def)
    have "i < length (convs2 s)" "i < length (convs3 s)" using Cons.prems(4,5) by simp_all
    then show ?thesis
      using IH k2 c2 c3 list_update_step[of i "convs2 s'" "convs2 s"] list_update_step[of i "convs3 s'" "convs3 s"]
      by simp
  qed
  show ?case
  proof (cases m)
    case exact_match
    then have cn: "conv_of_arg g gc wa = None" by (simp add: conv_of_arg_def wa m)
    show ?thesis
      by (rule step[of f "set_convs3 i None (set_convs2 i None (s\<lparr>convs1 := (convs1 s)[i := None]\<rparr>))"])
        (use Cons.prems(2,3) cn in \<open>simp_all add: wa m exact_match set_convs2_def set_convs3_def\<close>)
  next
    case conversion_match
    then have cn: "conv_of_arg g gc wa = c" by (simp add: conv_of_arg_def wa m)
    show ?thesis
      by (rule step[of "weaken WithConv f" "set_convs3 i c (set_convs2 i c s)"])
        (use Cons.prems(2,3) cn in \<open>simp_all add: wa m conversion_match set_convs2_def set_convs3_def worst_weaken(2)\<close>)
  next
    case untyped_match
    then have cn: "conv_of_arg g gc wa = c" by (simp add: conv_of_arg_def wa m)
    have n: "weaken WithUndefConv f \<noteq> NoMatch" using worst_weaken(2)[OF Cons.prems(2)] by simp
    show ?thesis
    proof (cases "c \<noteq> None \<or> is_aggregate w \<and> is_anonymous_list a")
      case True
      then have e: "match_args g gc (i + 1) args (weaken WithUndefConv f) (set_convs3 i c s) = Result (r, s')"
        using Cons.prems(3) by (auto simp: wa m untyped_match)
      have "r = worst (weaken WithUndefConv f # map (fit_of_arg g gc) args)"
        using match_args_fit[OF tl n, of "i + 1" "set_convs3 i c s"] e by auto
      then have "r \<noteq> Exact \<and> r \<noteq> WithConv"
        by (cases f) (auto simp: worst_def split: if_splits)
      then show ?thesis
        by (intro step[OF e n]) (simp_all add: cn set_convs3_def)
    next
      case False
      then show ?thesis using Cons.prems(3) by (auto simp: wa m untyped_match)
    qed
  qed
qed


text \<open>
  The calls the specification is about: no variadic prototype, and prototypes and arguments that
  agree on having a receiver. \<open>selection_inv\<close> is what the search maintains.
\<close>

definition clean_call :: "globals \<Rightarrow> (string \<Rightarrow> string option) \<Rightarrow> nat \<Rightarrow> PrototypeAST list \<Rightarrow> FnArg list \<Rightarrow> bool" where
  "clean_call g gc off protos fnargs \<longleftrightarrow>
     off \<le> length fnargs \<and> list_all (\<lambda>arg. Conv arg = None) fnargs \<and>
     list_all (\<lambda>p. \<not> IsVarArgs p \<and> arg_offset p = off \<and>
       list_all (\<lambda>(w, a). match_arg g gc w a \<noteq> Crash) (call_args fnargs p)) protos"

definition selection_inv ::
  "globals \<Rightarrow> (string \<Rightarrow> string option) \<Rightarrow> nat \<Rightarrow> PrototypeAST list \<Rightarrow> FnArg list \<Rightarrow> selection \<Rightarrow> bool" where
  "selection_inv g gc off protos fnargs s \<longleftrightarrow>
     length (convs2 s) = length fnargs \<and> length (convs3 s) = length fnargs \<and>
     convs1 s = replicate (length fnargs) None \<and>
     take off (convs2 s) = replicate off None \<and> take off (convs3 s) = replicate off None \<and>
     (\<forall>j js. candidates_2 s = j # js \<longrightarrow> convs2 s = convs_of g gc fnargs (protos ! j)) \<and>
     (\<forall>j js. candidates_3 s = j # js \<longrightarrow> convs3 s = convs_of g gc fnargs (protos ! j))"

lemma clean_call_args:
  assumes "clean_call g gc off protos fnargs" "p \<in> set protos"
  shows "\<forall>(w, a) \<in> set (call_args fnargs p). match_arg g gc w a \<noteq> Crash" "arg_offset p = off"
    "\<not> IsVarArgs p"
  using assms by (auto simp: clean_call_def list_all_iff)

lemma convs_from_parts:
  assumes "take off xs = replicate off None" "drop off xs = map (conv_of_arg g gc) (call_args fnargs p)"
    "arg_offset p = off" "off \<le> length fnargs"
  shows "xs = convs_of g gc fnargs p"
  using assms by (metis append_take_drop_id convs_of_def min.absorb1)

text \<open>One prototype of the right number of arguments.\<close>

lemma match_proto:
  assumes c: "clean_call g gc off protos fnargs" and p: "p \<in> set protos"
    and l: "length (ArgTypes p) = length fnargs" and inv: "selection_inv g gc off protos fnargs s"
  shows "\<exists>s'. match_args g gc (arg_offset p) (call_args fnargs p) Exact s = Result (fit_of g gc fnargs p, s') \<and>
    selection_inv g gc off protos fnargs s' \<and>
    candidates_2 s' = candidates_2 s \<and> candidates_3 s' = candidates_3 s \<and>
    (candidates_2 s = [] \<and> fit_of g gc fnargs p = WithConv \<longrightarrow> convs2 s' = convs_of g gc fnargs p) \<and>
    (candidates_3 s = [] \<and> fit_of g gc fnargs p \<noteq> NoMatch \<longrightarrow> convs3 s' = convs_of g gc fnargs p)"
proof -
  note a = clean_call_args[OF c p]
  have off: "off \<le> length fnargs" using c by (simp add: clean_call_def)
  have len: "arg_offset p + length (call_args fnargs p) = length fnargs"
    using l off a(2) by (simp add: call_args_def)
  obtain s' where s': "match_args g gc (arg_offset p) (call_args fnargs p) Exact s = Result (fit_of g gc fnargs p, s')"
    and k: "keeps off s s'"
    using match_args_fit[OF a(1), of Exact "arg_offset p" s] l a(2) by (auto simp: fit_of_def)
  have cv: "(candidates_2 s = [] \<and> (fit_of g gc fnargs p = Exact \<or> fit_of g gc fnargs p = WithConv) \<longrightarrow>
      drop off (convs2 s') = map (conv_of_arg g gc) (call_args fnargs p)) \<and>
    (candidates_3 s = [] \<and> fit_of g gc fnargs p \<noteq> NoMatch \<longrightarrow>
      drop off (convs3 s') = map (conv_of_arg g gc) (call_args fnargs p))"
    using match_args_convs[OF a(1) _ s'] inv len a(2) by (simp add: selection_inv_def)
  have t: "take off (convs2 s') = replicate off None" "take off (convs3 s') = replicate off None"
    using k inv by (simp_all add: keeps_def selection_inv_def)
  have inv': "selection_inv g gc off protos fnargs s'"
    using inv k t by (auto simp: keeps_def selection_inv_def)
  show ?thesis
    using s' inv' k cv convs_from_parts[OF t(1) _ a(2) off] convs_from_parts[OF t(2) _ a(2) off]
    by (auto simp: keeps_def)
qed

lemma select_loop_spec:
  assumes c: "clean_call g gc off all fnargs" and "selection_inv g gc off all fnargs s"
    and "\<And>k. k < length protos \<Longrightarrow> all ! (i + k) = protos ! k" and "set protos \<subseteq> set all"
  shows "\<exists>s'. (case positions (\<lambda>p. fit_of g gc fnargs p = Exact) i protos of
        j # _ \<Rightarrow> select_loop g gc fnargs i protos s = Result (Some (j, True), s') \<and>
          convs1 s' = replicate (length fnargs) None
      | [] \<Rightarrow> select_loop g gc fnargs i protos s = Result (None, s') \<and>
          selection_inv g gc off all fnargs s' \<and>
          candidates_2 s' = candidates_2 s @ positions (\<lambda>p. fit_of g gc fnargs p = WithConv) i protos \<and>
          candidates_3 s' = candidates_3 s @ positions (\<lambda>p. fit_of g gc fnargs p = WithUndefConv) i protos)"
  using assms(2-4)
proof (induction protos arbitrary: i s)
  case Nil
  then show ?case by simp
next
  case (Cons p protos)
  have p: "p \<in> set all" using Cons.prems(3) by simp
  have pi: "all ! i = p" using Cons.prems(2)[of 0] by simp
  have nv: "\<not> IsVarArgs p" using clean_call_args(3)[OF c p] .
  have nth: "all ! (i + 1 + k) = protos ! k" if "k < length protos" for k
    using Cons.prems(2)[of "Suc k"] that by simp
  have sub: "set protos \<subseteq> set all" using Cons.prems(3) by simp
  show ?case
  proof (cases "length (ArgTypes p) = length fnargs")
    case False
    then have "fit_of g gc fnargs p = NoMatch" by (simp add: fit_of_def)
    with Cons.IH[OF Cons.prems(1) nth sub] show ?thesis using False nv
      by (auto split: list.splits)
  next
    case True
    obtain s' where s': "match_args g gc (arg_offset p) (call_args fnargs p) Exact s = Result (fit_of g gc fnargs p, s')"
      and inv: "selection_inv g gc off all fnargs s'"
      and c23: "candidates_2 s' = candidates_2 s" "candidates_3 s' = candidates_3 s"
      and cv: "candidates_2 s = [] \<Longrightarrow> fit_of g gc fnargs p = WithConv \<Longrightarrow> convs2 s' = convs_of g gc fnargs p"
        "candidates_3 s = [] \<Longrightarrow> fit_of g gc fnargs p \<noteq> NoMatch \<Longrightarrow> convs3 s' = convs_of g gc fnargs p"
      using match_proto[OF c p True Cons.prems(1)] by blast
    note ms = s'[unfolded call_args_def]
    show ?thesis
    proof (cases "fit_of g gc fnargs p")
      case Exact
      then show ?thesis using nv True ms inv by (auto simp: selection_inv_def)
    next
      case WithConv
      let ?t = "s'\<lparr>candidates_2 := candidates_2 s' @ [i]\<rparr>"
      have "selection_inv g gc off all fnargs ?t"
        using inv cv(1) WithConv c23 pi by (cases "candidates_2 s") (auto simp: selection_inv_def)
      from Cons.IH[OF this nth sub] show ?thesis
        using nv True ms WithConv c23 by (auto split: list.splits)
    next
      case WithUndefConv
      let ?t = "s'\<lparr>candidates_3 := candidates_3 s' @ [i]\<rparr>"
      have "selection_inv g gc off all fnargs ?t"
        using inv cv(2) WithUndefConv c23 pi by (cases "candidates_3 s") (auto simp: selection_inv_def)
      from Cons.IH[OF this nth sub] show ?thesis
        using nv True ms WithUndefConv c23 by (auto split: list.splits)
    next
      case NoMatch
      from Cons.IH[OF inv nth sub] show ?thesis
        using nv True ms NoMatch c23 by (auto split: list.splits)
    qed
  qed
qed




section \<open>Method tables of interfaces\<close>

text \<open>A struct and an interface with two overloads of one method, in different order.\<close>

definition method_proto :: "u32 \<Rightarrow> int \<Rightarrow> ltype \<Rightarrow> FullType \<Rightarrow> PrototypeAST" where
  "method_proto vis offs recv t = \<lparr>Name = ''m'', Args = [''this'', ''x''], RetType = scalar VoidTy 0,
     ArgTypes = [scalar recv A_ref, t], LLVMArgTypes = [PointerTy, the (ft_type t)],
     visibility = A_method OR vis, IsVarArgs = False, retLoc = \<lparr>File = None, Line = 0, Col = 0\<rparr>,
     vtable_offs = offs\<rparr>"

definition a_struct :: FullType where
  "a_struct = FullType (Some (StructTy (Some ''S'') [])) 0 (Some ''1S'') [] []"


end
