(* ===== verification/Symbols.thy ===== *)
theory Symbols
  imports Protos
begin

text \<open>
  Names: the tables of a module, the lookup of types, functions and variables over the current
  module, its imported symbols and the builtin module, and \<open>import\<close> (the classes TypeTable, VarTable,
  SymbolRef, Module and Lexer of src/global.h, and src/lexer.cc).
\<close>

section \<open>Modules\<close>

text \<open>
  Tables and \<open>std::map\<close>s that are iterated over are lists of entries in ascending order of their
  keys, which is what the iteration over a map yields; the others are maps.
\<close>

type_synonym 'a table = "(string \<times> 'a) list"

fun key_less :: "string \<Rightarrow> string \<Rightarrow> bool" where
  "key_less [] [] = False"
| "key_less [] (_ # _) = True"
| "key_less (_ # _) [] = False"
| "key_less (c # cs) (d # ds) =
     ((of_char c :: nat) < of_char d \<or> c = d \<and> key_less cs ds)"

fun table_insert :: "string \<Rightarrow> 'a \<Rightarrow> 'a table \<Rightarrow> 'a table" where
  "table_insert k v [] = [(k, v)]"
| "table_insert k v ((l, w) # t) =
     (if key_less k l then (k, v) # (l, w) # t else (l, w) # table_insert k v t)"

record FullVar =
  var_ft :: FullType
  decl_loc :: SourceLocation

text \<open>An imported symbol, with the place of the \<open>import\<close>.\<close>

datatype symbol =
    SymbolType FullType
  | SymbolFunction "PrototypeAST list"
  | SymbolVar FullVar
  | ModulePrefix

type_synonym SymbolRef = "symbol \<times> SourceLocation"

definition getFullType :: "SymbolRef \<Rightarrow> FullType option" where
  "getFullType s = (case fst s of SymbolType t \<Rightarrow> Some t | _ \<Rightarrow> None)"

definition getProtos :: "SymbolRef \<Rightarrow> PrototypeAST list option" where
  "getProtos s = (case fst s of SymbolFunction ps \<Rightarrow> Some ps | _ \<Rightarrow> None)"

definition getFullVar :: "SymbolRef \<Rightarrow> FullVar option" where
  "getFullVar s = (case fst s of SymbolVar v \<Rightarrow> Some v | _ \<Rightarrow> None)"

definition isPrefix :: "SymbolRef \<Rightarrow> bool" where
  "isPrefix s \<longleftrightarrow> fst s = ModulePrefix"

text \<open>\<open>typeptr_table\<close> is keyed by a type and the signedness that is encoded in the pointer.\<close>

record Module =
  import_path :: "string list"
  type_table :: "FullType table"
  typeptr_table :: "ltype \<times> bool \<Rightarrow> string option"
  FunctionProtos :: "PrototypeAST list table"
  globals_table :: "FullVar table"
  ImportedSymbols :: "string \<times> string \<Rightarrow> SymbolRef option"

text \<open>
  The names in scope: the module that is read, the builtin module (the front of \<open>source_stack\<close>,
  absent while it is read itself), the local variables of the enclosing blocks, innermost last, and
  whether a function body is read.
\<close>

record scope =
  module :: Module
  builtin :: "Module option"
  locals_table :: "FullVar table list"
  inside_function :: bool

section \<open>Type tables\<close>

text \<open>
  \<open>TypeTable::add\<close>: \<open>None\<close> when a type that is no number is signed, otherwise whether the name is
  new; an existing entry is kept.
\<close>

definition A_pub :: u32 where "A_pub = push_bit 16 1"
definition A_global :: u32 where "A_global = push_bit 18 1"

definition TypeTable_add :: "string \<Rightarrow> FullType \<Rightarrow> Module \<Rightarrow> (bool \<times> Module) option" where
  "TypeTable_add name ft m =
     (let is_int = (case ft_type ft of None \<Rightarrow> False | Some t \<Rightarrow> isIntegerTy t);
          is_float = (case ft_type ft of None \<Rightarrow> False | Some t \<Rightarrow> isFloatTy t \<or> isDoubleTy t);
          is_signed = has (type_attr ft) A_signed
      in
      if is_signed \<and> \<not> is_int \<and> \<not> is_float then None
      else if map_of (type_table m) name \<noteq> None then Some (False, m)
      else (let m = m\<lparr>type_table := table_insert name ft (type_table m)\<rparr> in
            Some (True, (case ft_type ft of
                None \<Rightarrow> m
              | Some t \<Rightarrow> m\<lparr>typeptr_table := (typeptr_table m)((t, is_signed) \<mapsto> name)\<rparr>))))"

text \<open>The variant for builtin types: the first name a type gets is its canonical name.\<close>

definition TypeTable_add_builtin :: "string \<Rightarrow> ltype option \<Rightarrow> u32 \<Rightarrow> Module \<Rightarrow> (bool \<times> Module) option" where
  "TypeTable_add_builtin name type attr m =
     (let existing = (case type of None \<Rightarrow> None | Some t \<Rightarrow> typeptr_table m (t, has attr A_signed));
          canonical = (case existing of Some e \<Rightarrow> e | None \<Rightarrow> name)
      in TypeTable_add name (FullType type attr (Some canonical) [] []) m)"

text \<open>\<open>TypeTable::get\<close> and \<open>is_signed\<close> read the entry without a test for null.\<close>

definition TypeTable_get :: "string \<Rightarrow> Module \<Rightarrow> ltype option option" where
  "TypeTable_get name m = map_option ft_type (map_of (type_table m) name)"

definition TypeTable_is_signed :: "string \<Rightarrow> Module \<Rightarrow> bool option" where
  "TypeTable_is_signed name m =
     map_option (\<lambda>ft. has (type_attr ft) A_signed) (map_of (type_table m) name)"

section \<open>Lookup\<close>

definition get_type :: "scope \<Rightarrow> string \<Rightarrow> ltype option option" where
  "get_type sc name = do {
     t \<leftarrow> TypeTable_get name (module sc);
     (case (t, builtin sc) of
        (None, Some b) \<Rightarrow> TypeTable_get name b
      | _ \<Rightarrow> Some t) }"

definition is_signed_type :: "scope \<Rightarrow> string \<Rightarrow> bool option" where
  "is_signed_type sc name =
     TypeTable_is_signed name (case builtin sc of Some b \<Rightarrow> b | None \<Rightarrow> module sc)"

definition imported :: "scope \<Rightarrow> string \<Rightarrow> string \<Rightarrow> SymbolRef option" where
  "imported sc prefix name = ImportedSymbols (module sc) (prefix, name)"

definition get_full_type_in :: "scope \<Rightarrow> string \<Rightarrow> string \<Rightarrow> FullType option" where
  "get_full_type_in sc prefix name = Option.bind (imported sc prefix name) getFullType"

definition get_full_type :: "scope \<Rightarrow> string \<Rightarrow> FullType option" where
  "get_full_type sc name =
     (case map_of (type_table (module sc)) name of
        Some ft \<Rightarrow> Some ft
      | None \<Rightarrow>
          (case get_full_type_in sc '''' name of
             Some ft \<Rightarrow> Some ft
           | None \<Rightarrow> Option.bind (builtin sc) (\<lambda>b. map_of (type_table b) name)))"

definition get_type_name :: "scope \<Rightarrow> ltype \<Rightarrow> bool \<Rightarrow> string" where
  "get_type_name sc type is_signed =
     (case typeptr_table (module sc) (type, is_signed) of
        Some n \<Rightarrow> n
      | None \<Rightarrow>
          (case Option.bind (builtin sc) (\<lambda>b. typeptr_table b (type, is_signed)) of
             Some n \<Rightarrow> n
           | None \<Rightarrow> (if isStructTy type then ''struct'' else if isArrayTy type then ''array''
                      else ''unnamed type'')))"

definition findProtos_in :: "scope \<Rightarrow> string \<Rightarrow> string \<Rightarrow> PrototypeAST list option" where
  "findProtos_in sc prefix name = Option.bind (imported sc prefix name) getProtos"

text \<open>An entry without prototypes counts as absent.\<close>

definition own_protos :: "Module \<Rightarrow> string \<Rightarrow> PrototypeAST list option" where
  "own_protos m name =
     (case map_of (FunctionProtos m) name of None \<Rightarrow> None | Some ps \<Rightarrow> if ps = [] then None else Some ps)"

definition findProtos :: "scope \<Rightarrow> string \<Rightarrow> PrototypeAST list option" where
  "findProtos sc name =
     (case own_protos (module sc) name of
        Some ps \<Rightarrow> Some ps
      | None \<Rightarrow>
          (case builtin sc of
             None \<Rightarrow> None
           | Some b \<Rightarrow>
               (case own_protos b name of Some ps \<Rightarrow> Some ps | None \<Rightarrow> findProtos_in sc '''' name)))"

definition lookup_var_in :: "scope \<Rightarrow> string \<Rightarrow> string \<Rightarrow> FullVar option" where
  "lookup_var_in sc prefix name = Option.bind (imported sc prefix name) getFullVar"

fun lookup_local :: "FullVar table list \<Rightarrow> string \<Rightarrow> FullVar option" where
  "lookup_local [] name = None"
| "lookup_local (t # ts) name =
     (case lookup_local ts name of Some v \<Rightarrow> Some v | None \<Rightarrow> map_of t name)"

definition visible_global :: "bool \<Rightarrow> FullVar \<Rightarrow> bool" where
  "visible_global in_fn v \<longleftrightarrow> has (type_attr (var_ft v)) A_global \<or> \<not> in_fn"

definition filter_var :: "bool \<Rightarrow> FullVar option \<Rightarrow> FullVar option" where
  "filter_var in_fn v = (case v of Some v \<Rightarrow> if visible_global in_fn v then Some v else None | None \<Rightarrow> None)"

definition lookup_var :: "scope \<Rightarrow> string \<Rightarrow> FullVar option" where
  "lookup_var sc name =
     (case lookup_local (locals_table sc) name of
        Some v \<Rightarrow> Some v
      | None \<Rightarrow>
          (let in_fn = inside_function sc;
               v = filter_var in_fn (map_of (globals_table (module sc)) name);
               v = (case v of None \<Rightarrow> lookup_var_in sc '''' name | Some v \<Rightarrow> Some v);
               v = filter_var in_fn v;
               v = (case v of None \<Rightarrow> Option.bind (builtin sc) (\<lambda>b. map_of (globals_table b) name) | Some v \<Rightarrow> Some v)
           in filter_var in_fn v))"

section \<open>Names already in use\<close>

datatype usage = UsedAsVariable | UsedAsFunction | UsedAsType | UsedAsPrefix | NotUsed | InternalError

definition lex_skip_moduleprefix :: "8 word" where "lex_skip_moduleprefix = push_bit 3 1"
definition lex_skip_type :: "8 word" where "lex_skip_type = push_bit 2 1"
definition lex_skip_protos :: "8 word" where "lex_skip_protos = push_bit 1 1"
definition lex_skip_variable :: "8 word" where "lex_skip_variable = push_bit 0 1"

definition previously_used :: "scope \<Rightarrow> string \<Rightarrow> 8 word \<Rightarrow> usage" where
  "previously_used sc ident skip =
     (if skip AND lex_skip_variable = 0 \<and> lookup_var sc ident \<noteq> None then UsedAsVariable
      else if skip AND lex_skip_protos = 0 \<and> findProtos sc ident \<noteq> None then UsedAsFunction
      else if skip AND lex_skip_type = 0 \<and> get_full_type sc ident \<noteq> None then UsedAsType
      else if skip AND lex_skip_moduleprefix = 0 then
        (case imported sc ident '''' of
           None \<Rightarrow> NotUsed
         | Some im \<Rightarrow> if isPrefix im then UsedAsPrefix else InternalError)
      else NotUsed)"

section \<open>Import\<close>

text \<open>The messages of an import.\<close>

datatype import_message =
    AlreadyUsed usage
  | PrefixDeclared string
  | CannotImport string
  | NotPub string
  | DoesNotExist string

definition try_emplace :: "'k \<Rightarrow> 'v \<Rightarrow> ('k \<Rightarrow> 'v option) \<Rightarrow> bool \<times> ('k \<Rightarrow> 'v option)" where
  "try_emplace k v m = (case m k of None \<Rightarrow> (True, m(k \<mapsto> v)) | Some _ \<Rightarrow> (False, m))"

record importing =
  symbols :: "string \<times> string \<Rightarrow> SymbolRef option"
  processed :: "string list"
  messages :: "import_message list"

text \<open>
  One symbol of the imported module: under the prefix \<open>as\<close>, or without a prefix if it is in the
  \<open>from\<close> list.
\<close>

definition import_symbol ::
  "bool \<Rightarrow> string \<Rightarrow> SourceLocation table \<Rightarrow> string \<Rightarrow> SymbolRef \<Rightarrow> importing \<Rightarrow> importing" where
  "import_symbol is_from as fromlist name r st =
     (if is_from then
        (if map_of fromlist name \<noteq> None then
           (let (success, syms) = try_emplace ('''', name) r (symbols st) in
            if success then st\<lparr>symbols := syms, processed := List.insert name (processed st)\<rparr>
            else st\<lparr>messages := messages st @ [CannotImport name]\<rparr>)
         else st)
      else
        (let (success, syms) = try_emplace (as, name) r (symbols st) in
         if success then st\<lparr>symbols := syms\<rparr> else st\<lparr>messages := messages st @ [CannotImport name]\<rparr>))"

text \<open>The loops over functions, variables and types.\<close>

definition pub_protos :: "PrototypeAST list \<Rightarrow> PrototypeAST list" where
  "pub_protos ps = filter (\<lambda>p. has (visibility p) A_pub) ps"

fun import_functions ::
  "bool \<Rightarrow> string \<Rightarrow> SourceLocation table \<Rightarrow> SourceLocation \<Rightarrow> PrototypeAST list table \<Rightarrow> importing \<Rightarrow> importing" where
  "import_functions is_from as fromlist loc [] st = st"
| "import_functions is_from as fromlist loc ((name, ps) # fs) st =
     import_functions is_from as fromlist loc fs
       (if pub_protos ps \<noteq> [] then import_symbol is_from as fromlist name (SymbolFunction (pub_protos ps), loc) st
        else st)"

fun import_globals ::
  "bool \<Rightarrow> string \<Rightarrow> SourceLocation table \<Rightarrow> SourceLocation \<Rightarrow> FullVar table \<Rightarrow> importing \<Rightarrow> importing" where
  "import_globals is_from as fromlist loc [] st = st"
| "import_globals is_from as fromlist loc ((name, v) # vs) st =
     import_globals is_from as fromlist loc vs
       (if has (type_attr (var_ft v)) A_pub then import_symbol is_from as fromlist name (SymbolVar v, loc) st
        else st)"

fun import_types ::
  "bool \<Rightarrow> string \<Rightarrow> SourceLocation table \<Rightarrow> SourceLocation \<Rightarrow> FullType table \<Rightarrow> importing \<Rightarrow> importing" where
  "import_types is_from as fromlist loc [] st = st"
| "import_types is_from as fromlist loc ((name, ft) # ts) st =
     import_types is_from as fromlist loc ts (import_symbol is_from as fromlist name (SymbolType ft, loc) st)"

text \<open>The complaint about an element of the \<open>from\<close> list that was not imported.\<close>

definition import_complaint :: "Module \<Rightarrow> string \<Rightarrow> import_message" where
  "import_complaint im name =
     (if (case map_of (FunctionProtos im) name of Some ps \<Rightarrow> ps \<noteq> [] | None \<Rightarrow> False) then NotPub name
      else if map_of (globals_table im) name \<noteq> None then NotPub name
      else DoesNotExist name)"

text \<open>
  \<open>import_from_module\<close>: the scope, the imported module, whose private prototypes are erased, and
  the messages.
\<close>

definition import_from_module ::
  "scope \<Rightarrow> Module \<Rightarrow> string \<Rightarrow> SourceLocation table \<Rightarrow> SourceLocation \<Rightarrow> scope \<times> Module \<times> import_message list" where
  "import_from_module sc im as fromlist TheLoc =
     (let is_from = (fromlist \<noteq> []);
          used = previously_used sc as lex_skip_moduleprefix;
          (success, syms) = try_emplace (as, '''') (ModulePrefix, TheLoc) (ImportedSymbols (module sc))
      in
      if \<not> is_from \<and> used \<noteq> NotUsed then (sc, im, [AlreadyUsed used])
      else if \<not> is_from \<and> \<not> success then (sc, im, [PrefixDeclared as])
      else
        (let st = \<lparr>symbols = (if is_from then ImportedSymbols (module sc) else syms), processed = [], messages = []\<rparr>;
             st = import_functions is_from as fromlist TheLoc (FunctionProtos im) st;
             im = im\<lparr>FunctionProtos := map (\<lambda>(n, ps). (n, pub_protos ps)) (FunctionProtos im)\<rparr>;
             st = import_globals is_from as fromlist TheLoc (globals_table im) st;
             st = import_types is_from as fromlist TheLoc (type_table im) st;
             missing = (if length fromlist > length (processed st)
               then filter (\<lambda>n. n \<notin> set (processed st)) (map fst fromlist) else [])
         in (sc\<lparr>module := (module sc)\<lparr>ImportedSymbols := symbols st\<rparr>\<rparr>, im,
             messages st @ map (import_complaint im) missing)))"

section \<open>What an import does\<close>

text \<open>The symbol a module exports under a name: a function, else a variable, else a type.\<close>

definition exported :: "Module \<Rightarrow> SourceLocation \<Rightarrow> string \<Rightarrow> SymbolRef option" where
  "exported im loc name =
     (case map_of (filter (\<lambda>(n, ps). ps \<noteq> []) (map (\<lambda>(n, ps). (n, pub_protos ps)) (FunctionProtos im))) name of
        Some ps \<Rightarrow> Some (SymbolFunction ps, loc)
      | None \<Rightarrow>
          (case map_of (filter (\<lambda>(n, v). has (type_attr (var_ft v)) A_pub) (globals_table im)) name of
             Some v \<Rightarrow> Some (SymbolVar v, loc)
           | None \<Rightarrow> map_option (\<lambda>t. (SymbolType t, loc)) (map_of (type_table im) name)))"

definition or_else :: "'a option \<Rightarrow> 'a option \<Rightarrow> 'a option" where
  "or_else a b = (case a of Some x \<Rightarrow> Some x | None \<Rightarrow> b)"

lemma or_else_simps [simp]: "or_else None b = b" "or_else (Some x) b = Some x" "or_else a None = a"
  by (simp_all add: or_else_def split: option.splits)

lemma or_else_assoc [simp]: "or_else (or_else a b) c = or_else a (or_else b c)"
  by (cases a) simp_all

text \<open>The keys an import may add, and the name a key stands for.\<close>

definition import_key :: "bool \<Rightarrow> string \<Rightarrow> SourceLocation table \<Rightarrow> string \<times> string \<Rightarrow> bool" where
  "import_key is_from as fromlist k \<longleftrightarrow>
     (if is_from then fst k = '''' \<and> map_of fromlist (snd k) \<noteq> None else fst k = as)"

lemma import_symbol_symbols:
  "symbols (import_symbol is_from as fromlist name r st) k =
     or_else (symbols st k) (if import_key is_from as fromlist k \<and> snd k = name then Some r else None)"
  by (cases k) (auto simp: import_symbol_def try_emplace_def import_key_def or_else_def split: option.splits)

lemma import_functions_symbols:
  "symbols (import_functions is_from as fromlist loc fs st) k =
     or_else (symbols st k) (if import_key is_from as fromlist k
       then map_option (\<lambda>ps. (SymbolFunction ps, loc))
         (map_of (filter (\<lambda>(n, ps). ps \<noteq> []) (map (\<lambda>(n, ps). (n, pub_protos ps)) fs)) (snd k))
       else None)"
  by (induction is_from as fromlist loc fs st rule: import_functions.induct)
    (auto simp: import_symbol_symbols)

lemma import_globals_symbols:
  "symbols (import_globals is_from as fromlist loc vs st) k =
     or_else (symbols st k) (if import_key is_from as fromlist k
       then map_option (\<lambda>v. (SymbolVar v, loc))
         (map_of (filter (\<lambda>(n, v). has (type_attr (var_ft v)) A_pub) vs) (snd k))
       else None)"
  by (induction is_from as fromlist loc vs st rule: import_globals.induct)
    (auto simp: import_symbol_symbols)

lemma import_types_symbols:
  "symbols (import_types is_from as fromlist loc ts st) k =
     or_else (symbols st k) (if import_key is_from as fromlist k
       then map_option (\<lambda>t. (SymbolType t, loc)) (map_of ts (snd k)) else None)"
  by (induction is_from as fromlist loc ts st rule: import_types.induct)
    (auto simp: import_symbol_symbols)

lemma exported_or_else:
  "exported im loc name =
     or_else (map_option (\<lambda>ps. (SymbolFunction ps, loc))
         (map_of (filter (\<lambda>(n, ps). ps \<noteq> []) (map (\<lambda>(n, ps). (n, pub_protos ps)) (FunctionProtos im))) name))
       (or_else (map_option (\<lambda>v. (SymbolVar v, loc))
         (map_of (filter (\<lambda>(n, v). has (type_attr (var_ft v)) A_pub) (globals_table im)) name))
         (map_option (\<lambda>t. (SymbolType t, loc)) (map_of (type_table im) name)))"
  by (simp add: exported_def split: option.splits)


text \<open>Small modules for the examples.\<close>

definition no_loc :: SourceLocation where
  "no_loc = \<lparr>File = None, Line = 0, Col = 0\<rparr>"

definition empty_module :: Module where
  "empty_module = \<lparr>import_path = [], type_table = [], typeptr_table = (\<lambda>_. None), FunctionProtos = [],
     globals_table = [], ImportedSymbols = (\<lambda>_. None)\<rparr>"

definition empty_scope :: scope where
  "empty_scope = \<lparr>module = empty_module, builtin = Some empty_module, locals_table = [], inside_function = False\<rparr>"

definition module_fg :: Module where
  "module_fg = empty_module\<lparr>FunctionProtos := [(''f'', [f_i32\<lparr>visibility := A_pub\<rparr>, f_f64]), (''g'', [f_i32])],
     type_table := [(''t'', scalar DoubleTy 0)]\<rparr>"

lemmas example_modules = module_fg_def empty_module_def empty_scope_def


lemma import_globals_other:
  assumes "map_of vs n = None" "fromlist = [(n, l)]"
  shows "import_globals True as fromlist loc vs st = st"
  using assms by (induction vs) (auto simp: import_symbol_def split: if_splits)

lemma import_types_other:
  assumes "map_of ts n = None" "fromlist = [(n, l)]"
  shows "import_types True as fromlist loc ts st = st"
  using assms by (induction ts) (auto simp: import_symbol_def split: if_splits)

lemma import_functions_other:
  assumes "\<forall>ps. (n, ps) \<in> set fs \<longrightarrow> pub_protos ps = []" "fromlist = [(n, l)]"
  shows "import_functions True as fromlist loc fs st = st"
  using assms by (induction fs) (auto simp: import_symbol_def split: if_splits)

text \<open>
  \<open>from M import f\<close> for a function \<open>f\<close> that \<open>M\<close> declares without \<open>pub\<close> fails, as it should,
  but the message says that the symbol does not exist instead of that it is not public: the private
  prototypes have been erased when the message is chosen.
\<close>

theorem private_function_misreported:
  assumes "map_of (FunctionProtos im) n = Some ps" and "ps \<noteq> []" and "pub_protos ps = []"
    and "distinct (map fst (FunctionProtos im))"
    and "map_of (globals_table im) n = None" and "map_of (type_table im) n = None"
  shows "\<exists>sc' im'. import_from_module sc im as [(n, l)] loc = (sc', im', [DoesNotExist n]) \<and>
    ImportedSymbols (module sc') = ImportedSymbols (module sc)"
proof -
  have f: "\<forall>qs. (n, qs) \<in> set (FunctionProtos im) \<longrightarrow> pub_protos qs = []"
    using assms(1,3,4) by (metis map_of_eq_Some_iff option.inject)
  have e: "map_of (map (\<lambda>(n, ps). (n, pub_protos ps)) (FunctionProtos im)) n = Some []"
    using assms(1,3) by (simp add: map_of_map)
  have c: "import_complaint (im\<lparr>FunctionProtos := map (\<lambda>(n, ps). (n, pub_protos ps)) (FunctionProtos im)\<rparr>) n =
      DoesNotExist n"
    using assms(5) by (simp add: import_complaint_def e)
  show ?thesis
    by (cases "try_emplace (as, '''') (ModulePrefix, loc) (ImportedSymbols (module sc))")
      (simp add: import_from_module_def Let_def import_functions_other[OF f] import_globals_other[OF assms(5)]
        import_types_other[OF assms(6)] c)
qed

theorem private_function_misreported_witness:
  "\<exists>sc' im'. import_from_module empty_scope module_fg '''' [(''g'', no_loc)] no_loc = (sc', im', [DoesNotExist ''g'']) \<and>
    ImportedSymbols (module sc') = ImportedSymbols (module empty_scope)"
proof (rule private_function_misreported)
  show "pub_protos [f_i32] = []" by code_simp
qed (simp_all add: example_modules)

end
