(* ===== verification/OpTypes.thy ===== *)
theory OpTypes
  imports Symbols
begin

text \<open>
  The types of expressions with operators (src/types.cc): the classes of binary operators, the
  types the operands are converted to, the type of the result for ordinary and for imaginary
  operands, and the common type of the elements of an array.
\<close>

section \<open>Operator classes\<close>

datatype OpClass =
    OpInvalid | OpNormal | OpAssign | OpModAssign | OpCmpExchange | OpDeclAssign | OpGlobalDeclAssign
  | OpComparison | OpShift | OpLogical | OpBitwise | OpExponentiation | OpRange | OpColon | OpTernary
  | OpComma

text \<open>The character of a C string at an index up to its length; \<open>CHR 0x00\<close> is its end.\<close>

definition cchar :: "string \<Rightarrow> nat \<Rightarrow> char" where
  "cchar s i = (if i < length s then s ! i else CHR 0x00)"

definition single_char_class :: "char \<Rightarrow> OpClass" where
  "single_char_class c =
     (if c = CHR ''>'' \<or> c = CHR ''<'' then OpComparison
      else if c = CHR ''='' then OpAssign
      else if c = CHR ''&'' \<or> c = CHR ''|'' then OpBitwise
      else if c = CHR ''^'' then OpExponentiation
      else if c = CHR '':'' then OpColon
      else if c = CHR ''?'' then OpTernary
      else if c = CHR '','' then OpComma
      else OpNormal)"

text \<open>The cases \<open>'<'\<close> and \<open>'>'\<close> of the second character fall through to the case \<open>'='\<close>.\<close>

definition getOpClass :: "string \<Rightarrow> OpClass" where
  "getOpClass Op =
     (let c0 = cchar Op 0; c1 = cchar Op 1; ends = (cchar Op 2 = CHR 0x00) in
      if c0 = CHR 0x00 then OpNormal
      else if c1 = CHR ''<'' \<and> c0 = CHR ''>'' then (if ends then OpBitwise else OpModAssign)
      else if (c1 = CHR ''<'' \<or> c1 = CHR ''>'') \<and> c1 = c0 then (if ends then OpShift else OpModAssign)
      else if c1 = CHR ''<'' \<or> c1 = CHR ''>'' \<or> c1 = CHR ''='' then
        (if c0 \<in> {CHR ''='', CHR ''!'', CHR ''>'', CHR ''<''} then OpComparison
         else if c0 = CHR '':'' then OpDeclAssign
         else if c0 = CHR ''?'' then OpCmpExchange
         else OpModAssign)
      else if c1 = CHR '':'' then OpDeclAssign
      else if c1 = CHR ''&'' \<or> c1 = CHR ''|'' then (if ends then OpLogical else OpModAssign)
      else if c1 = CHR ''.'' then OpRange
      else if c1 = CHR 0x00 then single_char_class c0
      else if c1 = CHR ''f'' then OpNormal
      else OpInvalid)"

section \<open>Types of the operands\<close>

definition getDesiredTypes ::
  "globals \<Rightarrow> ltype option \<Rightarrow> ltype option \<Rightarrow> ltype option \<Rightarrow> OpClass \<Rightarrow> bool \<Rightarrow> bool
   \<Rightarrow> ltype option \<times> ltype option" where
  "getDesiredTypes g desired_res left_type right_type opclass left_is_unknown_type right_is_unknown_type =
     (let (left_bitwidth, left_is_float) = getBitWidth left_type;
          (right_bitwidth, right_is_float) = getBitWidth right_type;
          (desired_res_bitwidth, desired_res_is_float) = getBitWidth desired_res;
          fit = (\<lambda>w f. Some (getFittingType g w f False));
          left_grows = (left_is_unknown_type \<or> left_bitwidth < desired_res_bitwidth \<or>
            desired_res_is_float \<and> \<not> left_is_float);
          right_grows = (right_is_unknown_type \<or> right_bitwidth < desired_res_bitwidth \<or>
            desired_res_is_float \<and> \<not> right_is_float);
          desired_bitwidth =
            (if desired_res_bitwidth \<noteq> 0 \<and>
                (desired_res_bitwidth \<noteq> 1 \<and> left_grows \<and> right_grows \<or> opclass = OpLogical)
             then desired_res_bitwidth
             else if left_is_unknown_type then
               (if right_is_unknown_type then max right_bitwidth left_bitwidth else right_bitwidth)
             else if right_is_unknown_type then left_bitwidth
             else max right_bitwidth left_bitwidth);
          res_is_float = (desired_res_is_float \<or> left_is_float \<or> right_is_float)
      in
      if left_bitwidth = 0 \<or> right_bitwidth = 0 then (None, None)
      else if opclass = OpAssign \<or> opclass = OpCmpExchange \<or> opclass = OpModAssign then (None, left_type)
      else if opclass = OpDeclAssign then (None, None)
      else if opclass = OpShift \<or> opclass = OpExponentiation then
        (if desired_res_bitwidth \<noteq> 0 then
           (if res_is_float then
              (let l = fit desired_res_bitwidth True in (l, if right_is_float then l else None))
            else (let l = fit desired_bitwidth False in (l, l)))
         else
           (if res_is_float then
              (let l = fit left_bitwidth True in (l, if right_is_float then l else None))
            else if opclass = OpShift then (None, left_type)
            else (let l = fit (if desired_bitwidth \<ge> 32 then desired_bitwidth else 32) False in (l, l))))
      else if opclass = OpLogical then (Some (IntegerTy 1), Some (IntegerTy 1))
      else if desired_bitwidth \<noteq> 0 then
        (let l = fit desired_bitwidth res_is_float in (l, l))
      else (None, None))"

section \<open>Type of the result\<close>

text \<open>Result type (null for \<open>None\<close>), attributes, whether the type is unknown, class, message.\<close>

record res_type =
  res_ty :: "ltype option"
  res_attr :: u32
  res_unknown :: bool
  res_class :: OpClass
  res_error :: "string option"

definition res_err :: "OpClass \<Rightarrow> string \<Rightarrow> res_type" where
  "res_err opclass msg =
     \<lparr>res_ty = None, res_attr = 0, res_unknown = False, res_class = opclass, res_error = Some msg\<rparr>"

definition res_ok :: "OpClass \<Rightarrow> ltype option \<Rightarrow> u32 \<Rightarrow> bool \<Rightarrow> res_type" where
  "res_ok opclass t attr unknown =
     \<lparr>res_ty = t, res_attr = attr, res_unknown = unknown, res_class = opclass, res_error = None\<rparr>"

definition operand_bitwidth :: "nat \<Rightarrow> nat \<Rightarrow> bool \<Rightarrow> bool \<Rightarrow> nat" where
  "operand_bitwidth left_bitwidth right_bitwidth left_is_unknown_type right_is_unknown_type =
     (if right_is_unknown_type then
        (if left_is_unknown_type then max right_bitwidth left_bitwidth else left_bitwidth)
      else if left_is_unknown_type then right_bitwidth else max right_bitwidth left_bitwidth)"

text \<open>
  \<open>getComplexRes\<close>. For the operator \<open>^\<close> the local variable \<open>res_bitwidth\<close> is read before anything
  has been assigned to it; its value is the argument \<open>garbage\<close>. \<open>None\<close> is the abort when a builtin
  type is missing. The comparison of imaginaries tests whether the operator is \<open>==\<close> and \<open>!=\<close> at the
  same time.
\<close>

definition complex_assign :: "ltype option \<Rightarrow> nat \<Rightarrow> nat \<Rightarrow> string \<Rightarrow> bool \<Rightarrow> bool \<Rightarrow> bool \<Rightarrow> OpClass \<Rightarrow> res_type" where
  "complex_assign left_type left_bitwidth right_bitwidth Op left_is_imag right_is_imag right_is_unknown_type opclass =
     (if Op \<in> {''='', ''+='', ''-=''} \<and> left_is_imag \<noteq> right_is_imag
      then res_err opclass ''LHS/RHS of '%s' real/imaginary mismatch''
      else if Op \<in> {''*='', ''/=''} \<and> right_is_imag
      then res_err opclass ''RHS of '%s' must not be imaginary''
      else if Op \<notin> {''='', ''+='', ''-='', ''*='', ''/=''}
      then res_err opclass ''operator '%s' not supported with imaginary numbers''
      else if left_bitwidth \<noteq> 0 \<and> right_bitwidth > left_bitwidth \<and> \<not> right_is_unknown_type
      then res_err opclass ''LHS of '%s' has a lower bit width than RHS - automatic conversion not possible''
      else res_ok opclass left_type (if left_is_imag then A_signed else 0) False)"

definition complex_result :: "globals \<Rightarrow> scope \<Rightarrow> OpClass \<Rightarrow> nat \<Rightarrow> bool \<Rightarrow> bool \<Rightarrow> res_type option" where
  "complex_result g sc opclass res_bitwidth res_is_complex res_is_imag =
     (let res_bitwidth = min res_bitwidth 53 in
      if res_is_complex then do {
        ct \<leftarrow> get_full_type sc (if res_bitwidth \<ge> 32 then ''complex'' else ''c32'');
        Some (res_ok opclass (ft_type ct) A_complex False) }
      else Some (res_ok opclass (Some (getFittingType g res_bitwidth True False))
        (if res_is_imag then A_imaginary else 0) False))"

definition getComplexRes ::
  "globals \<Rightarrow> scope \<Rightarrow> nat \<Rightarrow> ltype option \<Rightarrow> ltype option \<Rightarrow> string \<Rightarrow> u32 \<Rightarrow> u32 \<Rightarrow> bool \<Rightarrow> bool
   \<Rightarrow> res_type option" where
  "getComplexRes g sc garbage left_type right_type Op left_attr right_attr left_is_unknown_type right_is_unknown_type =
     (let (left_bitwidth, left_is_float) = getBitWidth left_type;
          (right_bitwidth, right_is_float) = getBitWidth right_type;
          opclass = getOpClass Op;
          left_is_imag = (left_is_float \<and> has left_attr A_imaginary);
          right_is_imag = (right_is_float \<and> has right_attr A_imaginary);
          res_bitwidth = operand_bitwidth left_bitwidth right_bitwidth left_is_unknown_type right_is_unknown_type;
          unsupported = res_err opclass ''operator '%s' not supported with imaginary numbers'';
          bool_ty = Some (IntegerTy 1)
      in
      if right_bitwidth = 1 \<or> left_bitwidth = 1
      then Some (res_err opclass ''operator '%s' not supported for bool/imaginary'')
      else (case opclass of
          OpComparison \<Rightarrow>
            (if left_is_imag \<noteq> right_is_imag
             then Some (res_err opclass ''invalid real / imaginary '%s' comparison'')
             else if Op = ''=='' \<and> Op = ''!=''
             then Some (res_err opclass ''invalid '%s' comparison of imaginarys - only '==', '!=' allowed'')
             else Some (res_ok opclass bool_ty 0 False))
        | OpDeclAssign \<Rightarrow> Some (res_ok opclass None 0 False)
        | OpAssign \<Rightarrow> Some (complex_assign left_type left_bitwidth right_bitwidth Op left_is_imag
            right_is_imag right_is_unknown_type opclass)
        | OpModAssign \<Rightarrow> Some (complex_assign left_type left_bitwidth right_bitwidth Op left_is_imag
            right_is_imag right_is_unknown_type opclass)
        | OpCmpExchange \<Rightarrow>
            (if left_is_imag \<noteq> right_is_imag
             then Some (res_err opclass ''operator '%s': real / imaginary mismatch'')
             else Some (res_ok opclass bool_ty 0 False))
        | OpExponentiation \<Rightarrow> complex_result g sc opclass garbage True False
        | OpNormal \<Rightarrow>
            (if Op = ''+'' \<or> Op = ''-'' then
               (if left_is_imag \<noteq> right_is_imag then complex_result g sc opclass res_bitwidth True False
                else complex_result g sc opclass res_bitwidth False left_is_imag)
             else if Op = ''*'' \<or> Op = ''/'' \<or> cchar Op 0 = CHR 0x00
             then complex_result g sc opclass res_bitwidth False (left_is_imag \<noteq> right_is_imag)
             else Some unsupported)
        | _ \<Rightarrow> Some unsupported))"

text \<open>\<open>getResType\<close>: the assignment, and the final computation for the other classes.\<close>

definition assign_result :: "ltype option \<Rightarrow> nat \<Rightarrow> nat \<Rightarrow> bool \<Rightarrow> bool \<Rightarrow> bool \<Rightarrow> bool \<Rightarrow> bool \<Rightarrow> OpClass \<Rightarrow> res_type" where
  "assign_result left_type left_bitwidth right_bitwidth left_is_float right_is_float left_is_signed
      right_is_signed right_is_unknown_type opclass =
     (if \<not> left_is_float \<and> right_is_float
      then res_err opclass ''LHS of '%s' is of integer type - cannot automatically convert float RHS''
      else if \<not> left_is_signed \<and> \<not> left_is_float \<and> right_is_signed \<and> \<not> right_is_unknown_type
      then res_err opclass ''LHS of '%s' is of unsigned type - cannot automatically convert signed RHS''
      else if left_bitwidth \<noteq> 0 \<and> right_bitwidth > left_bitwidth \<and> \<not> right_is_unknown_type \<and>
          \<not> (left_bitwidth = 1 \<and> \<not> right_is_signed)
      then res_err opclass ''LHS of '%s' has a lower bit width than RHS - automatic conversion not possible''
      else res_ok opclass left_type (if left_is_signed then A_signed else 0) False)"

definition number_result :: "globals \<Rightarrow> OpClass \<Rightarrow> nat \<Rightarrow> bool \<Rightarrow> bool \<Rightarrow> bool \<Rightarrow> res_type" where
  "number_result g opclass res_bitwidth res_is_float res_is_signed unknown =
     res_ok opclass
       (Some (getFittingType g (if res_is_float then min res_bitwidth 53 else res_bitwidth) res_is_float False))
       (if \<not> res_is_float \<and> res_is_signed then A_signed else 0) unknown"

definition getResType ::
  "globals \<Rightarrow> scope \<Rightarrow> nat \<Rightarrow> ltype option \<Rightarrow> ltype option \<Rightarrow> string \<Rightarrow> u32 \<Rightarrow> u32 \<Rightarrow> bool \<Rightarrow> bool
   \<Rightarrow> res_type option" where
  "getResType g sc garbage left_type right_type Op left_attr right_attr left_is_unknown_type right_is_unknown_type =
     (let opclass = getOpClass Op;
          (left_bitwidth, left_is_float) = getBitWidth left_type;
          (right_bitwidth, right_is_float) = getBitWidth right_type;
          left_is_signed = has left_attr A_signed;
          right_is_signed = has right_attr A_signed;
          unknown = (left_is_unknown_type \<and> right_is_unknown_type);
          res_is_float = (left_is_float \<or> right_is_float);
          res_is_signed = ((left_is_signed \<and> \<not> left_is_unknown_type \<or>
            right_is_signed \<and> \<not> right_is_unknown_type \<or> left_is_signed \<and> right_is_signed) \<and> \<not> res_is_float);
          wider_right = (\<not> right_is_unknown_type \<and> right_bitwidth > left_bitwidth \<and>
            (right_is_float \<or> \<not> left_is_float));
          pow_bitwidth = (if wider_right then right_bitwidth else left_bitwidth);
          res_bitwidth = operand_bitwidth left_bitwidth right_bitwidth left_is_unknown_type right_is_unknown_type;
          mixes = (opclass \<notin> {OpComma, OpBitwise, OpColon, OpTernary})
      in
      case left_type of
        None \<Rightarrow>
          (if opclass \<in> {OpColon, OpComma, OpTernary} then Some (res_ok opclass (Some VoidTy) left_attr False)
           else Some (res_err opclass ''no LHS type''))
      | Some lt \<Rightarrow>
          if isStructTy lt \<or> isArrayTy lt \<or> isPointerTy lt then
            (if right_type = left_type then Some (res_ok opclass left_type (left_attr AND right_attr) False)
             else Some (res_err opclass ''non-numeric LHS and RHS do not match''))
          else if mixes \<and> left_bitwidth = 1 \<and> right_bitwidth \<noteq> 1 then
            Some (res_err opclass ''LHS of type 'bool' cannot be combined with numeric RHS value'')
          else if mixes \<and> right_bitwidth = 1 \<and> left_bitwidth \<noteq> 1 then
            Some (res_err opclass ''RHS of type 'bool' cannot be combined with numeric LHS value'')
          else if left_is_float \<and> left_is_signed \<or> right_is_float \<and> right_is_signed then
            getComplexRes g sc garbage left_type right_type Op left_attr right_attr
              left_is_unknown_type right_is_unknown_type
          else Some (case opclass of
              OpComparison \<Rightarrow> res_ok opclass (Some (IntegerTy 1)) 0 False
            | OpCmpExchange \<Rightarrow> res_ok opclass (Some (IntegerTy 1)) 0 False
            | OpDeclAssign \<Rightarrow> res_ok opclass None 0 False
            | OpAssign \<Rightarrow> assign_result left_type left_bitwidth right_bitwidth left_is_float right_is_float
                left_is_signed right_is_signed right_is_unknown_type opclass
            | OpModAssign \<Rightarrow> assign_result left_type left_bitwidth right_bitwidth left_is_float right_is_float
                left_is_signed right_is_signed right_is_unknown_type opclass
            | OpShift \<Rightarrow>
                (if res_is_float
                 then res_err opclass ''shift operator '%s' can only be used with integer operands''
                 else number_result g opclass pow_bitwidth res_is_float left_is_signed unknown)
            | OpExponentiation \<Rightarrow> number_result g opclass pow_bitwidth res_is_float left_is_signed unknown
            | OpLogical \<Rightarrow>
                (if left_is_float \<or> left_bitwidth \<noteq> 1 \<and> left_is_signed \<or>
                    right_is_float \<or> right_bitwidth \<noteq> 1 \<and> right_is_signed
                 then res_err opclass ''logical operator '%s' can only be used with bool or unsigned operands''
                 else number_result g opclass 1 res_is_float False unknown)
            | OpTernary \<Rightarrow> number_result g opclass right_bitwidth right_is_float right_is_signed False
            | OpBitwise \<Rightarrow> number_result g opclass res_bitwidth res_is_float False unknown
            | _ \<Rightarrow> number_result g opclass res_bitwidth res_is_float res_is_signed unknown))"

definition MakeType :: "ltype \<Rightarrow> u32 \<Rightarrow> bool \<Rightarrow> ltype \<times> u32" where
  "MakeType type is_signed is_unknown_type =
     (if \<not> is_unknown_type then (type, is_signed)
      else if isIntegerTy type then (IntegerTy 32, A_signed)
      else (type, 0))"

section \<open>The element type of an array\<close>

text \<open>
  An expression: its type, null when the expression is missing, and whether it is an untyped
  literal. The loop of \<open>getCommonType\<close> keeps the first type that is no number, the greatest width
  and what has been seen.
\<close>

record common =
  res_ft :: "FullType option"
  bitwidth :: nat
  saw_float :: bool
  saw_signed :: bool
  saw_unsigned :: bool

fun common_loop :: "(FullType option \<times> bool) list \<Rightarrow> common \<Rightarrow> common option" where
  "common_loop [] c = Some c"
| "common_loop ((elem_ft, is_unknown_type) # es) c = do {
     ft \<leftarrow> elem_ft;
     t \<leftarrow> ft_type ft;
     (case res_ft c of
        Some r \<Rightarrow> if ft_type ft \<noteq> ft_type r then None else common_loop es c
      | None \<Rightarrow>
          if isFloatingPointTy t \<or> isIntegerTy t then
            (let (bw, is_flt) = getBitWidth (Some t);
                 is_sgn = has (type_attr ft) A_signed in
             common_loop es (c\<lparr>bitwidth := max bw (bitwidth c), saw_float := (saw_float c \<or> is_flt),
               saw_signed := (saw_signed c \<or> \<not> is_unknown_type \<and> is_sgn),
               saw_unsigned := (saw_unsigned c \<or> \<not> is_unknown_type \<and> \<not> is_sgn)\<rparr>))
          else if bitwidth c \<noteq> 0 then None
          else common_loop es (c\<lparr>res_ft := Some ft\<rparr>)) }"

definition getCommonType :: "globals \<Rightarrow> scope \<Rightarrow> (FullType option \<times> bool) list \<Rightarrow> FullType option" where
  "getCommonType g sc valid_exprs = do {
     c \<leftarrow> common_loop valid_exprs
       \<lparr>res_ft = None, bitwidth = 0, saw_float = False, saw_signed = False, saw_unsigned = False\<rparr>;
     (case res_ft c of
        Some r \<Rightarrow> Some r
      | None \<Rightarrow>
          if bitwidth c = 0 then None
          else if saw_float c \<and> bitwidth c > 53 then None
          else get_full_type sc (get_type_name sc (getFittingType g (bitwidth c) (saw_float c) False)
            ((\<not> saw_unsigned c \<or> saw_signed c) \<and> \<not> saw_float c))) }"

section \<open>The operands fit the type of the result\<close>

text \<open>The types of numbers in the language.\<close>

definition number_types :: "ltype list" where
  "number_types = [IntegerTy 1, IntegerTy 8, IntegerTy 16, IntegerTy 32, IntegerTy 64, FloatTy, DoubleTy]"

lemma imaginary_is_signed: "has a A_imaginary = has a A_signed"
  by (simp add: attr_defs)

lemma signed_attr_signed [simp]: "has (signed_attr s) A_signed = s"
  by (simp add: signed_attr_def has_def attr_defs)

text \<open>For numbers only the signedness of the attributes matters.\<close>

lemma getConv_signed_attr:
  "getConv g f t u loc ea da ex unk =
   getConv g f t u loc (signed_attr (has ea A_signed)) (signed_attr (has da A_signed)) ex unk"
  unfolding getConv_def imaginary_is_signed signed_attr_signed ..

text \<open>An implicit conversion exists.\<close>

definition converts :: "globals \<Rightarrow> ltype \<Rightarrow> bool \<Rightarrow> ltype \<Rightarrow> bool \<Rightarrow> bool" where
  "converts g t s u v \<longleftrightarrow>
     (case fst (getConv g (\<lambda>_. None) (Some t) u False (signed_attr s) (signed_attr v) False False) of
        Result (Some _) \<Rightarrow> True | _ \<Rightarrow> False)"

definition fitting_number :: "globals \<Rightarrow> ltype \<Rightarrow> bool \<Rightarrow> ltype \<Rightarrow> bool \<Rightarrow> ltype \<times> bool" where
  "fitting_number g t s u v =
     (let (w, f) = getBitWidth (Some t); (x, h) = getBitWidth (Some u); flt = (f \<or> h); m = max x w in
      (getFittingType g (if flt then min m 53 else m) flt False, \<not> flt \<and> (s \<or> v)))"

lemma converts_ints:
  assumes "0 < w" "1 < v"
  shows "converts g (IntegerTy w) s (IntegerTy v) d \<longleftrightarrow> \<not> (s \<and> \<not> d) \<and> w \<le> v"
  using assms by (auto simp: converts_def getConv_ints getConv_number_ints ConvErr_def Let_def)

lemma converts_bool: "converts g (IntegerTy 1) s (IntegerTy 1) d"
  by (simp add: converts_def getConv_def getConv_constructor_def getConv_number_def getBitWidth_def
      type_tests Let_def)

lemma converts_to_float:
  assumes "t \<in> {FloatTy, DoubleTy} \<or> (\<exists>w > 0. t = IntegerTy w)" "isIntegerTy t \<or> \<not> s" "u \<in> {FloatTy, DoubleTy}"
  shows "converts g t s u False \<longleftrightarrow> u = DoubleTy \<or> fst (getBitWidth (Some t)) \<le> 24"
  using assms by (auto simp: converts_def getConv_def getConv_constructor_def getConv_number_def
      getBitWidth_def type_tests imaginary_is_signed ConvErr_def Let_def)

lemma fitting_number_alt:
  "fitting_number g t s u v =
     (let m = max (fst (getBitWidth (Some u))) (fst (getBitWidth (Some t)));
          flt = (snd (getBitWidth (Some t)) \<or> snd (getBitWidth (Some u)))
      in (getFittingType g (if flt then min m 53 else m) flt False, \<not> flt \<and> (s \<or> v)))"
  by (simp add: fitting_number_def Let_def split: prod.splits)

lemma number_type_cases:
  assumes "t \<in> set number_types"
  shows "t = IntegerTy 1 \<or> (\<exists>w \<in> {8, 16, 32, 64}. t = IntegerTy w) \<or> t \<in> {FloatTy, DoubleTy}"
  using assms by (auto simp: number_types_def)

lemma getFittingType_int:
  assumes "w \<in> {8, 16, 32, 64}"
  shows "getFittingType g w False f80 = IntegerTy w"
  using assms by (auto simp: getFittingType_def)

lemma converts_number_to_float:
  assumes "t \<in> set number_types" "isIntegerTy t \<or> \<not> s" "u \<in> {FloatTy, DoubleTy}"
  shows "converts g t s u False \<longleftrightarrow> u = DoubleTy \<or> fst (getBitWidth (Some t)) \<le> 24"
  using number_type_cases[OF assms(1)] by (intro converts_to_float[OF _ assms(2,3)]) auto

lemma conv_number_types:
  assumes t: "t \<in> set number_types" and u: "u \<in> set number_types"
    and "isIntegerTy t \<or> \<not> s" "isIntegerTy u \<or> \<not> v"
    and b: "(t = IntegerTy 1) = (u = IntegerTy 1)"
    and r: "fitting_number g t s u v = (r, rs)"
  shows "converts g t s r rs \<and> converts g u v r rs"
proof (cases "t \<in> {FloatTy, DoubleTy} \<or> u \<in> {FloatTy, DoubleTy}")
  case True
  let ?m = "max (fst (getBitWidth (Some t))) (fst (getBitWidth (Some u)))"
  have m: "24 \<le> ?m" using True by (auto simp: getBitWidth_def)
  have rr: "r = getFittingType g (min ?m 53) True False \<and> \<not> rs"
    using True r by (auto simp: fitting_number_alt getBitWidth_def max.commute Let_def)
  then have "r = (if ?m \<le> 24 then FloatTy else DoubleTy)" using m by (auto simp: getFittingType_def min_def)
  then show ?thesis
    using rr converts_number_to_float[OF t assms(3), of r] converts_number_to_float[OF u assms(4), of r] by auto
next
  case False
  show ?thesis
  proof (cases "t = IntegerTy 1")
    case True
    then have "r = IntegerTy 1" using r b by (simp add: fitting_number_def getBitWidth_def getFittingType_def)
    then show ?thesis using True b by (simp add: converts_bool[simplified])
  next
    case nb: False
    obtain w x where w: "w \<in> {8, 16, 32, 64}" "t = IntegerTy w" and x: "x \<in> {8, 16, 32, 64}" "u = IntegerTy x"
      using number_type_cases[OF t] number_type_cases[OF u] False nb b by auto
    have "max x w \<in> {8, 16, 32, 64}" using w(1) x(1) by (simp add: max_def)
    then have "r = IntegerTy (max x w) \<and> rs = (s \<or> v)"
      using r w(2) x(2) by (auto simp: fitting_number_def getBitWidth_def getFittingType_int)
    moreover have "0 < w" "0 < x" "1 < max x w" using w(1) x(1) by auto
    ultimately show ?thesis using w(2) x(2) by (simp add: converts_ints)
  qed
qed

lemma getResType_normal:
  assumes "getOpClass Op = OpNormal" "\<not> (isStructTy t \<or> isArrayTy t \<or> isPointerTy t)"
    and "getBitWidth (Some t) = (w, f)" "getBitWidth (Some u) = (x, h)"
    and "\<not> (f \<and> has la A_signed \<or> h \<and> has ra A_signed)"
  shows "getResType g sc garbage (Some t) (Some u) Op la ra False False = Some
    (if w = 1 \<and> x \<noteq> 1 then res_err OpNormal ''LHS of type 'bool' cannot be combined with numeric RHS value''
     else if x = 1 \<and> w \<noteq> 1 then res_err OpNormal ''RHS of type 'bool' cannot be combined with numeric LHS value''
     else number_result g OpNormal (max x w) (f \<or> h) ((has la A_signed \<or> has ra A_signed) \<and> \<not> (f \<or> h)) False)"
proof -
  have "(a \<or> b \<or> a \<and> b) = (a \<or> b)" for a b by blast
  then show ?thesis
    using assms(2,5) by (auto simp: getResType_def Let_def assms(1,3,4) operand_bitwidth_def)
qed



section \<open>Imaginary operands\<close>

lemma both_impossible: "(if Op = ''=='' \<and> Op = ''!='' then x else y) = y"
  by auto

text \<open>
  Two slips in the rules for imaginary numbers. Every comparison of two imaginary numbers is
  accepted, although only \<open>==\<close> and \<open>!=\<close> are meant to be: the test for them can never fail. And the
  type of a power with an imaginary operand depends on a variable that has not been assigned:
  whether it is \<open>c32\<close> or \<open>complex\<close> is left to chance.
\<close>

theorem imaginary_rules:
  assumes "getOpClass Op = OpComparison" and "t \<in> {FloatTy, DoubleTy}" and "u \<in> {FloatTy, DoubleTy}"
    and "has la A_imaginary" and "has ra A_imaginary"
    and "get_full_type sc ''c32'' = Some c32" and "get_full_type sc ''complex'' = Some c64"
  shows "getResType g sc garbage (Some t) (Some u) Op la ra lu ru = Some (res_ok OpComparison (Some (IntegerTy 1)) 0 False) \<and>
    getResType g sc 24 (Some t) (Some u) ''^'' la ra lu ru = Some (res_ok OpExponentiation (ft_type c32) A_complex False) \<and>
    getResType g sc 53 (Some t) (Some u) ''^'' la ra lu ru = Some (res_ok OpExponentiation (ft_type c64) A_complex False)"
proof -
  have p: "getOpClass ''^'' = OpExponentiation" by code_simp
  have s: "has la A_signed" "has ra A_signed" using assms(4,5) by (simp_all add: imaginary_is_signed)
  show ?thesis
  proof -
    obtain w x where w: "getBitWidth (Some t) = (w, True)" "w \<noteq> 1" and x: "getBitWidth (Some u) = (x, True)" "x \<noteq> 1"
      using assms(2,3) by (auto simp: getBitWidth_def)
    have nt: "\<not> (isStructTy t \<or> isArrayTy t \<or> isPointerTy t)" using assms(2) by (auto simp: type_tests)
    show ?thesis
      using w(2) x(2) nt
      by (simp add: both_impossible getResType_def getComplexRes_def w(1) x(1) s p assms(1,4-7) Let_def complex_result_def)
  qed
qed

definition complex_scope :: scope where
  "complex_scope = empty_scope\<lparr>module := empty_module\<lparr>type_table :=
     [(''c32'', scalar (FixedVectorTy 2 FloatTy) A_complex),
      (''complex'', scalar (StructTy (Some ''complex'') [DoubleTy, DoubleTy]) A_complex)]\<rparr>\<rparr>"

theorem imaginary_rules_witness:
  "getResType target64 complex_scope 0 (Some DoubleTy) (Some DoubleTy) ''<='' A_imaginary A_imaginary False False =
      Some (res_ok OpComparison (Some (IntegerTy 1)) 0 False) \<and>
   getResType target64 complex_scope 24 (Some DoubleTy) (Some DoubleTy) ''^'' A_imaginary A_imaginary False False =
      Some (res_ok OpExponentiation (Some (FixedVectorTy 2 FloatTy)) A_complex False) \<and>
   getResType target64 complex_scope 53 (Some DoubleTy) (Some DoubleTy) ''^'' A_imaginary A_imaginary False False =
      Some (res_ok OpExponentiation (Some (StructTy (Some ''complex'') [DoubleTy, DoubleTy])) A_complex False)"
proof -
  have "getOpClass ''<='' = OpComparison" by code_simp
  moreover have "get_full_type complex_scope ''c32'' = Some (scalar (FixedVectorTy 2 FloatTy) A_complex)"
    "get_full_type complex_scope ''complex'' = Some (scalar (StructTy (Some ''complex'') [DoubleTy, DoubleTy]) A_complex)"
    by (simp_all add: get_full_type_def complex_scope_def)
  moreover have "has A_imaginary A_imaginary" by (simp add: has_def attr_defs)
  ultimately show ?thesis
    using imaginary_rules[of "''<=''" DoubleTy DoubleTy A_imaginary A_imaginary complex_scope
        "scalar (FixedVectorTy 2 FloatTy) A_complex"
        "scalar (StructTy (Some ''complex'') [DoubleTy, DoubleTy]) A_complex" target64 0 False False]
    by (simp add: scalar_def)
qed

end
