(* ===== verification/NumToken.thy ===== *)
theory NumToken
  imports LLTypes Complex_Main
begin

text \<open>
  Number literals: the constructor \<open>Token(char**)\<close> of src/token.cc, with \<open>strtoll\<close>, \<open>strtoull\<close> and
  \<open>strtod\<close> of the C library. The text is the rest of an input line, which ends with a NUL.
\<close>

section \<open>Characters\<close>

definition code :: "char \<Rightarrow> nat" where
  "code c = of_char c"

definition chr_at :: "string \<Rightarrow> nat \<Rightarrow> char" where
  "chr_at s i = (if i < length s then s ! i else CHR 0x00)"

definition isspace :: "char \<Rightarrow> bool" where
  "isspace c \<longleftrightarrow> code c = 32 \<or> 9 \<le> code c \<and> code c \<le> 13"

definition isblank :: "char \<Rightarrow> bool" where
  "isblank c \<longleftrightarrow> code c = 32 \<or> code c = 9"

definition isalpha :: "char \<Rightarrow> bool" where
  "isalpha c \<longleftrightarrow> 65 \<le> code c \<and> code c \<le> 90 \<or> 97 \<le> code c \<and> code c \<le> 122"

definition tolower :: "char \<Rightarrow> char" where
  "tolower c = (if 65 \<le> code c \<and> code c \<le> 90 then char_of (code c + 32) else c)"

text \<open>The value of a digit in bases up to 16, 16 for other characters.\<close>

definition digit_value :: "char \<Rightarrow> nat" where
  "digit_value c =
     (if is_digit c then code c - 48
      else if 97 \<le> code (tolower c) \<and> code (tolower c) \<le> 102 then code (tolower c) - 87
      else 16)"

definition digit_run :: "nat \<Rightarrow> string \<Rightarrow> nat \<Rightarrow> string" where
  "digit_run base s i = takeWhile (\<lambda>c. digit_value c < base) (drop i s)"

definition run_value :: "nat \<Rightarrow> string \<Rightarrow> nat" where
  "run_value base ds = foldl (\<lambda>n c. base * n + digit_value c) 0 ds"

section \<open>Conversion functions of the C library\<close>

text \<open>An optional sign: whether it is a minus, and the position behind it.\<close>

definition parse_sign :: "string \<Rightarrow> nat \<Rightarrow> bool \<times> nat" where
  "parse_sign s i =
     (if chr_at s i = CHR ''-'' then (True, i + 1) else if chr_at s i = CHR ''+'' then (False, i + 1) else (False, i))"

text \<open>
  The magnitude of an integer with base 0 and the end of the number; the end is the start when there
  is no number.
\<close>

definition parse_magnitude :: "string \<Rightarrow> nat \<Rightarrow> bool \<times> nat \<times> nat" where
  "parse_magnitude s i =
     (let (neg, p) = parse_sign s i;
          hex = (chr_at s p = CHR ''0'' \<and> tolower (chr_at s (p + 1)) = CHR ''x'' \<and> digit_value (chr_at s (p + 2)) < 16);
          base = (if hex then 16 else if chr_at s p = CHR ''0'' then 8 else 10);
          q = (if hex then p + 2 else p);
          ds = digit_run base s q
      in (neg, run_value base ds, if ds = [] then i else q + length ds))"

text \<open>Value, end, and whether \<open>errno\<close> becomes \<open>ERANGE\<close>; the value is that of the 64 bits.\<close>

definition strtoull :: "string \<Rightarrow> nat \<Rightarrow> 64 word \<times> nat \<times> bool" where
  "strtoull s i =
     (let (neg, m, e) = parse_magnitude s i in
      if m \<ge> 2 ^ 64 then (-1, e, True)
      else ((if neg then - of_nat m else of_nat m), e, False))"

definition strtoll :: "string \<Rightarrow> nat \<Rightarrow> 64 word \<times> nat \<times> bool" where
  "strtoll s i =
     (let (neg, m, e) = parse_magnitude s i in
      if neg then (if m > 2 ^ 63 then (of_int (- (2 ^ 63)), e, True) else (- of_nat m, e, False))
      else (if m \<ge> 2 ^ 63 then (of_nat (2 ^ 63 - 1), e, True) else (of_nat m, e, False)))"

text \<open>
  \<open>strtod\<close>: the exact value as a rational number and the end; \<open>inf\<close> and \<open>nan\<close> do not begin with a
  digit or a point, so they do not reach the constructor.
\<close>

definition parse_exponent :: "char \<Rightarrow> string \<Rightarrow> nat \<Rightarrow> int \<times> nat" where
  "parse_exponent letter s i =
     (if tolower (chr_at s i) = letter then
        (let (neg, p) = parse_sign s (i + 1); ds = digit_run 10 s p; n = int (run_value 10 ds) in
         if ds = [] then (0, i) else (if neg then - n else n, p + length ds))
      else (0, i))"

definition scale :: "rat \<Rightarrow> int \<Rightarrow> rat" where
  "scale base e = (if e \<ge> 0 then base ^ nat e else 1 / base ^ nat (- e))"

definition parse_mantissa :: "nat \<Rightarrow> string \<Rightarrow> nat \<Rightarrow> rat \<times> nat" where
  "parse_mantissa base s q =
     (let ip = digit_run base s q;
          r = q + length ip;
          fp = (if chr_at s r = CHR ''.'' then digit_run base s (r + 1) else []);
          e = (if chr_at s r = CHR ''.'' \<and> \<not> (ip = [] \<and> fp = []) then r + 1 + length fp else r)
      in (of_nat (run_value base (ip @ fp)) * scale (of_nat base) (- int (length fp)), e))"

definition parse_float :: "string \<Rightarrow> nat \<Rightarrow> rat \<times> nat" where
  "parse_float s i =
     (let (neg, p) = parse_sign s i;
          hex = (chr_at s p = CHR ''0'' \<and> tolower (chr_at s (p + 1)) = CHR ''x'' \<and>
            (digit_value (chr_at s (p + 2)) < 16 \<or> chr_at s (p + 2) = CHR ''.'' \<and> digit_value (chr_at s (p + 3)) < 16));
          q = (if hex then p + 2 else p);
          (m, e) = parse_mantissa (if hex then 16 else 10) s q;
          (x, e') = (if hex then parse_exponent CHR ''p'' s e else parse_exponent CHR ''e'' s e);
          v = m * scale (if hex then 2 else 10) x
      in if e = q then (0, i) else (if neg then - v else v, e'))"

text \<open>
  What C leaves to the implementation: the rounding to \<open>double\<close> and whether \<open>strtod\<close> reports a value
  as out of range; and the signedness of \<open>char\<close> and the number of bits of a pointer.
\<close>

record platform =
  round_double :: "rat \<Rightarrow> rat"
  out_of_range :: "rat \<Rightarrow> bool"
  char_min :: int
  char_max :: int
  target_bits :: nat

section \<open>The constructor\<close>

text \<open>\<open>Tristate\<close>: undecided is \<open>None\<close>; as a condition it is true only when it is decided and true.\<close>

type_synonym Tristate = "bool option"

definition is_true :: "Tristate \<Rightarrow> bool" where "is_true t \<longleftrightarrow> t = Some True"
definition is_false :: "Tristate \<Rightarrow> bool" where "is_false t \<longleftrightarrow> t = Some False"
definition undecided :: "Tristate \<Rightarrow> bool" where "undecided t \<longleftrightarrow> t = None"

text \<open>
  The token: a number with its type, or an error. The second component of the result is the new
  position in the line; \<open>None\<close> when the pointer is overwritten with a variable that has not been
  assigned.
\<close>

datatype lit_value = LInt "64 word" | LFloat rat

datatype lit_type = LitInteger (lit_bits: nat) (lit_signed: bool) | LitFloat bool | LitDouble bool

datatype num_token = NumLit lit_type lit_value bool | NumError

text \<open>The state of the suffix loop, and its three complaints.\<close>

record suffix =
  is_flt :: Tristate
  is_signed :: Tristate
  bitw :: nat

datatype suffix_end = SuffixEnd suffix nat | SuffixError nat | Bits128

text \<open>
  One letter behind a number: the lower case letter \<open>t\<close>, and whether the next character is the same
  letter. \<open>Go st k\<close> advances by \<open>k\<close> characters.
\<close>

datatype suffix_step = Stop | Complain | Unsupported128 | Go suffix nat

definition suffix_letter :: "platform \<Rightarrow> char \<Rightarrow> bool \<Rightarrow> suffix \<Rightarrow> suffix_step" where
  "suffix_letter pf t doubled st =
     (let flt = is_true (is_flt st); sized = (bitw st \<noteq> 0) in
      if t = CHR ''f'' then
        (if is_false (is_flt st) \<or> sized then Complain else Go (st\<lparr>is_flt := Some True, bitw := 32\<rparr>) 1)
      else if t = CHR ''i'' then
        (if is_false (is_flt st) then Complain else Go (st\<lparr>is_flt := Some True, is_signed := Some True\<rparr>) 1)
      else if t = CHR ''u'' then
        (if is_true (is_signed st) \<or> flt then Complain
         else Go (st\<lparr>is_signed := Some False, is_flt := Some False\<rparr>) 1)
      else if t = CHR ''l'' then
        (if flt \<or> sized then Complain
         else if doubled then Unsupported128
         else Go (st\<lparr>bitw := 64, is_flt := Some False\<rparr>) 1)
      else if t = CHR ''h'' then
        (if flt \<or> sized then Complain
         else if doubled then Go (st\<lparr>bitw := 8, is_flt := Some False\<rparr>) 2
         else Go (st\<lparr>bitw := 16, is_flt := Some False\<rparr>) 1)
      else if t = CHR ''z'' then
        (if flt \<or> sized then Complain else Go (st\<lparr>bitw := target_bits pf, is_flt := Some False\<rparr>) 1)
      else if t = CHR ''d'' then
        (if sized then Complain
         else if flt then Go (st\<lparr>bitw := 64\<rparr>) 1
         else Go (st\<lparr>is_flt := Some False, bitw := 32\<rparr>) 1)
      else Stop)"

lemma suffix_letter_advances: "suffix_letter pf t doubled st = Go st' k \<Longrightarrow> 0 < k"
  by (auto simp: suffix_letter_def Let_def split: if_splits)

text \<open>
  The loop over the letters, from position \<open>i\<close>. A position behind the line has no letter, so the loop
  ends.
\<close>

function suffix_loop :: "platform \<Rightarrow> string \<Rightarrow> nat \<Rightarrow> suffix \<Rightarrow> suffix_end" where
  "suffix_loop pf s i st =
     (if i \<ge> length s then SuffixEnd st i
      else (case suffix_letter pf (tolower (chr_at s i)) (tolower (chr_at s i) = tolower (chr_at s (i + 1))) st of
          Stop \<Rightarrow> SuffixEnd st i
        | Complain \<Rightarrow> SuffixError i
        | Unsupported128 \<Rightarrow> Bits128
        | Go st' k \<Rightarrow> suffix_loop pf s (i + k) st'))"
  by auto

termination
  by (relation "measure (\<lambda>(pf, s, i, st). length s - i)") (auto dest: suffix_letter_advances)

declare suffix_loop.simps [simp del]

text \<open>Whether a value that is not of unknown type fits into its type.\<close>

definition fits_type :: "platform \<Rightarrow> suffix \<Rightarrow> 64 word \<Rightarrow> rat \<Rightarrow> bool" where
  "fits_type pf st v f =
     (if is_true (is_flt st) then \<not> (bitw st = 32 \<and> \<bar>f\<bar> > (2 ^ 24 - 1) * 2 ^ 104)
      else if is_false (is_signed st) then
        uint v \<le> (if bitw st = 8 then 2 ^ 8 - 1 else if bitw st = 16 then 2 ^ 16 - 1
          else if bitw st = 64 then 2 ^ 64 - 1 else 2 ^ 32 - 1)
      else if bitw st = 8 then char_min pf \<le> sint v \<and> sint v \<le> char_max pf
      else if bitw st = 16 then - (2 ^ 15) \<le> sint v \<and> sint v \<le> 2 ^ 15 - 1
      else if bitw st = 64 then - (2 ^ 63) \<le> sint v \<and> sint v \<le> 2 ^ 63 - 1
      else - (2 ^ 31) \<le> sint v \<and> sint v \<le> 2 ^ 31 - 1)"

text \<open>The part behind the label \<open>end_loop\<close>.\<close>

definition finish_number ::
  "platform \<Rightarrow> Tristate \<Rightarrow> bool \<Rightarrow> 64 word \<Rightarrow> rat \<Rightarrow> suffix \<Rightarrow> nat \<Rightarrow> num_token \<times> nat option" where
  "finish_number pf sign is_hex v f st i =
     (let flt = is_true (is_flt st);
          unknown = (bitw st = 0 \<and> (undecided (is_signed st) \<or> flt));
          type = (if flt then (if bitw st = 32 then LitFloat else LitDouble) (is_true (is_signed st))
                  else LitInteger (if bitw st \<noteq> 0 then bitw st else 32) (\<not> is_false (is_signed st)))
      in
      if \<not> flt \<and> \<not> is_false (is_signed st) \<and> \<not> is_true sign \<and> sint v < 0 \<and> \<not> is_hex
      then (NumError, Some i)
      else if \<not> unknown \<and> \<not> fits_type pf st v f then (NumError, Some i)
      else (NumLit type (if flt then LFloat f else LInt v) unknown, Some i))"

text \<open>
  \<open>Token(char**)\<close>, without leading blanks, from position \<open>p\<close> of the line. The first part finds out
  whether the number is an integer or a float and where it ends.
\<close>

definition read_number ::
  "platform \<Rightarrow> string \<Rightarrow> nat \<Rightarrow> Tristate \<Rightarrow> (num_token \<times> nat option) + (64 word \<times> rat \<times> Tristate \<times> nat)" where
  "read_number pf s p sign =
     (let first = (if undecided sign then p else p + 1);
          (v, endptr, int_range) =
            (if chr_at s first \<noteq> CHR ''.'' then
               (let (v, e, r) = (if is_true sign then strtoll s p else strtoull s p) in (v, e, Some r))
             else (0, p, None))
      in
      if chr_at s endptr = CHR ''.'' \<and> chr_at s (endptr + 1) = CHR ''.'' \<and> chr_at s (endptr + 2) \<noteq> CHR ''.''
      then Inr (v, 0, None, endptr)
      else
        (let (x, endptr_f) = parse_float s p; f = round_double pf x in
         if out_of_range pf x then Inl (NumError, None)
         else if endptr_f > endptr \<or> is_true int_range then
           (if chr_at s endptr = CHR ''.'' \<and> endptr_f = endptr + 1 \<and> isalpha (chr_at s endptr_f) then
              (if is_true int_range then Inl (NumError, None) else Inr (v, f, Some False, endptr))
            else Inr (v, f, Some True, endptr_f))
         else Inr (v, f, None, endptr)))"

definition number_token :: "platform \<Rightarrow> string \<Rightarrow> nat \<Rightarrow> num_token \<times> nat option" where
  "number_token pf s p0 =
     (let p = p0 + length (takeWhile isspace (drop p0 s));
          sign = (if chr_at s p = CHR ''-'' then Some True else if chr_at s p = CHR ''+'' then Some False else None);
          is_hex = (if undecided sign then chr_at s p = CHR ''0'' \<and> tolower (chr_at s (p + 1)) = CHR ''x''
                    else chr_at s (p + 1) = CHR ''0'' \<and> tolower (chr_at s (p + 2)) = CHR ''x'')
      in
      case read_number pf s p sign of
        Inl r \<Rightarrow> r
      | Inr (v, f, flt, q) \<Rightarrow>
          (case suffix_loop pf s q
                  \<lparr>is_flt = flt, is_signed = (if is_true flt then Some False else None), bitw = 0\<rparr> of
             SuffixEnd st i \<Rightarrow> finish_number pf sign is_hex v f st i
           | SuffixError i \<Rightarrow> (NumError, Some i)
           | Bits128 \<Rightarrow> (NumError, Some q)))"

section \<open>Decimal integers\<close>

lemma chr_at_append [simp]: "chr_at (xs @ ys) (length xs + k) = chr_at ys k"
  by (simp add: chr_at_def nth_append)

lemma chr_at_append0 [simp]: "chr_at (xs @ ys) (length xs) = chr_at ys 0"
  using chr_at_append[of xs ys 0] by simp

lemma chr_at_Nil [simp]: "chr_at [] k = CHR 0x00"
  by (simp add: chr_at_def)

lemma chr_at_Cons [simp]: "chr_at (c # cs) 0 = c" "chr_at (c # cs) (Suc k) = chr_at cs k"
  by (simp_all add: chr_at_def)

lemma digit_value_10: "digit_value c < 10 \<longleftrightarrow> is_digit c"
  by (auto simp: digit_value_def is_digit_def code_def)

lemma digit_value_of_digit: "is_digit c \<Longrightarrow> digit_value c = of_digit c"
  by (simp add: digit_value_def of_digit_def code_def)

lemma run_value_digits: "run_value 10 (digits n) = n"
proof -
  have "foldl (\<lambda>n c. 10 * n + digit_value c) a xs = foldl (\<lambda>n c. 10 * n + of_digit c) a xs"
    if "\<forall>c \<in> set xs. is_digit c" for a xs
    using that by (induction xs arbitrary: a) (simp_all add: digit_value_of_digit)
  then have "run_value 10 (digits n) = read_decimal (digits n)"
    unfolding run_value_def read_decimal_def by (metis digits_are_digits)
  then show ?thesis by simp
qed

lemma digits_head:
  "\<exists>c ds. digits n = c # ds \<and> is_digit c \<and> (c = CHR ''0'' \<longrightarrow> n = 0 \<and> ds = [])"
proof (induction n rule: digits.induct)
  case (1 n)
  show ?case
  proof (cases "n < 10")
    case True
    moreover have "n = 0" if "char_of (48 + n) = CHR ''0''"
      using of_digit_char[OF True] that by (simp add: of_digit_def)
    ultimately show ?thesis by (auto simp: digits.simps[of n] is_digit_char)
  next
    case False
    then obtain c ds where c: "digits (n div 10) = c # ds" "is_digit c"
      "c = CHR ''0'' \<longrightarrow> n div 10 = 0 \<and> ds = []" using 1 by blast
    then show ?thesis using False by (auto simp: digits.simps[of n])
  qed
qed

text \<open>What may follow a decimal number so that it ends there.\<close>

definition ends_number :: "string \<Rightarrow> bool" where
  "ends_number rest \<longleftrightarrow> (case rest of [] \<Rightarrow> True
     | c # _ \<Rightarrow> \<not> is_digit c \<and> c \<noteq> CHR ''.'' \<and> tolower c \<noteq> CHR ''e'' \<and> tolower c \<noteq> CHR ''x'')"

lemma ends_number_at:
  assumes "ends_number rest"
  shows "chr_at rest 0 \<noteq> CHR ''.''" "tolower (chr_at rest 0) \<noteq> CHR ''e''" "tolower (chr_at rest 0) \<noteq> CHR ''x''"
  using assms by (auto simp: ends_number_def tolower_def code_def split: list.splits)

lemma digit_run_digits:
  assumes "ends_number rest"
  shows "digit_run 10 (pre @ digits n @ rest) (length pre) = digits n"
proof -
  have "takeWhile is_digit rest = []" using assms by (cases rest) (auto simp: ends_number_def)
  then have "takeWhile is_digit (digits n @ rest) = digits n"
    using digits_are_digits by (simp add: takeWhile_append)
  then show ?thesis by (simp add: digit_run_def digit_value_10)
qed

lemma digit_run_zero:
  assumes "ends_number rest" "digits n = ''0''"
  shows "digit_run 8 (pre @ digits n @ rest) (length pre) = digits n"
proof -
  have "takeWhile (\<lambda>c. digit_value c < 8) rest = []"
  proof (cases rest)
    case (Cons c cs)
    then have "\<not> digit_value c < 10" using assms(1) by (simp add: ends_number_def digit_value_10)
    then show ?thesis using Cons by simp
  qed simp
  moreover have "digit_value CHR ''0'' = 0" by (simp add: digit_value_def is_digit_def code_def)
  ultimately show ?thesis using assms(2) by (simp add: digit_run_def)
qed

lemma parse_sign_digit: "is_digit (chr_at s i) \<Longrightarrow> parse_sign s i = (False, i)"
  by (auto simp: parse_sign_def is_digit_def)

text \<open>What follows the first digit of a decimal number does not make it a hexadecimal one.\<close>

lemma decimal_head:
  assumes "ends_number rest"
  shows "is_digit (chr_at (pre @ digits n @ rest) (length pre)) \<and>
    (chr_at (pre @ digits n @ rest) (length pre) = CHR ''0'' \<longrightarrow>
      digits n = ''0'' \<and> n = 0 \<and> tolower (chr_at (pre @ digits n @ rest) (length pre + 1)) \<noteq> CHR ''x'')"
proof -
  obtain c ds where c: "digits n = c # ds" "is_digit c" "c = CHR ''0'' \<longrightarrow> n = 0 \<and> ds = []"
    using digits_head by blast
  have "chr_at (pre @ digits n @ rest) (length pre) = c"
    using chr_at_append[of pre "digits n @ rest" 0] c(1) by simp
  moreover have "chr_at (pre @ digits n @ rest) (length pre + 1) = chr_at rest 0" if "ds = []"
    using chr_at_append[of pre "digits n @ rest" 1] c(1) that by simp
  ultimately show ?thesis using c ends_number_at(3)[OF assms] by auto
qed

lemma parse_magnitude_decimal:
  assumes "ends_number rest"
  shows "parse_magnitude (pre @ digits n @ rest) (length pre) = (False, n, length pre + length (digits n))"
proof (cases "chr_at (pre @ digits n @ rest) (length pre) = CHR ''0''")
  case True
  then have z: "digits n = ''0''" "n = 0" and x: "tolower (chr_at (pre @ digits n @ rest) (length pre + 1)) \<noteq> CHR ''x''"
    using decimal_head[OF assms] by auto
  have "run_value 8 ''0'' = 0" by (simp add: run_value_def digit_value_def is_digit_def code_def)
  then show ?thesis
    using True x digit_run_zero[OF assms z(1), of pre] z decimal_head[OF assms, of pre n]
    by (simp add: parse_magnitude_def parse_sign_digit Let_def)
next
  case False
  then show ?thesis
    using digit_run_digits[OF assms, of pre n] decimal_head[OF assms, of pre n]
    by (simp add: parse_magnitude_def parse_sign_digit run_value_digits Let_def)
qed

lemma parse_float_decimal:
  assumes "ends_number rest"
  shows "parse_float (pre @ digits n @ rest) (length pre) = (of_nat n, length pre + length (digits n))"
proof -
  have e: "chr_at (pre @ digits n @ rest) (length pre + length (digits n)) = chr_at rest 0"
    using chr_at_append[of "pre @ digits n" rest 0] by simp
  have m: "parse_mantissa 10 (pre @ digits n @ rest) (length pre) = (of_nat n, length pre + length (digits n))"
    using ends_number_at(1)[OF assms]
    by (simp add: parse_mantissa_def digit_run_digits[OF assms] e run_value_digits scale_def Let_def)
  have x: "parse_exponent CHR ''e'' (pre @ digits n @ rest) (length pre + length (digits n)) =
      (0, length pre + length (digits n))"
    using ends_number_at(2)[OF assms] by (simp add: parse_exponent_def e)
  show ?thesis
    using decimal_head[OF assms, of pre n] m x
    by (auto simp: parse_float_def parse_sign_digit scale_def Let_def)
qed

lemma read_number_decimal:
  assumes "ends_number rest" "n < 2 ^ 64" "\<not> out_of_range pf (of_nat n)"
  shows "read_number pf (pre @ digits n @ rest) (length pre) None =
    Inr (of_nat n, round_double pf (of_nat n), None, length pre + length (digits n))"
proof -
  have e: "chr_at (pre @ digits n @ rest) (length pre + length (digits n)) = chr_at rest 0"
    using chr_at_append[of "pre @ digits n" rest 0] by simp
  have "chr_at (pre @ digits n @ rest) (length pre) \<noteq> CHR ''.''"
    using decimal_head[OF assms(1), of pre n] by (auto simp: is_digit_def)
  then show ?thesis
    using ends_number_at(1)[OF assms(1)] assms(2,3)
    by (simp add: read_number_def undecided_def is_true_def strtoull_def parse_magnitude_decimal[OF assms(1)]
        parse_float_decimal[OF assms(1)] e Let_def)
qed

fun shift_end :: "nat \<Rightarrow> suffix_end \<Rightarrow> suffix_end" where
  "shift_end k (SuffixEnd st i) = SuffixEnd st (k + i)"
| "shift_end k (SuffixError i) = SuffixError (k + i)"
| "shift_end k Bits128 = Bits128"

lemma suffix_loop_shift:
  "suffix_loop pf (xs @ ys) (length xs + i) st = shift_end (length xs) (suffix_loop pf ys i st)"
proof (induction pf ys i st rule: suffix_loop.induct)
  case (1 pf ys i st)
  have a: "chr_at (xs @ ys) (length xs + i) = chr_at ys i" "chr_at (xs @ ys) (length xs + i + 1) = chr_at ys (i + 1)"
    using chr_at_append[of xs ys i] chr_at_append[of xs ys "i + 1"] by (simp_all add: add.assoc)
  show ?case
  proof (cases "i \<ge> length ys")
    case True
    then show ?thesis by (simp add: suffix_loop.simps[of pf ys i] suffix_loop.simps[of pf "xs @ ys"])
  next
    case False
    show ?thesis
    proof (cases "suffix_letter pf (tolower (chr_at ys i)) (tolower (chr_at ys i) = tolower (chr_at ys (i + 1))) st")
      case (Go st' k)
      then show ?thesis
        using False "1.IH"[OF False Go] a
        by (simp add: suffix_loop.simps[of pf ys i] suffix_loop.simps[of pf "xs @ ys" "length xs + i"] add.assoc)
    qed (use False a in \<open>simp_all add: suffix_loop.simps[of pf ys i] suffix_loop.simps[of pf "xs @ ys"]\<close>)
  qed
qed

lemma uint_of_nat_small: "n < 2 ^ 64 \<Longrightarrow> uint (of_nat n :: 64 word) = int n"
  by (simp add: unsigned_of_nat take_bit_nat_eq_self)

lemma sint_of_nat:
  assumes "n < 2 ^ 64"
  shows "n < 2 ^ 63 \<Longrightarrow> sint (of_nat n :: 64 word) = int n" "\<not> n < 2 ^ 63 \<Longrightarrow> sint (of_nat n :: 64 word) < 0"
    "uint (of_nat n :: 64 word) = int n"
proof -
  have u: "uint (of_nat n :: 64 word) = int n" using assms by (simp add: uint_of_nat_small)
  have s: "sint (of_nat n :: 64 word) = signed_take_bit 63 (int n)" using u by (simp add: sint_uint)
  show "n < 2 ^ 63 \<Longrightarrow> sint (of_nat n :: 64 word) = int n"
    using s by (simp add: signed_take_bit_int_eq_self)
  show "\<not> n < 2 ^ 63 \<Longrightarrow> sint (of_nat n :: 64 word) < 0"
  proof -
    assume "\<not> n < 2 ^ 63"
    then have "int n div 2 ^ 63 = 1"
      using assms by (intro int_div_pos_eq[of _ _ _ "int n - 2 ^ 63"]) simp_all
    then have "bit (int n) 63" by (simp add: bit_iff_odd)
    then show ?thesis using s by (simp add: signed_take_bit_negative_iff)
  qed
qed (use assms in \<open>simp add: uint_of_nat_small\<close>)

text \<open>The suffixes of typed integers, with the number of bits and the signedness.\<close>

definition integer_suffixes :: "(string \<times> nat \<times> bool) list" where
  "integer_suffixes =
     [(''hh'', 8, True), (''uhh'', 8, False), (''hhu'', 8, False), (''h'', 16, True), (''uh'', 16, False),
      (''hu'', 16, False), (''d'', 32, True), (''ud'', 32, False), (''u'', 32, False), (''l'', 64, True),
      (''ul'', 64, False), (''lu'', 64, False), (''UL'', 64, False)]"

definition no_letter :: "string \<Rightarrow> bool" where
  "no_letter rest \<longleftrightarrow> (case rest of [] \<Rightarrow> True | c # _ \<Rightarrow> \<not> isalpha c)"

lemma no_letter_cases:
  assumes "no_letter rest"
  shows "rest = [] \<or> (\<exists>c cs. rest = c # cs \<and> tolower c \<notin> set ''fiulhzd'')"
  using assms by (cases rest) (auto simp: no_letter_def isalpha_def tolower_def code_def)

lemma suffix_loop_stop:
  assumes "no_letter rest"
  shows "suffix_loop pf rest 0 st = SuffixEnd st 0"
  using no_letter_cases[OF assms] by (auto simp: suffix_loop.simps[of pf rest 0] suffix_letter_def Let_def)

lemma tolower_letters:
  "tolower CHR ''h'' = CHR ''h''" "tolower CHR ''u'' = CHR ''u''" "tolower CHR ''l'' = CHR ''l''"
  "tolower CHR ''d'' = CHR ''d''" "tolower CHR ''U'' = CHR ''u''" "tolower CHR ''L'' = CHR ''l''"
  by code_simp+

lemma suffix_loop_Cons:
  "suffix_loop pf (c # cs) 0 st =
     (case suffix_letter pf (tolower c) (tolower c = tolower (chr_at cs 0)) st of
        Stop \<Rightarrow> SuffixEnd st 0
      | Complain \<Rightarrow> SuffixError 0
      | Unsupported128 \<Rightarrow> Bits128
      | Go st' k \<Rightarrow> suffix_loop pf (c # cs) k st')"
  by (simp add: suffix_loop.simps[of pf "c # cs" 0] split: suffix_step.splits)

lemma suffix_loop_tl:
  "suffix_loop pf (c # cs) (Suc 0) st = shift_end 1 (suffix_loop pf cs 0 st)"
  "suffix_loop pf (c # d # cs) 2 st = shift_end 2 (suffix_loop pf cs 0 st)"
  using suffix_loop_shift[of pf "[c]" cs 0 st] suffix_loop_shift[of pf "[c, d]" cs 0 st]
  by (simp_all add: numeral_2_eq_2)

lemma suffix_evaluates:
  assumes "(suf, bits, sgd) \<in> set integer_suffixes" "no_letter rest"
  shows "suffix_loop pf (suf @ rest) 0 \<lparr>is_flt = None, is_signed = None, bitw = 0\<rparr> =
    SuffixEnd \<lparr>is_flt = Some False, is_signed = (if sgd then None else Some False),
      bitw = (if suf = ''u'' then 0 else bits)\<rparr> (length suf)"
proof -
  have n: "tolower (chr_at rest 0) \<noteq> CHR ''h''" "tolower (chr_at rest 0) \<noteq> CHR ''l''"
    using no_letter_cases[OF assms(2)] by (auto simp: tolower_def code_def)
  show ?thesis
    using assms(1) n[symmetric] unfolding integer_suffixes_def
    by (auto simp: suffix_loop_Cons suffix_loop_tl suffix_loop_stop[OF assms(2)] tolower_letters
        suffix_letter_def is_true_def is_false_def Let_def)
qed

lemma number_token_decimal:
  assumes "ends_number rest" "n < 2 ^ 64" "\<not> out_of_range pf (of_nat n)"
    and "suffix_loop pf rest 0 \<lparr>is_flt = None, is_signed = None, bitw = 0\<rparr> = SuffixEnd st k"
  shows "number_token pf (pre @ digits n @ rest) (length pre) =
    finish_number pf None (chr_at (pre @ digits n @ rest) (length pre) = CHR ''0'' \<and>
        tolower (chr_at (pre @ digits n @ rest) (length pre + 1)) = CHR ''x'')
      (of_nat n) (round_double pf (of_nat n)) st (length pre + length (digits n) + k)"
proof -
  have d: "is_digit (chr_at (pre @ digits n @ rest) (length pre))" using decimal_head[OF assms(1)] by blast
  have "takeWhile isspace (drop (length pre) (pre @ digits n @ rest)) = []"
    using digits_head[of n] by (auto simp: isspace_def is_digit_def code_def)
  moreover have "chr_at (pre @ digits n @ rest) (length pre) \<noteq> CHR ''-''"
    "chr_at (pre @ digits n @ rest) (length pre) \<noteq> CHR ''+''"
    using d by (auto simp: is_digit_def)
  moreover have "suffix_loop pf (pre @ digits n @ rest) (length pre + length (digits n))
      \<lparr>is_flt = None, is_signed = None, bitw = 0\<rparr> = SuffixEnd st (length pre + length (digits n) + k)"
    using suffix_loop_shift[of pf "pre @ digits n" rest 0] assms(4) by simp
  ultimately show ?thesis
    by (simp add: number_token_def Let_def undecided_def read_number_decimal[OF assms(1-3)] is_true_def)
qed

lemma decimal_not_hex:
  assumes "ends_number rest"
  shows "\<not> (chr_at (pre @ digits n @ rest) (length pre) = CHR ''0'' \<and>
    tolower (chr_at (pre @ digits n @ rest) (length pre + 1)) = CHR ''x'')"
  using decimal_head[OF assms] by blast

lemma suffix_ends_number:
  "(suf, bits, sgd) \<in> set integer_suffixes \<Longrightarrow> ends_number (suf @ rest)"
  by (auto simp: integer_suffixes_def ends_number_def is_digit_def tolower_letters)


text \<open>
  A platform for the examples: the values in them are representable as \<open>double\<close>, so rounding is the
  identity; the range is that of IEEE 754.
\<close>

definition ieee_platform :: platform where
  "ieee_platform = \<lparr>round_double = (\<lambda>x. x), out_of_range = (\<lambda>x. \<bar>x\<bar> \<ge> 2 ^ 1024 - 2 ^ 970),
     char_min = -128, char_max = 127, target_bits = 64\<rparr>"


lemmas reading_simps = number_token_def read_number_def strtoull_def parse_magnitude_def parse_float_def
  parse_mantissa_def parse_exponent_def parse_sign_def scale_def digit_run_def run_value_def
  digit_value_def is_digit_def isspace_def tolower_def code_def chr_at_def undecided_def is_true_def
  is_false_def suffix_loop.simps suffix_letter_def finish_number_def fits_type_def Let_def

text \<open>
  A literal without a suffix is a 32-bit signed integer of unknown type, whatever its value.
  Two oddities: a number that starts with 0 and has a digit 8 or 9 is not rejected as octal but read
  as a float, and when a float literal is out of range the position in the line is overwritten with
  a pointer that has not been set.
\<close>

theorem untyped_literal:
  assumes "no_letter rest" and "ends_number rest" and "n < 2 ^ 63" and "\<not> out_of_range pf (of_nat n)"
  shows "number_token pf (pre @ digits n @ rest) (length pre) =
      (NumLit (LitInteger 32 True) (LInt (of_nat n)) True, Some (length (pre @ digits n))) \<and>
    number_token ieee_platform ''010'' 0 = (NumLit (LitInteger 32 True) (LInt 8) True, Some 3) \<and>
    number_token ieee_platform ''09'' 0 = (NumLit (LitDouble False) (LFloat 9) True, Some 2) \<and>
    number_token ieee_platform ''1e400'' 0 = (NumError, None)"
proof (intro conjI)
  have n: "n < 2 ^ 64" using assms(3) by simp
  show "number_token pf (pre @ digits n @ rest) (length pre) =
      (NumLit (LitInteger 32 True) (LInt (of_nat n)) True, Some (length (pre @ digits n)))"
    unfolding number_token_decimal[OF assms(2) n assms(4) suffix_loop_stop[OF assms(1)], of pre] finish_number_def
    using sint_of_nat(1)[OF n] assms(3)
    by (simp add: is_true_def is_false_def undecided_def Let_def)
  show "number_token ieee_platform ''010'' 0 = (NumLit (LitInteger 32 True) (LInt 8) True, Some 3)"
    by (simp add: ieee_platform_def reading_simps)
  show "number_token ieee_platform ''09'' 0 = (NumLit (LitDouble False) (LFloat 9) True, Some 2)"
    by (simp add: ieee_platform_def reading_simps)
  show "number_token ieee_platform ''1e400'' 0 = (NumError, None)"
    by (simp add: ieee_platform_def reading_simps)
qed

theorem untyped_literal_witness:
  "number_token ieee_platform (''a+'' @ digits 4000000000 @ '';'') (length ''a+'') =
      (NumLit (LitInteger 32 True) (LInt 4000000000) True, Some (length (''a+'' @ digits 4000000000)))"
  using untyped_literal[of "'';''" 4000000000 ieee_platform "''a+''"]
  by (simp add: no_letter_def ends_number_def isalpha_def is_digit_def tolower_def code_def ieee_platform_def)

end
