(* ===== verification/Utf8.thy ===== *)
theory Utf8
  imports Prelude
begin

text \<open>
  UTF-8 in the runtime library: \<open>utf8_decode\<close> and \<open>utf8_encode\<close> of src/clib/str_c.c. Bytes and code
  points are natural numbers; a C string ends at its first NUL, and what follows the list reads as
  NUL.
\<close>

definition byte_at :: "nat list \<Rightarrow> nat" where
  "byte_at s = (case s of [] \<Rightarrow> 0 | c # _ \<Rightarrow> c)"

section \<open>Decoding\<close>

text \<open>
  The loop over the continuation bytes. \<open>None\<close> is the result \<open>(uint32_t)(-1)\<close> with \<open>errno\<close> set; the
  second component is where the pointer ends up, behind the last byte that was read.
\<close>

fun decode_tail :: "nat \<Rightarrow> nat \<Rightarrow> nat list \<Rightarrow> nat option \<times> nat list" where
  "decode_tail 0 cp s = (Some cp, s)"
| "decode_tail (Suc n) cp s =
     (let c = byte_at s in
      if c AND 0b11000000 \<noteq> 0b10000000 then (None, tl s)
      else decode_tail n (push_bit 6 cp OR (c AND 0b00111111)) (tl s))"

definition utf8_decode :: "nat list \<Rightarrow> nat option \<times> nat list" where
  "utf8_decode s =
     (let c = byte_at s in
      if c < 128 then (Some c, tl s)
      else if c AND 0b11100000 = 0b11000000 then decode_tail 1 (c AND 0b00011111) (tl s)
      else if c AND 0b11110000 = 0b11100000 then decode_tail 2 (c AND 0b00001111) (tl s)
      else if c AND 0b11111000 = 0b11110000 then decode_tail 3 (c AND 0b00000111) (tl s)
      else (None, tl s))"

section \<open>Encoding\<close>

text \<open>
  The bytes are collected in a 64-bit integer that is shifted by one byte in every round, so that the
  byte written last comes first in memory: here a list that grows at its front. \<open>k\<close> counts the
  rounds; the mask \<open>new_mask\<close> of round \<open>k\<close> has the upper \<open>k + 2\<close> of its 8 bits set, and as a negative
  number it also selects all higher bits of the code point.
\<close>

definition lead_mask :: "nat \<Rightarrow> nat" where
  "lead_mask k = 256 - 2 ^ (6 - k)"

definition above_mask :: "nat \<Rightarrow> nat \<Rightarrow> bool" where
  "above_mask k cp \<longleftrightarrow> drop_bit (6 - k) cp \<noteq> 0"

function encode_loop :: "nat \<Rightarrow> nat \<Rightarrow> nat list \<Rightarrow> nat list" where
  "encode_loop k cp bytes =
     (let bytes = (0b10000000 OR (cp AND 0b00111111)) # bytes;
          cp = drop_bit 6 cp
      in if above_mask (k + 1) cp then encode_loop (k + 1) cp bytes
         else (cp OR lead_mask k) # bytes)"
  by auto

termination
proof (relation "measure (\<lambda>(k, cp, bytes). cp)")
  fix k cp :: nat and bytes x xa
  assume "x = (0b10000000 OR (cp AND 0b00111111)) # bytes" "xa = drop_bit 6 cp" "above_mask (k + 1) xa"
  then have "xa \<noteq> 0" by (metis above_mask_def drop_bit_of_0)
  then show "((k + 1, xa, x), (k, cp, bytes)) \<in> measure (\<lambda>(k, cp, bytes). cp)"
    using \<open>xa = drop_bit 6 cp\<close> by (cases "cp = 0") (auto simp: drop_bit_nat_eq drop_bit_eq_div)
qed simp

declare encode_loop.simps [simp del]

text \<open>The bytes of the sequence; \<open>None\<close> when the code point is not valid.\<close>

definition utf8_encode :: "nat \<Rightarrow> nat list option" where
  "utf8_encode codepoint =
     (if codepoint \<ge> 128 then
        (if codepoint \<ge> 0x110000 then None else Some (encode_loop 0 codepoint []))
      else Some [codepoint])"

section \<open>Round trip\<close>

text \<open>Bit operations as arithmetic.\<close>

lemma and_low_bits: "(x :: nat) AND mask n = x mod 2 ^ n"
  by (simp only: take_bit_eq_mask[symmetric] take_bit_eq_mod)

lemma and_high_bits: "(x :: nat) AND (2 ^ n * m) = 2 ^ n * (x div 2 ^ n AND m)"
proof -
  have "x AND push_bit n m = push_bit n (drop_bit n x AND m)"
    by (rule bit_eqI) (auto simp: bit_simps)
  then show ?thesis by (simp add: push_bit_eq_mult drop_bit_eq_div mult.commute)
qed

lemma or_low_bits:
  assumes "(a :: nat) < 2 ^ n"
  shows "2 ^ n * x OR a = 2 ^ n * x + a"
proof -
  have a: "take_bit n a = a" using assms by (simp add: take_bit_nat_eq_self)
  have "push_bit n x OR a = push_bit n x + a"
  proof (rule disjunctive_add [symmetric])
    fix k
    show "\<not> bit (push_bit n x) k \<or> \<not> bit a k"
      by (subst a[symmetric]) (auto simp: bit_simps)
  qed
  then show ?thesis by (simp add: push_bit_eq_mult mult.commute)
qed

lemma byte_masks:
  "(x :: nat) AND 63 = x mod 64" "x AND 31 = x mod 32" "x AND 15 = x mod 16" "x AND 7 = x mod 8"
  "x AND 192 = 64 * (x div 64 AND 3)" "x AND 224 = 32 * (x div 32 AND 7)"
  "x AND 240 = 16 * (x div 16 AND 15)" "x AND 248 = 8 * (x div 8 AND 31)"
  using and_low_bits[of x 6] and_low_bits[of x 5] and_low_bits[of x 4] and_low_bits[of x 3]
    and_high_bits[of x 6 3] and_high_bits[of x 5 7] and_high_bits[of x 4 15] and_high_bits[of x 3 31]
  by (simp_all add: mask_eq_exp_minus_1)

lemma tail_byte:
  assumes "(a :: nat) < 64"
  shows "128 OR a = 128 + a" "(128 + a) AND 192 = 128" "(128 + a) AND 63 = a"
proof -
  show "128 OR a = 128 + a" using or_low_bits[of a 6 2] assms by simp
  have "(128 + a) div 64 = 2" using assms by simp
  then show "(128 + a) AND 192 = 128" by (simp only: byte_masks) simp
  show "(128 + a) AND 63 = a" using assms by (simp add: byte_masks mod_add_eq[symmetric])
qed

lemma lead_byte_2:
  assumes "(a :: nat) < 32"
  shows "a OR lead_mask 0 = 192 + a" "(192 + a) AND 224 = 192" "(192 + a) AND 31 = a"
proof -
  show "a OR lead_mask 0 = 192 + a" using or_low_bits[of a 5 6] assms by (simp add: lead_mask_def or.commute)
  have "(192 + a) div 32 = 6" using assms by simp
  then show "(192 + a) AND 224 = 192" by (simp only: byte_masks) simp
  show "(192 + a) AND 31 = a" using assms by (simp add: byte_masks mod_add_eq[symmetric])
qed

lemma lead_byte_3:
  assumes "(a :: nat) < 16"
  shows "a OR lead_mask 1 = 224 + a" "(224 + a) AND 224 = 224" "(224 + a) AND 240 = 224" "(224 + a) AND 15 = a"
proof -
  show "a OR lead_mask 1 = 224 + a" using or_low_bits[of a 4 14] assms by (simp add: lead_mask_def or.commute)
  have "(224 + a) div 32 = 7" "(224 + a) div 16 = 14" using assms by simp_all
  then show "(224 + a) AND 224 = 224" "(224 + a) AND 240 = 224" by (simp_all only: byte_masks) simp_all
  show "(224 + a) AND 15 = a" using assms by (simp add: byte_masks mod_add_eq[symmetric])
qed

lemma lead_byte_4:
  assumes "(a :: nat) < 8"
  shows "a OR lead_mask 2 = 240 + a" "(240 + a) AND 224 = 224" "(240 + a) AND 240 = 240"
    "(240 + a) AND 248 = 240" "(240 + a) AND 7 = a"
proof -
  show "a OR lead_mask 2 = 240 + a" using or_low_bits[of a 3 30] assms by (simp add: lead_mask_def or.commute)
  have "(240 + a) div 32 = 7" "(240 + a) div 16 = 15" "(240 + a) div 8 = 30" using assms by simp_all
  then show "(240 + a) AND 224 = 224" "(240 + a) AND 240 = 240" "(240 + a) AND 248 = 240"
    by (simp_all only: byte_masks) simp_all
  show "(240 + a) AND 7 = a" using assms by (simp add: byte_masks mod_add_eq[symmetric])
qed

lemma decode_tail_step:
  assumes "a < 64"
  shows "decode_tail (Suc n) cp ((128 + a) # s) = decode_tail n (64 * cp + a) s"
  using tail_byte[OF assms] or_low_bits[of a 6 cp] assms
  by (simp add: byte_at_def Let_def push_bit_eq_mult mult.commute)

lemma encode_tail:
  "encode_loop k cp bytes =
     (if above_mask (k + 1) (cp div 64) then encode_loop (k + 1) (cp div 64) ((128 + cp mod 64) # bytes)
      else (cp div 64 OR lead_mask k) # (128 + cp mod 64) # bytes)"
  by (subst encode_loop.simps) (simp add: byte_masks tail_byte drop_bit_eq_div Let_def)

lemma above_mask_iff: "k < 6 \<Longrightarrow> above_mask k cp \<longleftrightarrow> 2 ^ (6 - k) \<le> cp"
  by (simp add: above_mask_def drop_bit_eq_div div_eq_0_iff not_less)

lemmas decode_simps = utf8_decode_def byte_at_def[of "_ # _"] numeral_2_eq_2 numeral_3_eq_3 Let_def

text \<open>
  C23. Decoding what \<open>utf8_encode\<close> writes for a Unicode code point gives the code point back and
  reads exactly these bytes, whatever follows; other numbers are rejected.
\<close>

theorem utf8_roundtrip:
  "(case utf8_encode cp of
      Some bytes \<Rightarrow> cp < 0x110000 \<and> utf8_decode (bytes @ rest) = (Some cp, rest)
    | None \<Rightarrow> cp \<ge> 0x110000)"
proof -
  have mods: "cp mod 64 < 64" "cp div 64 mod 64 < 64" "cp div 64 div 64 mod 64 < 64" by simp_all
  consider (1) "cp < 128" | (2) "128 \<le> cp" "cp < 2048" | (3) "2048 \<le> cp" "cp < 65536"
    | (4) "65536 \<le> cp" "cp < 0x110000" | (5) "cp \<ge> 0x110000" by linarith
  then show ?thesis
  proof cases
    case 1
    then show ?thesis by (simp add: utf8_encode_def decode_simps)
  next
    case 2
    have small: "cp div 64 < 32" using 2 by simp
    note l = lead_byte_2[OF small]
    have "utf8_encode cp = Some [192 + cp div 64, 128 + cp mod 64]"
      using 2 small l by (simp add: utf8_encode_def encode_tail[of 0] above_mask_iff)
    then show ?thesis using 2 l mods by (simp add: decode_simps decode_tail_step del: decode_tail.simps(2))
  next
    case 3
    have small: "cp div 64 div 64 < 16" "32 \<le> cp div 64" using 3 by simp_all
    note l = lead_byte_3[OF small(1), simplified]
    have e: "utf8_encode cp = Some [224 + cp div 64 div 64, 128 + cp div 64 mod 64, 128 + cp mod 64]"
      using 3 small l by (simp add: utf8_encode_def encode_tail[of 0] encode_tail[of "Suc 0"] above_mask_iff)
    have "utf8_decode ([224 + cp div 64 div 64, 128 + cp div 64 mod 64, 128 + cp mod 64] @ rest) = (Some cp, rest)"
      using l mods by (simp add: decode_simps decode_tail_step mult_div_mod_eq del: decode_tail.simps(2))
    then show ?thesis using 3(2) by (simp add: e)
  next
    case 4
    have small: "cp div 64 div 64 div 64 < 8" "32 \<le> cp div 64" "16 \<le> cp div 64 div 64" using 4 by simp_all
    note l = lead_byte_4[OF small(1)]
    have two: "Suc (Suc 0) = 2" by simp
    have e: "utf8_encode cp = Some [240 + cp div 64 div 64 div 64, 128 + cp div 64 div 64 mod 64,
        128 + cp div 64 mod 64, 128 + cp mod 64]"
      using 4 small l
      by (simp add: utf8_encode_def encode_tail[of 0] encode_tail[of "Suc 0"] encode_tail[of 2]
          above_mask_iff two)
    let ?bytes = "[240 + cp div 64 div 64 div 64, 128 + cp div 64 div 64 mod 64, 128 + cp div 64 mod 64, 128 + cp mod 64]"
    have "utf8_decode (?bytes @ rest) = (Some cp, rest)"
      using l mods by (simp add: decode_simps decode_tail_step mult_div_mod_eq del: decode_tail.simps(2))
    then show ?thesis using 4(2) by (simp add: e)
  next
    case 5
    then show ?thesis by (simp add: utf8_encode_def)
  qed
qed

end
