(* ===== verification/Lexer.thy ===== *)
theory Lexer
  imports NumToken Utf8
begin

text \<open>
  The lexer: src/lexer.cc (\<open>advance\<close>, the peek functions, \<open>get_str_tok\<close>, \<open>gettok\<close>) and the other
  constructors of \<open>Token\<close> in src/token.cc. The input is one file that is read line by line, not the
  interactive prompt; characters are integers as in the code, where the end of the file is -1 and a
  plain \<open>char\<close> may be signed.
\<close>

section \<open>Tokens\<close>

text \<open>The token classes of src/token.def; the last one has the number 0.\<close>

definition token_names :: "string list" where
  "token_names =
     [''chan'', ''set'', ''map'', ''vec'', ''self'', ''packed'', ''union'', ''const'', ''func'', ''unique'',
      ''shared'', ''atomic'', ''global'', ''until'', ''leave'', ''return'', ''repeat'', ''while'', ''in'',
      ''reverse_in'', ''not_in'', ''for'', ''else'', ''elif'', ''brk'', ''if'', ''end'', ''pub'', ''as'',
      ''from'', ''import'', ''struct'', ''cstruct'', ''interface'', ''decl'', ''cdecl'', ''delete'', ''inline'',
      ''def'', ''cdef'', ''clone'', ''init'', ''false'', ''true'', ''nil'', ''last_keyword'', ''ptr_lit'',
      ''str_lit'', ''part_str_lit'', ''number'', ''identifier'', ''ellipsis'', ''star'', ''eof'', ''last_op'',
      ''selector'', ''ref'', ''optional'', ''thread'', ''invisible_strong'', ''postfix'', ''pow'', ''unary'',
      ''mult'', ''add'', ''cmp'', ''bitand'', ''xor'', ''bitor'', ''and'', ''or'', ''arrow'', ''range'', ''colon'',
      ''ternary'', ''comma'', ''invisible'', ''assign'', ''error'']"

fun index_of :: "'a \<Rightarrow> 'a list \<Rightarrow> nat" where
  "index_of x [] = 0"
| "index_of x (y # ys) = (if x = y then 0 else Suc (index_of x ys))"

definition tok_1st_keyword :: int where
  "tok_1st_keyword = - int (length token_names)"

definition tok :: "string \<Rightarrow> int" where
  "tok n = tok_1st_keyword + 1 + int (index_of n token_names)"

text \<open>The texts of the tokens after \<open>init_token_map\<close>, and the keywords it enters into the map.\<close>

definition token_text :: "int \<Rightarrow> string" where
  "token_text kind =
     (if kind = tok ''invisible'' then ''<invisible operator>''
      else if kind = tok ''invisible_strong'' then ''<strong invisible operator>''
      else if kind = tok ''reverse_in'' then ''~in''
      else if kind = tok ''not_in'' then ''!in''
      else token_names ! nat (kind - 1 - tok_1st_keyword))"

definition keyword_toks :: "(string \<times> int) list" where
  "keyword_toks =
     map (\<lambda>t. (token_text t, t)) ([tok_1st_keyword + 1 .. tok ''last_keyword'' - 1] @ [tok ''thread''])"

datatype token =
    TokKind int
  | TokNumber lit_type lit_value bool
  | TokString string
  | TokPartString string
  | TokPtr

text \<open>\<open>Token(int)\<close>: the built-in values are numbers and the null pointer.\<close>

definition Token_int :: "int \<Rightarrow> token" where
  "Token_int kind =
     (if tok ''false'' \<le> kind \<and> kind \<le> tok ''nil'' then
        (if kind = tok ''false'' \<or> kind = tok ''true''
         then TokNumber (LitInteger 1 False) (LInt (if kind = tok ''true'' then 1 else 0)) False
         else TokPtr)
      else TokKind kind)"

text \<open>\<open>Token(const std::string&, char)\<close>: a character literal must be one UTF-8 sequence.\<close>

definition Token_string :: "string \<Rightarrow> char \<Rightarrow> token" where
  "Token_string str Closing =
     (if Closing = CHR 0x27 then
        (case utf8_decode (map code str) of
           (Some cp, seq) \<Rightarrow>
             (if byte_at seq \<noteq> 0 then TokKind (tok ''error'')
              else TokNumber (LitInteger (if cp \<le> 255 then 8 else 32) False) (LInt (of_nat cp)) False)
         | (None, _) \<Rightarrow> TokKind (tok ''error''))
      else if Closing = CHR ''\"'' then TokString str
      else TokPartString str)"

text \<open>\<open>Token(long long)\<close>, \<open>Token(unsigned long long)\<close>, \<open>Token(double)\<close> and \<open>Token(bool)\<close>.\<close>

definition Token_longlong :: "64 word \<Rightarrow> token" where
  "Token_longlong n = TokNumber (LitInteger 32 True) (LInt n) True"

definition Token_ulonglong :: "64 word \<Rightarrow> token" where
  "Token_ulonglong n = TokNumber (LitInteger 64 False) (LInt n) False"

definition Token_double :: "rat \<Rightarrow> token" where
  "Token_double x = TokNumber (LitDouble False) (LFloat x) True"

definition Token_bool :: "bool \<Rightarrow> token" where
  "Token_bool truth = TokNumber (LitInteger 1 False) (LInt (if truth then 1 else 0)) False"

section \<open>Input\<close>

datatype eXpect = eNone | eBinOp | eComma | eSemi | ePath | eType

text \<open>
  The state of the lexer. \<open>lines\<close> are the lines of the file that have not been read, each with its
  line ending; \<open>linebuf\<close> is the current line without it, absent before the first one.
\<close>

record lexer =
  lines :: "string list"
  linebuf :: "string option"
  linelen :: int
  Loc_Line :: nat
  Loc_Col :: nat
  CurLoc_Line :: nat
  CurLoc_Col :: nat
  CurChar :: int
  IdentifierStr :: string
  KeepIdentifierStr :: string
  brace_balance :: int
  prompt_indent :: int
  Expected :: eXpect

definition line :: "lexer \<Rightarrow> string" where
  "line lx = (case linebuf lx of None \<Rightarrow> '''' | Some b \<Rightarrow> b)"

definition EOF_char :: int where
  "EOF_char = -1"

text \<open>The value of a character, and the conversion of an \<open>int\<close> to \<open>char\<close>.\<close>

definition char_value :: "platform \<Rightarrow> char \<Rightarrow> int" where
  "char_value pf c = (if char_min pf < 0 \<and> code c \<ge> 128 then int (code c) - 256 else int (code c))"

definition to_char :: "int \<Rightarrow> char" where
  "to_char c = char_of (nat (c mod 256))"

definition ch :: "char \<Rightarrow> int" where
  "ch c = int (code c)"

text \<open>\<open>__trim_cstring\<close> with the delimiter \<open>'\n'\<close>.\<close>

definition trim_newline :: "string \<Rightarrow> string" where
  "trim_newline s =
     (if s \<noteq> [] \<and> code (last s) = 10 then
        (let t = butlast s in if t \<noteq> [] \<and> code (last t) = 13 then butlast t else t)
      else s)"

text \<open>\<open>advance\<close>, with the assignment to \<open>CurChar\<close> that goes with every call.\<close>

definition advance :: "platform \<Rightarrow> lexer \<Rightarrow> lexer" where
  "advance pf lx =
     (let read = (\<lambda>lx. (let c = char_value pf (chr_at (line lx) (Loc_Col lx)) in
            lx\<lparr>Loc_Col := Loc_Col lx + 1, CurChar := (if c = 0 then 10 else c)\<rparr>))
      in
      if linebuf lx = None \<or> int (Loc_Col lx) > linelen lx then
        (case lines lx of
           [] \<Rightarrow> lx\<lparr>linebuf := Some (line lx), linelen := -1, CurChar := EOF_char\<rparr>
         | l # ls \<Rightarrow> read (lx\<lparr>lines := ls, linebuf := Some (trim_newline l),
             linelen := int (length (trim_newline l)), Loc_Line := Loc_Line lx + 1, Loc_Col := 0\<rparr>))
      else read lx)"

text \<open>Tests of characters; what is no unsigned character is in no class.\<close>

definition in_class :: "(char \<Rightarrow> bool) \<Rightarrow> int \<Rightarrow> bool" where
  "in_class P c \<longleftrightarrow> 0 \<le> c \<and> c < 256 \<and> P (char_of (nat c))"

definition is_alnum :: "char \<Rightarrow> bool" where
  "is_alnum c \<longleftrightarrow> isalpha c \<or> is_digit c"

definition high_bits :: "int \<Rightarrow> bool" where
  "high_bits c \<longleftrightarrow> c AND 0xff00 \<noteq> 0"

text \<open>
  The peek functions; beyond the NUL of the line they read NUL. \<open>first_nonblank\<close> is the loop over at
  most \<open>n\<close> characters: the index where it stops and the last character it has seen.
\<close>

fun first_nonblank :: "string \<Rightarrow> nat \<Rightarrow> nat \<Rightarrow> char \<Rightarrow> nat \<times> char" where
  "first_nonblank s i 0 c = (i, c)"
| "first_nonblank s i (Suc n) c =
     (if isblank (chr_at s i) then first_nonblank s (i + 1) n (chr_at s i) else (i, chr_at s i))"

definition peek :: "lexer \<Rightarrow> char" where
  "peek lx =
     (let c = to_char (CurChar lx) in
      if high_bits (CurChar lx) then CHR 0x00
      else if \<not> isblank c then c
      else snd (first_nonblank (line lx) (Loc_Col lx) (nat (linelen lx - int (Loc_Col lx) + 1)) c))"

definition peek2 :: "lexer \<Rightarrow> char" where
  "peek2 lx =
     (let c = to_char (CurChar lx) in
      if high_bits (CurChar lx) then CHR 0x00
      else if \<not> isblank c then chr_at (line lx) (Loc_Col lx)
      else chr_at (line lx)
        (fst (first_nonblank (line lx) (Loc_Col lx) (nat (linelen lx - int (Loc_Col lx))) c) + 1))"

definition peek_strict :: "lexer \<Rightarrow> char" where
  "peek_strict lx = (if high_bits (CurChar lx) then CHR 0x00 else to_char (CurChar lx))"

definition peek2_strict :: "platform \<Rightarrow> lexer \<Rightarrow> char \<times> bool" where
  "peek2_strict pf lx =
     (let c = chr_at (line lx) (Loc_Col lx); d = chr_at (line lx) (Loc_Col lx + 1) in
      if high_bits (CurChar lx) \<or> CurChar lx = 0 \<or> high_bits (char_value pf c) \<or> c = CHR 0x00
      then (CHR 0x00, False)
      else (c, \<not> isalpha d \<and> d \<noteq> CHR ''_''))"

definition look_back_strict :: "lexer \<Rightarrow> char" where
  "look_back_strict lx =
     (if CurLoc_Col lx = 0 then CHR 0x00 else chr_at (line lx) (CurLoc_Col lx - 1))"

text \<open>
  \<open>purge_line\<close>. After the end of the file \<open>linelen\<close> is -1, so the column becomes -1 and the next
  character is read in front of the line: \<open>None\<close>.
\<close>

definition purge_line :: "lexer \<Rightarrow> (token \<times> lexer) option" where
  "purge_line lx =
     (if linelen lx < 0 then None
      else Some (TokKind (ch CHR '';''),
        lx\<lparr>prompt_indent := 0, brace_balance := 0, Loc_Col := nat (linelen lx), CurLoc_Line := Loc_Line lx,
           CurLoc_Col := nat (linelen lx), CurChar := 10, IdentifierStr := '';''\<rparr>))"

section \<open>Progress\<close>

text \<open>The number of calls of \<open>advance\<close> up to the end of the file.\<close>

definition remaining :: "lexer \<Rightarrow> nat" where
  "remaining lx = sum_list (map (\<lambda>l. length l + 2) (lines lx)) +
     (if linebuf lx = None \<or> int (Loc_Col lx) > linelen lx then 0 else nat (linelen lx - int (Loc_Col lx)) + 1)"

lemma trim_newline_length: "length (trim_newline s) \<le> length s"
  by (simp add: trim_newline_def Let_def)

lemma advance_progress:
  "remaining (advance pf lx) < remaining lx \<or>
   CurChar (advance pf lx) = EOF_char \<and> remaining (advance pf lx) \<le> remaining lx"
proof (cases "linebuf lx = None \<or> int (Loc_Col lx) > linelen lx")
  case True
  then show ?thesis
    using trim_newline_length[of "hd (lines lx)"]
    by (cases "lines lx") (auto simp: advance_def remaining_def Let_def)
next
  case False
  then show ?thesis by (auto simp: advance_def remaining_def Let_def nat_diff_distrib)
qed

definition progress_measure :: "lexer \<Rightarrow> nat" where
  "progress_measure lx = 2 * remaining lx + (if CurChar lx = EOF_char then 0 else 1)"

lemma advance_measure:
  "CurChar lx \<noteq> EOF_char \<Longrightarrow> progress_measure (advance pf lx) < progress_measure lx"
  using advance_progress[of pf lx] by (auto simp: progress_measure_def)

text \<open>
  The loops that read characters as long as they are in a class, with the characters they have
  read. They stop at the end of the file.
\<close>

function advance_while :: "platform \<Rightarrow> (int \<Rightarrow> bool) \<Rightarrow> lexer \<Rightarrow> string \<Rightarrow> string \<times> lexer" where
  "advance_while pf P lx acc =
     (if P (CurChar lx) \<and> CurChar lx \<noteq> EOF_char
      then advance_while pf P (advance pf lx) (acc @ [to_char (CurChar lx)])
      else (acc, lx))"
  by auto

termination
  by (relation "measure (\<lambda>(pf, P, lx, acc). progress_measure lx)") (auto intro: advance_measure)

declare advance_while.simps [simp del]

section \<open>String and character literals\<close>

text \<open>The escape sequences of one letter; \<open>\e\<close> is ESC.\<close>

definition escape_codes :: "(char \<times> nat) list" where
  "escape_codes = [(CHR ''a'', 7), (CHR ''b'', 8), (CHR ''e'', 27), (CHR ''f'', 12), (CHR ''n'', 10),
     (CHR ''r'', 13), (CHR ''t'', 9), (CHR ''v'', 11), (CHR 0x5C, 92), (CHR ''$'', 36)]"

text \<open>
  The local variables of \<open>get_str_tok\<close>: the literal, and the value and the number of expected digits
  of an octal sequence.
\<close>

record str_state =
  StrLit :: string
  sum :: nat
  nexpect :: nat

definition octal_digit :: "int \<Rightarrow> bool" where
  "octal_digit c \<longleftrightarrow> ch CHR ''0'' \<le> c \<and> c < ch CHR ''8''"

definition append_char :: "int \<Rightarrow> str_state \<Rightarrow> str_state" where
  "append_char c st = st\<lparr>StrLit := StrLit st @ [to_char c]\<rparr>"

text \<open>A complete or interrupted octal sequence is appended unless it is too big.\<close>

definition append_octal :: "str_state \<Rightarrow> str_state" where
  "append_octal st = (if sum st \<ge> 0x100 then st else append_char (int (sum st)) st)"

text \<open>The \<open>switch\<close> of the loop: \<open>Inl\<close> returns a token, \<open>Inr\<close> goes on after \<open>do_advance\<close>.\<close>

definition str_switch ::
  "platform \<Rightarrow> int \<Rightarrow> lexer \<Rightarrow> str_state \<Rightarrow> (token \<times> lexer) + (lexer \<times> str_state)" where
  "str_switch pf Closing lx st =
     (let c = CurChar lx; ordinary = Inr (advance pf lx, append_char c st) in
      if c = 92 then
        (let lx = advance pf lx; e = CurChar lx in
         case map_of (map (\<lambda>(a, b). (ch a, b)) escape_codes) e of
           Some b \<Rightarrow> Inr (advance pf lx, append_char (int b) st)
         | None \<Rightarrow>
             (if octal_digit e then Inr (advance pf lx, st\<lparr>sum := nat (e - ch CHR ''0''), nexpect := 2\<rparr>)
              else Inr (advance pf lx, append_char e st)))
      else if c = EOF_char then Inl (Token_int EOF_char, lx)
      else if c = ch CHR ''$'' then
        (if Closing \<noteq> 34 then ordinary
         else Inl (Token_string (StrLit st) CHR ''$'', advance pf lx))
      else if (c = 34 \<or> c = 39) \<and> c = Closing
      then Inl (Token_string (StrLit st) (to_char Closing), advance pf lx)
      else ordinary)"

text \<open>
  One round of the loop. While digits of an octal sequence are missing, \<open>continue\<close> starts the next
  round without reading another character.
\<close>

definition str_round ::
  "platform \<Rightarrow> int \<Rightarrow> lexer \<Rightarrow> str_state \<Rightarrow> (token \<times> lexer) + (lexer \<times> str_state)" where
  "str_round pf Closing lx st =
     (if nexpect st = 0 then str_switch pf Closing lx st
      else if octal_digit (CurChar lx) then
        (let st = st\<lparr>sum := push_bit 3 (sum st) OR nat (CurChar lx - ch CHR ''0''), nexpect := nexpect st - 1\<rparr> in
         if nexpect st = 0 then str_switch pf Closing (advance pf lx) (append_octal st)
         else Inr (lx, st))
      else str_switch pf Closing lx (append_octal (st\<lparr>nexpect := 0\<rparr>)))"

lemma str_switch_progress:
  assumes "str_switch pf Closing lx st = Inr (lx', st')"
  shows "progress_measure lx' < progress_measure lx"
proof -
  have ne: "CurChar lx \<noteq> EOF_char" using assms by (auto simp: str_switch_def EOF_char_def)
  have "progress_measure (advance pf (advance pf lx)) \<le> progress_measure (advance pf lx)"
    using advance_progress[of pf "advance pf lx"] by (auto simp: progress_measure_def)
  then show ?thesis
    using assms advance_measure[OF ne, of pf]
    by (auto simp: str_switch_def Let_def split: if_splits option.splits)
qed

lemma advance_measure_le: "progress_measure (advance pf lx) \<le> progress_measure lx"
  using advance_progress[of pf lx] by (auto simp: progress_measure_def)

lemma str_round_progress:
  assumes "str_round pf Closing lx st = Inr (lx', st')"
  shows "(progress_measure lx', nexpect st') \<in> {(m, n). m < progress_measure lx \<or>
    m = progress_measure lx \<and> n < nexpect st}"
proof -
  consider (0) "nexpect st = 0" | (1) "nexpect st \<noteq> 0" "\<not> octal_digit (CurChar lx)"
    | (2) "nexpect st = 1" "octal_digit (CurChar lx)" | (3) "nexpect st > 1" "octal_digit (CurChar lx)"
    by linarith
  then show ?thesis
  proof cases
    case 2
    then show ?thesis
      using assms str_switch_progress[of pf Closing "advance pf lx"] advance_measure_le[of pf lx]
      by (fastforce simp: str_round_def Let_def)
  qed (use assms str_switch_progress[of pf Closing lx] in \<open>auto simp: str_round_def Let_def\<close>)
qed

function get_str_loop :: "platform \<Rightarrow> int \<Rightarrow> lexer \<Rightarrow> str_state \<Rightarrow> token \<times> lexer" where
  "get_str_loop pf Closing lx st =
     (case str_round pf Closing lx st of
        Inl r \<Rightarrow> r
      | Inr (lx', st') \<Rightarrow> get_str_loop pf Closing lx' st')"
  by auto

termination
  by (relation "measures [\<lambda>(pf, Closing, lx, st). progress_measure lx, \<lambda>(pf, Closing, lx, st). nexpect st]")
     (auto dest: str_round_progress)

declare get_str_loop.simps [simp del]

definition get_str_tok :: "platform \<Rightarrow> int \<Rightarrow> lexer \<Rightarrow> token \<times> lexer" where
  "get_str_tok pf Closing lx = get_str_loop pf Closing lx \<lparr>StrLit = [], sum = 0, nexpect = 0\<rparr>"

section \<open>The next token\<close>

text \<open>
  A return of \<open>gettok\<close>, a jump to another place of it, or the use of an end pointer that no
  statement has set.
\<close>

datatype step = Return token lexer | Again lexer | Undefined

definition set_ident :: "string \<Rightarrow> lexer \<Rightarrow> lexer" where
  "set_ident s lx = lx\<lparr>IdentifierStr := s\<rparr>"

definition return_tok :: "string \<Rightarrow> string \<Rightarrow> lexer \<Rightarrow> step" where
  "return_tok n s lx = Return (Token_int (tok n)) (set_ident s lx)"

text \<open>The operator that is not written, for two values next to each other; nothing is read.\<close>

definition invisible :: "bool \<Rightarrow> lexer \<Rightarrow> step" where
  "invisible have_preceding_space = return_tok (if have_preceding_space then ''invisible'' else ''invisible_strong'') ''''"

definition skip_blanks :: "platform \<Rightarrow> (char \<Rightarrow> bool) \<Rightarrow> lexer \<Rightarrow> lexer" where
  "skip_blanks pf P lx = snd (advance_while pf (in_class P) lx [])"

text \<open>An identifier or a keyword; where an operator is expected the identifier is kept for the next call.\<close>

definition ident_char :: "char \<Rightarrow> bool" where
  "ident_char c \<longleftrightarrow> is_alnum c \<or> c = CHR ''_''"

definition identifier_token :: "platform \<Rightarrow> eXpect \<Rightarrow> bool \<Rightarrow> lexer \<Rightarrow> step" where
  "identifier_token pf expect have_preceding_space lx =
     (let (word, lx) = advance_while pf (in_class ident_char) (advance pf lx) [to_char (CurChar lx)];
          lx = set_ident word lx
      in
      case map_of keyword_toks word of
        Some t \<Rightarrow> Return (Token_int t)
          (if t = tok ''repeat'' then lx\<lparr>prompt_indent := prompt_indent lx + 1\<rparr> else lx)
      | None \<Rightarrow>
          (if expect = eBinOp then invisible have_preceding_space (lx\<lparr>KeepIdentifierStr := word\<rparr>)
           else Return (Token_int (tok ''identifier'')) lx))"

definition count_braces :: "lexer \<Rightarrow> lexer" where
  "count_braces lx =
     (if CurChar lx = ch CHR ''{''
      then lx\<lparr>brace_balance := brace_balance lx + 1, prompt_indent := prompt_indent lx + 1\<rparr>
      else if CurChar lx = ch CHR ''}'' then lx\<lparr>brace_balance := brace_balance lx - 1\<rparr>
      else lx)"

definition end_line :: "lexer \<Rightarrow> lexer" where
  "end_line lx = lx\<lparr>prompt_indent := (if brace_balance lx < 0 then prompt_indent lx + brace_balance lx
     else prompt_indent lx), brace_balance := 0\<rparr>"

text \<open>An operator that is another one when an equals sign follows.\<close>

definition with_equals :: "platform \<Rightarrow> char \<Rightarrow> string \<Rightarrow> string \<Rightarrow> lexer \<Rightarrow> step" where
  "with_equals pf c longer shorter lx =
     (let lx = advance pf lx in
      if CurChar lx = ch CHR ''='' then return_tok longer [c, CHR ''=''] (advance pf lx)
      else return_tok shorter [c] lx)"

definition single_op :: "char \<Rightarrow> string" where
  "single_op c0 =
     (if c0 \<in> set ''><'' then ''cmp'' else if c0 = CHR ''|'' then ''bitor'' else if c0 = CHR ''&'' then ''bitand''
      else if c0 \<in> set ''+-'' then ''add'' else if c0 \<in> set ''*/%'' then ''mult'' else ''pow'')"

definition doubled_op :: "char \<Rightarrow> char \<Rightarrow> string" where
  "doubled_op c0 c1 =
     (if c0 = CHR ''>'' \<and> c1 = CHR ''<'' then ''xor'' else if c0 \<in> set ''><'' then ''mult''
      else if c0 \<in> set ''+-'' then ''postfix'' else if c0 = CHR ''&'' then ''and'' else ''or'')"

text \<open>The operators that can be doubled or followed by an equals sign.\<close>

definition arith_op :: "platform \<Rightarrow> char \<Rightarrow> lexer \<Rightarrow> step" where
  "arith_op pf c0 lx =
     (let lx = advance pf lx; c1 = to_char (CurChar lx);
          doubled = (c0 \<in> set ''><&|+-'' \<and> (CurChar lx = ch c0 \<or> c0 = CHR ''>'' \<and> CurChar lx = ch CHR ''<''));
          op = (if doubled then [c0, c1] else [c0]);
          lx = (if doubled then advance pf lx else lx)
      in
      if doubled \<and> c0 \<in> set ''+-'' then return_tok ''postfix'' op lx
      else if CurChar lx = ch CHR ''='' then
        return_tok (if \<not> doubled \<and> c0 \<in> set ''><'' then ''cmp'' else ''assign'') (op @ [CHR ''='']) (advance pf lx)
      else if doubled then return_tok (doubled_op c0 c1) op lx
      else return_tok (single_op c0) op lx)"

text \<open>
  The cases of the \<open>switch\<close> for operators but for the newline: \<open>Again\<close> leaves the \<open>switch\<close>.
\<close>

definition binop_switch :: "platform \<Rightarrow> int \<Rightarrow> bool \<Rightarrow> lexer \<Rightarrow> step" where
  "binop_switch pf terminator have_preceding_space lx =
     (let c = CurChar lx in
      if c = ch CHR 0x22 then
        (if terminator = ch CHR ''}'' then return_tok ''comma'' '','' lx else invisible have_preceding_space lx)
      else if c = ch CHR '':'' then with_equals pf CHR '':'' ''assign'' ''colon'' lx
      else if c = ch CHR ''?'' then with_equals pf CHR ''?'' ''assign'' ''ternary'' lx
      else if c = ch CHR '','' then return_tok ''comma'' '','' (advance pf lx)
      else if c = ch CHR ''='' then with_equals pf CHR ''='' ''cmp'' ''assign'' lx
      else if c = ch CHR ''!'' then with_equals pf CHR ''!'' ''cmp'' ''error'' lx
      else if c = ch CHR ''~'' then
        (let lx = advance pf lx in
         if CurChar lx = ch CHR ''i'' \<and> peek2_strict pf lx = (CHR ''n'', True)
         then return_tok ''reverse_in'' ''~in'' (advance pf (advance pf lx))
         else return_tok ''error'' ''~'' lx)
      else if in_class (\<lambda>c. c \<in> set ''+-&><|*/%^'') c then
        (if c \<in> ch ` set ''+-&'' \<and> have_preceding_space \<and> ident_char (fst (peek2_strict pf lx))
         then return_tok ''invisible'' '''' lx
         else arith_op pf (to_char c) lx)
      else if c = ch CHR ''('' \<or> c = ch CHR ''['' \<and> \<not> have_preceding_space
      then return_tok ''selector'' [to_char c] lx
      else Again lx)"

text \<open>
  At a newline the expression ends unless a terminator is expected: then the newline stands for a
  comma, and only the end of the list or an operator is looked at in the next line.
\<close>

definition binop_token :: "platform \<Rightarrow> int \<Rightarrow> bool \<Rightarrow> lexer \<Rightarrow> step" where
  "binop_token pf terminator have_preceding_space lx =
     (if CurChar lx = 10 then
        (let lx = end_line lx in
         if terminator = 0 then Return (TokKind (ch CHR '';'')) (set_ident [CHR 0x0A] lx)
         else
           (let lx = skip_blanks pf isspace (advance pf lx); c = CurChar lx in
            if in_class (\<lambda>c. ident_char c \<or> c \<in> set ''({['') c then return_tok ''comma'' '','' lx
            else if c = terminator then
              Return (Token_int terminator)
                (advance pf (set_ident [to_char c]
                  (if c = ch CHR ''}'' then lx\<lparr>brace_balance := brace_balance lx - 1\<rparr> else lx)))
            else binop_switch pf terminator have_preceding_space lx))
      else binop_switch pf terminator have_preceding_space lx)"

text \<open>Numbers; two of the signs are looked at in the line itself.\<close>

definition starts_number :: "lexer \<Rightarrow> bool" where
  "starts_number lx =
     (let c = CurChar lx; d = chr_at (line lx) (Loc_Col lx); e = chr_at (line lx) (Loc_Col lx + 1) in
      in_class is_digit c \<or> c = ch CHR ''.'' \<and> is_digit d \<or>
      (c = ch CHR ''+'' \<or> c = ch CHR ''-'') \<and> (is_digit d \<or> d = CHR ''.'' \<and> is_digit e))"

definition read_literal :: "platform \<Rightarrow> lexer \<Rightarrow> step" where
  "read_literal pf lx =
     (let (t, n_ptr) = number_token pf (line lx) (CurLoc_Col lx - 1) in
      case n_ptr of
        None \<Rightarrow> Undefined
      | Some n \<Rightarrow>
          Return (case t of NumLit ty v any \<Rightarrow> TokNumber ty v any | NumError \<Rightarrow> TokKind (tok ''error''))
            (advance pf (lx\<lparr>Loc_Col := n\<rparr>)))"

text \<open>One dot, two or three.\<close>

definition dots :: "platform \<Rightarrow> eXpect \<Rightarrow> lexer \<Rightarrow> step" where
  "dots pf expect lx =
     (let lx1 = advance pf lx; lx2 = advance pf lx1 in
      if CurChar lx1 = ch CHR ''.'' \<and> expect \<noteq> ePath then
        (if CurChar lx2 = ch CHR ''.'' then return_tok ''ellipsis'' ''...'' (advance pf lx2)
         else return_tok ''range'' ''..'' lx2)
      else return_tok ''selector'' ''.'' lx1)"

definition skip_comment :: "platform \<Rightarrow> lexer \<Rightarrow> lexer" where
  "skip_comment pf lx = snd (advance_while pf (\<lambda>c. c \<noteq> 10) (advance pf lx) [])"

text \<open>All other tokens; \<open>Again\<close> is the jump back to \<open>startanalysis\<close> after a comment.\<close>

definition other_token :: "platform \<Rightarrow> eXpect \<Rightarrow> lexer \<Rightarrow> step" where
  "other_token pf expect lx =
     (let c = CurChar lx; ident = [to_char c] in
      if c = 10 \<and> expect = eComma then Return (TokKind (ch CHR '','')) (set_ident ident (end_line lx))
      else if c = 10 \<and> (expect = eSemi \<or> expect = ePath)
      then Return (TokKind (ch CHR '';'')) (set_ident ident (end_line lx))
      else if c = 10 \<or> c = ch CHR ''*'' then
        (let lx = (if c = 10 then set_ident ident (end_line lx) else lx) in
         if expect = ePath then return_tok ''star'' ident (advance pf lx)
         else Return (Token_int (tok ''error'')) (advance pf lx))
      else if c = ch CHR 0x27 \<or> c = ch CHR 0x22 then
        (let (t, lx) = get_str_tok pf c (advance pf lx) in Return t lx)
      else if c = ch CHR ''#'' \<and> CurChar (skip_comment pf lx) \<noteq> EOF_char then Again (skip_comment pf lx)
      else if c = ch CHR ''#'' then Return (Token_int (tok ''eof'')) (skip_comment pf lx)
      else if c = EOF_char then Return (Token_int (tok ''eof'')) lx
      else if c = ch CHR ''&'' then return_tok ''ref'' ident (advance pf lx)
      else if c = ch CHR ''?'' then return_tok ''optional'' ident (advance pf lx)
      else if c \<in> ch ` set ''+-!~'' then return_tok ''unary'' ident (advance pf lx)
      else if c = ch CHR ''.'' then dots pf expect lx
      else Return (Token_int c) (advance pf lx))"

text \<open>From \<open>startanalysis\<close> to the end of \<open>gettok\<close>.\<close>

definition operand_token :: "platform \<Rightarrow> eXpect \<Rightarrow> bool \<Rightarrow> lexer \<Rightarrow> step" where
  "operand_token pf expect have_preceding_space lx =
     (if starts_number lx then
        (if expect = eBinOp then invisible have_preceding_space lx else read_literal pf lx)
      else other_token pf expect lx)"

definition analysis :: "platform \<Rightarrow> eXpect \<Rightarrow> int \<Rightarrow> lexer \<Rightarrow> step" where
  "analysis pf expect terminator lx0 =
     (let skipped = (if expect = eNone then isspace else isblank);
          have_preceding_space = in_class skipped (CurChar lx0);
          lx1 = skip_blanks pf skipped lx0;
          lx2 = lx1\<lparr>CurLoc_Line := Loc_Line lx1, CurLoc_Col := Loc_Col lx1\<rparr>
      in
      if in_class (\<lambda>c. isalpha c \<or> c = CHR ''_'') (CurChar lx2)
      then identifier_token pf expect have_preceding_space lx2
      else if expect = eBinOp then
        (case binop_token pf terminator have_preceding_space (count_braces lx2) of
           Again lx \<Rightarrow> operand_token pf expect have_preceding_space lx
         | s \<Rightarrow> s)
      else operand_token pf expect have_preceding_space (count_braces lx2))"

text \<open>Every jump back makes progress, so \<open>gettok\<close> always returns.\<close>

lemma advance_while_measure:
  "progress_measure (snd (advance_while pf P lx acc)) \<le> progress_measure lx"
proof (induction pf P lx acc rule: advance_while.induct)
  case (1 pf P lx acc)
  then show ?case
    using advance_measure[of lx pf] by (subst advance_while.simps) (auto intro: order.trans less_imp_le)
qed

lemma skip_comment_measure:
  "CurChar lx \<noteq> EOF_char \<Longrightarrow> progress_measure (skip_comment pf lx) < progress_measure lx"
  unfolding skip_comment_def using advance_measure advance_while_measure by (meson le_less_trans)

lemma skip_blanks_measure: "progress_measure (skip_blanks pf P lx) \<le> progress_measure lx"
  by (simp add: skip_blanks_def advance_while_measure)

lemma update_measure:
  "progress_measure (lx\<lparr>IdentifierStr := a\<rparr>) = progress_measure lx"
  "progress_measure (lx\<lparr>CurLoc_Line := k, CurLoc_Col := l\<rparr>) = progress_measure lx"
  "progress_measure (lx\<lparr>brace_balance := b\<rparr>) = progress_measure lx"
  "progress_measure (lx\<lparr>prompt_indent := i\<rparr>) = progress_measure lx"
  "progress_measure (lx\<lparr>brace_balance := b, prompt_indent := i\<rparr>) = progress_measure lx"
  "progress_measure (end_line lx) = progress_measure lx"
  "progress_measure (count_braces lx) = progress_measure lx"
  by (simp_all add: progress_measure_def remaining_def end_line_def count_braces_def)

lemma other_token_again:
  "other_token pf expect lx = Again lx' \<Longrightarrow> progress_measure lx' < progress_measure lx"
  using skip_comment_measure[of lx pf]
  by (auto simp: other_token_def Let_def return_tok_def dots_def ch_def EOF_char_def split: if_splits prod.splits)

lemma binop_switch_again:
  "binop_switch pf terminator sp lx = Again lx' \<Longrightarrow> lx' = lx"
  by (auto simp: binop_switch_def Let_def return_tok_def invisible_def with_equals_def arith_op_def
    split: if_splits)

lemma binop_token_again:
  assumes "binop_token pf terminator sp lx = Again lx'"
  shows "progress_measure lx' \<le> progress_measure lx"
proof (cases "CurChar lx = 10")
  case True
  then have "lx' = skip_blanks pf isspace (advance pf (end_line lx))"
    using assms by (auto simp: binop_token_def Let_def return_tok_def split: if_splits dest: binop_switch_again)
  then show ?thesis
    using skip_blanks_measure advance_measure_le update_measure(6) by (metis order.trans)
next
  case False
  then show ?thesis using assms by (auto simp: binop_token_def dest: binop_switch_again)
qed

lemma operand_token_again:
  "operand_token pf expect sp lx = Again lx' \<Longrightarrow> progress_measure lx' < progress_measure lx"
  by (auto simp: operand_token_def invisible_def return_tok_def read_literal_def Let_def
    split: if_splits prod.splits option.splits dest: other_token_again)

lemma identifier_token_again: "identifier_token pf expect sp lx \<noteq> Again lx'"
  by (simp add: identifier_token_def Let_def invisible_def return_tok_def split: prod.splits option.splits)

lemma analysis_again:
  assumes "analysis pf expect terminator lx = Again lx'"
  shows "progress_measure lx' < progress_measure lx"
proof -
  let ?skipped = "if expect = eNone then isspace else isblank"
  let ?lx1 = "skip_blanks pf ?skipped lx"
  let ?lx2 = "count_braces (?lx1\<lparr>CurLoc_Line := Loc_Line ?lx1, CurLoc_Col := Loc_Col ?lx1\<rparr>)"
  have "progress_measure ?lx2 \<le> progress_measure lx"
    using skip_blanks_measure[of pf ?skipped lx] by (simp add: update_measure)
  moreover have "progress_measure lx' < progress_measure ?lx2"
    using assms identifier_token_again operand_token_again[of pf expect _ _ lx'] binop_token_again
    by (fastforce simp: analysis_def Let_def split: if_splits step.splits)
  ultimately show ?thesis by simp
qed

function gettok_loop :: "platform \<Rightarrow> eXpect \<Rightarrow> int \<Rightarrow> lexer \<Rightarrow> (token \<times> lexer) option" where
  "gettok_loop pf expect terminator lx =
     (case analysis pf expect terminator lx of
        Return t lx' \<Rightarrow> Some (t, lx')
      | Again lx' \<Rightarrow> gettok_loop pf expect terminator lx'
      | Undefined \<Rightarrow> None)"
  by auto

termination
  by (relation "measure (\<lambda>(pf, expect, terminator, lx). progress_measure lx)") (auto dest: analysis_again)

declare gettok_loop.simps [simp del]

definition gettok :: "platform \<Rightarrow> eXpect \<Rightarrow> int \<Rightarrow> lexer \<Rightarrow> (token \<times> lexer) option" where
  "gettok pf expect terminator lx =
     (let lx = lx\<lparr>Expected := expect\<rparr> in
      if KeepIdentifierStr lx \<noteq> ''''
      then Some (Token_int (tok ''identifier''), lx\<lparr>IdentifierStr := KeepIdentifierStr lx, KeepIdentifierStr := ''''\<rparr>)
      else gettok_loop pf expect terminator lx)"

section \<open>Reading a literal\<close>

text \<open>
  The lexer stands in a line: \<open>pre\<close> is behind it, and the first character of \<open>rest\<close> is the current
  one. The end of the line reads as a newline, and so does NUL.
\<close>

definition cur_char :: "platform \<Rightarrow> string \<Rightarrow> int" where
  "cur_char pf rest = (let c = char_value pf (chr_at rest 0) in if c = 0 then 10 else c)"

definition reading :: "platform \<Rightarrow> lexer \<Rightarrow> string \<Rightarrow> string \<Rightarrow> bool" where
  "reading pf lx pre rest \<longleftrightarrow>
     linebuf lx = Some (pre @ rest) \<and> linelen lx = int (length (pre @ rest)) \<and>
     Loc_Col lx = length pre + 1 \<and> CurChar lx = cur_char pf rest"

lemma reading_advance:
  "reading pf lx pre (c # rest) \<Longrightarrow> reading pf (advance pf lx) (pre @ [c]) rest"
  by (auto simp: reading_def advance_def Let_def line_def cur_char_def chr_at_def nth_append)

lemma advance_frame:
  "reading pf lx pre (c # rest) \<Longrightarrow> lines (advance pf lx) = lines lx"
  by (auto simp: reading_def advance_def Let_def)

lemma code_less [simp]: "code c < 256" by (simp add: code_def)

lemma code_inject: "code c = code d \<longleftrightarrow> c = d"
  by (simp add: code_def of_char_eq_iff)

lemma code_pos: "c \<noteq> CHR 0x00 \<Longrightarrow> 0 < code c"
  using code_inject[of c "CHR 0x00"] by (simp add: code_def)

lemma char_value_nonzero: "c \<noteq> CHR 0x00 \<Longrightarrow> char_value pf c \<noteq> 0"
  using code_pos[of c] less_imp_neq[OF code_less[of c]] by (simp add: char_value_def)

lemma cur_value: "reading pf lx pre (c # rest) \<Longrightarrow> c \<noteq> CHR 0x00 \<Longrightarrow> CurChar lx = char_value pf c"
  using char_value_nonzero[of c pf] by (simp add: reading_def cur_char_def chr_at_def Let_def)

lemma ascii_char:
  "reading pf lx pre (c # rest) \<Longrightarrow> c \<noteq> CHR 0x00 \<Longrightarrow> code c < 128 \<Longrightarrow> CurChar lx = int (code c)"
  by (simp add: cur_value char_value_def)

text \<open>A platform whose characters are signed, and the lexer at the start of a file of one line.\<close>

definition plain_platform :: platform where
  "plain_platform = \<lparr>round_double = (\<lambda>x. x), out_of_range = (\<lambda>x. False), char_min = -128,
     char_max = 127, target_bits = 64\<rparr>"

definition new_lexer :: "string list \<Rightarrow> lexer" where
  "new_lexer ls = \<lparr>lines = ls, linebuf = None, linelen = 0, Loc_Line = 0, Loc_Col = 0, CurLoc_Line = 0,
     CurLoc_Col = 0, CurChar = 32, IdentifierStr = '''', KeepIdentifierStr = '''', brace_balance = 0,
     prompt_indent = 0, Expected = eNone\<rparr>"

definition first_line :: "string \<Rightarrow> lexer" where
  "first_line l = advance plain_platform (new_lexer [l])"

lemma reading_first_line:
  "l = [] \<or> code (last l) \<noteq> 10 \<Longrightarrow> reading plain_platform (first_line l) [] l"
  by (auto simp: reading_def first_line_def new_lexer_def advance_def Let_def trim_newline_def cur_char_def line_def)

lemma first_line_frame [simp]: "KeepIdentifierStr (first_line l) = []" "lines (first_line l) = []"
  by (simp_all add: first_line_def new_lexer_def advance_def Let_def)

text \<open>A text as the contents of a string literal.\<close>

definition escape_char :: "char \<Rightarrow> string" where
  "escape_char c =
     (case map_of (map (\<lambda>(a, b). (b, a)) escape_codes) (code c) of
        Some a \<Rightarrow> [CHR 0x5C, a]
      | None \<Rightarrow> (if c = CHR 0x22 then [CHR 0x5C, c] else [c]))"

definition escape :: "string \<Rightarrow> string" where
  "escape s = concat (map escape_char s)"

lemma to_char_value: "to_char (char_value pf c) = c"
proof -
  have "code c < 256" by (rule code_less)
  then show ?thesis by (auto simp: to_char_def char_value_def code_def mod_diff_eq nat_mod_distrib
      simp flip: zmod_int)
qed

lemma to_char_code: "to_char (int (code c)) = c"
  by (simp add: to_char_def code_def flip: zmod_int)

lemma to_char_literals:
  "to_char 92 = CHR 0x5C" "to_char 36 = CHR ''$''" "to_char 34 = CHR 0x22" "to_char (-1) = CHR 0xFF"
  by code_simp+

lemma str_round_plain:
  assumes "reading pf lx pre (c # rest)" and "nexpect st = 0"
    and "c \<noteq> CHR 0x00" "c \<noteq> CHR 0x5C" "c \<noteq> CHR ''$''" "c \<noteq> CHR 0x22" "c \<noteq> CHR 0xFF"
  shows "str_round pf 34 lx st = Inr (advance pf lx, append_char (int (code c)) st)"
proof -
  have v: "CurChar lx = char_value pf c"
    by (rule cur_value[OF assms(1,3)])
  have "char_value pf c \<noteq> 92" "char_value pf c \<noteq> 36" "char_value pf c \<noteq> 34" "char_value pf c \<noteq> -1"
    using to_char_value[of pf c] assms(4-7) to_char_literals by metis+
  then show ?thesis
    using assms(2) by (auto simp: str_round_def str_switch_def Let_def v ch_def EOF_char_def code_def
        append_char_def to_char_value to_char_code[unfolded code_def])
qed

lemma str_round_escape:
  assumes "reading pf lx pre (CHR 0x5C # a # rest)" and "nexpect st = 0"
    and "a \<noteq> CHR 0x00" "code a < 128" "\<not> octal_digit (ch a)"
  shows "str_round pf 34 lx st = Inr (advance pf (advance pf lx),
    append_char (case map_of escape_codes a of Some b \<Rightarrow> int b | None \<Rightarrow> ch a) st)"
proof -
  have "CurChar lx = 92" using ascii_char[OF assms(1)] by (simp add: code_def)
  moreover have "CurChar (advance pf lx) = ch a"
    using ascii_char[OF reading_advance[OF assms(1)]] assms(3,4) by (simp add: ch_def)
  moreover have "map_of (map (\<lambda>(a, b). (ch a, b)) escape_codes) (ch a) = map_of escape_codes a"
    by (simp add: escape_codes_def ch_def code_inject)
  ultimately show ?thesis
    using assms(2,5) by (simp add: str_round_def str_switch_def Let_def split: option.splits)
qed

lemma reading_frame [simp]:
  "reading pf (lx\<lparr>Expected := e\<rparr>) pre rest = reading pf lx pre rest"
  "reading pf (lx\<lparr>CurLoc_Line := k, CurLoc_Col := l\<rparr>) pre rest = reading pf lx pre rest"
  by (simp_all add: reading_def)

text \<open>Every character of the text is read back by one round of the loop.\<close>

lemma str_round_char:
  assumes "reading pf lx pre (escape_char c @ rest)" and "nexpect st = 0"
    and "c \<noteq> CHR 0x00" "c \<noteq> CHR 0xFF"
  shows "\<exists>lx'. str_round pf 34 lx st = Inr (lx', append_char (int (code c)) st) \<and>
    reading pf lx' (pre @ escape_char c) rest \<and> lines lx' = lines lx"
proof (cases "map_of (map (\<lambda>(a, b). (b, a)) escape_codes) (code c)")
  case None
  then have e: "c \<noteq> CHR 0x5C" "c \<noteq> CHR ''$''"
    by (auto simp: escape_codes_def code_def split: if_splits)
  show ?thesis
  proof (cases "c = CHR 0x22")
    case True
    then have r: "reading pf lx pre (CHR 0x5C # CHR 0x22 # rest)"
      using assms(1) None by (simp add: escape_char_def)
    have "map_of escape_codes CHR 0x22 = None" "code CHR 0x22 = 34"
      by (simp_all add: escape_codes_def code_def)
    then show ?thesis
      using str_round_escape[OF r assms(2)] reading_advance[OF reading_advance[OF r]]
        advance_frame[OF r] advance_frame[OF reading_advance[OF r]] True None
      by (simp add: octal_digit_def ch_def code_def escape_char_def)
  next
    case False
    then have r: "reading pf lx pre (c # rest)" using assms(1) None by (simp add: escape_char_def)
    show ?thesis
      using str_round_plain[OF r assms(2,3) e False assms(4)] reading_advance[OF r] advance_frame[OF r] None False
      by (simp add: escape_char_def)
  qed
next
  case (Some a)
  then have r: "reading pf lx pre (CHR 0x5C # a # rest)" using assms(1) by (simp add: escape_char_def)
  have "(a, code c) \<in> set escape_codes" using map_of_SomeD[OF Some] by auto
  then have "map_of escape_codes a = Some (code c)" "a \<noteq> CHR 0x00" "code a < 128" "\<not> octal_digit (ch a)"
    by (auto simp: escape_codes_def octal_digit_def ch_def code_def)
  then show ?thesis
    using str_round_escape[OF r assms(2)] reading_advance[OF reading_advance[OF r]]
      advance_frame[OF r] advance_frame[OF reading_advance[OF r]] Some
    by (simp add: escape_char_def)
qed

lemma get_str_loop_step:
  "str_round pf q lx st = Inr (lx', st') \<Longrightarrow> get_str_loop pf q lx st = get_str_loop pf q lx' st'"
  by (subst get_str_loop.simps) simp

lemma get_str_loop_cong:
  "str_round pf q lx st = str_round pf q lx' st' \<Longrightarrow> get_str_loop pf q lx st = get_str_loop pf q lx' st'"
  by (subst (1 2) get_str_loop.simps) simp

lemma get_str_loop_escape:
  assumes "reading pf lx pre (escape s @ rest)" and "nexpect st = 0"
    and "CHR 0x00 \<notin> set s" "CHR 0xFF \<notin> set s"
  shows "\<exists>lx' st'. get_str_loop pf 34 lx st = get_str_loop pf 34 lx' st' \<and> reading pf lx' (pre @ escape s) rest \<and>
    lines lx' = lines lx \<and> StrLit st' = StrLit st @ s \<and> nexpect st' = 0"
  using assms
proof (induction s arbitrary: lx pre st)
  case Nil
  then show ?case by (auto simp: escape_def)
next
  case (Cons c s)
  have r: "reading pf lx pre (escape_char c @ escape s @ rest)"
    using Cons.prems(1) by (simp add: escape_def)
  obtain lx1 where 1: "str_round pf 34 lx st = Inr (lx1, append_char (int (code c)) st)"
      "reading pf lx1 (pre @ escape_char c) (escape s @ rest)" "lines lx1 = lines lx"
    using str_round_char[OF r Cons.prems(2)] Cons.prems(3,4) by auto
  have n: "nexpect (append_char (int (code c)) st) = 0" "StrLit (append_char (int (code c)) st) = StrLit st @ [c]"
    using Cons.prems(2) by (simp_all add: append_char_def to_char_code)
  then show ?case
    using Cons.IH[OF 1(2) n(1)] Cons.prems(3,4) 1(3) get_str_loop_step[OF 1(1)]
    by (simp add: escape_def)
qed

lemma get_str_loop_close:
  assumes r: "reading pf lx pre (CHR 0x22 # rest)" and "nexpect st = 0"
  shows "get_str_loop pf 34 lx st = (TokString (StrLit st), advance pf lx)"
proof -
  have "CurChar lx = 34" using ascii_char[OF r] by (simp add: code_def)
  then show ?thesis
    using assms(2) to_char_literals(3)
    by (subst get_str_loop.simps)
       (simp add: str_round_def str_switch_def Let_def ch_def code_def EOF_char_def Token_string_def)
qed

text \<open>At the end of the last line.\<close>

lemma get_str_loop_end:
  assumes "reading pf lx pre []" and "lines lx = []" and "nexpect st = 0"
  shows "fst (get_str_loop pf 34 lx st) = Token_int EOF_char"
proof -
  have c: "CurChar lx = 10" using assms(1) by (simp add: reading_def cur_char_def char_value_def chr_at_def code_def)
  then have "str_round pf 34 lx st = Inr (advance pf lx, append_char 10 st)"
    using assms(3) by (simp add: str_round_def str_switch_def Let_def ch_def code_def EOF_char_def)
  moreover have "CurChar (advance pf lx) = EOF_char"
    using assms(1,2) by (simp add: advance_def reading_def Let_def)
  moreover have "nexpect (append_char 10 st) = 0" using assms(3) by (simp add: append_char_def)
  ultimately show ?thesis
    by (simp add: get_str_loop_step) (simp add: get_str_loop.simps str_round_def str_switch_def Let_def EOF_char_def)
qed

text \<open>A quote at the current position starts a string.\<close>

lemma gettok_quote:
  assumes "reading pf lx pre (CHR 0x22 # rest)" and "KeepIdentifierStr lx = ''''" and "expect \<noteq> eBinOp"
  shows "\<exists>lx1. gettok pf expect terminator lx = Some (get_str_tok pf 34 lx1) \<and>
    reading pf lx1 (pre @ [CHR 0x22]) rest \<and> lines lx1 = lines lx"
proof -
  have c: "CurChar lx = 34" using ascii_char[OF assms(1)] by (simp add: code_def)
  let ?lx = "lx\<lparr>Expected := expect\<rparr>"
  let ?lx2 = "?lx\<lparr>CurLoc_Line := Loc_Line lx, CurLoc_Col := Loc_Col lx\<rparr>"
  have r: "reading pf ?lx2 pre (CHR 0x22 # rest)" using assms(1) by simp
  have q: "char_of (34 :: nat) = CHR 0x22" by code_simp
  have s: "skip_blanks pf (if expect = eNone then isspace else isblank) ?lx = ?lx"
    by (auto simp: skip_blanks_def advance_while.simps c in_class_def isspace_def isblank_def code_def q)
  have "analysis pf expect terminator ?lx =
      (case get_str_tok pf 34 (advance pf ?lx2) of (t, lx) \<Rightarrow> Return t lx)"
    using assms(3)
    by (simp add: analysis_def Let_def s c in_class_def isalpha_def code_def count_braces_def ch_def q
        isspace_def isblank_def
        operand_token_def starts_number_def is_digit_def other_token_def)
  then have "gettok pf expect terminator lx = Some (get_str_tok pf 34 (advance pf ?lx2))"
    using assms(2) by (simp add: gettok_def gettok_loop.simps split: prod.splits)
  then show ?thesis using reading_advance[OF r] advance_frame[OF r] by auto
qed

text \<open>
  C24. Every text without NUL and the byte 0xFF can be written as a string literal, with escape
  sequences for control characters, backslash, dollar and quote: the lexer reads the text back and
  stands behind the closing quote, still in the same line.
\<close>

theorem string_literal_roundtrip:
  assumes "reading pf lx pre (CHR 0x22 # escape s @ CHR 0x22 # rest)"
    and "KeepIdentifierStr lx = ''''" and "expect \<noteq> eBinOp" and "CHR 0x00 \<notin> set s" "CHR 0xFF \<notin> set s"
  shows "\<exists>lx'. gettok pf expect terminator lx = Some (TokString s, lx') \<and>
    reading pf lx' (pre @ CHR 0x22 # escape s @ [CHR 0x22]) rest \<and> lines lx' = lines lx"
proof -
  obtain lx1 where 1: "gettok pf expect terminator lx = Some (get_str_tok pf 34 lx1)" "lines lx1 = lines lx"
    and r: "reading pf lx1 (pre @ [CHR 0x22]) (escape s @ CHR 0x22 # rest)"
    using gettok_quote[OF assms(1-3)] by blast
  obtain lx2 st where 2: "get_str_tok pf 34 lx1 = get_str_loop pf 34 lx2 st" "lines lx2 = lines lx1"
    "StrLit st = s" "nexpect st = 0" and r2: "reading pf lx2 ((pre @ [CHR 0x22]) @ escape s) (CHR 0x22 # rest)"
    using get_str_loop_escape[OF r, of "\<lparr>StrLit = [], sum = 0, nexpect = 0\<rparr>"] assms(4,5)
    by (auto simp: get_str_tok_def)
  show ?thesis
    using 1 2 get_str_loop_close[OF r2] reading_advance[OF r2] advance_frame[OF r2] by simp
qed

theorem string_literal_roundtrip_witness:
  "\<exists>lx'. gettok plain_platform eNone 0 (first_line (CHR 0x22 # escape ''a$b'' @ [CHR 0x22, CHR '';''])) =
      Some (TokString ''a$b'', lx') \<and>
    reading plain_platform lx' (CHR 0x22 # escape ''a$b'' @ [CHR 0x22]) '';'' \<and> lines lx' = []"
  using string_literal_roundtrip[OF reading_first_line, of "''a$b''" "'';''" eNone 0]
  by (simp add: code_def)

section \<open>Octal sequences\<close>

definition octal :: "nat \<Rightarrow> char" where
  "octal n = char_of (48 + n)"

lemma octal_code:
  "n < 8 \<Longrightarrow> code (octal n) = 48 + n"
  by (simp add: octal_def code_def of_char_of)

lemma octal_char:
  assumes "reading pf lx pre (octal n # rest)" and "n < 8"
  shows "CurChar lx = 48 + int n"
  using ascii_char[OF assms(1)] octal_code[OF assms(2)] assms(2) by (force simp: code_def)

lemma octal_plain:
  assumes "n < 8"
  shows "octal n \<noteq> CHR 0x00" "escape_char (octal n) = [octal n]" "octal n \<noteq> CHR 0xFF"
proof -
  have q: "octal n \<noteq> CHR 0x22" using octal_code[OF assms] by (auto simp: code_def)
  show "octal n \<noteq> CHR 0x00" "octal n \<noteq> CHR 0xFF"
    using octal_code[OF assms] assms by (auto simp: code_def)
  show "escape_char (octal n) = [octal n]"
    using assms q by (simp add: escape_char_def octal_code escape_codes_def)
qed

text \<open>The second digit is taken for the third one as well.\<close>

lemma get_str_octal:
  assumes "reading pf lx pre (CHR 0x5C # octal a # octal b # rest)" and "a < 4" "b < 8" and "nexpect st = 0"
  shows "\<exists>st'. get_str_loop pf 34 lx st = get_str_loop pf 34 (advance pf (advance pf (advance pf lx))) st' \<and>
    StrLit st' = StrLit st @ [char_of (64 * a + 9 * b)] \<and> nexpect st' = 0"
proof -
  let ?lx2 = "advance pf (advance pf lx)"
  have 1: "CurChar lx = 92" using ascii_char[OF assms(1)] by (simp add: code_def)
  have 2: "CurChar (advance pf lx) = 48 + int a"
    using octal_char[OF reading_advance[OF assms(1)]] assms(2) by simp
  have 3: "CurChar ?lx2 = 48 + int b"
    using octal_char[OF reading_advance[OF reading_advance[OF assms(1)]] assms(3)] .
  have p: "push_bit 3 a OR b = 8 * a + b" "push_bit 3 (8 * a + b) OR b = 64 * a + 9 * b"
    using or_low_bits[of b 3 a] or_low_bits[of b 3 "8 * a + b"] assms(3)
    by (simp_all add: push_bit_eq_mult ac_simps)
  have o: "octal_digit (48 + int a)" "octal_digit (48 + int b)" "64 * a + 9 * b < 256"
    "to_char (int (64 * a + 9 * b)) = char_of (64 * a + 9 * b)"
    using assms(2,3) by (simp_all add: octal_digit_def ch_def code_def to_char_def flip: zmod_int)
  have m: "map_of (map (\<lambda>(a, b). (ch a, b)) escape_codes) (48 + int a) = None"
    using assms(2) by (simp add: escape_codes_def ch_def code_def)
  let ?st1 = "st\<lparr>sum := a, nexpect := 2\<rparr>" and ?st2 = "st\<lparr>sum := 8 * a + b, nexpect := 1\<rparr>"
  let ?st3 = "append_char (int (64 * a + 9 * b)) (st\<lparr>sum := 64 * a + 9 * b, nexpect := 0\<rparr>)"
  have "str_round pf 34 lx st = Inr (?lx2, ?st1)"
    using assms(4) 1 2 o(1) m by (simp add: str_round_def str_switch_def Let_def ch_def code_def)
  note s1 = get_str_loop_step[OF this]
  have "str_round pf 34 ?lx2 ?st1 = Inr (?lx2, ?st2)"
    using 3 o(2) p(1) by (simp add: str_round_def Let_def ch_def code_def)
  note s2 = get_str_loop_step[OF this]
  have "str_round pf 34 ?lx2 ?st2 = str_round pf 34 (advance pf ?lx2) ?st3"
    using 3 o(2,3) p(2) by (simp add: str_round_def Let_def ch_def code_def append_octal_def append_char_def)
  note s3 = get_str_loop_cong[OF this]
  have "get_str_loop pf 34 lx st = get_str_loop pf 34 (advance pf ?lx2) ?st3"
    using s1 s2 s3 by simp
  then show ?thesis using o(4) by (intro exI[of _ ?st3]) (simp add: append_char_def)
qed

text \<open>A negative character is the code of its token.\<close>

lemma gettok_negative:
  assumes "CurChar lx < EOF_char" and "KeepIdentifierStr lx = ''''" and "expect \<noteq> eBinOp"
  shows "map_option fst (gettok pf expect terminator lx) = Some (Token_int (CurChar lx))"
proof -
  have i: "in_class P (CurChar lx) = False" for P
    using assms(1) by (simp add: in_class_def EOF_char_def)
  have "\<exists>lx'. analysis pf expect terminator (lx\<lparr>Expected := expect\<rparr>) = Return (Token_int (CurChar lx)) lx'"
    using assms by (simp add: analysis_def Let_def i skip_blanks_def advance_while.simps count_braces_def ch_def
        code_def operand_token_def starts_number_def other_token_def EOF_char_def)
  then show ?thesis using assms(2) by (auto simp: gettok_def gettok_loop.simps)
qed

text \<open>
  The sequence of a backslash and three octal digits \<open>abc\<close> denotes the character with the code
  64 a + 9 b, followed by the digit \<open>c\<close>, since the second digit is not skipped after it has been
  read. Two more inputs that are misread: a string literal that is not closed before the end of the
  file is returned as an assignment operator, because -1 is the code of this token as well as the end
  of the file; and a byte above 127 outside of a literal is a negative character, which is the code
  of a keyword.
\<close>

theorem octal_escape_misread:
  assumes "reading pf lx pre (CHR 0x22 # CHR 0x5C # octal a # octal b # octal c # CHR 0x22 # rest)"
    and "a < 4" "b < 8" "c < 8" and "KeepIdentifierStr lx = ''''" and "expect \<noteq> eBinOp"
  shows "map_option fst (gettok pf expect terminator lx) = Some (TokString [char_of (64 * a + 9 * b), octal c]) \<and>
    map_option fst (gettok plain_platform eNone 0 (first_line [CHR 0x22, CHR ''a''])) = Some (TokKind (tok ''assign'')) \<and>
    map_option fst (gettok plain_platform eNone 0 (first_line [CHR 0xC3, CHR 0xA4])) = Some (TokKind (tok ''while''))"
proof (intro conjI)
  obtain lx1 where 1: "gettok pf expect terminator lx = Some (get_str_tok pf 34 lx1)"
    and r: "reading pf lx1 (pre @ [CHR 0x22]) (CHR 0x5C # octal a # octal b # octal c # CHR 0x22 # rest)"
    using gettok_quote[OF assms(1,5,6)] by blast
  obtain st where st: "get_str_tok pf 34 lx1 = get_str_loop pf 34 (advance pf (advance pf (advance pf lx1))) st"
    "StrLit st = [char_of (64 * a + 9 * b)]" "nexpect st = 0"
    using get_str_octal[OF r assms(2,3), of "\<lparr>StrLit = [], sum = 0, nexpect = 0\<rparr>"] by (auto simp: get_str_tok_def)
  have "reading pf (advance pf (advance pf (advance pf lx1))) ((((pre @ [CHR 0x22]) @ [CHR 0x5C]) @ [octal a]) @ [octal b])
      (escape [octal c] @ CHR 0x22 # rest)"
    using reading_advance[OF reading_advance[OF reading_advance[OF r]]] octal_plain(2)[OF assms(4)]
    by (simp add: escape_def)
  from get_str_loop_escape[OF this st(3)] show "map_option fst (gettok pf expect terminator lx) =
      Some (TokString [char_of (64 * a + 9 * b), octal c])"
    using 1 st octal_plain[OF assms(4)] get_str_loop_close by fastforce
next
  have q: "reading plain_platform (first_line [CHR 0x22, CHR ''a'']) [] [CHR 0x22, CHR ''a'']"
    "lines (first_line [CHR 0x22, CHR ''a'']) = []"
    by (rule reading_first_line) (simp_all add: code_def)
  obtain lx1 where 1: "gettok plain_platform eNone 0 (first_line [CHR 0x22, CHR ''a'']) = Some (get_str_tok plain_platform 34 lx1)"
    "lines lx1 = []" and r: "reading plain_platform lx1 ([] @ [CHR 0x22]) (escape ''a'' @ [])"
    using gettok_quote[OF q(1), of eNone 0] q(2) by (auto simp: escape_def escape_char_def escape_codes_def code_def)
  have "fst (get_str_tok plain_platform 34 lx1) = Token_int EOF_char"
    using get_str_loop_escape[OF r, of "\<lparr>StrLit = [], sum = 0, nexpect = 0\<rparr>"] get_str_loop_end 1(2)
    by (fastforce simp: get_str_tok_def)
  moreover have "Token_int EOF_char = TokKind (tok ''assign'')" by code_simp
  ultimately show "map_option fst (gettok plain_platform eNone 0 (first_line [CHR 0x22, CHR ''a''])) = Some (TokKind (tok ''assign''))"
    using 1(1) by simp
  have c: "CurChar (first_line [CHR 0xC3, CHR 0xA4]) = -61"
    by (simp add: first_line_def new_lexer_def advance_def Let_def trim_newline_def line_def chr_at_def
        char_value_def plain_platform_def code_def)
  moreover have "Token_int (-61) = TokKind (tok ''while'')" by code_simp
  ultimately show "map_option fst (gettok plain_platform eNone 0 (first_line [CHR 0xC3, CHR 0xA4])) = Some (TokKind (tok ''while''))"
    using gettok_negative[of "first_line [CHR 0xC3, CHR 0xA4]" eNone plain_platform 0] by (simp add: EOF_char_def)
qed

lemma at_sign: "char_of (64 :: nat) = CHR ''@''"
  by code_simp

theorem octal_escape_misread_witness:
  "map_option fst (gettok plain_platform eNone 0
      (first_line [CHR 0x22, CHR 0x5C, octal 1, octal 0, octal 1, CHR 0x22])) = Some (TokString [CHR ''@'', octal 1])"
  using octal_escape_misread[OF reading_first_line, of 1 0 1 "[]" eNone 0]
  by (simp add: code_def at_sign)

end
