(* ===== verification/Sources.thy ===== *)
theory Sources
  imports Symbols
begin

text \<open>
  The stack of modules that are being read: \<open>push_state\<close>, \<open>pop_state\<close> and \<open>next_input_file\<close> of
  src/lexer.cc. An \<open>import\<close> interrupts the current module; when the last source file of the
  imported module has been read, the importing module goes on.
\<close>

section \<open>State\<close>

datatype input = BuiltinFile | SourceFile string | Stdin

text \<open>
  \<open>SourceLocState\<close>. The module is the key of its entry in \<open>Modules\<close>. What has been read of the
  current line is \<open>linebuf\<close>.
\<close>

record source_state =
  Loc :: SourceLocation
  module_key :: string
  linelen :: int
  linebuf :: "string option"
  input_file :: "input option"
  use_readline :: bool
  as_prefix :: string
  fromlist :: "SourceLocation table"

text \<open>
  The lexer and the global variables it works on; \<open>opened\<close> records the files that have been opened
  and for which module, \<open>errs\<close> the messages of imports.
\<close>

record sources =
  this :: source_state
  source_stack :: "source_state list"
  source_files :: "string list list"
  source_index :: "nat list"
  modulestack :: "string list"
  Modules :: "string \<Rightarrow> Module option"
  builtin_input_file :: "input option"
  visible_locals :: "FullVar table list"
  in_function :: bool
  REPL_Lines :: nat
  opened :: "(string \<times> string) list"
  errs :: "import_message list"

text \<open>
  What is not part of the lexer: the files that a pattern stands for, whether a file can be opened,
  the mode of the compiler, and whether the expressions collected for the main function could be
  compiled.
\<close>

record system =
  glob :: "string \<Rightarrow> string list"
  can_open :: "string \<Rightarrow> bool"
  jit_repl :: bool
  main_processed :: bool

text \<open>\<open>exit\<close> and \<open>abort\<close> end the program.\<close>

datatype 'a run = Done 'a | Exit | Abort

definition new_module :: "string list \<Rightarrow> Module" where
  "new_module path = \<lparr>import_path = path, type_table = [], typeptr_table = (\<lambda>_. None), FunctionProtos = [],
     globals_table = [], ImportedSymbols = (\<lambda>_. None)\<rparr>"

definition module_of :: "sources \<Rightarrow> string \<Rightarrow> Module" where
  "module_of st key = (case Modules st key of Some m \<Rightarrow> m | None \<Rightarrow> new_module [])"

section \<open>Operations\<close>

definition patterntail :: "string list \<Rightarrow> string" where
  "patterntail path = concat (map (\<lambda>d. d @ ''/'') path) @ ''*.vx''"

fun new_mod :: "string list \<Rightarrow> string" where
  "new_mod [] = ''''"
| "new_mod [d] = d"
| "new_mod (d # ds) = d @ ''.'' @ new_mod ds"

text \<open>The call of \<open>import_from_module\<close>: it changes the current and the imported module.\<close>

definition scope_of :: "sources \<Rightarrow> scope" where
  "scope_of st = \<lparr>module = module_of st (module_key (this st)),
     builtin = (case source_stack st of [] \<Rightarrow> None | f # _ \<Rightarrow> Some (module_of st (module_key f))),
     locals_table = visible_locals st, inside_function = in_function st\<rparr>"

definition import_module :: "string \<Rightarrow> SourceLocation \<Rightarrow> sources \<Rightarrow> sources" where
  "import_module key TheLoc st =
     (let (sc, im, msgs) = import_from_module (scope_of st) (module_of st key) (as_prefix (this st))
            (fromlist (this st)) TheLoc
      in st\<lparr>Modules := (Modules st)(module_key (this st) \<mapsto> module sc, key \<mapsto> im), errs := errs st @ msgs\<rparr>)"

definition pop_state :: "system \<Rightarrow> sources \<Rightarrow> sources run" where
  "pop_state sys st =
     (if source_stack st = [] \<or> source_files st = [] \<or> modulestack st = [] then Abort
      else if \<not> main_processed sys then Exit
      else Done (import_module (module_key (this st)) (Loc (last (source_stack st)))
        (st\<lparr>this := last (source_stack st), source_stack := butlast (source_stack st),
            source_files := butlast (source_files st), source_index := butlast (source_index st),
            modulestack := butlast (modulestack st)\<rparr>)))"

definition at_line :: "nat \<Rightarrow> sources \<Rightarrow> sources" where
  "at_line n st = st\<lparr>this := (this st)\<lparr>Loc := (Loc (this st))\<lparr>Line := n, Col := 0\<rparr>\<rparr>\<rparr>"

definition open_file :: "string \<Rightarrow> sources \<Rightarrow> sources" where
  "open_file f st = st\<lparr>source_index := butlast (source_index st) @ [last (source_index st) + 1],
     this := (this st)\<lparr>Loc := (Loc (this st))\<lparr>File := Some f\<rparr>, input_file := Some (SourceFile f)\<rparr>,
     opened := opened st @ [(module_key (this st), f)]\<rparr>"

text \<open>
  \<open>next_input_file\<close> behind the case that the current file is the one of the builtin module. The
  result is whether there is more input.
\<close>

definition next_file :: "system \<Rightarrow> sources \<Rightarrow> (bool \<times> sources) run" where
  "next_file sys st =
     (if last (source_index st) < length (last (source_files st)) then
        (let f = last (source_files st) ! last (source_index st) in
         if \<not> can_open sys f then Exit else Done (True, at_line 0 (open_file f st)))
      else if length (source_stack st) > 1 then
        (case pop_state sys st of Done st' \<Rightarrow> Done (True, st') | Exit \<Rightarrow> Exit | Abort \<Rightarrow> Abort)
      else if (jit_repl sys \<or> last (source_index st) = 0) \<and> input_file (this st) \<noteq> Some Stdin then
        Done (True, at_line (REPL_Lines st)
          (st\<lparr>this := (this st)\<lparr>input_file := Some Stdin, Loc := (Loc (this st))\<lparr>File := Some ''<stdin>''\<rparr>\<rparr>\<rparr>))
      else Done (False, st))"

definition enter_module :: "system \<Rightarrow> string list \<Rightarrow> sources \<Rightarrow> sources" where
  "enter_module sys path st =
     (let key = patterntail path; frame = this st in
      st\<lparr>Modules := (Modules st)(key \<mapsto> new_module path), modulestack := modulestack st @ [new_mod path],
         source_stack := source_stack st @ [frame],
         this := frame\<lparr>module_key := key, linelen := 0, linebuf := None, input_file := None, as_prefix := '''',
           fromlist := [], use_readline := (input_file frame = builtin_input_file st \<and> use_readline frame)\<rparr>,
         source_files := (if path \<noteq> [] then source_files st @ [glob sys key] else source_files st),
         source_index := (if path \<noteq> [] then source_index st @ [0] else source_index st)\<rparr>)"

definition push_state ::
  "system \<Rightarrow> SourceLocation \<Rightarrow> string list \<Rightarrow> string \<Rightarrow> SourceLocation table \<Rightarrow> sources \<Rightarrow> (bool \<times> sources) run" where
  "push_state sys TheLoc path as from st =
     (if \<not> main_processed sys then Exit
      else if new_mod path \<in> set (modulestack st) then Done (False, st)
      else
        (let st = st\<lparr>this := (this st)\<lparr>as_prefix := as, fromlist := from\<rparr>\<rparr> in
         case Modules st (patterntail path) of
           None \<Rightarrow> next_file sys (enter_module sys path st)
         | Some _ \<Rightarrow> Done (True, import_module (patterntail path) TheLoc st)))"

text \<open>After the builtin module the main program is read: the module without a path.\<close>

definition next_input_file :: "system \<Rightarrow> SourceLocation \<Rightarrow> sources \<Rightarrow> (bool \<times> sources) run" where
  "next_input_file sys CurLoc st =
     (if input_file (this st) \<noteq> None \<and> input_file (this st) \<noteq> Some Stdin \<and>
         input_file (this st) = builtin_input_file st
      then push_state sys CurLoc [] '''' []
        (st\<lparr>builtin_input_file := None, this := (this st)\<lparr>linebuf := None\<rparr>\<rparr>)
      else next_file sys st)"

text \<open>\<open>load()\<close> of an interactive session: the file is read next.\<close>

definition builtin_load :: "system \<Rightarrow> SourceLocation \<Rightarrow> string \<Rightarrow> sources \<Rightarrow> (bool \<times> sources) run" where
  "builtin_load sys CurLoc filename st =
     (if last (source_index st) \<noteq> length (last (source_files st)) then Done (False, st)
      else (case next_input_file sys CurLoc
                 (st\<lparr>this := (this st)\<lparr>linelen := 0, linebuf := None, use_readline := False\<rparr>,
                     source_files := butlast (source_files st) @ [last (source_files st) @ [filename]]\<rparr>) of
          Done (b, st') \<Rightarrow> Done (True, st') | Exit \<Rightarrow> Exit | Abort \<Rightarrow> Abort))"

text \<open>The start: the builtin module is read first, \<open>files\<close> are the source files of the command line.\<close>

definition start :: "string list \<Rightarrow> sources" where
  "start files = \<lparr>this = \<lparr>Loc = \<lparr>File = Some ''builtin.vx'', Line = 0, Col = 0\<rparr>, module_key = ''builtin.vx'',
       linelen = 0, linebuf = None, input_file = Some BuiltinFile, use_readline = False, as_prefix = '''', fromlist = []\<rparr>,
     source_stack = [], source_files = [files], source_index = [0], modulestack = [],
     Modules = [''builtin.vx'' \<mapsto> new_module []], builtin_input_file = Some BuiltinFile,
     visible_locals = [], in_function = False, REPL_Lines = 0, opened = [], errs = []\<rparr>"

text \<open>
  A step: a declaration changes the current module and the variables in scope, an import or the end
  of a file changes the stack. The builtin module has no imports, and an imported path is not empty.
\<close>

inductive step :: "system \<Rightarrow> sources \<Rightarrow> sources \<Rightarrow> bool" for sys where
  declare_step: "step sys st (st\<lparr>Modules := (Modules st)(module_key (this st) \<mapsto> m), visible_locals := vs,
     in_function := f, REPL_Lines := n, this := (this st)\<lparr>Loc := l, linelen := k, linebuf := b, use_readline := r\<rparr>\<rparr>)"
| import_step: "builtin_input_file st = None \<Longrightarrow> path \<noteq> [] \<Longrightarrow> push_state sys l path as from st = Done (b, st') \<Longrightarrow>
     step sys st st'"
| end_step: "next_input_file sys l st = Done (b, st') \<Longrightarrow> step sys st st'"

section \<open>The invariant\<close>

text \<open>The source files of a module, those of it that have been read, and the modules being read.\<close>

definition files_of :: "system \<Rightarrow> string list \<Rightarrow> string \<Rightarrow> string list" where
  "files_of sys files k = (if k = ''*.vx'' then files else glob sys k)"

definition read_files :: "sources \<Rightarrow> string \<Rightarrow> string list" where
  "read_files st k = map snd (filter (\<lambda>(k', f). k' = k) (opened st))"

definition open_modules :: "sources \<Rightarrow> string list" where
  "open_modules st = map module_key (tl (source_stack st)) @ [module_key (this st)]"

definition loading :: "system \<Rightarrow> string list \<Rightarrow> sources \<Rightarrow> bool" where
  "loading sys files st \<longleftrightarrow> source_stack st = [] \<and> source_files st = [files] \<and> source_index st = [0] \<and>
     modulestack st = [] \<and> dom (Modules st) = {''builtin.vx''} \<and> module_key (this st) = ''builtin.vx'' \<and>
     input_file (this st) = Some BuiltinFile \<and> builtin_input_file st = Some BuiltinFile \<and> opened st = []"

text \<open>Every open module has read a prefix of its files, every closed one all of them.\<close>

definition read_upto :: "system \<Rightarrow> string list \<Rightarrow> sources \<Rightarrow> string \<Rightarrow> nat \<Rightarrow> bool" where
  "read_upto sys files st k i \<longleftrightarrow> i \<le> length (files_of sys files k) \<and> read_files st k = take i (files_of sys files k)"

definition closed_read :: "system \<Rightarrow> string list \<Rightarrow> sources \<Rightarrow> bool" where
  "closed_read sys files st \<longleftrightarrow> (\<forall>k. k \<notin> set (open_modules st) \<longrightarrow> k \<noteq> ''builtin.vx'' \<longrightarrow>
     read_files st k = (if k \<in> dom (Modules st) then files_of sys files k else []))"

definition running :: "system \<Rightarrow> string list \<Rightarrow> sources \<Rightarrow> bool" where
  "running sys files st \<longleftrightarrow> builtin_input_file st = None \<and> source_stack st \<noteq> [] \<and>
     source_files st = map (files_of sys files) (open_modules st) \<and> hd (open_modules st) = ''*.vx'' \<and>
     length (modulestack st) = length (open_modules st) \<and>
     list_all2 (read_upto sys files st) (open_modules st) (source_index st) \<and>
     distinct (''builtin.vx'' # open_modules st) \<and>
     insert ''builtin.vx'' (insert ''*.vx'' (set (open_modules st))) \<subseteq> dom (Modules st) \<and>
     closed_read sys files st"

lemma import_module_simps [simp]:
  "this (import_module k l st) = this st" "source_stack (import_module k l st) = source_stack st"
  "source_files (import_module k l st) = source_files st" "source_index (import_module k l st) = source_index st"
  "modulestack (import_module k l st) = modulestack st" "opened (import_module k l st) = opened st"
  "builtin_input_file (import_module k l st) = builtin_input_file st"
  "open_modules (import_module k l st) = open_modules st" "read_files (import_module k l st) = read_files st"
  by (simp_all add: import_module_def open_modules_def read_files_def fun_eq_iff split: prod.splits)

lemma import_module_dom [simp]:
  "dom (Modules (import_module k l st)) = insert k (insert (module_key (this st)) (dom (Modules st)))"
  by (simp add: import_module_def split: prod.splits)

text \<open>The invariant does not depend on the rest of the state.\<close>

lemma running_cong:
  assumes "running sys files st"
    and "source_stack st' = source_stack st" "module_key (this st') = module_key (this st)"
    and "source_files st' = source_files st" "source_index st' = source_index st" "modulestack st' = modulestack st"
    and "opened st' = opened st" "builtin_input_file st' = builtin_input_file st" "dom (Modules st') = dom (Modules st)"
  shows "running sys files st'"
proof -
  have "open_modules st' = open_modules st" "read_files st' = read_files st"
    using assms by (simp_all add: open_modules_def read_files_def fun_eq_iff)
  moreover from this have "read_upto sys files st' = read_upto sys files st"
    by (simp add: read_upto_def fun_eq_iff)
  ultimately show ?thesis using assms by (simp add: running_def closed_read_def)
qed

lemma this_open: "module_key (this st) \<in> set (open_modules st)"
  by (simp add: open_modules_def)

lemma running_import:
  assumes "running sys files st" and "k \<in> dom (Modules st)"
  shows "running sys files (import_module k l st)"
proof (rule running_cong[OF assms(1)])
  show "dom (Modules (import_module k l st)) = dom (Modules st)"
    using assms this_open by (auto simp: running_def)
qed simp_all

section \<open>The steps keep the invariant\<close>

text \<open>The innermost module.\<close>

lemma running_last:
  assumes "running sys files st"
  obtains ks js i where "open_modules st = ks @ [module_key (this st)]" "source_index st = js @ [i]"
    "list_all2 (read_upto sys files st) ks js" "read_upto sys files st (module_key (this st)) i"
    "source_files st = map (files_of sys files) ks @ [files_of sys files (module_key (this st))]"
  using assms that by (auto simp: running_def open_modules_def list_all2_append1 list_all2_Cons1)

lemma running_at_line [simp]: "running sys files (at_line n st) = running sys files st"
  by (auto simp: at_line_def elim!: running_cong)

lemma read_files_open:
  "read_files (open_file f st) k = read_files st k @ (if k = module_key (this st) then [f] else [])"
  by (simp add: read_files_def open_file_def)

lemma open_file_simps [simp]:
  "open_modules (open_file f st) = open_modules st" "Modules (open_file f st) = Modules st"
  "source_stack (open_file f st) = source_stack st" "source_files (open_file f st) = source_files st"
  "source_index (open_file f st) = butlast (source_index st) @ [last (source_index st) + 1]"
  "modulestack (open_file f st) = modulestack st" "builtin_input_file (open_file f st) = builtin_input_file st"
  by (simp_all add: open_modules_def open_file_def)

lemma running_open_file:
  assumes "running sys files st" and less: "last (source_index st) < length (last (source_files st))"
  shows "running sys files (open_file (last (source_files st) ! last (source_index st)) st)"
proof -
  obtain ks js i where o: "open_modules st = ks @ [module_key (this st)]" "source_index st = js @ [i]"
    "list_all2 (read_upto sys files st) ks js" "read_upto sys files st (module_key (this st)) i"
    "source_files st = map (files_of sys files) ks @ [files_of sys files (module_key (this st))]"
    using running_last[OF assms(1)] .
  let ?st = "open_file (last (source_files st) ! last (source_index st)) st"
  have d: "module_key (this st) \<notin> set ks" using assms(1) o(1) by (simp add: running_def)
  have "read_upto sys files ?st (module_key (this st)) (Suc i)"
    using o less by (simp add: read_upto_def read_files_open take_Suc_conv_app_nth)
  moreover have "list_all2 (read_upto sys files ?st) ks js"
    using o(3) by (rule list.rel_mono_strong) (use d in \<open>auto simp: read_upto_def read_files_open\<close>)
  moreover have "closed_read sys files ?st"
    using assms(1) this_open by (auto simp: running_def closed_read_def read_files_open)
  ultimately show ?thesis
    using assms(1) o by (simp add: running_def list_all2_appendI)
qed

text \<open>A module is left when all its files have been read.\<close>

lemma running_pop:
  assumes r: "running sys files st" and "length (source_stack st) > 1"
    and full: "\<not> last (source_index st) < length (last (source_files st))" and p: "pop_state sys st = Done st'"
  shows "running sys files st'"
proof -
  obtain ks js i where o: "open_modules st = ks @ [module_key (this st)]" "source_index st = js @ [i]"
    "list_all2 (read_upto sys files st) ks js" "read_upto sys files st (module_key (this st)) i"
    "source_files st = map (files_of sys files) ks @ [files_of sys files (module_key (this st))]"
    using running_last[OF r] .
  obtain b fs f where s: "source_stack st = b # fs @ [f]"
    using assms(2) by (cases "source_stack st") (auto, metis append_butlast_last_id)
  obtain st1 where st1: "st1 = st\<lparr>this := f, source_stack := butlast (source_stack st), source_files := butlast (source_files st),
    source_index := butlast (source_index st), modulestack := butlast (modulestack st)\<rparr>"
    by blast
  have st': "st' = import_module (module_key (this st)) (Loc f) st1"
    using p s st1 by (simp add: pop_state_def split: if_splits)
  have ne: "ks \<noteq> []" using o(1) s by (auto simp: open_modules_def)
  have k: "open_modules st1 = ks" using o(1) s by (simp add: st1 open_modules_def butlast_append)
  have f: "read_files st1 = read_files st" by (simp add: st1 read_files_def fun_eq_iff)
  have m: "Modules st1 = Modules st" "source_stack st1 = b # fs" "source_files st1 = map (files_of sys files) ks"
    "source_index st1 = js" "modulestack st1 = butlast (modulestack st)" "builtin_input_file st1 = builtin_input_file st"
    using o s by (simp_all add: st1 butlast_append)
  have u: "read_upto sys files st1 = read_upto sys files st" by (simp add: read_upto_def f fun_eq_iff)
  have "length (files_of sys files (module_key (this st))) \<le> i" using full o by simp
  then have c: "read_files st (module_key (this st)) = files_of sys files (module_key (this st))"
    using o(4) by (simp add: read_upto_def)
  have d: "module_key (this st) \<in> dom (Modules st)" using r o(1) by (simp add: running_def)
  have "closed_read sys files st1"
    unfolding closed_read_def k f
  proof (intro allI impI)
    fix k assume "k \<notin> set ks" "k \<noteq> ''builtin.vx''"
    then show "read_files st k = (if k \<in> dom (Modules st1) then files_of sys files k else [])"
      using r o(1) c d m(1) by (cases "k = module_key (this st)") (auto simp: running_def closed_read_def)
  qed
  then have "running sys files st1"
    using r o ne by (simp add: running_def k u m)
  moreover have "module_key (this st) \<in> dom (Modules st1)" using d m(1) by simp
  ultimately show ?thesis unfolding st' by (rule running_import)
qed

lemma enter_module_simps [simp]:
  "this (enter_module sys path st) = (this st)\<lparr>module_key := patterntail path, linelen := 0, linebuf := None,
     input_file := None, as_prefix := '''', fromlist := [],
     use_readline := (input_file (this st) = builtin_input_file st \<and> use_readline (this st))\<rparr>"
  "source_stack (enter_module sys path st) = source_stack st @ [this st]"
  "Modules (enter_module sys path st) = (Modules st)(patterntail path \<mapsto> new_module path)"
  "modulestack (enter_module sys path st) = modulestack st @ [new_mod path]"
  "builtin_input_file (enter_module sys path st) = builtin_input_file st"
  "source_files (enter_module sys path st) =
     (if path \<noteq> [] then source_files st @ [glob sys (patterntail path)] else source_files st)"
  "source_index (enter_module sys path st) = (if path \<noteq> [] then source_index st @ [0] else source_index st)"
  "read_files (enter_module sys path st) = read_files st"
  by (simp_all add: enter_module_def Let_def read_files_def fun_eq_iff)

lemma running_enter:
  assumes r: "running sys files st" and "path \<noteq> []" and new: "patterntail path \<notin> dom (Modules st)"
  shows "running sys files (enter_module sys path st)"
proof -
  obtain st1 where st1: "st1 = enter_module sys path st" by blast
  have k: "open_modules st1 = open_modules st @ [patterntail path]"
    using r by (cases "source_stack st") (simp_all add: st1 open_modules_def running_def)
  have old: "patterntail path \<notin> set (open_modules st)" "patterntail path \<noteq> ''*.vx''"
    "patterntail path \<noteq> ''builtin.vx''"
    using r new by (auto simp: running_def)
  have h: "hd (open_modules st1) = hd (open_modules st)"
    unfolding k by (simp add: hd_append open_modules_def)
  have u: "read_upto sys files st1 = read_upto sys files st"
    by (simp add: st1 read_upto_def fun_eq_iff)
  have "read_files st (patterntail path) = []"
    using r new old unfolding running_def closed_read_def by simp
  then have "read_upto sys files st (patterntail path) 0" by (simp add: read_upto_def)
  moreover have "closed_read sys files st1"
    unfolding closed_read_def k
  proof (intro allI impI)
    fix k assume "k \<notin> set (open_modules st @ [patterntail path])" "k \<noteq> ''builtin.vx''"
    then show "read_files st1 k = (if k \<in> dom (Modules st1) then files_of sys files k else [])"
      using r by (simp add: running_def closed_read_def st1 domIff)
  qed
  moreover have "glob sys (patterntail path) = files_of sys files (patterntail path)"
    using old(2) by (simp add: files_of_def)
  ultimately have "running sys files st1"
    using r assms(2) old h by (auto simp: running_def k u intro: list_all2_appendI) (auto simp: st1 intro: list_all2_appendI)
  then show ?thesis by (simp add: st1)
qed

lemma running_next_file:
  assumes "running sys files st" and "next_file sys st = Done (b, st')"
  shows "running sys files st'"
proof -
  consider (more_files) "last (source_index st) < length (last (source_files st))"
    | (leave) "\<not> last (source_index st) < length (last (source_files st))" "length (source_stack st) > 1"
    | (stop) "\<not> last (source_index st) < length (last (source_files st))" "\<not> length (source_stack st) > 1"
    by blast
  then show ?thesis
  proof cases
    case more_files
    then show ?thesis
      using assms running_open_file[OF assms(1)] by (auto simp: next_file_def Let_def split: if_splits)
  next
    case leave
    then show ?thesis
      using assms(2) running_pop[OF assms(1) leave(2,1)]
      by (auto simp: next_file_def split: run.splits)
  next
    case stop
    have "running sys files (st\<lparr>this := (this st)\<lparr>input_file := Some Stdin, Loc := (Loc (this st))\<lparr>File := Some ''<stdin>''\<rparr>\<rparr>\<rparr>)"
      by (rule running_cong[OF assms(1)]) simp_all
    with stop show ?thesis
      using assms by (auto simp: next_file_def split: if_splits)
  qed
qed

lemma running_push:
  assumes r: "running sys files st" and "path \<noteq> []" and p: "push_state sys l path as from st = Done (b, st')"
  shows "running sys files st'"
proof -
  let ?st = "st\<lparr>this := (this st)\<lparr>as_prefix := as, fromlist := from\<rparr>\<rparr>"
  have r1: "running sys files ?st" by (rule running_cong[OF r]) simp_all
  show ?thesis
  proof (cases "Modules st (patterntail path)")
    case None
    then have "running sys files (enter_module sys path ?st)"
      using running_enter[OF r1 assms(2)] by auto
    then show ?thesis
      using p None r running_next_file by (auto simp: push_state_def split: if_splits)
  next
    case (Some m)
    then have "running sys files (import_module (patterntail path) l ?st)"
      using running_import[OF r1] by auto
    then show ?thesis using p Some r by (auto simp: push_state_def split: if_splits)
  qed
qed

lemma running_next_input_file:
  assumes "running sys files st" and "next_input_file sys l st = Done (b, st')"
  shows "running sys files st'"
proof -
  have b: "builtin_input_file st = None" using assms(1) by (simp add: running_def)
  have "next_file sys st = Done (b, st')"
    using assms(2) by (cases "input_file (this st)") (simp_all add: next_input_file_def b)
  then show ?thesis by (rule running_next_file[OF assms(1)])
qed

lemma start_loading: "loading sys files (start files)"
  by (simp add: loading_def start_def)

text \<open>At the end of the builtin module the main program is entered.\<close>

lemma loading_enters:
  assumes l: "loading sys files st" and n: "next_input_file sys loc st = Done (b, st')"
  shows "\<exists>st1. running sys files st1 \<and> next_file sys st1 = Done (b, st') \<and> dom (Modules st) \<subseteq> dom (Modules st1) \<and>
    source_files st1 = [files] \<and> source_index st1 = [0] \<and> length (source_stack st1) = 1"
proof -
  let ?st = "st\<lparr>builtin_input_file := None, this := (this st)\<lparr>linebuf := None, as_prefix := '''', fromlist := []\<rparr>\<rparr>"
  obtain st1 where st1: "st1 = enter_module sys [] ?st" by blast
  have k: "open_modules st1 = [patterntail []]" "patterntail [] = ''*.vx''"
    using l by (simp_all add: st1 open_modules_def loading_def patterntail_def)
  have o: "read_files st1 k = []" for k using l by (simp add: st1 read_files_def loading_def)
  have m: "Modules st1 = (Modules st)(''*.vx'' \<mapsto> new_module [])" "source_stack st1 \<noteq> []" "source_files st1 = [files]"
    "source_index st1 = [0]" "length (modulestack st1) = 1" "builtin_input_file st1 = None"
    using l k(2) by (simp_all add: st1 loading_def)
  have "read_upto sys files st1 ''*.vx'' 0" "closed_read sys files st1"
    using l by (auto simp: read_upto_def closed_read_def o m k loading_def)
  then have "running sys files st1"
    using l by (auto simp: running_def k m loading_def files_of_def)
  moreover have "next_file sys st1 = Done (b, st')"
  proof -
    have i: "input_file (this st) = Some BuiltinFile" "builtin_input_file st = Some BuiltinFile" "modulestack st = []"
      "''*.vx'' \<notin> dom (Modules st)"
      using l by (simp_all add: loading_def)
    have none: "Modules st ''*.vx'' = None" using i(4) by (simp add: domIff)
    have p: "push_state sys loc [] [] [] (st\<lparr>builtin_input_file := None, this := (this st)\<lparr>linebuf := None\<rparr>\<rparr>) = Done (b, st')"
      using n unfolding next_input_file_def i(1,2) by simp
    then have "main_processed sys" by (simp add: push_state_def split: if_splits)
    with p show ?thesis by (simp add: push_state_def i(3) none k(2) st1)
  qed
  moreover have "dom (Modules st) \<subseteq> dom (Modules st1)" "length (source_stack st1) = 1"
    using m(1) l by (auto simp: st1 loading_def)
  ultimately show ?thesis using m(3,4) by blast
qed

lemma loading_next_input_file:
  "loading sys files st \<Longrightarrow> next_input_file sys loc st = Done (b, st') \<Longrightarrow> running sys files st'"
  using loading_enters running_next_file by blast

lemma step_keeps:
  assumes "step sys st st'" and "loading sys files st \<or> running sys files st"
  shows "loading sys files st' \<or> running sys files st'"
  using assms
proof cases
  case (declare_step m vs f n l k b r)
  show ?thesis
  proof (cases "loading sys files st")
    case True
    then show ?thesis by (simp add: declare_step loading_def)
  next
    case False
    then have "running sys files st" using assms(2) by blast
    then have r: "running sys files st" "module_key (this st) \<in> dom (Modules st)"
      using this_open by (auto simp: running_def)
    have "running sys files st'"
      by (rule running_cong[OF r(1)]) (use r(2) in \<open>auto simp: declare_step\<close>)
    then show ?thesis ..
  qed
next
  case (import_step path l as "from" b)
  then show ?thesis using assms(2) running_push by (auto simp: loading_def)
next
  case (end_step l b)
  then show ?thesis using assms(2) running_next_input_file loading_next_input_file by blast
qed

lemma reachable_invariant:
  "(step sys)\<^sup>*\<^sup>* (start files) st \<Longrightarrow> loading sys files st \<or> running sys files st"
  by (induction rule: rtranclp_induct) (auto intro: start_loading dest: step_keeps)

lemma next_file_no_abort:
  "running sys files st \<Longrightarrow> next_file sys st \<noteq> Abort"
proof -
  assume r: "running sys files st"
  have "open_modules st \<noteq> []" by (simp add: open_modules_def)
  moreover have "source_files st = map (files_of sys files) (open_modules st)"
    "length (modulestack st) = length (open_modules st)" "source_stack st \<noteq> []"
    using r by (simp_all add: running_def)
  ultimately have "source_files st \<noteq> []" "modulestack st \<noteq> []" "source_stack st \<noteq> []"
    by (metis map_is_Nil_conv, metis length_0_conv, metis)
  then have "pop_state sys st \<noteq> Abort" by (simp add: pop_state_def)
  then show ?thesis by (simp add: next_file_def Let_def split: run.splits)
qed

text \<open>
  C25. Whatever modules import each other, every source file of a module is read once and in order,
  those of a module that has been left completely: in every reachable state the files that have been
  opened for a module are an initial part of its files, and all of them once it is not open any more.
  No module is opened while it is open. The stacks never get out of step: no operation aborts.
\<close>

theorem source_files_read_once:
  assumes "(step sys)\<^sup>*\<^sup>* (start files) st" and "k \<noteq> ''builtin.vx''"
  shows "(\<exists>n. read_files st k = take n (files_of sys files k)) \<and>
    (k \<in> dom (Modules st) \<longrightarrow> k \<notin> set (open_modules st) \<longrightarrow> read_files st k = files_of sys files k) \<and>
    distinct (open_modules st) \<and> next_input_file sys l st \<noteq> Abort \<and>
    (builtin_input_file st = None \<longrightarrow> path \<noteq> [] \<longrightarrow> push_state sys l path as from st \<noteq> Abort)"
proof -
  consider (load) "loading sys files st" | (run) "running sys files st"
    using reachable_invariant[OF assms(1)] by blast
  then show ?thesis
  proof cases
    case load
    then have "read_files st k = []" "open_modules st = [''builtin.vx'']" "k \<notin> dom (Modules st)"
      using assms(2) by (simp_all add: loading_def read_files_def open_modules_def)
    moreover have "next_input_file sys l st \<noteq> Abort"
      using load by (simp add: loading_def next_input_file_def push_state_def next_file_def Let_def split: option.splits)
    ultimately show ?thesis using load by (auto simp: loading_def intro: exI[of _ 0])
  next
    case run
    have "\<exists>n. read_files st k = take n (files_of sys files k)"
    proof (cases "k \<in> set (open_modules st)")
      case True
      then obtain i where "i < length (open_modules st)" "k = open_modules st ! i" by (metis in_set_conv_nth)
      then show ?thesis using run by (auto simp: running_def list_all2_conv_all_nth read_upto_def)
    next
      case False
      then show ?thesis
        using run assms(2) unfolding running_def closed_read_def
        by (metis take_all_iff le_refl take0)
    qed
    moreover have "push_state sys l path as from st \<noteq> Abort" if "path \<noteq> []"
    proof -
      have "running sys files (st\<lparr>this := (this st)\<lparr>as_prefix := as, fromlist := from\<rparr>\<rparr>)"
        by (rule running_cong[OF run]) simp_all
      from next_file_no_abort[OF running_enter[OF this that]] show ?thesis
        by (auto simp: push_state_def domIff Let_def split: option.splits)
    qed
    moreover have "next_input_file sys l st \<noteq> Abort"
      using next_file_no_abort[OF run] run
      by (cases "input_file (this st)") (auto simp: next_input_file_def running_def)
    ultimately show ?thesis
      using run assms(2) by (simp add: running_def closed_read_def)
  qed
qed

text \<open>A project with one source file.\<close>

definition example_system :: system where
  "example_system = \<lparr>glob = (\<lambda>_. []), can_open = (\<lambda>_. True), jit_repl = False, main_processed = True\<rparr>"

lemma example_step:
  "step example_system (start [''m.vx''])
     (at_line 0 (open_file ''m.vx'' (enter_module example_system []
       ((start [''m.vx''])\<lparr>builtin_input_file := None, this := (this (start [''m.vx'']))\<lparr>linebuf := None\<rparr>\<rparr>))))"
  by (rule end_step[of _ no_loc _ True])
     (simp add: next_input_file_def push_state_def next_file_def start_def example_system_def patterntail_def Let_def)

theorem source_files_read_once_witness:
  "(\<exists>st. step example_system (start [''m.vx'']) st \<and> read_files st ''*.vx'' = [''m.vx''] \<and>
    (\<exists>n. [''m.vx''] = take n (files_of example_system [''m.vx''] ''*.vx'')) \<and> distinct (open_modules st))"
  using example_step source_files_read_once[OF r_into_rtranclp[of "step example_system", OF example_step], of "''*.vx''"]
  by (intro exI[of _ "at_line 0 (open_file ''m.vx'' (enter_module example_system []
       ((start [''m.vx''])\<lparr>builtin_input_file := None, this := (this (start [''m.vx'']))\<lparr>linebuf := None\<rparr>\<rparr>)))"])
     (simp add: at_line_def open_file_def enter_module_def start_def read_files_def patterntail_def Let_def)

section \<open>The end of the input\<close>

datatype event = Import SourceLocation "string list" string "SourceLocation table" | EndOfFile SourceLocation

text \<open>A run, with the number of calls of \<open>next_input_file\<close> that found more input.\<close>

fun serve :: "system \<Rightarrow> event list \<Rightarrow> sources \<Rightarrow> (nat \<times> sources) run" where
  "serve sys [] st = Done (0, st)"
| "serve sys (Import l path as from # es) st =
     (case push_state sys l path as from st of Done (b, st') \<Rightarrow> serve sys es st' | Exit \<Rightarrow> Exit | Abort \<Rightarrow> Abort)"
| "serve sys (EndOfFile l # es) st =
     (case next_input_file sys l st of
        Done (b, st') \<Rightarrow>
          (case serve sys es st' of
             Done (n, st'') \<Rightarrow> Done (n + (if b then 1 else 0), st'') | Exit \<Rightarrow> Exit | Abort \<Rightarrow> Abort)
      | Exit \<Rightarrow> Exit | Abort \<Rightarrow> Abort)"

fun patterns :: "event list \<Rightarrow> string list" where
  "patterns [] = []"
| "patterns (Import l path as from # es) = List.insert (patterntail path) (patterns es)"
| "patterns (EndOfFile l # es) = patterns es"

text \<open>How often there can still be more input: files that are open, modules that can still be imported.\<close>

definition cost :: "system \<Rightarrow> string \<Rightarrow> nat" where
  "cost sys k = length (glob sys k) + 1"

definition todo :: "system \<Rightarrow> string set \<Rightarrow> sources \<Rightarrow> nat" where
  "todo sys U st = sum (cost sys) (U - dom (Modules st)) +
     sum_list (map (\<lambda>(fs, i). length fs - i) (zip (source_files st) (source_index st))) +
     (length (source_stack st) - 1)"

lemma todo_simps [simp]:
  "todo sys U (at_line n st) = todo sys U st"
  "todo sys U (open_file f st) = sum (cost sys) (U - dom (Modules st)) +
     sum_list (map (\<lambda>(fs, i). length fs - i) (zip (source_files st) (butlast (source_index st) @ [last (source_index st) + 1]))) +
     (length (source_stack st) - 1)"
  by (simp_all add: todo_def at_line_def)

lemma todo_import:
  assumes "running sys files st" and "k \<in> dom (Modules st)"
  shows "todo sys U (import_module k l st) = todo sys U st"
proof -
  have "insert k (insert (module_key (this st)) (dom (Modules st))) = dom (Modules st)"
    using assms this_open by (auto simp: running_def)
  then show ?thesis by (simp add: todo_def)
qed

text \<open>A module that is entered was counted as one that can still be imported.\<close>

lemma todo_enter:
  assumes r: "running sys files st" and "path \<noteq> []" and "patterntail path \<in> U - dom (Modules st)" and "finite U"
  shows "todo sys U (enter_module sys path st) = todo sys U st"
proof -
  let ?k = "patterntail path"
  have "sum (cost sys) (U - dom (Modules st)) = cost sys ?k + sum (cost sys) (U - dom (Modules st) - {?k})"
    using assms(3,4) by (intro sum.remove) auto
  moreover have "U - dom (Modules st) - {?k} = U - insert ?k (dom (Modules st))" by blast
  moreover have "length (source_files st) = length (source_index st)" "source_stack st \<noteq> []"
    using r by (auto simp: running_def dest: list_all2_lengthD)
  ultimately show ?thesis
    using assms(2) by (cases "source_stack st") (simp_all add: todo_def cost_def)
qed

text \<open>At the end of the whole input everything has been read.\<close>

lemma only_main:
  assumes r: "running sys files st" and "\<not> length (source_stack st) > 1"
  shows "open_modules st = [''*.vx'']"
  using assms by (cases "source_stack st") (auto simp: running_def open_modules_def)

lemma next_file_stop:
  assumes r: "running sys files st" and m: "\<not> jit_repl sys" "files \<noteq> []"
    and s: "\<not> last (source_index st) < length (last (source_files st))" "\<not> length (source_stack st) > 1"
  shows "next_file sys st = Done (False, st)"
    and "k \<in> dom (Modules st) \<Longrightarrow> k \<noteq> ''builtin.vx'' \<Longrightarrow> read_files st k = files_of sys files k"
proof -
  have k: "open_modules st = [''*.vx'']" by (rule only_main[OF r s(2)])
  then obtain i where i: "source_index st = [i]" "read_upto sys files st ''*.vx'' i" "source_files st = [files]"
    using r by (auto simp: running_def list_all2_Cons1 files_of_def)
  then show "next_file sys st = Done (False, st)"
    using s m by (cases i) (simp_all add: next_file_def)
  show "k \<in> dom (Modules st) \<Longrightarrow> k \<noteq> ''builtin.vx'' \<Longrightarrow> read_files st k = files_of sys files k"
    using r i s(1) k by (cases "k = ''*.vx''") (auto simp: running_def closed_read_def read_upto_def files_of_def)
qed

lemma todo_next_file:
  assumes "finite U" and r: "running sys files st" and m: "\<not> jit_repl sys" "files \<noteq> []" and n: "next_file sys st = Done (b, st')"
  shows "todo sys U st' + (if b then 1 else 0) \<le> todo sys U st"
proof -
  obtain ks js i where o: "open_modules st = ks @ [module_key (this st)]" "source_index st = js @ [i]"
    "list_all2 (read_upto sys files st) ks js" "read_upto sys files st (module_key (this st)) i"
    "source_files st = map (files_of sys files) ks @ [files_of sys files (module_key (this st))]"
    using running_last[OF r] .
  have len: "length ks = length js" using o(3) by (rule list_all2_lengthD)
  consider (more_files) "last (source_index st) < length (last (source_files st))"
    | (leave) "\<not> last (source_index st) < length (last (source_files st))" "length (source_stack st) > 1"
    | (stop) "\<not> last (source_index st) < length (last (source_files st))" "\<not> length (source_stack st) > 1"
    by blast
  then show ?thesis
  proof cases
    case more_files
    then have b: "b" "st' = at_line 0 (open_file (last (source_files st) ! last (source_index st)) st)"
      using n by (auto simp: next_file_def Let_def split: if_splits)
    show ?thesis
      unfolding b(2) todo_simps using b(1) more_files o len by (simp add: todo_def)
  next
    case leave
    then obtain st1 where p: "b" "pop_state sys st = Done st'" and
      st': "st' = import_module (module_key (this st)) (Loc (last (source_stack st))) st1" and
      f: "Modules st1 = Modules st" "this st1 = last (source_stack st)" "source_stack st1 = butlast (source_stack st)"
        "source_files st1 = butlast (source_files st)" "source_index st1 = butlast (source_index st)"
      using n by (auto simp: next_file_def pop_state_def split: if_splits run.splits)
    have r': "running sys files st'" by (rule running_pop[OF r leave(2,1) p(2)])
    have "dom (Modules st') = insert (module_key (this st)) (insert (module_key (last (source_stack st))) (dom (Modules st)))"
      by (simp add: st' f)
    then have "sum (cost sys) (U - dom (Modules st')) \<le> sum (cost sys) (U - dom (Modules st))"
      using assms(1) by (auto intro!: sum_mono2)
    then show ?thesis using p(1) leave o len by (simp add: todo_def st' f)
  next
    case stop
    then show ?thesis using n next_file_stop(1)[OF r m stop] by simp
  qed
qed

lemma todo_push:
  assumes "finite U" and r: "running sys files st" and m: "\<not> jit_repl sys" "files \<noteq> []"
    and "path \<noteq> []" "patterntail path \<in> U" and p: "push_state sys l path as from st = Done (b, st')"
  shows "todo sys U st' \<le> todo sys U st"
proof -
  let ?st = "st\<lparr>this := (this st)\<lparr>as_prefix := as, fromlist := from\<rparr>\<rparr>"
  have r1: "running sys files ?st" by (rule running_cong[OF r]) simp_all
  have t: "todo sys U ?st = todo sys U st" by (simp add: todo_def)
  show ?thesis
  proof (cases "Modules st (patterntail path)")
    case None
    then have "patterntail path \<in> U - dom (Modules ?st)" "patterntail path \<notin> dom (Modules ?st)"
      using assms(6) by (auto simp: domIff)
    note e = todo_enter[OF r1 assms(5) this(1) assms(1)] running_enter[OF r1 assms(5) this(2)]
    have "st' = st \<or> next_file sys (enter_module sys path ?st) = Done (b, st')"
      using p None by (simp add: push_state_def Let_def split: if_splits)
    then show ?thesis
      using e(1) t todo_next_file[OF assms(1) e(2) m] by (metis add_leD1 order_refl)
  next
    case (Some im)
    then have "todo sys U (import_module (patterntail path) l ?st) = todo sys U ?st"
      by (intro todo_import[OF r1]) auto
    then show ?thesis using p Some t by (auto simp: push_state_def Let_def split: if_splits)
  qed
qed

fun valid_event :: "event \<Rightarrow> bool" where
  "valid_event (Import l path as from) \<longleftrightarrow> path \<noteq> []"
| "valid_event (EndOfFile l) \<longleftrightarrow> True"

lemma next_input_running:
  assumes "running sys files st" and "next_input_file sys l st = Done (b, st')"
  shows "next_file sys st = Done (b, st')"
proof -
  have b: "builtin_input_file st = None" using assms(1) by (simp add: running_def)
  show ?thesis using assms(2) by (cases "input_file (this st)") (simp_all add: next_input_file_def b)
qed

lemma serve_bound:
  assumes "finite U" and m: "\<not> jit_repl sys" "files \<noteq> []"
    and "running sys files st" "list_all valid_event es" "set (patterns es) \<subseteq> U" "serve sys es st = Done (n, st')"
  shows "running sys files st' \<and> n + todo sys U st' \<le> todo sys U st"
  using assms(4-)
proof (induction es arbitrary: st n)
  case (Cons e es)
  show ?case
  proof (cases e)
    case (Import l path as "from")
    with Cons.prems obtain b st1 where s: "push_state sys l path as from st = Done (b, st1)" "serve sys es st1 = Done (n, st')"
      by (auto split: run.splits)
    have v: "path \<noteq> []" "patterntail path \<in> U" "list_all valid_event es" "set (patterns es) \<subseteq> U"
      using Cons.prems Import by auto
    show ?thesis
      using Cons.IH[OF running_push[OF Cons.prems(1) v(1) s(1)] v(3,4) s(2)]
        todo_push[OF assms(1) Cons.prems(1) m v(1,2) s(1)] by simp
  next
    case (EndOfFile l)
    with Cons.prems obtain b st1 k where s: "next_input_file sys l st = Done (b, st1)" "serve sys es st1 = Done (k, st')"
      "n = k + (if b then 1 else 0)"
      by (auto split: run.splits)
    have v: "list_all valid_event es" "set (patterns es) \<subseteq> U"
      using Cons.prems EndOfFile by auto
    show ?thesis
      using Cons.IH[OF running_next_input_file[OF Cons.prems(1) s(1)] v s(2)] s(3)
        todo_next_file[OF assms(1) Cons.prems(1) m next_input_running[OF Cons.prems(1) s(1)]] by simp
  qed
qed simp

text \<open>
  C26. In a batch compilation the input comes to an end, whatever modules import each other: during a
  run with any imports, more input is found at the end of a file at most as often as there are source
  files and imported modules. And when there is no more input, all files of all modules have been read.
\<close>

theorem input_ends:
  assumes "\<not> jit_repl sys" and "files \<noteq> []" and "list_all valid_event es"
    and "serve sys (EndOfFile l # es) (start files) = Done (n, st)"
  shows "n \<le> length files + (\<Sum>k\<in>set (patterns es). length (glob sys k) + 1) \<and>
    (\<forall>l st'. next_input_file sys l st = Done (False, st') \<longrightarrow>
      (\<forall>k\<in>dom (Modules st) - {''builtin.vx''}. read_files st k = files_of sys files k))"
proof -
  let ?U = "set (patterns es)"
  obtain b st1 k where s: "next_input_file sys l (start files) = Done (b, st1)" "serve sys es st1 = Done (k, st)"
    "n = k + (if b then 1 else 0)"
    using assms(4) by (auto split: run.splits)
  obtain st2 where e: "running sys files st2" "next_file sys st2 = Done (b, st1)" "source_files st2 = [files]"
    "source_index st2 = [0]" "length (source_stack st2) = 1"
    using loading_enters[OF start_loading s(1)] by blast
  have "sum (cost sys) (?U - dom (Modules st2)) \<le> sum (cost sys) ?U" by (intro sum_mono2) auto
  then have "todo sys ?U st2 \<le> length files + (\<Sum>k\<in>?U. length (glob sys k) + 1)"
    using e(3-5) by (simp add: todo_def cost_def)
  moreover have r: "running sys files st" "k + todo sys ?U st \<le> todo sys ?U st1"
    using serve_bound[OF _ assms(1,2) running_next_file[OF e(1,2)] assms(3) _ s(2)] by auto
  ultimately have "n \<le> length files + (\<Sum>k\<in>?U. length (glob sys k) + 1)"
    using todo_next_file[OF _ e(1) assms(1,2) e(2), of ?U] s(3) by simp
  moreover have "read_files st k = files_of sys files k"
    if "next_input_file sys l st = Done (False, st')" "k \<in> dom (Modules st) - {''builtin.vx''}" for l st' k
  proof -
    have f: "next_file sys st = Done (False, st')" by (rule next_input_running[OF r(1) that(1)])
    then have "\<not> last (source_index st) < length (last (source_files st))" "\<not> length (source_stack st) > 1"
      by (auto simp: next_file_def Let_def split: if_splits run.splits)
    from next_file_stop(2)[OF r(1) assms(1,2) this] that(2) show ?thesis by blast
  qed
  ultimately show ?thesis by blast
qed

text \<open>Two files in the main program, the first of which imports a module of one file.\<close>

definition two_modules :: system where
  "two_modules = example_system\<lparr>glob := (\<lambda>p. if p = ''a/*.vx'' then [''a/a.vx''] else [])\<rparr>"

lemmas stack_simps = next_input_file_def push_state_def next_file_def pop_state_def at_line_def open_file_def
  enter_module_def start_def two_modules_def example_system_def patterntail_def Let_def

lemma two_modules_run:
  "\<exists>n st. serve two_modules [EndOfFile no_loc, Import no_loc [''a''] ''a'' [], EndOfFile no_loc, EndOfFile no_loc]
     (start [''m.vx'', ''n.vx'']) = Done (n, st)"
  by (simp add: stack_simps)

theorem input_ends_witness:
  "\<exists>n st. serve two_modules [EndOfFile no_loc, Import no_loc [''a''] ''a'' [], EndOfFile no_loc, EndOfFile no_loc]
     (start [''m.vx'', ''n.vx'']) = Done (n, st) \<and> n \<le> 4"
  using two_modules_run input_ends[of two_modules "[''m.vx'', ''n.vx'']"
      "[Import no_loc [''a''] ''a'' [], EndOfFile no_loc, EndOfFile no_loc]" no_loc]
  by (fastforce simp: two_modules_def example_system_def patterntail_def)

end
