(* ===== verification/Exprs.thy ===== *)
theory Exprs
  imports Lexer
begin

text \<open>
  The expression parser: \<open>ParseExpression\<close>, \<open>ParseBinOpRHS\<close>, \<open>ParseUnary\<close> and \<open>ParsePrimary\<close> of
  src/parser.cc. The objects it builds are an argument (\<open>builder\<close>), since their constructors call the
  code generator; so are the source of tokens, of which \<open>gettok\<close> is an instance, and the parsers of
  blocks, lists and functions.
\<close>

section \<open>Tokens of the parser\<close>

text \<open>
  The result of a parser: also the program can exit, access a vector that is empty, or not return
  (\<open>NoFuel\<close>).
\<close>

datatype 'a parsed = Ok 'a | Exited | Wild | NoFuel

fun pbind :: "'a parsed \<Rightarrow> ('a \<Rightarrow> 'b parsed) \<Rightarrow> 'b parsed" where
  "pbind (Ok x) f = f x"
| "pbind Exited f = Exited"
| "pbind Wild f = Wild"
| "pbind NoFuel f = NoFuel"

text \<open>
  Where tokens come from: \<open>gettok\<close> with the text of the token (\<open>IdentifierStr\<close>), and \<open>purge_line\<close>.
\<close>

record 's token_source =
  get_token :: "eXpect \<Rightarrow> int \<Rightarrow> 's \<Rightarrow> ((token \<times> string) \<times> 's) option"
  purge :: "'s \<Rightarrow> (token \<times> 's) option"

definition lexer_source :: "platform \<Rightarrow> lexer token_source" where
  "lexer_source pf =
     \<lparr>get_token = (\<lambda>expect terminator lx.
        map_option (\<lambda>(t, lx). ((t, IdentifierStr lx), lx)) (gettok pf expect terminator lx)),
      purge = purge_line\<rparr>"

record 's parser =
  CurTok :: token
  TokText :: string
  source :: 's
  parseOk :: bool

fun kind :: "token \<Rightarrow> int" where
  "kind (TokKind k) = k"
| "kind (TokNumber t v any) = tok ''number''"
| "kind (TokString s) = tok ''str_lit''"
| "kind (TokPartString s) = tok ''part_str_lit''"
| "kind TokPtr = tok ''ptr_lit''"

definition getNextToken :: "'s token_source \<Rightarrow> eXpect \<Rightarrow> int \<Rightarrow> 's parser \<Rightarrow> 's parser parsed" where
  "getNextToken src expect terminator p =
     (case get_token src expect terminator (source p) of
        None \<Rightarrow> Exited
      | Some ((t, text), s) \<Rightarrow>
          Ok (p\<lparr>CurTok := t, TokText := text, source := s, parseOk := (parseOk p \<and> kind t \<noteq> tok ''error'')\<rparr>))"

definition purgeLine :: "'s token_source \<Rightarrow> 's parser \<Rightarrow> 's parser parsed" where
  "purgeLine src p =
     (case purge src (source p) of
        None \<Rightarrow> Exited
      | Some (t, s) \<Rightarrow> Ok (p\<lparr>CurTok := t, TokText := '';'', source := s, parseOk := True\<rparr>))"

definition cur :: "'s parser \<Rightarrow> int" where
  "cur p = kind (CurTok p)"

definition Precedence :: "int \<Rightarrow> int" where
  "Precedence op = push_bit 8 (- op)"

definition GetTokPrecedence :: "'s parser \<Rightarrow> int" where
  "GetTokPrecedence p = (if cur p < 0 \<and> cur p > tok ''last_op'' then Precedence (cur p) else -256)"

definition right_binding :: "int \<Rightarrow> bool" where
  "right_binding k \<longleftrightarrow> k = tok ''assign'' \<or> k = tok ''invisible'' \<or> k = tok ''invisible_strong'' \<or> k = tok ''pow''"

definition NextTokPrecedence :: "'s parser \<Rightarrow> int" where
  "NextTokPrecedence p = GetTokPrecedence p + (if right_binding (cur p) then 1 else 0)"

definition Expect :: "'s token_source \<Rightarrow> int \<Rightarrow> eXpect \<Rightarrow> int \<Rightarrow> 's parser \<Rightarrow> (bool \<times> 's parser) parsed" where
  "Expect src t expect terminator p =
     (if cur p = t then pbind (getNextToken src expect terminator p) (\<lambda>p. Ok (True, p)) else Ok (False, p))"

definition Eat :: "'s token_source \<Rightarrow> int \<Rightarrow> eXpect \<Rightarrow> int \<Rightarrow> 's parser \<Rightarrow> 's parser parsed" where
  "Eat src t expect terminator p = (if cur p = t then getNextToken src expect terminator p else Ok p)"

text \<open>The numbers of the tokens and characters.\<close>

lemma tok_values:
  "tok ''error'' = 0" "tok ''assign'' = -1" "tok ''invisible'' = -2" "tok ''comma'' = -3"
  "tok ''postfix'' = -18" "tok ''pow'' = -17" "tok ''invisible_strong'' = -19" "tok ''thread'' = -20"
  "tok ''optional'' = -21" "tok ''ref'' = -22" "tok ''selector'' = -23" "tok ''last_op'' = -24"
  "tok ''eof'' = -25" "tok ''unary'' = -16" "tok ''identifier'' = -28" "tok ''number'' = -29"
  "tok ''part_str_lit'' = -30" "tok ''str_lit'' = -31" "tok ''ptr_lit'' = -32" "tok ''map'' = -76"
  "tok ''set'' = -77" "tok ''vec'' = -75" "tok ''chan'' = -78" "tok ''if'' = -53"
  "tok ''while'' = -61" "tok ''repeat'' = -62" "tok ''for'' = -57" "tok ''func'' = -70"
  "tok ''mult'' = -15" "tok ''colon'' = -5"
  by code_simp+

lemma ch_values:
  "ch CHR ''('' = 40" "ch CHR '')'' = 41" "ch CHR ''['' = 91" "ch CHR ''{'' = 123" "ch CHR '';'' = 59" "ch CHR '','' = 44"
  by code_simp+

section \<open>Expressions\<close>

text \<open>
  The functions of the parser call each other. Here they call \<open>go\<close> with the name of the function, the
  terminator and the state of the parser; \<open>parse\<close> below closes the recursion, with fuel. \<open>IfExpr\<close> is
  \<open>ParseIfExpr\<close>.
\<close>

datatype 'e request = Primary | Unary | BinOpRHS int "'e option" | Expression | IfExpr

type_synonym ('e, 's) go = "'e request \<Rightarrow> int \<Rightarrow> 's parser \<Rightarrow> ('e option \<times> 's parser) parsed"

text \<open>
  What the parser does with expressions. \<open>is_callable\<close> says that the type of the expression is that
  of a function or closure, or the expression is the name of a type; \<open>is_function\<close> leaves out type
  names. \<open>merge\<close> is the rest of the loop in \<open>ParseBinOpRHS\<close>, from the declaration of a variable to
  the new \<open>BinaryExprAST\<close>. \<open>None\<close> stands for a null pointer.
\<close>

record ('e, 's) builder =
  literal :: "token \<Rightarrow> 'e"
  lookup_var :: "string \<Rightarrow> 'e option"
  function_named :: "string \<Rightarrow> 'e option"
  module_named :: "string \<Rightarrow> 'e option"
  type_named :: "string \<Rightarrow> 'e option"
  is_struct :: "string \<Rightarrow> bool"
  empty_struct :: "string \<Rightarrow> 'e"
  struct_literal :: "('e, 's) go \<Rightarrow> string \<Rightarrow> int \<Rightarrow> 's parser \<Rightarrow> ('e option \<times> 's parser) parsed"
  undeclared :: "string \<Rightarrow> 'e"
  ident :: "string \<Rightarrow> 'e"
  empty :: 'e
  has_type :: "'e \<Rightarrow> bool"
  is_callable :: "'e \<Rightarrow> bool"
  is_function :: "'e \<Rightarrow> bool"
  is_binary :: "'e \<Rightarrow> bool"
  call0 :: "'e \<Rightarrow> 'e"
  postfix :: "string \<Rightarrow> 'e \<Rightarrow> 'e option"
  prefix :: "int \<Rightarrow> string \<Rightarrow> 'e \<Rightarrow> 'e option"
  merge :: "int \<Rightarrow> string \<Rightarrow> bool \<Rightarrow> 'e \<Rightarrow> 'e \<Rightarrow> 'e option"
  other_primary :: "('e, 's) go \<Rightarrow> int \<Rightarrow> 's parser \<Rightarrow> ('e option \<times> 's parser) parsed"
  index_list :: "('e, 's) go \<Rightarrow> int \<Rightarrow> 's parser \<Rightarrow> ('e option \<times> 's parser) parsed"
  if_expr :: "('e, 's) go \<Rightarrow> int \<Rightarrow> 's parser \<Rightarrow> ('e option \<times> 's parser) parsed"

text \<open>Binding of a parser result that may be a null pointer.\<close>

definition ebind ::
  "('e option \<times> 's parser) parsed \<Rightarrow> ('e \<Rightarrow> 's parser \<Rightarrow> ('f option \<times> 's parser) parsed) \<Rightarrow> ('f option \<times> 's parser) parsed"
  where
  "ebind m f = pbind m (\<lambda>(e, p). case e of None \<Rightarrow> Ok (None, p) | Some e \<Rightarrow> f e p)"

definition other_starts :: "int set" where
  "other_starts = insert (ch CHR ''{'') (insert (ch CHR ''['') (tok ` {''part_str_lit'', ''map'', ''set'', ''vec'', ''chan'',
     ''for'', ''func''}))"

definition prefix_kinds :: "int set" where
  "prefix_kinds = tok ` {''unary'', ''ref'', ''optional'', ''thread''}"

definition ParseIdent ::
  "'s token_source \<Rightarrow> ('e, 's) builder \<Rightarrow> int \<Rightarrow> 's parser \<Rightarrow> ('e option \<times> 's parser) parsed" where
  "ParseIdent src b terminator p =
     pbind (getNextToken src eBinOp terminator p) (\<lambda>p'. Ok (Some (ident b (TokText p)), p'))"

definition ParseIdentifierExpr ::
  "('e, 's) go \<Rightarrow> 's token_source \<Rightarrow> ('e, 's) builder \<Rightarrow> int \<Rightarrow> 's parser \<Rightarrow> ('e option \<times> 's parser) parsed" where
  "ParseIdentifierExpr go src b terminator p =
     (let Id = TokText p in
      pbind (getNextToken src eBinOp terminator p) (\<lambda>p.
        case lookup_var b Id of Some e \<Rightarrow> Ok (Some e, p) | None \<Rightarrow>
        case function_named b Id of Some e \<Rightarrow> Ok (Some e, p) | None \<Rightarrow>
        case module_named b Id of Some e \<Rightarrow> Ok (Some e, p) | None \<Rightarrow>
        case type_named b Id of None \<Rightarrow> Ok (Some (undeclared b Id), p) | Some e \<Rightarrow>
          if cur p = ch CHR ''{'' then
            pbind (struct_literal b go Id terminator p) (\<lambda>(s, p). Ok (if s = None then Some e else s, p))
          else if (cur p = ch CHR '';'' \<or> cur p < 0 \<and> cur p > tok ''selector'' \<and> cur p \<noteq> tok ''colon'' \<and>
              cur p \<noteq> tok ''invisible'' \<and> cur p \<noteq> tok ''invisible_strong'') \<and> is_struct b Id
          then Ok (Some (empty_struct b Id), p)
          else Ok (Some e, p)))"

text \<open>Also \<open>ParseStringExpr\<close> and \<open>ParsePointerExpr\<close>, which are the same.\<close>

definition ParseNumberExpr ::
  "'s token_source \<Rightarrow> ('e, 's) builder \<Rightarrow> int \<Rightarrow> 's parser \<Rightarrow> ('e option \<times> 's parser) parsed" where
  "ParseNumberExpr src b terminator p =
     pbind (getNextToken src eBinOp terminator p) (\<lambda>p'. Ok (Some (literal b (CurTok p)), p'))"

definition ParseParenExpr ::
  "('e, 's) go \<Rightarrow> 's token_source \<Rightarrow> ('e, 's) builder \<Rightarrow> int \<Rightarrow> 's parser \<Rightarrow> ('e option \<times> 's parser) parsed" where
  "ParseParenExpr go src b terminator p =
     pbind (getNextToken src eNone 0 p) (\<lambda>p.
       ebind (go Expression (ch CHR '')'') p) (\<lambda>V p.
         pbind (Eat src (ch CHR '')'') eBinOp terminator p) (\<lambda>p. Ok (Some V, p))))"

definition ParsePrimary ::
  "('e, 's) go \<Rightarrow> 's token_source \<Rightarrow> ('e, 's) builder
   \<Rightarrow> int \<Rightarrow> 's parser \<Rightarrow> ('e option \<times> 's parser) parsed" where
  "ParsePrimary go src b terminator p =
     (if cur p = tok ''eof'' then Exited
      else if cur p = tok ''identifier'' then
        ParseIdentifierExpr go src b terminator p
      else if cur p \<in> {tok ''number'', tok ''str_lit'', tok ''ptr_lit''} then
        ParseNumberExpr src b terminator p
      else if cur p = ch CHR ''('' then
        ParseParenExpr go src b terminator p
      else if cur p = ch CHR '')'' \<and> terminator = ch CHR '')'' then Ok (Some (empty b), p)
      else if cur p \<in> tok ` {''if'', ''while'', ''repeat''} then if_expr b go terminator p
      else if cur p \<in> other_starts then other_primary b go terminator p
      else pbind (purgeLine src p) (\<lambda>p. Ok (None, p)))"

definition ParseUnary ::
  "('e, 's) go \<Rightarrow> 's token_source \<Rightarrow> ('e, 's) builder
   \<Rightarrow> int \<Rightarrow> 's parser \<Rightarrow> ('e option \<times> 's parser) parsed" where
  "ParseUnary go src b terminator p =
     (if cur p \<notin> prefix_kinds then go Primary terminator p
      else
        pbind (getNextToken src eNone 0 p) (\<lambda>p'.
          ebind (go Unary terminator p') (\<lambda>Operand p''.
            ebind (go (BinOpRHS (GetTokPrecedence p) (Some Operand)) terminator p'') (\<lambda>Operand p''.
              Ok (prefix b (cur p) (TokText p) Operand, p'')))))"

text \<open>The right operand of an operator, from behind the operator up to an operator that binds less.\<close>

definition ParseOperand ::
  "('e, 's) go \<Rightarrow> 's token_source \<Rightarrow> ('e, 's) builder
   \<Rightarrow> int \<Rightarrow> int \<Rightarrow> string \<Rightarrow> int \<Rightarrow> 's parser \<Rightarrow> ('e option \<times> 's parser) parsed" where
  "ParseOperand go src b BinKind TokPrec BinOp terminator p =
     ebind (if BinKind = tok ''selector'' \<and> cur p = ch CHR ''['' then index_list b go terminator p
            else if BinKind = tok ''selector'' \<and> BinOp = ''.'' then ParseIdent src b terminator p
            else go Unary terminator p) (\<lambda>RHS p.
       if TokPrec \<le> NextTokPrecedence p then go (BinOpRHS TokPrec (Some RHS)) terminator p
       else Ok (Some RHS, p))"

text \<open>One round of the loop; the next one is a call of \<open>go\<close>.\<close>

definition ParseBinOpRHS ::
  "('e, 's) go \<Rightarrow> 's token_source \<Rightarrow> ('e, 's) builder
   \<Rightarrow> int \<Rightarrow> 'e option \<Rightarrow> int \<Rightarrow> 's parser \<Rightarrow> ('e option \<times> 's parser) parsed" where
  "ParseBinOpRHS go src b ExprPrec LHS terminator p =
     (case LHS of
        None \<Rightarrow> Ok (None, p)
      | Some l \<Rightarrow>
          if \<not> has_type b l then Ok (None, p)
          else if NextTokPrecedence p \<le> ExprPrec then
            Ok (Some (if \<not> is_binary b l \<and> is_callable b l \<and> drop_bit 8 ExprPrec \<noteq> - tok ''ref'' then call0 b l else l), p)
          else if is_callable b l \<and> (cur p = tok ''selector'' \<and> TokText p \<noteq> ''('' \<or>
              tok ''mult'' \<le> cur p \<and> cur p < tok ''colon'' \<or> cur p = tok ''comma'')
          then go (BinOpRHS ExprPrec (Some (call0 b l))) terminator p
          else if cur p = tok ''postfix'' then
            (case postfix b (TokText p) l of
               None \<Rightarrow> Ok (None, p)
             | Some l \<Rightarrow> pbind (getNextToken src eBinOp 0 p) (go (BinOpRHS ExprPrec (Some l)) terminator))
          else
            pbind (getNextToken src eNone 0 p) (\<lambda>p'.
              ebind (ParseOperand go src b (cur p) (GetTokPrecedence p) (TokText p) terminator p') (\<lambda>RHS p''.
                if \<not> has_type b RHS then Ok (None, p'')
                else go (BinOpRHS ExprPrec
                    (merge b (cur p) (TokText p) (cur p = tok ''selector'' \<and> cur p' = ch CHR ''['')
                      l (if is_function b RHS then call0 b RHS else RHS)))
                  terminator p'')))"

definition ParseExpression ::
  "('e, 's) go \<Rightarrow> 's token_source \<Rightarrow> ('e, 's) builder
   \<Rightarrow> int \<Rightarrow> 's parser \<Rightarrow> ('e option \<times> 's parser) parsed" where
  "ParseExpression go src b terminator p =
     pbind (go Unary terminator p) (\<lambda>(LHS, p).
       pbind (if LHS \<noteq> None \<and> parseOk p then go (BinOpRHS 0 LHS) terminator p else Ok (LHS, p)) (\<lambda>(LHS, p).
         if parseOk p then Ok (LHS, p) else Ok (None, p\<lparr>parseOk := True\<rparr>)))"

primrec parse ::
  "'s token_source \<Rightarrow> ('e, 's) builder \<Rightarrow> nat \<Rightarrow> 'e request \<Rightarrow> int \<Rightarrow> 's parser \<Rightarrow> ('e option \<times> 's parser) parsed" where
  "parse src b 0 = (\<lambda>r terminator p. NoFuel)"
| "parse src b (Suc n) = (\<lambda>r terminator p.
     case r of
       Primary \<Rightarrow> ParsePrimary (parse src b n) src b terminator p
     | Unary \<Rightarrow> ParseUnary (parse src b n) src b terminator p
     | BinOpRHS ExprPrec LHS \<Rightarrow> ParseBinOpRHS (parse src b n) src b ExprPrec LHS terminator p
     | Expression \<Rightarrow> ParseExpression (parse src b n) src b terminator p
     | IfExpr \<Rightarrow> if_expr b (parse src b n) terminator p)"

declare parse.simps [simp del]

end
