(* ===== verification/Blocks.thy ===== *)
theory Blocks
  imports Exprs MapHeap "HOL-Library.While_Combinator"
begin

text \<open>
  Statements and branches: \<open>ParseExprOrReturn\<close>, \<open>ParseExprList\<close>, \<open>ParseIfExpr\<close>, \<open>ParseElse\<close> and
  \<open>ParseForExpr\<close> of src/parser.cc, with the vectors that describe where the parser is
  (\<open>syntax_nesting\<close>, \<open>current_branch_part\<close>, \<open>locals_table\<close>). They are hooks of the parser of Exprs,
  whose state is extended by the vectors. The indentation of the prompt, the type of an \<open>if\<close> and
  the declaration of the control variables of a \<open>for\<close> are left out.
\<close>

section \<open>State\<close>

text \<open>\<open>branch_part_t\<close>, with bit fields of 16, 1 and 15 bits.\<close>

record branch_part =
  conditional :: nat
  branch :: nat
  brk_part :: nat

definition new_part :: "nat \<Rightarrow> branch_part" where
  "new_part b = \<lparr>conditional = 0, branch = b, brk_part = 0\<rparr>"

text \<open>
  What is used of \<open>FullVar\<close>: \<open>A_destructor\<close>, \<open>A_ref\<close>, \<open>A_mainvar\<close> and \<open>branch_parts\<close>. A table is
  the list of its entries in the order of the iterator.
\<close>

record local_var =
  has_destructor :: bool
  is_ref :: bool
  is_mainvar :: bool
  branch_parts :: "branch_part list"

type_synonym var_table = "(string \<times> local_var) list"

fun table_insert :: "string \<Rightarrow> local_var \<Rightarrow> var_table \<Rightarrow> var_table" where
  "table_insert k v [] = [(k, v)]"
| "table_insert k v ((k', v') # t) =
     (if string_dir char_unsigned k k' = GoLeft then (k, v) # (k', v') # t else (k', v') # table_insert k v t)"

record 't scopes =
  stream :: 't
  syntax_nesting :: "nat list"
  current_branch_part :: "branch_part list"
  locals_table :: "var_table list"
  globals_table :: var_table
  inside_function :: bool
  function_return_kind :: nat

definition scoped :: "'t token_source \<Rightarrow> 't scopes token_source" where
  "scoped src =
     \<lparr>get_token = (\<lambda>ex te s. map_option (\<lambda>(x, t). (x, s\<lparr>stream := t\<rparr>)) (get_token src ex te (stream s))),
      purge = (\<lambda>s. map_option (\<lambda>(x, t). (x, s\<lparr>stream := t, current_branch_part := [], syntax_nesting := []\<rparr>))
        (purge src (stream s)))\<rparr>"

definition scope :: "('s \<Rightarrow> 's) \<Rightarrow> 's parser \<Rightarrow> 's parser" where
  "scope f p = p\<lparr>source := f (source p)\<rparr>"

text \<open>\<open>back()\<close> and \<open>pop_back()\<close> of a vector, which must not be empty.\<close>

definition vector_back :: "'a list \<Rightarrow> 'a parsed" where
  "vector_back xs = (if xs = [] then Wild else Ok (last xs))"

definition push_nesting :: "nat \<Rightarrow> 't scopes parser \<Rightarrow> 't scopes parser" where
  "push_nesting n = scope (\<lambda>s. s\<lparr>syntax_nesting := syntax_nesting s @ [n]\<rparr>)"

definition pop_nesting :: "'t scopes parser \<Rightarrow> 't scopes parser parsed" where
  "pop_nesting p = pbind (vector_back (syntax_nesting (source p))) (\<lambda>_.
     Ok (scope (\<lambda>s. s\<lparr>syntax_nesting := butlast (syntax_nesting s)\<rparr>) p))"

definition push_part :: "branch_part \<Rightarrow> 't scopes parser \<Rightarrow> 't scopes parser" where
  "push_part b = scope (\<lambda>s. s\<lparr>current_branch_part := current_branch_part s @ [b]\<rparr>)"

definition pop_part :: "'t scopes parser \<Rightarrow> 't scopes parser parsed" where
  "pop_part p = pbind (vector_back (current_branch_part (source p))) (\<lambda>_.
     Ok (scope (\<lambda>s. s\<lparr>current_branch_part := butlast (current_branch_part s)\<rparr>) p))"

definition change_part :: "(branch_part \<Rightarrow> branch_part) \<Rightarrow> 't scopes parser \<Rightarrow> 't scopes parser parsed" where
  "change_part f p = pbind (vector_back (current_branch_part (source p))) (\<lambda>b.
     Ok (scope (\<lambda>s. s\<lparr>current_branch_part := butlast (current_branch_part s) @ [f b]\<rparr>) p))"

definition push_locals :: "'t scopes parser \<Rightarrow> 't scopes parser" where
  "push_locals = scope (\<lambda>s. s\<lparr>locals_table := locals_table s @ [[]]\<rparr>)"

definition pop_locals :: "'t scopes parser \<Rightarrow> (var_table \<times> 't scopes parser) parsed" where
  "pop_locals p = pbind (vector_back (locals_table (source p))) (\<lambda>t.
     Ok (t, scope (\<lambda>s. s\<lparr>locals_table := butlast (locals_table s)\<rparr>) p))"

definition next_brk_part :: "branch_part \<Rightarrow> branch_part" where
  "next_brk_part b = b\<lparr>brk_part := (brk_part b + 1) mod 2 ^ 15\<rparr>"

definition next_conditional :: "branch_part \<Rightarrow> branch_part" where
  "next_conditional b = b\<lparr>conditional := (conditional b + 1) mod 2 ^ 16\<rparr>"

text \<open>A loop; a loop that does not end is \<open>NoFuel\<close>.\<close>

definition ploop :: "('x \<Rightarrow> bool) \<Rightarrow> ('x \<Rightarrow> 'x parsed) \<Rightarrow> 'x \<Rightarrow> 'x parsed" where
  "ploop c f x =
     (case while_option (\<lambda>r. case r of Ok x \<Rightarrow> c x | _ \<Rightarrow> False) (\<lambda>r. pbind r f) (Ok x) of
        None \<Rightarrow> NoFuel | Some r \<Rightarrow> r)"

lemma while_Wild: "while_option (\<lambda>r. case r of Ok x \<Rightarrow> c x | _ \<Rightarrow> False) b r = Some r" if "\<nexists>x. r = Ok x"
  using that by (subst while_option_unfold) (auto split: parsed.split)

lemma ploop_unfold: "ploop c f x = (if c x then pbind (f x) (ploop c f) else Ok x)"
proof (cases "f x")
  case (Ok y)
  then show ?thesis by (simp add: ploop_def while_option_unfold [of _ _ "Ok x"])
qed (simp_all add: ploop_def while_option_unfold [of _ _ "Ok x"] while_Wild)

definition skip_semicolons :: "'t scopes token_source \<Rightarrow> 't scopes parser \<Rightarrow> 't scopes parser parsed" where
  "skip_semicolons src = ploop (\<lambda>p. cur p = ch CHR '';'') (getNextToken src eNone 0)"

section \<open>Objects\<close>

text \<open>\<open>BranchDescription\<close> with \<open>BreakDescription\<close>; the variables to destruct by their names.\<close>

record 'e branch_desc =
  exprs :: "'e list"
  vars_to_destruct :: "string set"
  end_kind :: int
  break_level :: int

definition no_branch :: "'e branch_desc" where
  "no_branch = \<lparr>exprs = [], vars_to_destruct = {}, end_kind = 0, break_level = 0\<rparr>"

text \<open>The arguments of the constructors of \<open>IfExprAST\<close> and \<open>ForExprAST\<close>.\<close>

record 'e branch_expr =
  Then :: "'e branch_desc list"
  Else :: "'e branch_desc list"
  then_locals :: var_table
  else_locals :: var_table
  max_brk_level :: int
  merged_vars :: "string set"

record 'e if_expression = "'e branch_expr" +
  if_kind :: int
  Cond :: 'e
  always_return :: bool

text \<open>
  What the parser does with objects. \<open>as_if\<close> is the dynamic cast to \<open>IfExprAST\<close>, \<open>mark_elif\<close> sets
  \<open>is_elif_branch\<close>, \<open>valued\<close> says that the type of an expression is known and not void.
  \<open>declare_control\<close> is the part of \<open>ParseForExpr\<close> between the iterator and the body, that finds the
  types of the control variables and declares them.
\<close>

record ('e, 't, 'c) block_ops =
  make_if :: "'e if_expression \<Rightarrow> 'e"
  as_if :: "'e \<Rightarrow> 'e if_expression option"
  mark_elif :: "'e \<Rightarrow> 'e"
  valued :: "'e \<Rightarrow> bool"
  make_for :: "bool \<Rightarrow> 'e \<Rightarrow> 'c \<Rightarrow> 'e branch_expr \<Rightarrow> 'e"
  declare_control :: "'e option \<Rightarrow> 'e \<Rightarrow> 't scopes parser \<Rightarrow> 'c option \<times> 't scopes parser"

section \<open>Statements\<close>

text \<open>The number of levels of a \<open>brk\<close> is in the upper half of the kind of an end.\<close>

definition brk_end_kind :: "int \<Rightarrow> int \<Rightarrow> int" where
  "brk_end_kind knd levels = signed_take_bit 31 (NOT (NOT knd OR take_bit 32 (push_bit 16 levels)))"

definition is_brk :: "int \<Rightarrow> bool" where
  "is_brk k \<longleftrightarrow> NOT (NOT k AND (2 ^ 16 - 1)) = tok ''brk''"

definition brk_levels :: "int \<Rightarrow> int" where
  "brk_levels k = take_bit 32 (drop_bit 16 (NOT k))"

definition ParseExprOrReturn ::
  "('e, 't scopes) go \<Rightarrow> 't scopes token_source \<Rightarrow> 't scopes parser \<Rightarrow> (('e option \<times> int) \<times> 't scopes parser) parsed" where
  "ParseExprOrReturn go src p =
     pbind (skip_semicolons src p) (\<lambda>p.
       let knd = cur p; expr = (\<lambda>k p. pbind (go Expression 0 p) (\<lambda>(e, p). Ok ((e, k), p))) in
       if knd = tok ''return'' then
         pbind (getNextToken src eSemi 0 p) (\<lambda>p.
           if cur p = ch CHR '';'' \<or> cur p = tok ''end'' then Ok ((None, knd), p) else expr knd p)
       else if knd = tok ''brk'' then
         pbind (getNextToken src eSemi 0 p) (\<lambda>p.
           pbind (ploop (\<lambda>(levels, p). cur p = tok ''brk'')
               (\<lambda>(levels, p). pbind (getNextToken src eSemi 0 p) (\<lambda>p. Ok (levels + 1, p))) (1, p)) (\<lambda>(levels, p).
             if int (length (current_branch_part (source p))) < levels then Ok ((None, 0), p)
             else expr (brk_end_kind knd levels) p))
       else if knd \<in> {tok ''else'', tok ''elif'', tok ''end'', tok ''until''} then Ok ((None, knd), p)
       else if knd \<in> {tok ''global'', tok ''const'', tok ''atomic''} then Ok ((None, 0), p)
       else expr 0 p)"

text \<open>
  From the syntactic levels of a \<open>brk\<close> to the branches that are left, counted from the innermost:
  \<open>elif\<close> els a 0 in \<open>syntax_nesting\<close>, everything else a 1.
\<close>

fun brk_depth :: "int \<Rightarrow> nat list \<Rightarrow> int \<Rightarrow> int option" where
  "brk_depth raw [] depth = (if raw = 0 then Some depth else None)"
| "brk_depth raw (n # ns) depth =
     (if raw = 0 then Some depth else brk_depth (take_bit 32 (raw - int n)) ns (depth + 1))"

declare brk_depth.simps [simp del]

text \<open>One round of \<open>ParseExprList\<close>; \<open>True\<close> stands for the return of an empty list.\<close>

definition expr_list_step ::
  "('e, 't, 'c) block_ops \<Rightarrow> 'e option \<Rightarrow> int \<Rightarrow> 'e list \<Rightarrow> int \<Rightarrow> 't scopes parser
   \<Rightarrow> (bool \<times> 'e list \<times> int \<times> int \<times> 't scopes parser) parsed" where
  "expr_list_step ops e k list mx p =
     (case e of
        Some e \<Rightarrow>
          if k = 0 then
            (case as_if ops e of
               None \<Rightarrow> Ok (False, list @ [e], 0, mx, p)
             | Some I \<Rightarrow>
                 if max_brk_level I \<noteq> 0 then
                   Ok (False, list @ [e], 0, if mx < max_brk_level I then max_brk_level I - 1 else mx, p)
                 else pbind (vector_back (Then I)) (\<lambda>T. pbind (vector_back (Else I)) (\<lambda>E.
                   Ok (False, list @ [e], if end_kind T = tok ''return'' \<and> end_kind E = tok ''return'' then tok ''return'' else 0,
                     mx, p))))
          else if k = tok ''return'' \<and> function_return_kind (source p) \<noteq> 0 then Ok (True, [], 0, 0, p)
          else Ok (False, list @ [e], k, mx, p)
      | None \<Rightarrow>
          if k = 0 then Ok (True, [], 0, 0, p)
          else if k = tok ''global'' then Ok (False, list, 0, mx, p)
          else if function_return_kind (source p) = 0 \<and> k = tok ''return'' then Ok (True, [], 0, 0, p)
          else Ok (False, list, k, mx, p))"

definition ParseExprList ::
  "('e, 't, 'c) block_ops \<Rightarrow> ('e, 't scopes) go \<Rightarrow> 't scopes token_source \<Rightarrow> 't scopes parser
   \<Rightarrow> (('e list \<times> int \<times> int) \<times> 't scopes parser) parsed" where
  "ParseExprList ops go src p =
     pbind (ploop (\<lambda>(stop, list, k, mx, p). \<not> stop \<and> k = 0)
        (\<lambda>(stop, list, k, mx, p). pbind (ParseExprOrReturn go src p) (\<lambda>((e, k), p). expr_list_step ops e k list mx p))
        (False, [], 0, 0, p)) (\<lambda>(stop, list, k, mx, p).
       if is_brk k then
         (case brk_depth (brk_levels k) (rev (syntax_nesting (source p))) 0 of
            None \<Rightarrow> Ok (([], 0, 0), p)
          | Some d \<Rightarrow> Ok ((list, brk_end_kind (tok ''brk'') d, max mx d), p))
       else Ok ((list, k, mx), p))"

section \<open>Branches\<close>

definition to_destruct :: "var_table \<Rightarrow> string set" where
  "to_destruct t = fst ` set (filter (\<lambda>(k, v). has_destructor v \<and> \<not> is_ref v) t)"

definition get_destruct_vars :: "int \<Rightarrow> var_table list \<Rightarrow> string set parsed" where
  "get_destruct_vars b_lev ts =
     (let n = signed_take_bit 31 b_lev in
      if int (length ts) < n then Wild else Ok (\<Union> (to_destruct ` set (drop (length ts - nat n) ts))))"

definition get_destruct_vars_main :: "var_table \<Rightarrow> string set" where
  "get_destruct_vars_main t = fst ` set (filter (\<lambda>(k, v). has_destructor v) t)"

text \<open>The statements of a branch, in parts that end with a \<open>brk\<close>.\<close>

definition branch_step ::
  "'e list \<times> int \<times> int \<Rightarrow> 'e branch_desc list \<Rightarrow> int \<Rightarrow> 't scopes parser
   \<Rightarrow> (bool \<times> 'e branch_desc list \<times> int \<times> 't scopes parser) parsed" where
  "branch_step part branches mx p = (case part of (list, k, level) \<Rightarrow>
     let b_lev = if is_brk k then brk_levels k else if k = tok ''return'' then int (length (locals_table (source p))) else 1 in
     pbind (get_destruct_vars b_lev (locals_table (source p))) (\<lambda>vs.
       let vs = if k = tok ''return'' \<and> \<not> inside_function (source p) then vs \<union> get_destruct_vars_main (globals_table (source p)) else vs;
           branches = branches @ [\<lparr>exprs = list, vars_to_destruct = vs, end_kind = k, break_level = b_lev\<rparr>];
           mx = max mx level in
       if is_brk k then pbind (change_part next_brk_part p) (\<lambda>p. Ok (False, branches, mx, p))
       else Ok (True, branches, mx, p)))"

definition ParseBranches ::
  "('e, 't, 'c) block_ops \<Rightarrow> ('e, 't scopes) go \<Rightarrow> 't scopes token_source \<Rightarrow> 't scopes parser
   \<Rightarrow> (('e branch_desc list \<times> int) \<times> 't scopes parser) parsed" where
  "ParseBranches ops go src p =
     pbind (ploop (\<lambda>(stop, branches, mx, p). \<not> stop)
        (\<lambda>(stop, branches, mx, p). pbind (ParseExprList ops go src p) (\<lambda>(part, p). branch_step part branches mx p))
        (False, [], 0, p)) (\<lambda>(stop, branches, mx, p). Ok ((branches, mx), p))"

definition malformed :: "'e branch_desc list \<Rightarrow> bool" where
  "malformed bs \<longleftrightarrow> end_kind (last bs) = 0 \<and> exprs (last bs) = []"

definition ParseCondition ::
  "('e, 's) go \<Rightarrow> 's token_source \<Rightarrow> int \<Rightarrow> int \<Rightarrow> 's parser \<Rightarrow> ('e option \<times> 's parser) parsed" where
  "ParseCondition go src knd terminator p =
     ebind (go Expression terminator p) (\<lambda>Cond p.
       if knd = tok ''repeat'' then Ok (Some Cond, p)
       else pbind (Expect src (ch CHR '';'') eNone 0 p) (\<lambda>(ok, p). Ok (if ok then Some Cond else None, p)))"

text \<open>
  Variables of a branch are added to the enclosing scope if they are declared before the first
  \<open>brk\<close>: after \<open>repeat\<close> those of its body, otherwise those that both branches declare.
\<close>

definition outer :: "local_var \<Rightarrow> local_var" where
  "outer v = v\<lparr>branch_parts := butlast (branch_parts v)\<rparr>"

definition add_outer :: "bool \<Rightarrow> string \<Rightarrow> local_var \<Rightarrow> 't scopes parser \<Rightarrow> bool \<times> 't scopes parser" where
  "add_outer is_repeat k v p =
     (let s = source p; ts = locals_table s in
      if ts = [] then
        if k \<in> fst ` set (globals_table s) then (is_repeat, p)
        else (True, scope (\<lambda>s. s\<lparr>globals_table := table_insert k ((outer v)\<lparr>is_mainvar := True\<rparr>) (globals_table s)\<rparr>) p)
      else if k \<in> fst ` set (last ts) then (False, p)
      else (True, scope (\<lambda>s. s\<lparr>locals_table := butlast ts @ [table_insert k (outer v) (last ts)]\<rparr>) p))"

fun merge_vars ::
  "(string \<Rightarrow> local_var \<Rightarrow> local_var option) \<Rightarrow> bool \<Rightarrow> var_table \<Rightarrow> string set \<Rightarrow> 't scopes parser
   \<Rightarrow> (string set option \<times> 't scopes parser) parsed" where
  "merge_vars other is_repeat [] merged p = Ok (Some merged, p)"
| "merge_vars other is_repeat ((k, v) # t) merged p =
     (case other k v of
        None \<Rightarrow> merge_vars other is_repeat t merged p
      | Some w \<Rightarrow>
          pbind (vector_back (branch_parts v)) (\<lambda>b.
            if brk_part b \<noteq> 0 then merge_vars other is_repeat t merged p
            else pbind (vector_back (branch_parts w)) (\<lambda>c.
              if brk_part c \<noteq> 0 then merge_vars other is_repeat t merged p
              else (case add_outer is_repeat k w p of
                  (False, p) \<Rightarrow> Ok (None, p)
                | (True, p) \<Rightarrow> merge_vars other is_repeat t (if has_destructor v then insert k merged else merged) p))))"

text \<open>
  \<open>ParseElse\<close> up to the body of the branch: is there an \<open>else\<close>, and how did the first branch end?
  \<open>None\<close> is a syntax error. (\<open>then_end_kind\<close> is not set, and not used, if there is none.)
\<close>

definition else_start ::
  "'t scopes token_source \<Rightarrow> int \<Rightarrow> int \<Rightarrow> 't scopes parser \<Rightarrow> ((bool \<times> int) option \<times> 't scopes parser) parsed" where
  "else_start src knd ThenEndkind p =
     pbind
       (if ThenEndkind = tok ''else'' \<or> ThenEndkind = tok ''elif'' then
          pbind (if ThenEndkind = tok ''elif'' then Ok p else getNextToken src eNone 0 p) (\<lambda>p. Ok (Some (True, ThenEndkind), p))
        else if ThenEndkind = tok ''return'' then
          pbind (skip_semicolons src p) (\<lambda>p.
            let k = cur p in
            if k = tok ''end'' then pbind (getNextToken src eNone 0 p) (\<lambda>p. Ok (Some (False, k), p))
            else if k = tok ''else'' \<or> k = tok ''elif'' then
              pbind (if k = tok ''elif'' then Ok p else getNextToken src eNone 0 p) (\<lambda>p. Ok (Some (True, k), p))
            else Ok (None, p))
        else Ok (Some (False, 0), p))
       (\<lambda>(start, p). Ok (case start of None \<Rightarrow> None | Some (have_else, k) \<Rightarrow>
          if have_else \<and> knd = tok ''repeat'' then None else start, p))"

definition elif_branch ::
  "('e, 't, 'c) block_ops \<Rightarrow> ('e, 't scopes) go \<Rightarrow> 't scopes parser
   \<Rightarrow> (('e branch_desc list \<times> int) option \<times> 't scopes parser) parsed" where
  "elif_branch ops go p =
     pbind (go IfExpr 0 p) (\<lambda>(e, p).
       case Option.bind e (as_if ops) of
         None \<Rightarrow> Ok (None, p)
       | Some I \<Rightarrow>
           let b_lev = if always_return I then 0 else 1 in
           pbind (get_destruct_vars b_lev (locals_table (source p))) (\<lambda>vs.
             Ok (Some
               ([\<lparr>exprs = [mark_elif ops (the e)], vars_to_destruct = vs,
                  end_kind = if always_return I then tok ''return'' else tok ''end'', break_level = b_lev\<rparr>],
                if 0 < max_brk_level I then max_brk_level I - 1 else 0), p)))"

definition else_branch ::
  "('e, 't, 'c) block_ops \<Rightarrow> ('e, 't scopes) go \<Rightarrow> 't scopes token_source \<Rightarrow> 't scopes parser
   \<Rightarrow> (('e branch_desc list \<times> int) option \<times> 't scopes parser) parsed" where
  "else_branch ops go src p =
     pbind (ParseBranches ops go src p) (\<lambda>((bs, mx), p).
       if malformed bs then Ok (None, p)
       else if end_kind (last bs) = tok ''return'' then
         pbind (skip_semicolons src p) (\<lambda>p.
           if cur p = tok ''end'' then pbind (getNextToken src eNone 0 p) (\<lambda>p. Ok (Some (bs, mx), p))
           else Ok (None, p))
       else Ok (Some (bs, mx), p))"

record 'e else_part =
  else_branches :: "'e branch_desc list"
  else_merged :: "string set"
  else_table :: var_table
  have_else :: bool
  then_end_kind :: int
  else_level :: int

definition else_body ::
  "('e, 't, 'c) block_ops \<Rightarrow> ('e, 't scopes) go \<Rightarrow> 't scopes token_source \<Rightarrow> bool \<Rightarrow> 't scopes parser
   \<Rightarrow> (('e branch_desc list \<times> int) option \<times> 't scopes parser) parsed" where
  "else_body ops go src els p =
     (if els then
        pbind (change_part (\<lambda>b. new_part 1) (push_locals p)) (\<lambda>p.
          if cur p = tok ''elif'' then elif_branch ops go p else else_branch ops go src p)
      else Ok (Some ([no_branch], 0), p))"

definition merge_branches ::
  "int \<Rightarrow> bool \<Rightarrow> var_table \<Rightarrow> var_table \<Rightarrow> 't scopes parser \<Rightarrow> (string set option \<times> 't scopes parser) parsed" where
  "merge_branches knd els then_table table p =
     (if knd = tok ''repeat'' then merge_vars (\<lambda>k v. Some v) True then_table {} p
      else if els then merge_vars (\<lambda>k v. map_of table k) False then_table {} p
      else Ok (Some {}, p))"

text \<open>The end of the branches: their parts and variables are removed.\<close>

definition leave_branches ::
  "int \<Rightarrow> var_table \<Rightarrow> bool \<times> int \<Rightarrow> 'e branch_desc list \<times> int \<Rightarrow> 't scopes parser
   \<Rightarrow> ('e else_part option \<times> 't scopes parser) parsed" where
  "leave_branches knd then_table start body p = (case (start, body) of ((els, k), (bs, level)) \<Rightarrow>
     pbind (pop_part p) (\<lambda>p.
     pbind (if current_branch_part (source p) = [] then Ok p else change_part next_conditional p) (\<lambda>p.
     pbind (if els then pop_locals p else Ok ([], p)) (\<lambda>(table, p).
     pbind (merge_branches knd els then_table table p) (\<lambda>(merged, p).
       Ok (map_option (\<lambda>merged. \<lparr>else_branches = bs, else_merged = merged, else_table = table,
         have_else = els, then_end_kind = k, else_level = level\<rparr>) merged, p))))))"

definition ParseElse ::
  "('e, 't, 'c) block_ops \<Rightarrow> ('e, 't scopes) go \<Rightarrow> 't scopes token_source \<Rightarrow> var_table \<Rightarrow> int \<Rightarrow> int \<Rightarrow> 't scopes parser
   \<Rightarrow> ('e else_part option \<times> 't scopes parser) parsed" where
  "ParseElse ops go src then_table knd ThenEndkind p =
     ebind (else_start src knd ThenEndkind p) (\<lambda>start p.
       ebind (else_body ops go src (fst start) p) (leave_branches knd then_table start))"

definition returns :: "'e branch_desc list \<Rightarrow> bool" where
  "returns bs \<longleftrightarrow> length bs = 1 \<and> end_kind (last bs) = tok ''return''"

text \<open>The type of an \<open>if\<close> is that of the last expressions of its branches, which must exist.\<close>

definition type_of_if :: "('e, 't, 'c) block_ops \<Rightarrow> int \<Rightarrow> 'e branch_desc list \<Rightarrow> 'e branch_desc list \<Rightarrow> unit parsed" where
  "type_of_if ops knd Th El =
     (if (knd = tok ''if'' \<or> knd = tok ''elif'') \<and> length Th = 1 \<and> length El = 1 \<and> exprs (last El) \<noteq> [] \<and>
         valued ops (last (exprs (last El)))
      then pbind (vector_back (exprs (last Th))) (\<lambda>_. Ok ()) else Ok ())"

definition branch_expr_of :: "'e branch_desc list \<Rightarrow> var_table \<Rightarrow> int \<Rightarrow> 'e else_part \<Rightarrow> 'e branch_expr" where
  "branch_expr_of Th then_table mx E =
     \<lparr>Then = Th, Else = else_branches E, then_locals = then_table, else_locals = else_table E,
      max_brk_level = max mx (else_level E), merged_vars = else_merged E\<rparr>"

text \<open>The condition of a \<open>repeat\<close> and the end of a \<open>while\<close> or \<open>if\<close>.\<close>

definition if_end ::
  "('e, 't scopes) go \<Rightarrow> 't scopes token_source \<Rightarrow> int \<Rightarrow> int \<Rightarrow> 'e option \<Rightarrow> int \<Rightarrow> 'e else_part \<Rightarrow> 't scopes parser
   \<Rightarrow> ('e option \<times> 't scopes parser) parsed" where
  "if_end go src knd terminator cond then_end E p =
     (if knd = tok ''repeat'' then
        pbind (Expect src (tok ''until'') eNone 0 p) (\<lambda>(ok, p).
          if ok then ParseCondition go src knd terminator p else Ok (None, p))
      else if have_else E \<and> end_kind (last (else_branches E)) = tok ''end'' \<and> then_end_kind E \<noteq> tok ''elif'' \<or>
          \<not> have_else E \<and> then_end = tok ''end''
      then pbind (Expect src (tok ''end'') eBinOp 0 p) (\<lambda>(ok, p). Ok (if ok then cond else None, p))
      else Ok (cond, p))"

definition new_if :: "('e, 't, 'c) block_ops \<Rightarrow> int \<Rightarrow> 'e \<Rightarrow> 'e branch_desc list \<Rightarrow> var_table \<Rightarrow> int \<Rightarrow> 'e else_part \<Rightarrow> 'e" where
  "new_if ops knd cond Th then_table mx E =
     make_if ops (branch_expr.extend (branch_expr_of Th then_table mx E)
       (if_expression.fields (if knd = tok ''elif'' then tok ''if'' else knd) cond
         (returns Th \<and> have_else E \<and> returns (else_branches E))))"

definition ParseIfExpr ::
  "('e, 't, 'c) block_ops \<Rightarrow> ('e, 't scopes) go \<Rightarrow> 't scopes token_source
   \<Rightarrow> int \<Rightarrow> 't scopes parser \<Rightarrow> ('e option \<times> 't scopes parser) parsed" where
  "ParseIfExpr ops go src terminator p =
     (let knd = cur p; late = (knd = tok ''repeat'') in
      pbind (getNextToken src eNone 0 p) (\<lambda>p.
      let p = push_nesting (if knd = tok ''elif'' then 0 else 1) p in
      pbind (if late then Ok (None, p) else ParseCondition go src knd 0 p) (\<lambda>(cond, p).
      if \<not> late \<and> cond = None then Ok (None, p) else
      pbind (ParseBranches ops go src (push_part (new_part 0) (push_locals p))) (\<lambda>((Th, mx), p).
      if malformed Th then Ok (None, p) else
      pbind (pop_locals p) (\<lambda>(then_table, p).
      ebind (ParseElse ops go src then_table knd (end_kind (last Th)) p) (\<lambda>E p.
      ebind (if_end go src knd terminator cond (end_kind (last Th)) E p) (\<lambda>cond p.
      pbind (type_of_if ops knd Th (else_branches E)) (\<lambda>_.
      pbind (pop_nesting p) (\<lambda>p. Ok (Some (new_if ops knd cond Th then_table mx E), p))))))))))"

definition for_end :: "'t scopes token_source \<Rightarrow> int \<Rightarrow> 'e else_part \<Rightarrow> 't scopes parser \<Rightarrow> (bool \<times> 't scopes parser) parsed" where
  "for_end src body_end E p =
     (if have_else E \<and> end_kind (last (else_branches E)) = tok ''end'' \<and> body_end \<noteq> tok ''elif'' \<or>
         \<not> have_else E \<and> body_end = tok ''end''
      then Expect src (tok ''end'') eBinOp 0 p else Ok (True, p))"

definition ParseForExpr ::
  "('e, 't, 'c) block_ops \<Rightarrow> ('e, 't scopes) go \<Rightarrow> 't scopes token_source
   \<Rightarrow> int \<Rightarrow> 't scopes parser \<Rightarrow> ('e option \<times> 't scopes parser) parsed" where
  "ParseForExpr ops go src terminator p =
     pbind (getNextToken src eNone 0 p) (\<lambda>p.
     pbind (go Expression (tok ''in'') (push_part (new_part 0) (push_locals (push_nesting 1 p)))) (\<lambda>(KeyVal, p).
     let descending = (cur p = tok ''reverse_in'') in
     if cur p \<noteq> tok ''in'' \<and> \<not> descending then Ok (None, p) else
     pbind (getNextToken src eNone 0 p) (\<lambda>p.
     pbind (ParseCondition go src (tok ''in'') 0 p) (\<lambda>(It, p).
     case It of None \<Rightarrow> Wild | Some It \<Rightarrow>
     ebind (Ok (declare_control ops KeyVal It p)) (\<lambda>control p.
     pbind (ParseBranches ops go src p) (\<lambda>((Body, mx), p).
     if malformed Body then Ok (None, p) else
     pbind (pop_locals p) (\<lambda>(then_table, p).
     ebind (ParseElse ops go src then_table (tok ''for'') (end_kind (last Body)) p) (\<lambda>E p.
     pbind (for_end src (end_kind (last Body)) E p) (\<lambda>(ok, p).
     if \<not> ok then Ok (None, p) else
     pbind (pop_nesting p) (\<lambda>p.
       Ok (Some (make_for ops descending It control (branch_expr_of Body then_table mx E)), p)))))))))))"

text \<open>The builder of Exprs with these parsers of branches.\<close>

definition block_builder ::
  "('e, 't, 'c) block_ops \<Rightarrow> 't scopes token_source \<Rightarrow> ('e, 't scopes) builder \<Rightarrow> ('e, 't scopes) builder" where
  "block_builder ops src b = b
     \<lparr>if_expr := (\<lambda>go. ParseIfExpr ops go src),
      other_primary := (\<lambda>go terminator p.
        if cur p = tok ''for'' then ParseForExpr ops go src terminator p
        else other_primary b go terminator p)\<rparr>"

end
