(* ===== verification/ExprEnd.thy ===== *)
theory ExprEnd
  imports Exprs
begin

text \<open>
  The expression parser of Exprs ends. A run is bounded by the tokens that are left: every round of
  the loop and every level of the recursion that does not read a token goes to a request of a smaller
  rank (\<open>need\<close>).
\<close>

section \<open>The parser returns\<close>

definition left :: "('s \<Rightarrow> nat) \<Rightarrow> 's parser \<Rightarrow> nat" where
  "left \<mu> p = (if cur p = tok ''eof'' then 0 else 1) + \<mu> (source p)"

text \<open>
  A result is settled if it is not \<open>NoFuel\<close>, at most \<open>m\<close> tokens are left, and less than \<open>k\<close> if there is
  an expression.
\<close>

definition settles :: "('s \<Rightarrow> nat) \<Rightarrow> nat \<Rightarrow> nat \<Rightarrow> ('e option \<times> 's parser) parsed \<Rightarrow> bool" where
  "settles \<mu> m k r \<longleftrightarrow> r \<noteq> NoFuel \<and> (\<forall>e p. r = Ok (e, p) \<longrightarrow> left \<mu> p \<le> m \<and> (e \<noteq> None \<longrightarrow> left \<mu> p < k))"

definition consumes :: "('s \<Rightarrow> nat) \<Rightarrow> 's token_source \<Rightarrow> bool" where
  "consumes \<mu> src \<longleftrightarrow>
     (\<forall>e t s tk s'. get_token src e t s = Some (tk, s') \<longrightarrow> \<mu> s' \<le> \<mu> s \<and> (kind (fst tk) = tok ''eof'' \<or> \<mu> s' < \<mu> s)) \<and>
     (\<forall>s tk s'. purge src s = Some (tk, s') \<longrightarrow> \<mu> s' \<le> \<mu> s)"

text \<open>
  What is known of a request: an expression has at least one token, except for the empty one that
  ends at \<open>)\<close>.
\<close>

fun fine :: "'e request \<Rightarrow> 's parser \<Rightarrow> bool" where
  "fine (BinOpRHS e l) p = (-256 \<le> e)"
| "fine IfExpr p = (cur p \<noteq> tok ''eof'')"
| "fine r p = True"

fun goal :: "('s \<Rightarrow> nat) \<Rightarrow> 'e request \<Rightarrow> int \<Rightarrow> 's parser \<Rightarrow> nat" where
  "goal \<mu> (BinOpRHS e l) te p = Suc (left \<mu> p)"
| "goal \<mu> IfExpr te p = left \<mu> p"
| "goal \<mu> r te p = (if cur p = ch CHR '')'' \<and> te = ch CHR '')'' then Suc (left \<mu> p) else left \<mu> p)"

definition served :: "('s \<Rightarrow> nat) \<Rightarrow> ('e, 's) go \<Rightarrow> 'e request \<Rightarrow> int \<Rightarrow> 's parser \<Rightarrow> bool" where
  "served \<mu> go r te p \<longleftrightarrow> settles \<mu> (left \<mu> p) (goal \<mu> r te p) (go r te p)"

text \<open>
  What is asked of the parsers that are not part of Exprs: they return if the parser of expressions
  returns for the requests they make, and they read a token before they make them.
\<close>

definition hook_settles :: "('s \<Rightarrow> nat) \<Rightarrow> (('e, 's) go \<Rightarrow> int \<Rightarrow> 's parser \<Rightarrow> ('e option \<times> 's parser) parsed) \<Rightarrow> bool" where
  "hook_settles \<mu> h \<longleftrightarrow>
     (\<forall>go te p. cur p \<noteq> tok ''eof'' \<longrightarrow> (\<forall>r te p'. fine r p' \<longrightarrow> left \<mu> p' < left \<mu> p \<longrightarrow> served \<mu> go r te p') \<longrightarrow>
        settles \<mu> (left \<mu> p) (left \<mu> p) (h go te p))"

definition hooks_settle :: "('s \<Rightarrow> nat) \<Rightarrow> ('e, 's) builder \<Rightarrow> bool" where
  "hooks_settle \<mu> b \<longleftrightarrow> hook_settles \<mu> (other_primary b) \<and> hook_settles \<mu> (index_list b) \<and>
     hook_settles \<mu> (if_expr b) \<and> (\<forall>Id. hook_settles \<mu> (\<lambda>go. struct_literal b go Id))"

definition calls_bounded :: "('e \<Rightarrow> nat) \<Rightarrow> nat \<Rightarrow> ('e, 's) builder \<Rightarrow> bool" where
  "calls_bounded \<rho> C b \<longleftrightarrow> (\<forall>e. \<rho> e \<le> C \<and> (is_callable b e \<longrightarrow> \<rho> (call0 b e) < \<rho> e))"

lemma settles_simps [simp]:
  "settles \<mu> m k (Ok (e, p)) \<longleftrightarrow> left \<mu> p \<le> m \<and> (e \<noteq> None \<longrightarrow> left \<mu> p < k)" "settles \<mu> m k Exited" "settles \<mu> m k Wild"
  "\<not> settles \<mu> m k NoFuel"
  by (auto simp: settles_def)

lemma settles_mono: "settles \<mu> m k r \<Longrightarrow> m \<le> m' \<Longrightarrow> k \<le> k' \<or> m < k' \<Longrightarrow> settles \<mu> m' k' r"
  by (cases r) (auto simp: settles_def)

lemma settles_pbind:
  assumes "settles \<mu> m' k' r" "\<And>e p. left \<mu> p \<le> m' \<Longrightarrow> (e \<noteq> None \<longrightarrow> left \<mu> p < k') \<Longrightarrow> settles \<mu> m k (f (e, p))"
  shows "settles \<mu> m k (pbind r f)"
proof (cases r)
  case (Ok x)
  obtain e p where x: "x = (e, p)" by fastforce
  show ?thesis using assms(1) by (auto simp: Ok x intro!: assms(2))
qed (use assms(1) in simp_all)

lemma settles_ebind:
  assumes "settles \<mu> m' k' r" "m' \<le> m" "\<And>e p. left \<mu> p \<le> m' \<Longrightarrow> left \<mu> p < k' \<Longrightarrow> settles \<mu> m k (f e p)"
  shows "settles \<mu> m k (ebind r f)"
  unfolding ebind_def using assms by (intro settles_pbind [OF assms(1)]) (auto split: option.splits)

lemma getNextToken_left:
  assumes "consumes \<mu> src" "getNextToken src e t p = Ok p'"
  shows "left \<mu> p' \<le> left \<mu> p" "cur p \<noteq> tok ''eof'' \<Longrightarrow> left \<mu> p' < left \<mu> p"
proof -
  obtain tk x s where g: "get_token src e t (source p) = Some ((tk, x), s)" "cur p' = kind tk" "source p' = s"
    using assms(2) by (auto simp: getNextToken_def cur_def split: option.splits)
  with assms(1) have "\<mu> s \<le> \<mu> (source p)" "kind tk = tok ''eof'' \<or> \<mu> s < \<mu> (source p)"
    unfolding consumes_def by (metis fst_conv)+
  then show "left \<mu> p' \<le> left \<mu> p" "cur p \<noteq> tok ''eof'' \<Longrightarrow> left \<mu> p' < left \<mu> p"
    by (auto simp: left_def g)
qed

lemma settles_next:
  assumes "consumes \<mu> src" "\<And>p'. left \<mu> p' \<le> left \<mu> p \<Longrightarrow> (cur p \<noteq> tok ''eof'' \<longrightarrow> left \<mu> p' < left \<mu> p) \<Longrightarrow> settles \<mu> m k (f p')"
  shows "settles \<mu> m k (pbind (getNextToken src e t p) f)"
proof (cases "getNextToken src e t p")
  case (Ok p')
  with getNextToken_left [OF assms(1) Ok] assms(2) show ?thesis by simp
qed (auto simp: getNextToken_def split: option.splits)

lemma settles_eat:
  assumes "consumes \<mu> src" "\<And>p'. left \<mu> p' \<le> left \<mu> p \<Longrightarrow> settles \<mu> m k (f p')"
  shows "settles \<mu> m k (pbind (Eat src c e t p) f)"
  unfolding Eat_def using assms by (auto intro!: settles_next)

lemma settles_if: "(c \<Longrightarrow> settles \<mu> m k r) \<Longrightarrow> (\<not> c \<Longrightarrow> settles \<mu> m k r') \<Longrightarrow> settles \<mu> m k (if c then r else r')"
  by simp

lemma settles_purge:
  assumes "consumes \<mu> src" "cur p \<noteq> tok ''eof''" "left \<mu> p \<le> m"
  shows "settles \<mu> m k (pbind (purgeLine src p) (\<lambda>p. Ok (None, p)))"
proof (cases "purge src (source p)")
  case (Some r)
  obtain tk s where r: "r = (tk, s)" by fastforce
  have "\<mu> s \<le> \<mu> (source p)" using assms(1) Some r by (auto simp: consumes_def)
  then show ?thesis using assms(2,3) by (auto simp: purgeLine_def Some r left_def)
qed (simp add: purgeLine_def)

lemma binop_not_eof: "-256 < NextTokPrecedence p \<Longrightarrow> cur p \<noteq> tok ''eof''"
  by (auto simp: GetTokPrecedence_def NextTokPrecedence_def right_binding_def tok_values
    split: if_splits)

lemma GetTokPrecedence_fine: "-256 \<le> GetTokPrecedence p"
  by (auto simp: GetTokPrecedence_def Precedence_def push_bit_eq_mult)

text \<open>The fuel a call needs.\<close>

definition need :: "('s \<Rightarrow> nat) \<Rightarrow> ('e \<Rightarrow> nat) \<Rightarrow> nat \<Rightarrow> 'e request \<Rightarrow> 's parser \<Rightarrow> nat" where
  "need \<mu> \<rho> C r p = (C + 3) * left \<mu> p +
     (case r of Primary \<Rightarrow> 0 | Unary \<Rightarrow> 1 | BinOpRHS e l \<Rightarrow> (case l of None \<Rightarrow> 0 | Some l \<Rightarrow> \<rho> l) | Expression \<Rightarrow> C + 2 | IfExpr \<Rightarrow> 0)"

lemma rank_less:
  fixes \<rho> :: "'e \<Rightarrow> nat"
  assumes "\<And>e. \<rho> e \<le> C"
  shows "(case r of Primary \<Rightarrow> 0 | Unary \<Rightarrow> 1 | BinOpRHS e l \<Rightarrow> (case l of None \<Rightarrow> 0 | Some l \<Rightarrow> \<rho> l) | Expression \<Rightarrow> C + 2 | IfExpr \<Rightarrow> 0) < C + 3"
    "(case l of None \<Rightarrow> 0 | Some l \<Rightarrow> \<rho> l) < C + 2"
  using assms by (auto split: request.split option.split intro: le_less_trans [OF assms])

lemma need_less:
  assumes "left \<mu> p' < left \<mu> p" "\<And>e. \<rho> e \<le> C"
  shows "need \<mu> \<rho> C r' p' < need \<mu> \<rho> C r p"
proof -
  have "(C + 3) * left \<mu> p' + (C + 3) \<le> (C + 3) * left \<mu> p"
    using mult_le_mono2 [of "Suc (left \<mu> p')" "left \<mu> p" "C + 3"] assms(1) by simp
  with rank_less(1) [of \<rho> C r', OF assms(2)] show ?thesis unfolding need_def by linarith
qed

lemma need_same:
  assumes "\<And>e. \<rho> e \<le> C" "left \<mu> p' \<le> left \<mu> p"
  shows "need \<mu> \<rho> C Primary p < need \<mu> \<rho> C Unary p"
    "need \<mu> \<rho> C Unary p' < need \<mu> \<rho> C Expression p"
    "need \<mu> \<rho> C (BinOpRHS e l) p' < need \<mu> \<rho> C Expression p"
proof -
  have "(C + 3) * left \<mu> p' \<le> (C + 3) * left \<mu> p" using assms(2) by simp
  with rank_less(2) [of \<rho> C l, OF assms(1)] show "need \<mu> \<rho> C Primary p < need \<mu> \<rho> C Unary p"
    "need \<mu> \<rho> C Unary p' < need \<mu> \<rho> C Expression p"
    "need \<mu> \<rho> C (BinOpRHS e l) p' < need \<mu> \<rho> C Expression p"
    unfolding need_def request.case by linarith+
qed

lemma need_call:
  "\<rho> l' < \<rho> l \<Longrightarrow> need \<mu> \<rho> C (BinOpRHS e (Some l')) p < need \<mu> \<rho> C (BinOpRHS e (Some l)) p"
  by (simp add: need_def)

lemma goal_le: "goal \<mu> r te p \<le> Suc (left \<mu> p)" "left \<mu> p \<le> goal \<mu> r te p"
  by (cases r; simp)+

lemma served_settles:
  assumes "served \<mu> go r te p" "left \<mu> p \<le> m" "left \<mu> p < k \<or> goal \<mu> r te p \<le> k"
  shows "settles \<mu> m k (go r te p)"
  using settles_mono [OF assms(1) [unfolded served_def] assms(2)] assms(3) by auto

lemma ParseIdent_settles:
  assumes "consumes \<mu> src"
  shows "settles \<mu> (left \<mu> p) (Suc (left \<mu> p)) (ParseIdent src b te p)"
  unfolding ParseIdent_def by (rule settles_next [OF assms]) simp

lemma hook_settlesD:
  assumes "hook_settles \<mu> h" "cur p \<noteq> tok ''eof''" "\<And>r te p'. fine r p' \<Longrightarrow> left \<mu> p' < left \<mu> p \<Longrightarrow> served \<mu> go r te p'"
  shows "settles \<mu> (left \<mu> p) (left \<mu> p) (h go te p)"
  using assms unfolding hook_settles_def by blast

lemma hooks_settleD:
  assumes "hooks_settle \<mu> b"
  shows "hook_settles \<mu> (other_primary b)" "hook_settles \<mu> (index_list b)" "hook_settles \<mu> (if_expr b)"
    "hook_settles \<mu> (\<lambda>go. struct_literal b go n)"
  using assms by (auto simp: hooks_settle_def)

lemma ParseIdentifierExpr_settles:
  assumes "consumes \<mu> src" "hooks_settle \<mu> b" "cur p \<noteq> tok ''eof''"
    and go: "\<And>r te p'. fine r p' \<Longrightarrow> left \<mu> p' < left \<mu> p \<Longrightarrow> served \<mu> go r te p'"
  shows "settles \<mu> (left \<mu> p) (left \<mu> p) (ParseIdentifierExpr go src b te p)"
proof -
  have "settles \<mu> (left \<mu> p) (left \<mu> p) (pbind (struct_literal b go Id te p') (\<lambda>(s, p). Ok (if s = None then Some e else s, p)))"
    if l: "left \<mu> p' < left \<mu> p" "cur p' = ch CHR ''{''" for Id p' e
  proof (rule settles_pbind)
    show "settles \<mu> (left \<mu> p') (left \<mu> p') (struct_literal b go Id te p')"
      by (rule hook_settlesD [OF hooks_settleD(4) [OF assms(2)]], simp add: l ch_values tok_values, rule go) (use l in auto)
  qed (use l in simp)
  then show ?thesis
    unfolding ParseIdentifierExpr_def Let_def using assms(3)
    by (intro settles_next [OF assms(1)]) (simp split: option.splits)
qed

lemma starts_not_eof:
  "c \<in> other_starts \<Longrightarrow> c \<noteq> tok ''eof''" "c \<in> tok ` {''if'', ''while'', ''repeat''} \<Longrightarrow> c \<noteq> tok ''eof''"
  "c \<in> prefix_kinds \<Longrightarrow> c \<noteq> tok ''eof'' \<and> c \<noteq> ch CHR '')''"
  "c = ch CHR ''['' \<Longrightarrow> c \<noteq> tok ''eof''"
  by (auto simp: other_starts_def prefix_kinds_def tok_values ch_values)

lemma ParsePrimary_settles:
  assumes src: "consumes \<mu> src" and hooks: "hooks_settle \<mu> b" and "\<And>e. \<rho> e \<le> C"
    and go: "\<And>r te p'. fine r p' \<Longrightarrow> need \<mu> \<rho> C r p' < need \<mu> \<rho> C Primary p \<Longrightarrow> served \<mu> go r te p'"
  shows "settles \<mu> (left \<mu> p) (goal \<mu> Primary te p) (ParsePrimary go src b te p)"
proof -
  have later: "served \<mu> go r te p'" if "fine r p'" "left \<mu> p' < left \<mu> p" for r te p'
    using go [OF that(1) need_less [OF that(2) assms(3)]] .
  have lit: "settles \<mu> (left \<mu> p) (left \<mu> p) (pbind (getNextToken src eBinOp te p) (\<lambda>p'. Ok (Some e, p')))"
    if "cur p \<noteq> tok ''eof''" for e
    using that by (intro settles_next [OF src]) simp
  have paren: "settles \<mu> (left \<mu> p) (left \<mu> p) (ParseParenExpr go src b te p)" if "cur p \<noteq> tok ''eof''"
    unfolding ParseParenExpr_def
  proof (rule settles_next [OF src])
    fix p' assume "left \<mu> p' \<le> left \<mu> p" "cur p \<noteq> tok ''eof'' \<longrightarrow> left \<mu> p' < left \<mu> p"
    with that have l: "left \<mu> p' < left \<mu> p" by simp
    show "settles \<mu> (left \<mu> p) (left \<mu> p) (ebind (go Expression (ch CHR '')'') p') (\<lambda>V p.
            pbind (Eat src (ch CHR '')'') eBinOp te p) (\<lambda>p. Ok (Some V, p))))"
      by (rule settles_ebind [OF served_settles [OF later [OF _ l]], where m' = "left \<mu> p'" and k' = "Suc (left \<mu> p')"])
        (use l in \<open>auto intro!: settles_eat [OF src]\<close>)
  qed
  have other: "settles \<mu> (left \<mu> p) (left \<mu> p) (other_primary b go te p)" if "cur p \<noteq> tok ''eof''"
    by (rule hook_settlesD [OF hooks_settleD(1) [OF hooks] that later])
  have branch: "settles \<mu> (left \<mu> p) (left \<mu> p) (if_expr b go te p)" if "cur p \<noteq> tok ''eof''"
    by (rule hook_settlesD [OF hooks_settleD(3) [OF hooks] that later])
  have weaken: "settles \<mu> (left \<mu> p) (left \<mu> p) r \<Longrightarrow> settles \<mu> (left \<mu> p) (goal \<mu> Primary te p) r" for r
    using settles_mono by fastforce
  show ?thesis
    unfolding ParsePrimary_def ParseNumberExpr_def
    by (intro settles_if; (rule weaken, rule lit paren other branch ParseIdentifierExpr_settles [OF src hooks _ later])?)
      (auto intro: settles_purge [OF src])
qed

lemma ParseUnary_settles:
  assumes src: "consumes \<mu> src" and "\<And>e. \<rho> e \<le> C"
    and go: "\<And>r te p'. fine r p' \<Longrightarrow> need \<mu> \<rho> C r p' < need \<mu> \<rho> C Unary p \<Longrightarrow> served \<mu> go r te p'"
  shows "settles \<mu> (left \<mu> p) (goal \<mu> Unary te p) (ParseUnary go src b te p)"
proof (cases "cur p \<in> prefix_kinds")
  case False
  then show ?thesis unfolding ParseUnary_def
    using go [of Primary, OF _ need_same(1) [OF assms(2) order_refl]] by (simp add: served_def)
next
  case True
  then have eof: "cur p \<noteq> tok ''eof''" and par: "cur p \<noteq> ch CHR '')''" using starts_not_eof(3) by auto
  have later: "served \<mu> go r te p'" if "fine r p'" "left \<mu> p' < left \<mu> p" for r te p'
    using go [OF that(1) need_less [OF that(2) assms(2)]] .
  have "settles \<mu> (left \<mu> p) (left \<mu> p) (ebind (go Unary te p') (\<lambda>Operand p''.
            ebind (go (BinOpRHS (GetTokPrecedence p) (Some Operand)) te p'') (\<lambda>Operand p''.
              Ok (prefix b (cur p) (TokText p) Operand, p''))))"
    if l: "left \<mu> p' < left \<mu> p" for p'
  proof (rule settles_ebind [OF served_settles [OF later [OF _ l]], where m' = "left \<mu> p'" and k' = "Suc (left \<mu> p')"])
    fix e p'' assume "left \<mu> p'' \<le> left \<mu> p'"
    with l have l': "left \<mu> p'' < left \<mu> p" by simp
    show "settles \<mu> (left \<mu> p) (left \<mu> p) (ebind (go (BinOpRHS (GetTokPrecedence p) (Some e)) te p'') (\<lambda>Operand p''.
              Ok (prefix b (cur p) (TokText p) Operand, p'')))"
      by (rule settles_ebind [OF served_settles [OF later [OF _ l']], where m' = "left \<mu> p''" and k' = "Suc (left \<mu> p'')"])
        (use l' in \<open>auto simp: GetTokPrecedence_fine\<close>)
  qed (use l in simp_all)
  with eof par True show ?thesis
    unfolding ParseUnary_def by (auto intro!: settles_next [OF src])
qed

lemma ParseExpression_settles:
  fixes go :: "('e, 's) go"
  assumes src: "consumes \<mu> src" and "\<And>e. \<rho> e \<le> C"
    and go: "\<And>r te p'. fine r p' \<Longrightarrow> need \<mu> \<rho> C r p' < need \<mu> \<rho> C Expression p \<Longrightarrow> served \<mu> go r te p'"
  shows "settles \<mu> (left \<mu> p) (goal \<mu> (Expression :: 'e request) te p) (ParseExpression go src b te p)"
proof -
  let ?k = "goal \<mu> (Expression :: 'e request) te p"
  let ?rest = "\<lambda>(LHS, p). pbind (if LHS \<noteq> None \<and> parseOk p then go (BinOpRHS 0 LHS) te p else Ok (LHS, p)) (\<lambda>(LHS, p).
         if parseOk p then Ok (LHS, p) else Ok (None, p\<lparr>parseOk := True\<rparr>))"
  have "settles \<mu> (left \<mu> p) ?k (?rest (e, p'))" if l: "left \<mu> p' \<le> left \<mu> p" "e \<noteq> None \<longrightarrow> left \<mu> p' < ?k" for e p'
  proof -
    have "settles \<mu> (left \<mu> p) ?k (if e \<noteq> None \<and> parseOk p' then go (BinOpRHS 0 e) te p' else Ok (e, p'))"
      using served_settles [OF go [of "BinOpRHS 0 e" p', OF _ need_same(3) [OF assms(2) l(1)]] l(1)] l by simp
    then show ?thesis
      unfolding prod.case by (rule settles_pbind) (simp add: left_def cur_def)
  qed
  moreover have "settles \<mu> (left \<mu> p) ?k (go Unary te p)"
    using go [of Unary p te, OF _ need_same(2) [OF assms(2) order_refl]] by (simp add: served_def)
  ultimately show ?thesis
    unfolding ParseExpression_def by (intro settles_pbind) blast+
qed

lemma ParseOperand_settles:
  assumes src: "consumes \<mu> src" and hooks: "hooks_settle \<mu> b" and "\<And>e. \<rho> e \<le> C" and l: "left \<mu> p' < left \<mu> p"
    and go: "\<And>r te p'. fine r p' \<Longrightarrow> need \<mu> \<rho> C r p' < need \<mu> \<rho> C q p \<Longrightarrow> served \<mu> go r te p'"
    and prec: "-256 \<le> prec"
  shows "settles \<mu> (left \<mu> p') (Suc (left \<mu> p')) (ParseOperand go src b k prec s te p')"
  unfolding ParseOperand_def
proof (rule settles_ebind [OF _ order_refl])
  have later: "served \<mu> go r te p'" if "fine r p'" "left \<mu> p' < left \<mu> p" for r te p'
    using go [OF that(1) need_less [OF that(2) assms(3)]] .
  have "settles \<mu> (left \<mu> p') (left \<mu> p') (index_list b go te p')" if "cur p' = ch CHR ''[''"
    by (rule hook_settlesD [OF hooks_settleD(2) [OF hooks] starts_not_eof(4) later]) (use l that in auto)
  then have index: "cur p' = ch CHR ''['' \<Longrightarrow> settles \<mu> (left \<mu> p') (Suc (left \<mu> p')) (index_list b go te p')"
    using settles_mono by fastforce
  show "settles \<mu> (left \<mu> p') (Suc (left \<mu> p')) (if k = tok ''selector'' \<and> cur p' = ch CHR ''['' then index_list b go te p'
            else if k = tok ''selector'' \<and> s = ''.'' then ParseIdent src b te p' else go Unary te p')"
    using served_settles [OF later [of Unary, OF _ l]] index
    by (intro settles_if ParseIdent_settles src) auto
next
  fix e p'' assume l': "left \<mu> p'' \<le> left \<mu> p'"
  with l have "left \<mu> p'' < left \<mu> p" by simp
  then show "settles \<mu> (left \<mu> p') (Suc (left \<mu> p')) (if prec \<le> NextTokPrecedence p'' then go (BinOpRHS prec (Some e)) te p'' else Ok (Some e, p''))"
    using served_settles [OF go [of "BinOpRHS prec (Some e)", OF _ need_less [OF _ assms(3)]] l'] l' prec by simp
qed

lemma ParseBinOpRHS_settles:
  assumes src: "consumes \<mu> src" and hooks: "hooks_settle \<mu> b" and calls: "calls_bounded \<rho> C b"
    and prec: "-256 \<le> e"
    and go: "\<And>r te p'. fine r p' \<Longrightarrow> need \<mu> \<rho> C r p' < need \<mu> \<rho> C (BinOpRHS e l) p \<Longrightarrow> served \<mu> go r te p'"
  shows "settles \<mu> (left \<mu> p) (Suc (left \<mu> p)) (ParseBinOpRHS go src b e l te p)"
proof (cases "l = None \<or> \<not> has_type b (the l) \<or> NextTokPrecedence p \<le> e")
  case True
  then show ?thesis by (auto simp: ParseBinOpRHS_def split: option.split)
next
  case False
  then obtain x where l: "l = Some x" "has_type b x" "\<not> NextTokPrecedence p \<le> e" by auto
  have \<rho>: "\<rho> e \<le> C" for e using calls by (simp add: calls_bounded_def)
  have "cur p \<noteq> tok ''eof''"
    using l(3) prec by (intro binop_not_eof) simp
  have later: "settles \<mu> (left \<mu> p) (Suc (left \<mu> p)) (go r te p')" if "left \<mu> p' < left \<mu> p" "fine r p'" for r te p'
    using served_settles [OF go [OF that(2) need_less [OF that(1) \<rho>]]] that(1) by simp
  have call: "settles \<mu> (left \<mu> p) (Suc (left \<mu> p)) (go (BinOpRHS e (Some (call0 b x))) te p)" if "is_callable b x"
    using calls that prec by (intro served_settles go) (simp_all add: l need_call calls_bounded_def)
  have postfix: "settles \<mu> (left \<mu> p) (Suc (left \<mu> p)) (pbind (getNextToken src eBinOp 0 p) (go (BinOpRHS e (Some y)) te))" for y
    using later \<open>cur p \<noteq> _\<close> prec by (intro settles_next [OF src]) simp
  have operand: "settles \<mu> (left \<mu> p) (Suc (left \<mu> p)) (ebind (ParseOperand go src b k prec s te p') (\<lambda>RHS p''.
                if \<not> has_type b RHS then Ok (None, p'') else go (BinOpRHS e (f RHS)) te p''))"
    if "left \<mu> p' < left \<mu> p" "-256 \<le> prec" for p' f k prec s
    using that(1) later prec by (intro settles_ebind [OF ParseOperand_settles [OF src hooks \<rho> that(1) go that(2)]]) auto
  have binary: "settles \<mu> (left \<mu> p) (Suc (left \<mu> p)) (pbind (getNextToken src eNone 0 p) (\<lambda>p'.
      ebind (ParseOperand go src b k prec s te p') (\<lambda>RHS p''.
        if \<not> has_type b RHS then Ok (None, p'') else go (BinOpRHS e (f p' RHS)) te p'')))" if "-256 \<le> prec" for f k prec s
    using \<open>cur p \<noteq> _\<close> that by (intro settles_next [OF src] operand) simp
  show ?thesis
    unfolding ParseBinOpRHS_def l option.case
    by (intro settles_if; (rule binary [OF GetTokPrecedence_fine])?) (auto simp: l intro: call postfix split: option.split)
qed

lemma parse_settles:
  assumes src: "consumes \<mu> src" and hooks: "hooks_settle \<mu> b" and calls: "calls_bounded \<rho> C b"
  shows "need \<mu> \<rho> C r p < n \<Longrightarrow> fine r p \<Longrightarrow> served \<mu> (parse src b n) r te p"
proof (induction n arbitrary: r te p)
  case (Suc n)
  have \<rho>: "\<rho> e \<le> C" for e using calls by (simp add: calls_bounded_def)
  have go: "served \<mu> (parse src b n) r' te' p'"
    if "fine r' p'" "need \<mu> \<rho> C r' p' < need \<mu> \<rho> C r p" for r' te' p'
    using that Suc.prems(1) by (intro Suc.IH) auto
  show ?case
  proof (cases r)
    case Primary
    then show ?thesis using ParsePrimary_settles [OF src hooks \<rho> go] by (simp add: parse.simps served_def)
  next
    case Unary
    then show ?thesis using ParseUnary_settles [OF src \<rho> go] by (simp add: parse.simps served_def)
  next
    case (BinOpRHS e l)
    then show ?thesis
      using ParseBinOpRHS_settles [OF src hooks calls _ go] Suc.prems(2) by (simp add: parse.simps served_def)
  next
    case Expression
    then show ?thesis using ParseExpression_settles [OF src \<rho> go] by (simp add: parse.simps served_def)
  next
    case IfExpr
    have "settles \<mu> (left \<mu> p) (left \<mu> p) (if_expr b (parse src b n) te p)"
      using Suc.prems(2) IfExpr
      by (intro hook_settlesD [OF hooks_settleD(3) [OF hooks]] go) (auto intro: need_less \<rho>)
    then show ?thesis using IfExpr by (simp add: parse.simps served_def)
  qed
qed simp

text \<open>Tokens from a list; a line ends with a semicolon.\<close>

definition token_list :: "(token \<times> string) list token_source" where
  "token_list =
     \<lparr>get_token = (\<lambda>e t s. Some (case s of [] \<Rightarrow> ((TokKind (tok ''eof''), ''''), []) | x # s \<Rightarrow> (x, s))),
      purge = (\<lambda>s. Some (TokKind (ch CHR '';''), tl (dropWhile (\<lambda>(t, x). kind t \<noteq> ch CHR '';'') s)))\<rparr>"

lemma token_list_consumes: "consumes length token_list"
  using length_dropWhile_le [of "\<lambda>(t, x). kind t \<noteq> ch CHR '';''"]
  by (auto simp: consumes_def token_list_def split: list.splits intro: le_trans [OF diff_le_self])

end
