(* ===== verification/BlockEnd.thy ===== *)
theory BlockEnd
  imports Blocks ExprEnd
begin

text \<open>
  The parsers of Blocks end, so the parser of expressions with \<open>if\<close> and \<open>for\<close> ends by ExprEnd. The
  lemmas say what is left of the input after each of them.
\<close>

section \<open>Results\<close>

definition ends :: "('x \<Rightarrow> bool) \<Rightarrow> 'x parsed \<Rightarrow> bool" where
  "ends P r \<longleftrightarrow> r \<noteq> NoFuel \<and> (\<forall>x. r = Ok x \<longrightarrow> P x)"

lemma ends_simps [simp]: "ends P (Ok x) \<longleftrightarrow> P x" "ends P Exited" "ends P Wild" "\<not> ends P NoFuel"
  by (auto simp: ends_def)

lemma ends_pbind:
  assumes "ends P r" "\<And>x. P x \<Longrightarrow> ends Q (f x)"
  shows "ends Q (pbind r f)"
  using assms by (cases r) auto

lemma ends_mono: "ends P r \<Longrightarrow> (\<And>x. P x \<Longrightarrow> Q x) \<Longrightarrow> ends Q r"
  by (cases r) auto

lemma ends_if: "(c \<Longrightarrow> ends Q r) \<Longrightarrow> (\<not> c \<Longrightarrow> ends Q r') \<Longrightarrow> ends Q (if c then r else r')"
  by simp

lemma ends_ebind:
  assumes "ends P r" "\<And>e p. P (e, p) \<Longrightarrow> ends Q (case e of None \<Rightarrow> Ok (None, p) | Some e \<Rightarrow> f e p)"
  shows "ends Q (ebind r f)"
  unfolding ebind_def by (rule ends_pbind [OF assms(1)]) (use assms(2) in \<open>auto split: prod.split\<close>)

lemma ends_ploop:
  assumes "P x" "\<And>x. c x \<Longrightarrow> P x \<Longrightarrow> ends (\<lambda>y. P y \<and> (c y \<longrightarrow> M y < (M x :: nat))) (f x)"
  shows "ends (\<lambda>y. P y \<and> \<not> c y) (ploop c f x)"
  using assms(1)
proof (induction "M x" arbitrary: x rule: less_induct)
  case less
  show ?case
  proof (cases "c x")
    case True
    have "ends (\<lambda>y. P y \<and> \<not> c y) (pbind (f x) (ploop c f))"
    proof (rule ends_pbind [OF assms(2) [OF True less.prems]])
      fix y assume "P y \<and> (c y \<longrightarrow> M y < M x)"
      then show "ends (\<lambda>y. P y \<and> \<not> c y) (ploop c f y)"
        using less.hyps [of y] by (cases "c y") (auto simp: ploop_unfold [of c f y])
    qed
    with True show ?thesis by (subst ploop_unfold) simp
  qed (use less.prems in \<open>simp add: ploop_unfold [of c f x]\<close>)
qed

lemma settles_ends: "settles \<mu> m k r \<longleftrightarrow> ends (\<lambda>(e, p). left \<mu> p \<le> m \<and> (e \<noteq> None \<longrightarrow> left \<mu> p < k)) r"
  by (auto simp: settles_def ends_def)

section \<open>What is left\<close>

definition input_left :: "('t \<Rightarrow> nat) \<Rightarrow> 't scopes \<Rightarrow> nat" where
  "input_left \<mu> s = \<mu> (stream s)"

lemma consumes_scoped: "consumes \<mu> src \<Longrightarrow> consumes (input_left \<mu>) (scoped src)"
  unfolding consumes_def scoped_def input_left_def by (auto, metis fst_conv)

abbreviation rest :: "('t \<Rightarrow> nat) \<Rightarrow> 't scopes parser \<Rightarrow> nat" where
  "rest \<mu> \<equiv> left (input_left \<mu>)"

definition serves :: "('t \<Rightarrow> nat) \<Rightarrow> ('e, 't scopes) go \<Rightarrow> nat \<Rightarrow> bool" where
  "serves \<mu> go L \<longleftrightarrow> (\<forall>r te p. fine r p \<longrightarrow> rest \<mu> p < L \<longrightarrow> served (input_left \<mu>) go r te p)"

definition control_keeps :: "('t \<Rightarrow> nat) \<Rightarrow> ('e, 't, 'c) block_ops \<Rightarrow> bool" where
  "control_keeps \<mu> ops \<longleftrightarrow> (\<forall>k it p. rest \<mu> (snd (declare_control ops k it p)) \<le> rest \<mu> p)"

lemma rest_scope: "(\<And>s. stream (f s) = stream s) \<Longrightarrow> rest \<mu> (scope f p) = rest \<mu> p"
  by (simp add: left_def scope_def cur_def input_left_def)

lemma cur_scope [simp]: "cur (scope f p) = cur p"
  by (simp add: scope_def cur_def)

lemma rest_push [simp]:
  "rest \<mu> (push_nesting n p) = rest \<mu> p" "rest \<mu> (push_part b p) = rest \<mu> p" "rest \<mu> (push_locals p) = rest \<mu> p"
  by (simp_all add: push_nesting_def push_part_def push_locals_def rest_scope)

lemma cur_push [simp]: "cur (push_nesting n p) = cur p" "cur (push_part b p) = cur p" "cur (push_locals p) = cur p"
  by (simp_all add: push_nesting_def push_part_def push_locals_def)

lemma ends_back: "ends (\<lambda>x. True) (vector_back xs)"
  by (simp add: vector_back_def)

lemma ends_pops:
  "ends (\<lambda>p'. rest \<mu> p' = rest \<mu> p \<and> cur p' = cur p) (pop_nesting p)"
  "ends (\<lambda>p'. rest \<mu> p' = rest \<mu> p \<and> cur p' = cur p) (pop_part p)"
  "ends (\<lambda>(t, p'). rest \<mu> p' = rest \<mu> p \<and> cur p' = cur p) (pop_locals p)"
  "ends (\<lambda>p'. rest \<mu> p' = rest \<mu> p \<and> cur p' = cur p) (change_part f p)"
  by (auto simp: pop_nesting_def pop_part_def pop_locals_def change_part_def rest_scope intro!: ends_pbind [OF ends_back])

lemma ends_next:
  assumes "consumes (input_left \<mu>) src"
  shows "ends (\<lambda>p'. rest \<mu> p' \<le> rest \<mu> p \<and> (cur p \<noteq> tok ''eof'' \<longrightarrow> rest \<mu> p' < rest \<mu> p)) (getNextToken src e t p)"
  using getNextToken_left [OF assms] by (cases "getNextToken src e t p") (auto simp: getNextToken_def split: option.splits)

lemma ends_Expect:
  assumes "consumes (input_left \<mu>) src"
  shows "ends (\<lambda>(ok, p'). rest \<mu> p' \<le> rest \<mu> p) (Expect src t e te p)"
  unfolding Expect_def by (auto intro!: ends_pbind [OF ends_next [OF assms]])

lemma ends_go:
  assumes "serves \<mu> go L" "fine r p" "rest \<mu> p < L"
  shows "ends (\<lambda>(e, p'). rest \<mu> p' \<le> rest \<mu> p \<and> (e \<noteq> None \<longrightarrow> rest \<mu> p' < goal (input_left \<mu>) r te p)) (go r te p)"
  using assms by (auto simp: serves_def served_def settles_ends)

section \<open>Statements\<close>

lemma block_tok_values:
  "tok ''return'' = -63" "tok ''brk'' = -54" "tok ''else'' = -56" "tok ''elif'' = -55" "tok ''end'' = -52" "tok ''until'' = -65"
  "tok ''global'' = -66" "tok ''const'' = -71" "tok ''atomic'' = -67" "tok ''in'' = -60" "tok ''reverse_in'' = -59"
  by code_simp+


lemma not_brk: "\<not> is_brk 0" "\<not> is_brk (tok ''return'')" "\<not> is_brk (tok ''else'')" "\<not> is_brk (tok ''elif'')"
  "\<not> is_brk (tok ''end'')" "\<not> is_brk (tok ''until'')"
  by code_simp+

lemma ends_skip:
  assumes "consumes (input_left \<mu>) src"
  shows "ends (\<lambda>p'. rest \<mu> p' \<le> rest \<mu> p) (skip_semicolons src p)"
proof -
  have "ends (\<lambda>p'. rest \<mu> p' \<le> rest \<mu> p \<and> cur p' \<noteq> ch CHR '';'') (skip_semicolons src p)"
    unfolding skip_semicolons_def
  proof (rule ends_ploop [where M = "rest \<mu>"])
    fix x assume x: "cur x = ch CHR '';''" "rest \<mu> x \<le> rest \<mu> p"
    then have "cur x \<noteq> tok ''eof''" by (simp add: tok_values ch_values)
    with x(2) show "ends (\<lambda>y. rest \<mu> y \<le> rest \<mu> p \<and> (cur y = ch CHR '';'' \<longrightarrow> rest \<mu> y < rest \<mu> x)) (getNextToken src eNone 0 x)"
      by (auto intro: ends_mono [OF ends_next [OF assms]])
  qed simp
  then show ?thesis by (rule ends_mono) simp
qed

text \<open>The kinds of ends that a loop goes on after.\<close>

definition counts :: "int \<Rightarrow> bool" where
  "counts k \<longleftrightarrow> is_brk k \<or> k = tok ''global''"

lemma not_counts: "\<not> counts 0" "\<not> counts (tok ''return'')" "\<not> counts (tok ''else'')" "\<not> counts (tok ''elif'')"
  "\<not> counts (tok ''end'')" "\<not> counts (tok ''until'')"
  by (simp_all add: counts_def not_brk) (simp_all add: block_tok_values)

lemma statement_expression:
  assumes "serves \<mu> go L" "rest \<mu> p < L" "rest \<mu> p \<le> m" "k \<noteq> 0 \<and> rest \<mu> p < m \<or> \<not> counts k"
  shows "ends (\<lambda>((e, k), p'). rest \<mu> p' \<le> m \<and> (e \<noteq> None \<or> counts k \<longrightarrow> rest \<mu> p' < m))
    (pbind (go Expression 0 p) (\<lambda>(e, p). Ok ((e, k), p)))"
proof (rule ends_pbind [OF ends_go [OF assms(1) _ assms(2)]])
  have "goal (input_left \<mu>) Expression 0 p = rest \<mu> p" by (simp add: ch_values)
  then show "ends (\<lambda>((e, k), p'). rest \<mu> p' \<le> m \<and> (e \<noteq> None \<or> counts k \<longrightarrow> rest \<mu> p' < m)) (case x of (e, p) \<Rightarrow> Ok ((e, k), p))"
    if "case x of (e, p') \<Rightarrow> rest \<mu> p' \<le> rest \<mu> p \<and> (e \<noteq> None \<longrightarrow> rest \<mu> p' < goal (input_left \<mu>) Expression 0 p)" for x
    using that assms(3,4) by auto
qed simp

lemma ends_ExprOrReturn:
  assumes "consumes (input_left \<mu>) src" "serves \<mu> go L" "rest \<mu> p < L"
  shows "ends (\<lambda>((e, k), p'). rest \<mu> p' \<le> rest \<mu> p \<and> (e \<noteq> None \<or> counts k \<longrightarrow> rest \<mu> p' < rest \<mu> p)) (ParseExprOrReturn go src p)"
  unfolding ParseExprOrReturn_def Let_def
proof (rule ends_pbind [OF ends_skip [OF assms(1)]], intro ends_if)
  fix q assume q: "rest \<mu> q \<le> rest \<mu> p"
  let ?Q = "\<lambda>((e, k), p'). rest \<mu> p' \<le> rest \<mu> p \<and> (e \<noteq> None \<or> counts k \<longrightarrow> rest \<mu> p' < rest \<mu> p)"
  show "ends ?Q (pbind (getNextToken src eSemi 0 q) (\<lambda>p. if cur p = ch CHR '';'' \<or> cur p = tok ''end'' then Ok ((None, cur q), p)
      else pbind (go Expression 0 p) (\<lambda>(e, p). Ok ((e, cur q), p))))" if c: "cur q = tok ''return''"
  proof (rule ends_pbind [OF ends_next [OF assms(1)]], intro ends_if)
    fix r assume r: "rest \<mu> r \<le> rest \<mu> q \<and> (cur q \<noteq> tok ''eof'' \<longrightarrow> rest \<mu> r < rest \<mu> q)"
    show "ends ?Q (Ok ((None, cur q), r))" using r q by (simp add: c not_counts)
    show "ends ?Q (pbind (go Expression 0 r) (\<lambda>(e, p). Ok ((e, cur q), p)))"
      using r q assms(3) by (intro statement_expression [OF assms(2)]) (auto simp: c not_counts)
  qed
  show "ends ?Q (pbind (getNextToken src eSemi 0 q) (\<lambda>p.
           pbind (ploop (\<lambda>(levels, p). cur p = tok ''brk'')
               (\<lambda>(levels, p). pbind (getNextToken src eSemi 0 p) (\<lambda>p. Ok (levels + 1, p))) (1, p)) (\<lambda>(levels, p).
             if int (length (current_branch_part (source p))) < levels then Ok ((None, 0), p)
             else pbind (go Expression 0 p) (\<lambda>(e, p). Ok ((e, brk_end_kind (cur q) levels), p)))))" if c: "cur q = tok ''brk''"
  proof (rule ends_pbind [OF ends_next [OF assms(1)]])
    fix r assume "rest \<mu> r \<le> rest \<mu> q \<and> (cur q \<noteq> tok ''eof'' \<longrightarrow> rest \<mu> r < rest \<mu> q)"
    then have r: "rest \<mu> r < rest \<mu> p" using q by (simp add: c block_tok_values tok_values)
    show "ends ?Q (pbind (ploop (\<lambda>(levels, p). cur p = tok ''brk'')
               (\<lambda>(levels, p). pbind (getNextToken src eSemi 0 p) (\<lambda>p. Ok (levels + 1, p))) (1, r)) (\<lambda>(levels, p).
             if int (length (current_branch_part (source p))) < levels then Ok ((None, 0), p)
             else pbind (go Expression 0 p) (\<lambda>(e, p). Ok ((e, brk_end_kind (cur q) levels), p))))"
    proof (rule ends_pbind [OF ends_ploop [where P = "\<lambda>(l, s). rest \<mu> s < rest \<mu> p" and M = "\<lambda>(l, s). rest \<mu> s"]])
      fix x :: "int \<times> 'a scopes parser"
      assume x: "case x of (levels, p) \<Rightarrow> cur p = tok ''brk''" "case x of (l, s) \<Rightarrow> rest \<mu> s < rest \<mu> p"
      obtain l s where s: "x = (l, s)" by fastforce
      have "cur s \<noteq> tok ''eof''" using x(1) s by (simp add: block_tok_values tok_values)
      then show "ends (\<lambda>y. (case y of (l, s) \<Rightarrow> rest \<mu> s < rest \<mu> p) \<and>
          ((case y of (levels, p) \<Rightarrow> cur p = tok ''brk'') \<longrightarrow> (case y of (l, s) \<Rightarrow> rest \<mu> s) < (case x of (l, s) \<Rightarrow> rest \<mu> s)))
        (case x of (levels, p) \<Rightarrow> pbind (getNextToken src eSemi 0 p) (\<lambda>p. Ok (levels + 1, p)))"
        using x(2) s by (auto intro!: ends_pbind [OF ends_next [OF assms(1)]])
    next
      fix x :: "int \<times> 'a scopes parser"
      assume x: "(case x of (l, s) \<Rightarrow> rest \<mu> s < rest \<mu> p) \<and> \<not> (case x of (levels, p) \<Rightarrow> cur p = tok ''brk'')"
      obtain l s where s: "x = (l, s)" by fastforce
      show "ends ?Q (case x of (levels, p) \<Rightarrow> if int (length (current_branch_part (source p))) < levels then Ok ((None, 0), p)
             else pbind (go Expression 0 p) (\<lambda>(e, p). Ok ((e, brk_end_kind (cur q) levels), p)))"
        unfolding s prod.case using x s assms(3)
        by (intro ends_if statement_expression [OF assms(2)]) (auto simp: not_counts)
    qed (use r in simp)
  qed
  show "ends ?Q (pbind (go Expression 0 q) (\<lambda>(e, p). Ok ((e, 0), p)))"
    using q assms(3) by (intro statement_expression [OF assms(2)]) (auto simp: not_counts)
  show "ends ?Q (Ok ((None, cur q), q))" if "cur q \<in> {tok ''else'', tok ''elif'', tok ''end'', tok ''until''}"
    using q that not_counts by auto
  show "ends ?Q (Ok ((None, 0), q))" using q not_counts by simp
qed

lemma ends_list_step:
  assumes "rest \<mu> q \<le> m" "e \<noteq> None \<or> counts k \<longrightarrow> rest \<mu> q < m"
  shows "ends (\<lambda>(stop, list, k, mx, p'). rest \<mu> p' \<le> m \<and> (is_brk k \<or> \<not> stop \<and> k = 0 \<longrightarrow> rest \<mu> p' < m)) (expr_list_step ops e k list mx q)"
proof (cases e)
  case None
  then show ?thesis using assms by (auto simp: expr_list_step_def not_brk counts_def)
next
  case (Some x)
  then show ?thesis
    using assms by (auto simp: expr_list_step_def not_brk counts_def intro!: ends_pbind [OF ends_back] split: option.split)
qed

lemma ends_ExprList:
  assumes "consumes (input_left \<mu>) src" "serves \<mu> go L" "rest \<mu> p < L"
  shows "ends (\<lambda>((list, k, mx), p'). rest \<mu> p' \<le> rest \<mu> p \<and> (is_brk k \<longrightarrow> rest \<mu> p' < rest \<mu> p)) (ParseExprList ops go src p)"
  unfolding ParseExprList_def
proof (rule ends_pbind [OF ends_ploop [where M = "\<lambda>(stop, list, k, mx, s). rest \<mu> s"
      and P = "\<lambda>(stop, list, k, mx, s). rest \<mu> s \<le> rest \<mu> p \<and> (is_brk k \<longrightarrow> rest \<mu> s < rest \<mu> p)"]])
  fix x :: "bool \<times> 'b list \<times> int \<times> int \<times> 'a scopes parser"
  assume x: "case x of (stop, list, k, mx, s) \<Rightarrow> \<not> stop \<and> k = 0"
    "case x of (stop, list, k, mx, s) \<Rightarrow> rest \<mu> s \<le> rest \<mu> p \<and> (is_brk k \<longrightarrow> rest \<mu> s < rest \<mu> p)"
  obtain stop list k mx s where s: "x = (stop, list, k, mx, s)" by (cases x)
  have l: "rest \<mu> s < L" using x(2) s assms(3) by simp
  have "ends (\<lambda>y. (case y of (stop, list, k, mx, s) \<Rightarrow> rest \<mu> s \<le> rest \<mu> p \<and> (is_brk k \<longrightarrow> rest \<mu> s < rest \<mu> p)) \<and>
      ((case y of (stop, list, k, mx, s) \<Rightarrow> \<not> stop \<and> k = 0) \<longrightarrow> (case y of (stop, list, k, mx, s) \<Rightarrow> rest \<mu> s) < rest \<mu> s))
    (pbind (ParseExprOrReturn go src s) (\<lambda>((e, k), p). expr_list_step ops e k list mx p))"
  proof (rule ends_pbind [OF ends_ExprOrReturn [OF assms(1,2) l]])
    fix y :: "('b option \<times> int) \<times> 'a scopes parser"
    assume y: "case y of (x, p') \<Rightarrow> (case x of (e, k) \<Rightarrow> \<lambda>p'. rest \<mu> p' \<le> rest \<mu> s \<and> (e \<noteq> None \<or> counts k \<longrightarrow> rest \<mu> p' < rest \<mu> s)) p'"
    obtain e k' q where y': "y = ((e, k'), q)" by (metis surj_pair)
    have "rest \<mu> q \<le> rest \<mu> s" "e \<noteq> None \<or> counts k' \<longrightarrow> rest \<mu> q < rest \<mu> s" using y y' by auto
    from ends_list_step [OF this]
    have "ends (\<lambda>(stop, list, k, mx, p'). rest \<mu> p' \<le> rest \<mu> s \<and> (is_brk k \<or> \<not> stop \<and> k = 0 \<longrightarrow> rest \<mu> p' < rest \<mu> s)) (expr_list_step ops e k' list mx q)" .
    then show "ends (\<lambda>y. (case y of (stop, list, k, mx, s) \<Rightarrow> rest \<mu> s \<le> rest \<mu> p \<and> (is_brk k \<longrightarrow> rest \<mu> s < rest \<mu> p)) \<and>
      ((case y of (stop, list, k, mx, s) \<Rightarrow> \<not> stop \<and> k = 0) \<longrightarrow> (case y of (stop, list, k, mx, s) \<Rightarrow> rest \<mu> s) < rest \<mu> s))
      (case y of (x, p) \<Rightarrow> (case x of (e, k) \<Rightarrow> \<lambda>p. expr_list_step ops e k list mx p) p)"
      unfolding y' prod.case by (rule ends_mono) (use x(2) s in auto)
  qed
  then show "ends (\<lambda>y. (case y of (stop, list, k, mx, s) \<Rightarrow> rest \<mu> s \<le> rest \<mu> p \<and> (is_brk k \<longrightarrow> rest \<mu> s < rest \<mu> p)) \<and>
      ((case y of (stop, list, k, mx, s) \<Rightarrow> \<not> stop \<and> k = 0) \<longrightarrow>
       (case y of (stop, list, k, mx, s) \<Rightarrow> rest \<mu> s) < (case x of (stop, list, k, mx, s) \<Rightarrow> rest \<mu> s)))
    (case x of (stop, list, k, mx, p) \<Rightarrow> pbind (ParseExprOrReturn go src p) (\<lambda>((e, k), p). expr_list_step ops e k list mx p))"
    by (simp add: s)
next
  fix x :: "bool \<times> 'b list \<times> int \<times> int \<times> 'a scopes parser"
  assume x: "(case x of (stop, list, k, mx, s) \<Rightarrow> rest \<mu> s \<le> rest \<mu> p \<and> (is_brk k \<longrightarrow> rest \<mu> s < rest \<mu> p)) \<and>
    \<not> (case x of (stop, list, k, mx, s) \<Rightarrow> \<not> stop \<and> k = 0)"
  obtain stop list k mx s where s: "x = (stop, list, k, mx, s)" by (cases x)
  show "ends (\<lambda>((list, k, mx), p'). rest \<mu> p' \<le> rest \<mu> p \<and> (is_brk k \<longrightarrow> rest \<mu> p' < rest \<mu> p))
    (case x of (stop, list, k, mx, p) \<Rightarrow>
       if is_brk k then
         (case brk_depth (brk_levels k) (rev (syntax_nesting (source p))) 0 of
            None \<Rightarrow> Ok (([], 0, 0), p)
          | Some d \<Rightarrow> Ok ((list, brk_end_kind (tok ''brk'') d, max mx d), p))
       else Ok ((list, k, mx), p))"
    unfolding s prod.case using x s by (auto simp: not_brk split: option.split)
qed (simp add: not_brk)

section \<open>Branches\<close>

lemma ends_destruct: "ends (\<lambda>v. True) (get_destruct_vars n ts)"
  by (simp add: get_destruct_vars_def Let_def)

lemma ends_branch_step:
  assumes "rest \<mu> q \<le> m" "is_brk k \<longrightarrow> rest \<mu> q < m"
  shows "ends (\<lambda>(stop, bs, mx, p'). rest \<mu> p' \<le> m \<and> (\<not> stop \<longrightarrow> rest \<mu> p' < m)) (branch_step (list, k, level) bs mx q)"
  unfolding branch_step_def Let_def prod.case
proof (rule ends_pbind [OF ends_destruct], intro ends_if)
  show "ends (\<lambda>(stop, bs, mx, p'). rest \<mu> p' \<le> m \<and> (\<not> stop \<longrightarrow> rest \<mu> p' < m))
    (pbind (change_part next_brk_part q) (\<lambda>p. Ok (False, bs', mx', p)))" if "is_brk k" for bs' mx'
    by (rule ends_pbind [OF ends_pops(4) [where \<mu> = \<mu>]]) (use that assms in simp)
qed (use assms(1) in simp)

lemma ends_Branches:
  fixes go :: "('e, 't scopes) go"
  assumes "consumes (input_left \<mu>) src" "serves \<mu> go L" "rest \<mu> p < L"
  shows "ends (\<lambda>(x, p'). rest \<mu> p' \<le> rest \<mu> p) (ParseBranches ops go src p)"
  unfolding ParseBranches_def
proof (rule ends_pbind [OF ends_ploop [where M = "\<lambda>(stop, bs, mx, s). rest \<mu> s" and P = "\<lambda>(stop, bs, mx, s). rest \<mu> s \<le> rest \<mu> p"]])
  fix x :: "bool \<times> 'e branch_desc list \<times> int \<times> 't scopes parser"
  assume x: "case x of (stop, bs, mx, s) \<Rightarrow> \<not> stop" "case x of (stop, bs, mx, s) \<Rightarrow> rest \<mu> s \<le> rest \<mu> p"
  obtain stop bs mx s where s: "x = (stop, bs, mx, s)" by (cases x)
  have l: "rest \<mu> s < L" using x(2) s assms(3) by simp
  have "ends (\<lambda>y. (case y of (stop, bs, mx, s) \<Rightarrow> rest \<mu> s \<le> rest \<mu> p) \<and>
      ((case y of (stop, bs, mx, s) \<Rightarrow> \<not> stop) \<longrightarrow> (case y of (stop, bs, mx, s) \<Rightarrow> rest \<mu> s) < rest \<mu> s))
    (pbind (ParseExprList ops go src s) (\<lambda>(part, p). branch_step part bs mx p))"
  proof (rule ends_pbind [OF ends_ExprList [OF assms(1,2) l]])
    fix y :: "('e list \<times> int \<times> int) \<times> 't scopes parser"
    assume y: "case y of (x, p') \<Rightarrow> (case x of (list, k, mx) \<Rightarrow> \<lambda>p'. rest \<mu> p' \<le> rest \<mu> s \<and> (is_brk k \<longrightarrow> rest \<mu> p' < rest \<mu> s)) p'"
    obtain list k level q where y': "y = ((list, k, level), q)" by (metis surj_pair)
    have "rest \<mu> q \<le> rest \<mu> s" "is_brk k \<longrightarrow> rest \<mu> q < rest \<mu> s" using y y' by auto
    from ends_branch_step [OF this]
    have "ends (\<lambda>(stop, bs, mx, p'). rest \<mu> p' \<le> rest \<mu> s \<and> (\<not> stop \<longrightarrow> rest \<mu> p' < rest \<mu> s)) (branch_step (list, k, level) bs mx q)" .
    then show "ends (\<lambda>y. (case y of (stop, bs, mx, s) \<Rightarrow> rest \<mu> s \<le> rest \<mu> p) \<and>
      ((case y of (stop, bs, mx, s) \<Rightarrow> \<not> stop) \<longrightarrow> (case y of (stop, bs, mx, s) \<Rightarrow> rest \<mu> s) < rest \<mu> s))
      (case y of (part, p) \<Rightarrow> branch_step part bs mx p)"
      unfolding y' prod.case by (rule ends_mono) (use x(2) s in auto)
  qed
  then show "ends (\<lambda>y. (case y of (stop, bs, mx, s) \<Rightarrow> rest \<mu> s \<le> rest \<mu> p) \<and>
      ((case y of (stop, bs, mx, s) \<Rightarrow> \<not> stop) \<longrightarrow> (case y of (stop, bs, mx, s) \<Rightarrow> rest \<mu> s) < (case x of (stop, bs, mx, s) \<Rightarrow> rest \<mu> s)))
    (case x of (stop, bs, mx, p) \<Rightarrow> pbind (ParseExprList ops go src p) (\<lambda>(part, p). branch_step part bs mx p))"
    by (simp add: s)
qed auto

lemma ends_Condition:
  assumes "consumes (input_left \<mu>) src" "serves \<mu> go L" "rest \<mu> p < L"
  shows "ends (\<lambda>(e, p'). rest \<mu> p' \<le> rest \<mu> p) (ParseCondition go src k te p)"
  unfolding ParseCondition_def ebind_def
proof (rule ends_pbind [OF ends_go [OF assms(2) _ assms(3)]])
  fix x :: "'b option \<times> 'a scopes parser"
  assume x: "case x of (e, p') \<Rightarrow> rest \<mu> p' \<le> rest \<mu> p \<and> (e \<noteq> None \<longrightarrow> rest \<mu> p' < goal (input_left \<mu>) Expression te p)"
  obtain e q where s: "x = (e, q)" by fastforce
  have "ends (\<lambda>(e, p'). rest \<mu> p' \<le> rest \<mu> p) (pbind (Expect src (ch CHR '';'') eNone 0 q) (\<lambda>(ok, p). Ok (if ok then Some y else None, p)))" for y :: 'b
    by (rule ends_pbind [OF ends_Expect [OF assms(1)]]) (use x s in auto)
  then show "ends (\<lambda>(e, p'). rest \<mu> p' \<le> rest \<mu> p)
    (case x of (e, p) \<Rightarrow> (case e of None \<Rightarrow> Ok (None, p) | Some e \<Rightarrow>
       if k = tok ''repeat'' then Ok (Some e, p)
       else pbind (Expect src (ch CHR '';'') eNone 0 p) (\<lambda>(ok, p). Ok (if ok then Some e else None, p))))"
    using x s by (auto split: option.split)
qed simp

lemma ends_else_start:
  assumes "consumes (input_left \<mu>) src"
  shows "ends (\<lambda>(x, p'). rest \<mu> p' \<le> rest \<mu> p) (else_start src k te p)"
proof -
  have n: "ends (\<lambda>(x, p'). rest \<mu> p' \<le> rest \<mu> p) (pbind (if c then Ok q else getNextToken src eNone 0 q) (\<lambda>p. Ok (y, p)))"
    if "rest \<mu> q \<le> rest \<mu> p" for c q and y :: "(bool \<times> int) option"
    using that by (auto intro!: ends_pbind [OF ends_next [OF assms]])
  have n': "ends (\<lambda>(x, p'). rest \<mu> p' \<le> rest \<mu> p) (pbind (getNextToken src eNone 0 q) (\<lambda>p. Ok (y, p)))"
    if "rest \<mu> q \<le> rest \<mu> p" for q and y :: "(bool \<times> int) option"
    using n [OF that, of False] by simp
  have "ends (\<lambda>(x, p'). rest \<mu> p' \<le> rest \<mu> p)
     (if te = tok ''else'' \<or> te = tok ''elif'' then
          pbind (if te = tok ''elif'' then Ok p else getNextToken src eNone 0 p) (\<lambda>p. Ok (Some (True, te), p))
        else if te = tok ''return'' then
          pbind (skip_semicolons src p) (\<lambda>p.
            let k = cur p in
            if k = tok ''end'' then pbind (getNextToken src eNone 0 p) (\<lambda>p. Ok (Some (False, k), p))
            else if k = tok ''else'' \<or> k = tok ''elif'' then
              pbind (if k = tok ''elif'' then Ok p else getNextToken src eNone 0 p) (\<lambda>p. Ok (Some (True, k), p))
            else Ok (None, p))
        else Ok (Some (False, 0), p))"
    unfolding Let_def
    by (intro ends_if n order_refl ends_pbind [OF ends_skip [OF assms]] n') simp_all
  then show ?thesis
    unfolding else_start_def by (rule ends_pbind) auto
qed

lemma ends_elif_branch:
  assumes "serves \<mu> go L" "rest \<mu> p < L" "cur p = tok ''elif''"
  shows "ends (\<lambda>(x, p'). rest \<mu> p' \<le> rest \<mu> p) (elif_branch ops go p)"
  unfolding elif_branch_def Let_def
  by (rule ends_pbind [OF ends_go [OF assms(1) _ assms(2)]])
    (use assms(3) in \<open>auto simp: block_tok_values tok_values split: option.splits intro!: ends_pbind [OF ends_destruct]\<close>)

lemma ends_else_branch:
  assumes "consumes (input_left \<mu>) src" "serves \<mu> go L" "rest \<mu> p < L"
  shows "ends (\<lambda>(x, p'). rest \<mu> p' \<le> rest \<mu> p) (else_branch ops go src p)"
proof -
  have "ends (\<lambda>(x, p'). rest \<mu> p' \<le> rest \<mu> p) (pbind (skip_semicolons src q) (\<lambda>p.
           if cur p = tok ''end'' then pbind (getNextToken src eNone 0 p) (\<lambda>p. Ok (Some (bs, mx), p)) else Ok (None, p)))"
    if "rest \<mu> q \<le> rest \<mu> p" for q and bs :: "'b branch_desc list" and mx :: int
    using that by (intro ends_pbind [OF ends_skip [OF assms(1)]] ends_if ends_pbind [OF ends_next [OF assms(1)]]) auto
  then show ?thesis
    unfolding else_branch_def by (intro ends_pbind [OF ends_Branches [OF assms]]) auto
qed

lemma rest_add_outer: "rest \<mu> (snd (add_outer r k v p)) = rest \<mu> p"
  by (simp add: add_outer_def Let_def rest_scope)

lemma ends_merge:
  "ends (\<lambda>(x, p'). rest \<mu> p' = rest \<mu> p) (merge_vars f r t s p)"
proof (induction t arbitrary: s p)
  case (Cons x t)
  obtain k v where x: "x = (k, v)" by fastforce
  show ?case
  proof (cases "f k v")
    case (Some w)
    obtain ok q where a: "add_outer r k w p = (ok, q)" by fastforce
    then have q: "rest \<mu> q = rest \<mu> p" using rest_add_outer [of \<mu> r k w p] by simp
    have "ends (\<lambda>(x, p'). rest \<mu> p' = rest \<mu> p) (merge_vars f r t s' q)" for s'
      using Cons.IH [of q s'] q by simp
    then show ?thesis using Cons.IH Some a q by (simp add: x vector_back_def split: bool.split)
  qed (use Cons.IH x in simp)
qed simp

text \<open>Most of the parsers leave at most as much as there was before.\<close>

abbreviation leaves :: "('t \<Rightarrow> nat) \<Rightarrow> nat \<Rightarrow> ('x \<times> 't scopes parser) parsed \<Rightarrow> bool" where
  "leaves \<mu> m \<equiv> ends (\<lambda>(x, p). rest \<mu> p \<le> m)"

lemma leaves_pbind:
  assumes "leaves \<mu> m r" "\<And>x p. rest \<mu> p \<le> m \<Longrightarrow> leaves \<mu> m' (f x p)"
  shows "leaves \<mu> m' (pbind r (\<lambda>(x, p). f x p))"
  by (rule ends_pbind [OF assms(1)]) (use assms(2) in auto)

lemma leaves_pair: "(\<And>a b. leaves \<mu> m (f a b p)) \<Longrightarrow> leaves \<mu> m ((case x of (a, b) \<Rightarrow> f a b) p)"
  by (cases x) auto

lemma leaves_ebind:
  assumes "leaves \<mu> m r" "\<And>x p. rest \<mu> p \<le> m \<Longrightarrow> leaves \<mu> m' (f x p)" "m \<le> m'"
  shows "leaves \<mu> m' (ebind r f)"
  by (rule ends_ebind [OF assms(1)]) (use assms(2,3) in \<open>auto split: option.split\<close>)

lemma leaves_mono: "leaves \<mu> m r \<Longrightarrow> m \<le> m' \<Longrightarrow> leaves \<mu> m' r"
  unfolding ends_def by auto

lemma leaves_pops:
  assumes "rest \<mu> p \<le> m"
  shows "(\<And>q. rest \<mu> q \<le> m \<Longrightarrow> cur q = cur p \<Longrightarrow> leaves \<mu> m' (g q)) \<Longrightarrow> leaves \<mu> m' (pbind (pop_nesting p) g)"
    "(\<And>q. rest \<mu> q \<le> m \<Longrightarrow> cur q = cur p \<Longrightarrow> leaves \<mu> m' (g q)) \<Longrightarrow> leaves \<mu> m' (pbind (pop_part p) g)"
    "(\<And>q. rest \<mu> q \<le> m \<Longrightarrow> cur q = cur p \<Longrightarrow> leaves \<mu> m' (g q)) \<Longrightarrow> leaves \<mu> m' (pbind (change_part f p) g)"
    "leaves \<mu> m (pop_locals p)"
  using assms
  by (auto intro!: ends_pbind [OF ends_pops(1) [where \<mu> = \<mu>]] ends_pbind [OF ends_pops(2) [where \<mu> = \<mu>]]
      ends_pbind [OF ends_pops(4) [where \<mu> = \<mu>]] ends_mono [OF ends_pops(3) [where \<mu> = \<mu>]])

lemma leaves_else_body:
  assumes "consumes (input_left \<mu>) src" "serves \<mu> go L" "rest \<mu> p < L"
  shows "leaves \<mu> (rest \<mu> p) (else_body ops go src els p)"
  unfolding else_body_def
proof (intro ends_if leaves_pops(3) [OF order_refl, of \<mu> "push_locals p", unfolded rest_push cur_push])
  fix q assume q: "rest \<mu> q \<le> rest \<mu> p"
  then have l: "rest \<mu> q < L" using assms(3) by simp
  show "leaves \<mu> (rest \<mu> p) (elif_branch ops go q)" if "cur q = tok ''elif''"
    by (rule leaves_mono [OF ends_elif_branch [OF assms(2) l that] q])
  show "leaves \<mu> (rest \<mu> p) (else_branch ops go src q)"
    by (rule leaves_mono [OF ends_else_branch [OF assms(1,2) l] q])
qed simp

lemma leaves_merge: "leaves \<mu> (rest \<mu> p) (merge_branches k els t t' p)"
  unfolding merge_branches_def by (intro ends_if ends_mono [OF ends_merge [where \<mu> = \<mu>]]) auto

lemma leaves_leave: "leaves \<mu> (rest \<mu> p) (leave_branches k t start body p)"
proof -
  obtain els k' bs level where s: "start = (els, k')" "body = (bs, level)" by fastforce
  have c: "ends (\<lambda>p'. rest \<mu> p' \<le> rest \<mu> p) (if c then Ok q else change_part next_conditional q)"
    if "rest \<mu> q \<le> rest \<mu> p" for c q
    by (intro ends_if ends_mono [OF ends_pops(4) [where \<mu> = \<mu>]]) (use that in auto)
  show ?thesis
    unfolding leave_branches_def s prod.case
    by (intro leaves_pops(2) [OF order_refl] ends_pbind [OF c] leaves_pbind [where m = "rest \<mu> p"] ends_if leaves_pops(4)
        leaves_mono [OF leaves_merge]) auto
qed

lemma leaves_Else:
  assumes "consumes (input_left \<mu>) src" "serves \<mu> go L" "rest \<mu> p < L"
  shows "leaves \<mu> (rest \<mu> p) (ParseElse ops go src t k te p)"
  unfolding ParseElse_def
  by (intro leaves_ebind [OF ends_else_start [OF assms(1)]] leaves_ebind [OF leaves_mono [OF leaves_else_body [OF assms(1,2)]]]
      leaves_mono [OF leaves_leave]) (use assms(3) in auto)


lemma leaves_if_end:
  assumes "consumes (input_left \<mu>) src" "serves \<mu> go L" "rest \<mu> p < L"
  shows "leaves \<mu> (rest \<mu> p) (if_end go src k te c te' E p)"
  unfolding if_end_def
  by (intro ends_if leaves_pbind [OF ends_Expect [OF assms(1)]] leaves_mono [OF ends_Condition [OF assms(1,2)]])
    (use assms(3) in auto)

lemma leaves_for_end:
  assumes "consumes (input_left \<mu>) src"
  shows "leaves \<mu> (rest \<mu> p) (for_end src te E p)"
  unfolding for_end_def by (intro ends_if ends_Expect [OF assms]) simp

lemma leaves_type: "ends (\<lambda>x. True) (type_of_if ops k Th El)"
  unfolding type_of_if_def by (intro ends_if ends_pbind [OF ends_back]) simp_all

lemma leaves_If:
  assumes "consumes (input_left \<mu>) src" "serves \<mu> go (rest \<mu> p)" "cur p \<noteq> tok ''eof''"
  shows "leaves \<mu> (rest \<mu> p - 1) (ParseIfExpr ops go src te p) \<and> 0 < rest \<mu> p"
proof
  show "0 < rest \<mu> p" using assms(3) by (simp add: left_def)
  define m where "m = rest \<mu> p - 1"
  then have m: "rest \<mu> q < rest \<mu> p" if "rest \<mu> q \<le> m" for q using that \<open>0 < _\<close> by simp
  have first: "ends (\<lambda>q. rest \<mu> q \<le> m) (getNextToken src eNone 0 p)"
    by (rule ends_mono [OF ends_next [OF assms(1)]]) (use assms(3) in \<open>auto simp: m_def\<close>)
  have cond: "leaves \<mu> m (if c then Ok (None, q) else ParseCondition go src k 0 q)" if "rest \<mu> q \<le> m" for c k q
    by (intro ends_if leaves_mono [OF ends_Condition [OF assms(1,2) m]]) (use that in auto)
  have else_part: "leaves \<mu> m (ParseElse ops go src t k te' q)" if "rest \<mu> q \<le> m" for t k te' q
    by (rule leaves_mono [OF leaves_Else [OF assms(1,2) m]]) (use that in auto)
  have last: "leaves \<mu> m (if_end go src k te c te' E q)" if "rest \<mu> q \<le> m" for k c te' E q
    by (rule leaves_mono [OF leaves_if_end [OF assms(1,2) m]]) (use that in auto)
  have branches: "leaves \<mu> m (ParseBranches ops go src q)" if "rest \<mu> q \<le> m" for q
    by (rule leaves_mono [OF ends_Branches [OF assms(1,2) m]]) (use that in auto)
  show "leaves \<mu> m (ParseIfExpr ops go src te p)"
    unfolding ParseIfExpr_def Let_def
    by (intro ends_pbind [OF first] leaves_pbind [OF cond] leaves_pbind [OF branches] leaves_pair ends_if leaves_pbind [OF leaves_pops(4)]
       leaves_ebind [OF else_part] leaves_ebind [OF last] ends_pbind [OF leaves_type] leaves_pops(1))
      (auto split: prod.split)
qed


lemma leaves_For:
  assumes "consumes (input_left \<mu>) src" "serves \<mu> go (rest \<mu> p)" "cur p \<noteq> tok ''eof''" "control_keeps \<mu> ops"
  shows "leaves \<mu> (rest \<mu> p - 1) (ParseForExpr ops go src te p)"
proof -
  have "0 < rest \<mu> p" using assms(3) by (simp add: left_def)
  define m where "m = rest \<mu> p - 1"
  then have m: "rest \<mu> q < rest \<mu> p" if "rest \<mu> q \<le> m" for q using that \<open>0 < _\<close> by simp
  have first: "ends (\<lambda>q. rest \<mu> q \<le> m) (getNextToken src eNone 0 p)"
    by (rule ends_mono [OF ends_next [OF assms(1)]]) (use assms(3) in \<open>auto simp: m_def\<close>)
  have next_token: "ends (\<lambda>q. rest \<mu> q \<le> m) (getNextToken src eNone 0 q)" if "rest \<mu> q \<le> m" for q
    by (rule ends_mono [OF ends_next [OF assms(1)]]) (use that in auto)
  have expr: "leaves \<mu> m (go Expression te q)" if "rest \<mu> q \<le> m" for te q
    by (rule ends_mono [OF ends_go [OF assms(2) _ m]]) (use that in auto)
  have cond: "leaves \<mu> m (ParseCondition go src k 0 q)" if "rest \<mu> q \<le> m" for k q
    by (intro leaves_mono [OF ends_Condition [OF assms(1,2) m]]) (use that in auto)
  have control: "leaves \<mu> m (Ok (declare_control ops kv it q))" if "rest \<mu> q \<le> m" for kv it q
    using assms(4) that le_trans unfolding control_keeps_def ends_simps by (metis (mono_tags, lifting) case_prod_unfold)
  have else_part: "leaves \<mu> m (ParseElse ops go src t k te' q)" if "rest \<mu> q \<le> m" for t k te' q
    by (rule leaves_mono [OF leaves_Else [OF assms(1,2) m]]) (use that in auto)
  have last: "leaves \<mu> m (for_end src te' E q)" if "rest \<mu> q \<le> m" for te' E q
    by (rule leaves_mono [OF leaves_for_end [OF assms(1)]]) (use that in auto)
  have branches: "leaves \<mu> m (ParseBranches ops go src q)" if "rest \<mu> q \<le> m" for q
    by (rule leaves_mono [OF ends_Branches [OF assms(1,2) m]]) (use that in auto)
  have some: "leaves \<mu> m (case It of None \<Rightarrow> Wild | Some i \<Rightarrow> f i)" if "\<And>i. leaves \<mu> m (f i)" for It f
    using that by (cases It) auto
  have "leaves \<mu> m (ParseForExpr ops go src te p)"
    unfolding ParseForExpr_def Let_def
    by (intro ends_pbind [OF first] leaves_pbind [OF expr] ends_pbind [OF next_token] leaves_pbind [OF cond] some leaves_ebind [OF control]
       leaves_pbind [OF branches] leaves_pair ends_if leaves_pbind [OF leaves_pops(4)]
       leaves_ebind [OF else_part] leaves_pbind [OF last] leaves_pops(1)) auto
  then show ?thesis by (simp add: m_def)
qed

text \<open>The parsers of branches are hooks as ExprEnd asks for them.\<close>

lemma serves_settles:
  "(\<forall>r te p'. fine r p' \<longrightarrow> rest \<mu> p' < m \<longrightarrow> served (input_left \<mu>) go r te p') \<Longrightarrow> serves \<mu> go m"
  by (simp add: serves_def)

lemma leaves_settles: "leaves \<mu> (m - 1) r \<Longrightarrow> 0 < m \<Longrightarrow> settles (input_left \<mu>) m m r"
  unfolding settles_ends ends_def by auto

lemma block_hooks_settle:
  assumes "consumes (input_left \<mu>) src" "hooks_settle (input_left \<mu>) b" "control_keeps \<mu> ops"
  shows "hooks_settle (input_left \<mu>) (block_builder ops src b)"
proof -
  have pos: "0 < rest \<mu> p" if "cur p \<noteq> tok ''eof''" for p using that by (simp add: left_def)
  have "hook_settles (input_left \<mu>) (\<lambda>go. ParseIfExpr ops go src)"
    unfolding hook_settles_def
    by (auto intro!: leaves_settles conjunct1 [OF leaves_If [OF assms(1) serves_settles]] pos)
  moreover have "hook_settles (input_left \<mu>) (\<lambda>go te p. if cur p = tok ''for'' then ParseForExpr ops go src te p else other_primary b go te p)"
    unfolding hook_settles_def
    by (auto intro!: leaves_settles leaves_For [OF assms(1) serves_settles _ assms(3)] pos
        hook_settlesD [OF hooks_settleD(1) [OF assms(2)]])
  ultimately show ?thesis
    using assms(2) by (simp add: hooks_settle_def block_builder_def)
qed


lemma parse_serves:
  assumes "consumes (input_left \<mu>) src" "hooks_settle (input_left \<mu>) b" "calls_bounded \<rho> C b"
    and "(C + 3) * m \<le> n"
  shows "serves \<mu> (parse src b n) m"
  unfolding serves_def
proof (intro allI impI parse_settles [OF assms(1-3)])
  fix r :: "'b request" and p
  assume "rest \<mu> p < m"
  then have "(C + 3) * Suc (rest \<mu> p) \<le> n" using assms(4) by (meson Suc_leI le_trans mult_le_mono2)
  moreover have "need (input_left \<mu>) \<rho> C r p < (C + 3) * Suc (rest \<mu> p)"
    using rank_less(1) [of \<rho> C r] assms(3) unfolding need_def by (simp add: calls_bounded_def)
  ultimately show "need (input_left \<mu>) \<rho> C r p < n" by simp
qed

lemma calls_bounded_builder: "calls_bounded \<rho> C (block_builder ops src b) \<longleftrightarrow> calls_bounded \<rho> C b"
  by (simp add: calls_bounded_def block_builder_def)

end
