(* ===== verification/ExprTree.thy ===== *)
theory ExprTree
  imports Exprs
begin

text \<open>
  The trees of expressions that the parser of Exprs builds, and \<open>SplitExprList\<close> of src/parser.cc. The
  builder here makes a tree, the source is a list of tokens; the parser reads a tree back from its
  tokens, and the arguments of a call.
\<close>

section \<open>Trees\<close>

text \<open>
  Trees of expressions, with the tokens of their operators: \<open>LiteralExprAST\<close>, an identifier,
  \<open>EmptyExprAST\<close>, \<open>UnaryExprAST\<close> and the other prefix operators, \<open>PostfixExprAST\<close>, \<open>BinaryExprAST\<close> with
  its \<open>Op\<close>, and the identifier on the right of a dot.
\<close>

datatype tree = Lit token | Name string | Empty | Pre int string tree | Post string tree
  | Bin int string tree tree | Member string

text \<open>Precedence of the outermost operator of a tree, and the one the parser compares with.\<close>

fun base :: "tree \<Rightarrow> int" where
  "base (Pre k s t) = Precedence k"
| "base (Post s t) = Precedence (tok ''postfix'')"
| "base (Bin k s l r) = Precedence k"
| "base t = 2 ^ 20"

fun binding :: "tree \<Rightarrow> int" where
  "binding (Pre k s t) = Precedence k + 1"
| "binding (Bin k s l r) = Precedence k + (if right_binding k then 1 else 0)"
| "binding t = base t"

definition lpar :: "token \<times> string" where "lpar = (TokKind (ch CHR ''(''), ''('')"
definition rpar :: "token \<times> string" where "rpar = (TokKind (ch CHR '')''), '')'')"

text \<open>
  Tokens of a tree, with parentheses around operands that bind less than their operator. When the
  parser looks at the operator it has read the left operand, so this has to bind at least as strong
  as the operator, or stronger if the operator is right binding.
\<close>

definition parens :: "int \<Rightarrow> tree \<Rightarrow> (token \<times> string) list \<Rightarrow> (token \<times> string) list" where
  "parens m t ts = (if binding t < m then lpar # ts @ [rpar] else ts)"

primrec body :: "tree \<Rightarrow> (token \<times> string) list" where
  "body Empty = [lpar, rpar]"
| "body (Lit tk) = [(tk, '''')]"
| "body (Name s) = [(TokKind (tok ''identifier''), s)]"
| "body (Member s) = [(TokKind (tok ''identifier''), s)]"
| "body (Pre k s t) = (TokKind k, s) # parens (Precedence k + 1) t (body t)"
| "body (Post s t) = parens (Precedence (tok ''postfix'')) t (body t) @ [(TokKind (tok ''postfix''), s)]"
| "body (Bin k s l r) =
     parens (if right_binding k then Precedence k + 2 else Precedence k) l (body l) @ (TokKind k, s) #
     parens (if k = tok ''selector'' \<and> s = ''('' \<and> r \<noteq> Empty then 2 ^ 21 else Precedence k + 1) r (body r)"

definition tokens :: "int \<Rightarrow> tree \<Rightarrow> (token \<times> string) list" where
  "tokens m t = parens m t (body t)"

fun is_Member :: "tree \<Rightarrow> bool" where
  "is_Member (Member s) = True"
| "is_Member t = False"

lemma is_Member_iff [simp]: "is_Member t \<longleftrightarrow> (\<exists>n. t = Member n)"
  by (cases t) auto

fun wf :: "tree \<Rightarrow> bool" where
  "wf (Lit tk) = (kind tk \<in> {tok ''number'', tok ''str_lit'', tok ''ptr_lit''})"
| "wf (Member s) = False"
| "wf (Pre k s t) = (k \<in> prefix_kinds \<and> wf t)"
| "wf (Post s t) = wf t"
| "wf (Bin k s l r) = (tok ''last_op'' < k \<and> k < 0 \<and> k \<noteq> tok ''postfix'' \<and> wf l \<and>
     (if k = tok ''selector'' \<and> s = ''.'' then is_Member r else wf r))"
| "wf t = True"

definition clean :: "(token \<times> string) list \<Rightarrow> bool" where
  "clean ts \<longleftrightarrow> (\<forall>(tk, s)\<in>set ts. kind tk \<noteq> tok ''error'')"

lemma clean_simps [simp]:
  "clean []" "clean ((tk, s) # ts) \<longleftrightarrow> kind tk \<noteq> tok ''error'' \<and> clean ts" "clean (ts @ us) \<longleftrightarrow> clean ts \<and> clean us"
  by (auto simp: clean_def)

text \<open>The precedence of the first token, as \<open>NextTokPrecedence\<close> sees it.\<close>

definition nextp :: "(token \<times> string) list \<Rightarrow> int" where
  "nextp ts = (case ts of [] \<Rightarrow> -256
     | (tk, s) # ts \<Rightarrow>
         (if kind tk < 0 \<and> kind tk > tok ''last_op'' then Precedence (kind tk) else -256) +
         (if right_binding (kind tk) then 1 else 0))"

lemma nextp_op:
  assumes "tok ''last_op'' < k" "k < 0"
  shows "nextp ((TokKind k, s) # ts) = Precedence k + (if right_binding k then 1 else 0)"
  using assms by (simp add: nextp_def)

lemma nextp_rpar: "nextp (rpar # ts) = -256"
  by (simp add: rpar_def nextp_def right_binding_def tok_values ch_values)

lemma clean_parens: "clean (parens m t ts) \<longleftrightarrow> clean ts"
  by (auto simp: parens_def lpar_def rpar_def tok_values ch_values)

lemma clean_body: "wf t \<or> (\<exists>n. t = Member n) \<Longrightarrow> clean (body t)"
  by (induction t) (auto simp: clean_parens lpar_def rpar_def prefix_kinds_def tok_values ch_values split: if_splits)

lemma first_token:
  "wf t \<or> (\<exists>n. t = Member n) \<Longrightarrow> body t \<noteq> [] \<and> kind (fst (hd (body t))) \<noteq> ch CHR ''[''"
proof (induction t)
  case (Post s t)
  then show ?case by (auto simp: parens_def lpar_def ch_values)
next
  case (Bin k s l r)
  then show ?case by (auto simp: parens_def lpar_def ch_values)
qed (auto simp: lpar_def prefix_kinds_def tok_values ch_values)

lemma Precedence_steps: "Precedence a = - (256 * a)"
  by (simp add: Precedence_def push_bit_eq_mult)

lemma base_binding:
  obtains q where "base t = 256 * q" "binding t = base t \<or> binding t = base t + 1"
proof -
  have "\<exists>q. base t = 256 * q" by (cases t) (auto simp: Precedence_steps intro: exI [of _ "- _"] exI [of _ 4096])
  moreover have "binding t = base t \<or> binding t = base t + 1" by (cases t) auto
  ultimately show thesis using that by blast
qed

lemma binding_pos: "wf t \<Longrightarrow> 0 < binding t"
  by (cases t) (auto simp: Precedence_steps prefix_kinds_def tok_values)

lemma base_nonneg: "wf t \<Longrightarrow> 0 \<le> base t"
  by (cases t) (auto simp: Precedence_steps prefix_kinds_def tok_values)

lemma clean_par [simp]: "clean (rpar # ts) \<longleftrightarrow> clean ts" "clean (lpar # ts) \<longleftrightarrow> clean ts"
  by (auto simp: lpar_def rpar_def tok_values ch_values)

lemma tok_operator: "tok ''last_op'' < k \<Longrightarrow> k < 0 \<Longrightarrow> Precedence k < 2 ^ 20 \<and> 0 < Precedence k"
  by (simp add: Precedence_steps tok_values)

lemma left_operand:
  assumes "binding (Bin k s l r) > e" "tok ''last_op'' < k" "k < 0"
  shows "binding l < (if right_binding k then Precedence k + 2 else Precedence k) \<or>
    e < binding l \<and> nextp ((TokKind k, s) # ts) \<le> base l"
proof -
  obtain q where q: "base l = 256 * q" "binding l = base l \<or> binding l = base l + 1" by (rule base_binding)
  have n: "nextp ((TokKind k, s) # ts) = Precedence k + (if right_binding k then 1 else 0)"
    by (rule nextp_op(1) [OF assms(2,3)])
  obtain c where c: "Precedence k = 256 * c" using Precedence_steps [of k] by (metis mult_minus_right)
  show ?thesis
  proof (cases "binding l < (if right_binding k then Precedence k + 2 else Precedence k)")
    case False
    then have "c \<le> q" "right_binding k \<Longrightarrow> c < q" using q c by (auto split: if_splits)
    then show ?thesis using assms(1) False q c n by (auto split: if_splits)
  qed simp
qed

lemma right_operand:
  assumes "nextp ts \<le> Precedence k"
  shows "binding r < Precedence k + 1 \<or> Precedence k < binding r \<and> nextp ts \<le> base r"
proof -
  obtain q where q: "base r = 256 * q" "binding r = base r \<or> binding r = base r + 1" by (rule base_binding)
  obtain c where c: "Precedence k = 256 * c" using Precedence_steps [of k] by (metis mult_minus_right)
  have "c \<le> q" if "Precedence k < binding r" using that q c by auto
  then show ?thesis using assms q c by fastforce
qed

lemma binding_small: "wf t \<Longrightarrow> binding t < 2 ^ 21"
  by (cases t) (auto simp: Precedence_steps prefix_kinds_def tok_values right_binding_def)

lemma nextp_semicolon: "nextp [(TokKind (ch CHR '';''), '';'')] = -256"
  by (simp add: nextp_def right_binding_def tok_values ch_values)

section \<open>Arguments of a call\<close>

text \<open>\<open>SplitExprList\<close>: the loop goes from the last argument to the first.\<close>

fun split_args :: "tree \<Rightarrow> tree list \<Rightarrow> tree list" where
  "split_args (Bin k s l r) Args = (if s \<noteq> [] \<and> hd s = CHR '','' then split_args l (r # Args) else Bin k s l r # Args)"
| "split_args t Args = t # Args"

definition SplitExprList :: "tree \<Rightarrow> tree list" where
  "SplitExprList t = (if t = Empty then [] else split_args t [])"

definition comma :: "tree \<Rightarrow> tree \<Rightarrow> tree" where
  "comma l r = Bin (tok ''comma'') '','' l r"

fun commas :: "tree list \<Rightarrow> tree" where
  "commas [] = Empty"
| "commas (x # xs) = foldl comma x xs"

fun is_list :: "tree \<Rightarrow> bool" where
  "is_list (Bin k s l r) = (s \<noteq> [] \<and> hd s = CHR '','')"
| "is_list t = False"

text \<open>The arguments as they are written in a call.\<close>

fun arg_tokens :: "tree list \<Rightarrow> (token \<times> string) list" where
  "arg_tokens [] = []"
| "arg_tokens [x] = tokens 0 x"
| "arg_tokens (x # xs) = tokens (Precedence (tok ''comma'')) x @
     concat (map (\<lambda>a. (TokKind (tok ''comma''), '','') # tokens (Precedence (tok ''comma'') + 1) a) xs)"

definition call_tokens :: "tree \<Rightarrow> tree list \<Rightarrow> (token \<times> string) list" where
  "call_tokens f args = tokens (Precedence (tok ''selector'')) f @
     (TokKind (tok ''selector''), ''('') # lpar # arg_tokens args @ [rpar]"

lemma split_commas:
  "split_args (foldl comma x xs) Args = split_args x (xs @ Args)"
  by (induction xs arbitrary: x Args) (simp_all add: comma_def)

lemma split_leaf: "\<not> is_list x \<Longrightarrow> split_args x Args = x # Args"
  by (cases x) auto

lemma foldl_not_Empty: "foldl comma x xs = Empty \<longleftrightarrow> xs = [] \<and> x = Empty"
  by (induction xs arbitrary: x) (auto simp: comma_def)

lemma SplitExprList_commas:
  "(case args of [] \<Rightarrow> True | x # xs \<Rightarrow> \<not> is_list x \<and> (x = Empty \<longrightarrow> xs \<noteq> [])) \<Longrightarrow> SplitExprList (commas args) = args"
  by (cases args) (auto simp: SplitExprList_def foldl_not_Empty split_commas split_leaf)

lemma SplitExprList_nested:
  "\<not> is_list a \<Longrightarrow> SplitExprList (commas [commas [a, b], c]) = [a, b, c]"
  by (simp add: SplitExprList_def comma_def split_leaf)

lemma body_comma:
  "body (comma l r) = tokens (Precedence (tok ''comma'')) l @ (TokKind (tok ''comma''), '','') #
     tokens (Precedence (tok ''comma'') + 1) r"
  by (simp add: comma_def tokens_def right_binding_def tok_values)

lemma tokens_comma:
  "tokens (Precedence (tok ''comma'')) (comma l r) = body (comma l r)"
  by (simp add: tokens_def parens_def comma_def right_binding_def tok_values)

lemma body_commas:
  "body (foldl comma (comma x y) xs) = tokens (Precedence (tok ''comma'')) x @
     concat (map (\<lambda>a. (TokKind (tok ''comma''), '','') # tokens (Precedence (tok ''comma'') + 1) a) (y # xs))"
proof (induction xs rule: rev_induct)
  case (snoc z xs)
  obtain l r where "foldl comma (comma x y) xs = comma l r"
    by (cases xs rule: rev_cases) auto
  with snoc show ?case by (simp add: body_comma [of _ z] tokens_comma)
qed (simp add: body_comma)

lemma body_args:
  assumes "list_all wf args" "args \<noteq> []"
  shows "body (commas args) = arg_tokens args"
proof (cases args rule: arg_tokens.cases)
  case (2 x)
  then show ?thesis using assms binding_pos [of x] by (simp add: tokens_def parens_def)
next
  case (3 x y ys)
  then show ?thesis using body_commas [of x y ys] by simp
qed (use assms in simp)

lemma wf_comma: "wf (comma l r) \<longleftrightarrow> wf l \<and> wf r"
  by (auto simp: comma_def tok_values)

lemma wf_commas: "list_all wf args \<Longrightarrow> wf (commas args)"
proof (cases args)
  case (Cons x xs)
  have "wf (foldl comma x xs) \<longleftrightarrow> wf x \<and> list_all wf xs" for x
    by (induction xs arbitrary: x) (auto simp: wf_comma)
  then show "list_all wf args \<Longrightarrow> ?thesis" using Cons by simp
qed simp

lemma call_tokens_tree:
  assumes "wf f" "list_all wf args" "args \<noteq> [Empty]"
  shows "call_tokens f args = tokens 0 (Bin (tok ''selector'') ''('' f (commas args))"
proof -
  have A: "wf (commas args)" using wf_commas assms(2) by blast
  have "args = []" if "commas args = Empty"
    using that assms(3) by (cases args) (auto simp: foldl_not_Empty)
  note A = A this
  have "tokens (if commas args \<noteq> Empty then 2 ^ 21 else Precedence (tok ''selector'') + 1) (commas args) =
    lpar # arg_tokens args @ [rpar]"
  proof (cases "args = []")
    case True
    then show ?thesis by (simp add: tokens_def parens_def Precedence_steps tok_values)
  next
    case False
    then show ?thesis
      using A binding_small [OF A(1)] body_args [OF assms(2) False] by (auto simp: tokens_def parens_def)
  qed
  have "\<not> right_binding (tok ''selector'')" "\<not> binding (Bin (tok ''selector'') ''('' f (commas args)) < 0"
    by (simp_all add: right_binding_def tok_values Precedence_steps)
  with \<open>tokens (if _ then _ else _) _ = _\<close> show ?thesis
    by (simp only: call_tokens_def tokens_def parens_def [of 0] body.simps) simp
qed

end
