(* ===== verification/ExprRead.thy ===== *)
theory ExprRead
  imports ExprTree ExprEnd
begin

text \<open>
  The parser of Exprs reads the tokens of ExprTree. The lemmas are in a locale: all they need is a
  source that delivers a list of tokens, in front of any other state, and a builder that makes trees.
\<close>

section \<open>Results of runs with enough fuel\<close>

lemma ebind_Ok [simp]: "ebind (Ok (Some e, p)) f = f e p"
  by (simp add: ebind_def)

text \<open>Reading on with an expression that has been read, and reading one operand and all that belongs to it.\<close>

definition continues_in where
  "continues_in src b st e te x ts res \<longleftrightarrow> (\<forall>\<^sub>F n in sequentially. parse src b n (BinOpRHS e (Some x)) te (st ts) = res)"

definition guard where
  "guard f l p = (if parseOk p then f l p else NoFuel)"

definition reads_in where
  "reads_in src b st e te ts res \<longleftrightarrow>
     (\<forall>\<^sub>F n in sequentially. ebind (parse src b n Unary te (st ts)) (guard (\<lambda>l. parse src b n (BinOpRHS e (Some l)) te)) = res)"

lemma ebind_guard: "ebind m (guard f) = Ok (Some e, p) \<Longrightarrow> ebind m f = Ok (Some e, p)"
  by (cases m) (auto simp: ebind_def guard_def split: option.splits if_splits)

lemma eventually_Suc2:
  "(\<forall>\<^sub>F n in sequentially. P (Suc (Suc n))) \<Longrightarrow> \<forall>\<^sub>F n in sequentially. P n"
  using eventually_sequentially_Suc [of "\<lambda>n. P (Suc n)"] eventually_sequentially_Suc [of P] by simp

lemma eventually_Suc: "\<forall>\<^sub>F n in sequentially. P n \<Longrightarrow> \<forall>\<^sub>F n in sequentially. P (Suc n)"
  by (simp only: eventually_sequentially_Suc)

lemmas run_Suc = parse.simps(2)

lemma primary_starts:
  "ch CHR ''('' \<notin> prefix_kinds" "tok ''identifier'' \<notin> prefix_kinds" "tok ''number'' \<notin> prefix_kinds"
  "tok ''str_lit'' \<notin> prefix_kinds" "tok ''ptr_lit'' \<notin> prefix_kinds" "ch CHR '')'' \<notin> prefix_kinds"
  by (simp_all add: prefix_kinds_def tok_values ch_def)

section \<open>A source of tokens and a builder of trees\<close>

locale expr_reader =
  fixes src :: "'s token_source" and b :: "('e, 's) builder" and f :: "tree \<Rightarrow> 'e"
    and st :: "(token \<times> string) list \<Rightarrow> 's parser"
  assumes deliver: "clean ts \<Longrightarrow> getNextToken src ex te (st (y # ts)) = Ok (st ts)"
    and head: "CurTok (st ((tk, s) # ts)) = tk" "TokText (st ((tk, s) # ts)) = s" "parseOk (st ts)"
      "cur (st []) = tok ''eof''"
    and leaves: "literal b tk = f (Lit tk)" "lookup_var b s = None" "function_named b s = None" "module_named b s = None"
      "type_named b s = None" "undeclared b s = f (Name s)" "ident b s = f (Member s)" "empty b = f Empty"
    and types: "has_type b x" "\<not> is_callable b x" "\<not> is_function b x"
    and nodes: "postfix b s (f t) = Some (f (Post s t))" "prefix b k s (f t) = Some (f (Pre k s t))"
      "merge b k s i (f l) (f r) = Some (f (Bin k s l r))"
begin

declare deliver [simp] head [simp] leaves [simp] types [simp] nodes [simp]

abbreviation "run \<equiv> parse src b"
abbreviation "continues e te t ts res \<equiv> continues_in src b st e te (f t) ts res"
abbreviation "reads e te ts res \<equiv> reads_in src b st e te ts res"

lemma cur_st [simp]: "cur (st ((tk, s) # ts)) = kind tk"
  by (simp add: cur_def)

lemma next_st [simp]: "NextTokPrecedence (st ts) = nextp ts"
  by (cases ts) (auto simp: NextTokPrecedence_def GetTokPrecedence_def nextp_def right_binding_def tok_values)

lemma GetTokPrecedence_op:
  "tok ''last_op'' < k \<Longrightarrow> k < 0 \<Longrightarrow> GetTokPrecedence (st ((TokKind k, s) # ts)) = Precedence k"
  by (simp add: GetTokPrecedence_def)

lemma run_stop:
  "NextTokPrecedence p \<le> e \<Longrightarrow> run (Suc n) (BinOpRHS e (Some x)) te p = Ok (Some x, p)"
  by (simp add: parse.simps ParseBinOpRHS_def)

lemma continues_stop:
  "nextp ts \<le> e \<Longrightarrow> continues e te t ts (Ok (Some (f t), st ts))"
  unfolding continues_in_def by (subst eventually_sequentially_Suc [symmetric]) (simp add: run_stop)

lemma ParseBinOpRHS_postfix:
  assumes "e < Precedence (tok ''postfix'')" "clean ts"
  shows "ParseBinOpRHS go src b e (Some (f t)) te (st ((TokKind (tok ''postfix''), s) # ts))
    = go (BinOpRHS e (Some (f (Post s t)))) te (st ts)"
proof -
  have "\<not> nextp ((TokKind (tok ''postfix''), s) # ts) \<le> e"
    using assms(1) by (subst nextp_op) (simp_all add: right_binding_def tok_values)
  with assms(2) show ?thesis by (simp add: ParseBinOpRHS_def)
qed

lemma ParseBinOpRHS_op:
  assumes "e < nextp ((TokKind k, s) # ts)" "k \<noteq> tok ''postfix''" "clean ts" "tok ''last_op'' < k" "k < 0"
    and "ParseOperand go src b k (Precedence k) s te (st ts) = Ok (Some (f r), p)"
  shows "ParseBinOpRHS go src b e (Some (f t)) te (st ((TokKind k, s) # ts)) = go (BinOpRHS e (Some (f (Bin k s t r)))) te p"
  using assms(1-3,6) GetTokPrecedence_op [OF assms(4,5)] by (simp add: ParseBinOpRHS_def next_st)

lemma ParseOperand_unary:
  assumes "k = tok ''selector'' \<longrightarrow> s \<noteq> ''.'' \<and> cur p \<noteq> ch CHR ''[''"
  shows "ParseOperand (run (Suc n)) src b k prec s te p
    = ebind (run (Suc n) Unary te p) (\<lambda>r. run (Suc n) (BinOpRHS prec (Some r)) te)"
proof -
  have "(if prec \<le> NextTokPrecedence p then run (Suc n) (BinOpRHS prec (Some r)) te p else Ok (Some r, p))
    = run (Suc n) (BinOpRHS prec (Some r)) te p" for r p
    by (simp add: run_stop)
  with assms show ?thesis by (auto simp: ParseOperand_def)
qed

lemma ParseOperand_dot:
  assumes "clean ts" "prec = Precedence (tok ''selector'')" "nextp ts \<le> prec" "kind tk \<noteq> ch CHR ''[''"
  shows "ParseOperand (run (Suc n)) src b (tok ''selector'') prec ''.'' te (st ((tk, s) # ts))
    = Ok (Some (f (Member s)), st ts)"
  using assms by (simp add: ParseOperand_def ParseIdent_def run_stop)

lemma continues_postfix:
  assumes "continues e te (Post s t) ts res" "e < Precedence (tok ''postfix'')" "clean ts"
  shows "continues e te t ((TokKind (tok ''postfix''), s) # ts) res"
  unfolding continues_in_def
  by (subst eventually_sequentially_Suc [symmetric], rule eventually_mono [OF assms(1) [unfolded continues_in_def]])
    (simp add: run_Suc ParseBinOpRHS_postfix [OF assms(2,3)])

lemma continues_op:
  assumes "e < nextp ((TokKind k, s) # ts)" "k \<noteq> tok ''postfix''" "clean ts" "tok ''last_op'' < k" "k < 0"
    and "reads (Precedence k) te ts (Ok (Some (f r), st ts'))"
    and "k = tok ''selector'' \<longrightarrow> s \<noteq> ''.'' \<and> cur (st ts) \<noteq> ch CHR ''[''"
    and "continues e te (Bin k s t r) ts' res"
  shows "continues e te t ((TokKind k, s) # ts) res"
  unfolding continues_in_def
proof (rule eventually_Suc2, rule eventually_mono)
  show "\<forall>\<^sub>F n in sequentially. ebind (run (Suc n) Unary te (st ts)) (guard (\<lambda>l. run (Suc n) (BinOpRHS (Precedence k) (Some l)) te))
      = Ok (Some (f r), st ts') \<and> run (Suc n) (BinOpRHS e (Some (f (Bin k s t r)))) te (st ts') = res"
    using assms(6,8) unfolding reads_in_def continues_in_def by (intro eventually_conj eventually_Suc)
next
  fix n
  assume "ebind (run (Suc n) Unary te (st ts)) (guard (\<lambda>l. run (Suc n) (BinOpRHS (Precedence k) (Some l)) te))
      = Ok (Some (f r), st ts') \<and> run (Suc n) (BinOpRHS e (Some (f (Bin k s t r)))) te (st ts') = res"
  then show "run (Suc (Suc n)) (BinOpRHS e (Some (f t))) te (st ((TokKind k, s) # ts)) = res"
    using ParseBinOpRHS_op [OF assms(1-5), where go = "run (Suc n)"] ParseOperand_unary [OF assms(7)]
    by (subst run_Suc) (auto dest: ebind_guard)
qed

lemma continues_dot:
  assumes "e < Precedence (tok ''selector'')" "nextp ts \<le> Precedence (tok ''selector'')" "clean ts"
    and "continues e te (Bin (tok ''selector'') ''.'' t (Member m)) ts res"
  shows "continues e te t ((TokKind (tok ''selector''), ''.'') # (TokKind (tok ''identifier''), m) # ts) res"
    (is "continues e te t (?op # ?ts) res")
  unfolding continues_in_def
proof (rule eventually_Suc2, rule eventually_mono)
  show "\<forall>\<^sub>F n in sequentially. run (Suc n) (BinOpRHS e (Some (f (Bin (tok ''selector'') ''.'' t (Member m))))) te (st ts) = res"
    using assms(4) unfolding continues_in_def by (rule eventually_Suc)
next
  fix n
  assume r: "run (Suc n) (BinOpRHS e (Some (f (Bin (tok ''selector'') ''.'' t (Member m))))) te (st ts) = res"
  have c: "clean ?ts" "kind (TokKind (tok ''identifier'')) \<noteq> ch CHR ''[''"
    using assms(3) by (simp_all add: tok_values ch_def)
  have k: "tok ''last_op'' < tok ''selector''" "tok ''selector'' < 0" "tok ''selector'' \<noteq> tok ''postfix''"
    by (simp_all add: tok_values)
  have "e < nextp (?op # ?ts)"
    unfolding nextp_op [OF k(1,2)] using assms(1) by (simp add: right_binding_def tok_values)
  from ParseBinOpRHS_op [OF this k(3) c(1) k(1,2), where go = "run (Suc n)"]
    ParseOperand_dot [OF assms(3) refl assms(2) c(2)] r
  show "run (Suc (Suc n)) (BinOpRHS e (Some (f t))) te (st (?op # ?ts)) = res"
    by (subst run_Suc) simp
qed

lemma reads_from_unary:
  assumes "\<forall>\<^sub>F n in sequentially. run n Unary te (st ts) = Ok (Some (f t), st ts')" "continues e te t ts' res"
  shows "reads e te ts res"
  using assms unfolding reads_in_def continues_in_def by (rule eventually_elim2) (simp add: guard_def)

lemma reads_atom:
  assumes "\<And>n. run (Suc (Suc n)) Unary te (st ts) = Ok (Some (f t), st ts')" "continues e te t ts' res"
  shows "reads e te ts res"
  by (rule reads_from_unary [OF eventually_Suc2 assms(2)]) (simp add: assms(1))

lemma reads_prefix:
  assumes "k \<in> prefix_kinds" "clean ts" "reads (Precedence k) te ts (Ok (Some (f t), st ts'))"
    and "continues e te (Pre k s t) ts' res"
  shows "reads e te ((TokKind k, s) # ts) res"
  unfolding reads_in_def
proof (subst eventually_sequentially_Suc [symmetric], rule eventually_mono)
  show "\<forall>\<^sub>F n in sequentially. ebind (run n Unary te (st ts)) (guard (\<lambda>l. run n (BinOpRHS (Precedence k) (Some l)) te))
      = Ok (Some (f t), st ts') \<and> run (Suc n) (BinOpRHS e (Some (f (Pre k s t)))) te (st ts') = res"
    using assms(3,4) unfolding reads_in_def continues_in_def by (intro eventually_conj eventually_Suc)
next
  fix n
  assume r: "ebind (run n Unary te (st ts)) (guard (\<lambda>l. run n (BinOpRHS (Precedence k) (Some l)) te))
      = Ok (Some (f t), st ts') \<and> run (Suc n) (BinOpRHS e (Some (f (Pre k s t)))) te (st ts') = res"
  have assoc: "ebind m (\<lambda>x p. ebind (f x p) g) = ebind (ebind m f) g" for m :: "('e option \<times> 's parser) parsed" and f g
    by (cases m) (auto simp: ebind_def split: option.split)
  have "tok ''last_op'' < k" "k < 0" using assms(1) by (auto simp: prefix_kinds_def tok_values)
  then have p: "GetTokPrecedence (st ((TokKind k, s) # ts)) = Precedence k" by (rule GetTokPrecedence_op)
  have "run (Suc n) Unary te (st ((TokKind k, s) # ts)) = Ok (Some (f (Pre k s t)), st ts')"
    using ebind_guard [OF conjunct1 [OF r]] assms(1,2) by (simp add: run_Suc ParseUnary_def p assoc)
  with r show "ebind (run (Suc n) Unary te (st ((TokKind k, s) # ts))) (guard (\<lambda>l. run (Suc n) (BinOpRHS e (Some l)) te)) = res"
    by (simp add: guard_def)
qed

lemma reads_name:
  assumes "continues e te (Name s) ts res" "clean ts"
  shows "reads e te ((TokKind (tok ''identifier''), s) # ts) res"
proof (rule reads_atom [OF _ assms(1)])
  show "run (Suc (Suc n)) Unary te (st ((TokKind (tok ''identifier''), s) # ts)) = Ok (Some (f (Name s)), st ts)" for n
    using assms(2) primary_starts
    by (simp add: run_Suc ParseUnary_def ParsePrimary_def ParseIdentifierExpr_def tok_values)
qed

lemma reads_literal:
  assumes "continues e te (Lit tk) ts res" "clean ts" "kind tk \<in> {tok ''number'', tok ''str_lit'', tok ''ptr_lit''}"
  shows "reads e te ((tk, s) # ts) res"
proof (rule reads_atom [OF _ assms(1)])
  have "kind tk \<notin> prefix_kinds" "kind tk \<noteq> tok ''eof''" "kind tk \<noteq> tok ''identifier''"
    using assms(3) primary_starts by (auto simp: tok_values)
  then show "run (Suc (Suc n)) Unary te (st ((tk, s) # ts)) = Ok (Some (f (Lit tk)), st ts)" for n
    using assms(2,3) by (simp add: run_Suc ParseUnary_def ParsePrimary_def ParseNumberExpr_def)
qed

lemma run_parens:
  assumes "\<forall>\<^sub>F n in sequentially. run n Expression (ch CHR '')'') (st ts) = Ok (Some (f t), st (rpar # ts'))"
    and "clean ts" "clean ts'"
  shows "\<forall>\<^sub>F n in sequentially. run n Unary te (st (lpar # ts)) = Ok (Some (f t), st ts')"
proof (rule eventually_Suc2, rule eventually_mono [OF assms(1)])
  have k: "ch CHR ''('' \<noteq> tok ''eof''" "ch CHR ''('' \<noteq> tok ''identifier''" "ch CHR ''('' \<noteq> tok ''number''"
    "ch CHR ''('' \<noteq> tok ''str_lit''" "ch CHR ''('' \<noteq> tok ''ptr_lit''"
    by (simp_all add: tok_values ch_def)
  show "run (Suc (Suc n)) Unary te (st (lpar # ts)) = Ok (Some (f t), st ts')"
    if "run n Expression (ch CHR '')'') (st ts) = Ok (Some (f t), st (rpar # ts'))" for n
    using that assms(2,3) primary_starts(1) k
    by (simp add: run_Suc ParseUnary_def ParsePrimary_def ParseParenExpr_def lpar_def rpar_def Eat_def)
qed

lemma run_expression:
  assumes "reads 0 te ts (Ok (Some (f t), st ts'))"
  shows "\<forall>\<^sub>F n in sequentially. run n Expression te (st ts) = Ok (Some (f t), st ts')"
proof (subst eventually_sequentially_Suc [symmetric], rule eventually_mono [OF assms [unfolded reads_in_def]])
  fix n
  assume r: "ebind (run n Unary te (st ts)) (guard (\<lambda>l. run n (BinOpRHS 0 (Some l)) te)) = Ok (Some (f t), st ts')"
  then obtain l p where "run n Unary te (st ts) = Ok (Some l, p)" "parseOk p"
    by (cases "run n Unary te (st ts)") (auto simp: ebind_def guard_def split: option.splits if_splits)
  with r show "run (Suc n) Expression te (st ts) = Ok (Some (f t), st ts')"
    by (simp add: run_Suc ParseExpression_def guard_def)
qed

lemma cur_tokens:
  assumes "wf t"
  shows "cur (st (tokens m t @ ts)) \<noteq> ch CHR ''[''"
proof -
  obtain x us where b: "body t = x # us" "kind (fst x) \<noteq> ch CHR ''[''"
    using first_token [of t] assms by (cases "body t") auto
  then show ?thesis by (cases x) (simp add: tokens_def parens_def lpar_def ch_values)
qed

definition body_reads :: "tree \<Rightarrow> bool" where
  "body_reads t \<longleftrightarrow> (\<forall>e te ts res. clean ts \<longrightarrow> e < binding t \<longrightarrow> nextp ts \<le> base t \<longrightarrow> continues e te t ts res \<longrightarrow>
     reads e te (body t @ ts) res)"

lemma body_readsD:
  "body_reads t \<Longrightarrow> clean ts \<Longrightarrow> e < binding t \<Longrightarrow> nextp ts \<le> base t \<Longrightarrow> continues e te t ts res \<Longrightarrow>
     reads e te (body t @ ts) res"
  by (simp add: body_reads_def)

lemma tokens_read:
  assumes "body_reads t" "wf t" "clean ts" "binding t < m \<or> e < binding t \<and> nextp ts \<le> base t" "continues e te t ts res"
  shows "reads e te (tokens m t @ ts) res"
proof (cases "binding t < m")
  case True
  have c: "clean (body t @ rpar # ts)" using assms(2,3) clean_body by simp
  have "continues 0 (ch CHR '')'') t (rpar # ts) (Ok (Some (f t), st (rpar # ts)))"
    by (rule continues_stop) (simp add: nextp_rpar)
  then have "reads 0 (ch CHR '')'') (body t @ rpar # ts) (Ok (Some (f t), st (rpar # ts)))"
    using assms(3) binding_pos [OF assms(2)] base_nonneg [OF assms(2)]
    by (intro body_readsD [OF assms(1)]) (simp_all add: nextp_rpar)
  from reads_from_unary [OF run_parens [OF run_expression [OF this] c assms(3)] assms(5)]
  have "reads e te (lpar # body t @ rpar # ts) res" .
  then show ?thesis using True by (simp add: tokens_def parens_def)
next
  case False
  then show ?thesis
    using assms by (simp add: tokens_def parens_def body_readsD)
qed

lemma reads_empty:
  assumes "continues e te Empty ts res" "clean ts"
  shows "reads e te (lpar # rpar # ts) res"
proof -
  have "\<forall>\<^sub>F n in sequentially. run n Unary te (st (lpar # rpar # ts)) = Ok (Some (f Empty), st ts)"
  proof (rule run_parens)
    have unary: "run (Suc (Suc n)) Unary (ch CHR '')'') (st (rpar # ts)) = Ok (Some (f Empty), st (rpar # ts))" for n
      using primary_starts by (simp add: run_Suc ParseUnary_def ParsePrimary_def rpar_def tok_values ch_values)
    show "\<forall>\<^sub>F n in sequentially. run n Expression (ch CHR '')'') (st (rpar # ts)) = Ok (Some (f Empty), st (rpar # ts))"
    proof (rule eventually_sequentiallyI [of 3])
      fix n :: nat assume "3 \<le> n"
      then obtain m where "n = Suc (Suc (Suc m))" using le_Suc_ex by (metis add_Suc numeral_3_eq_3 plus_nat.add_0)
      then show "run n Expression (ch CHR '')'') (st (rpar # ts)) = Ok (Some (f Empty), st (rpar # ts))"
        by (subst \<open>n = _\<close>, subst run_Suc) (simp add: ParseExpression_def unary run_stop nextp_rpar)
    qed
  qed (use assms(2) in auto)
  then show ?thesis by (rule reads_from_unary) (rule assms(1))
qed

lemma reads_operand:
  assumes "body_reads r" "wf r" "clean ts" "nextp ts \<le> Precedence k" "m = Precedence k + 1 \<or> binding r < m"
  shows "reads (Precedence k) te (tokens m r @ ts) (Ok (Some (f r), st ts))"
  using right_operand [OF assms(4), of r] assms(5) continues_stop [OF assms(4)]
  by (intro tokens_read [OF assms(1-3)]) auto

lemma bodies_read: "wf t \<Longrightarrow> body_reads t"
proof (induction t)
  case (Pre k s t)
  show ?case
    unfolding body_reads_def
  proof (intro allI impI)
    fix e te ts res
    assume a: "clean ts" "nextp ts \<le> base (Pre k s t)" "continues e te (Pre k s t) ts res"
    have "reads (Precedence k) te (tokens (Precedence k + 1) t @ ts) (Ok (Some (f t), st ts))"
      using Pre a by (intro reads_operand) auto
    then show "reads e te (body (Pre k s t) @ ts) res"
      using Pre a by (auto simp: tokens_def clean_parens clean_body intro!: reads_prefix)
  qed
next
  case (Post s t)
  show ?case
    unfolding body_reads_def
  proof (intro allI impI)
    fix e te ts res
    assume a: "clean ts" "e < binding (Post s t)" "continues e te (Post s t) ts res"
    let ?k = "tok ''postfix''"
    have k: "tok ''last_op'' < ?k" "?k < 0" "\<not> right_binding ?k" by (simp_all add: tok_values right_binding_def)
    have l: "binding t < Precedence ?k \<or> e < binding t \<and> nextp ((TokKind ?k, s) # ts) \<le> base t"
      using left_operand [of e ?k s t Empty ts] a(2) k by simp
    have "continues e te t ((TokKind ?k, s) # ts) res"
      using a by (intro continues_postfix) auto
    then have "reads e te (tokens (Precedence ?k) t @ (TokKind ?k, s) # ts) res"
      using Post a l by (intro tokens_read) (auto simp: tok_values)
    then show "reads e te (body (Post s t) @ ts) res" by (simp add: tokens_def)
  qed
next
  case (Bin k s l r)
  show ?case
    unfolding body_reads_def
  proof (intro allI impI)
    fix e te ts res
    assume a: "clean ts" "e < binding (Bin k s l r)" "nextp ts \<le> base (Bin k s l r)" "continues e te (Bin k s l r) ts res"
    let ?m = "if k = tok ''selector'' \<and> s = ''('' \<and> r \<noteq> Empty then 2 ^ 21 else Precedence k + 1"
    have k: "tok ''last_op'' < k" "k < 0" "k \<noteq> tok ''postfix''" using Bin.prems by auto
    have clean: "clean (tokens ?m r @ ts)"
      using Bin.prems a(1) clean_body [of r] by (auto simp: tokens_def clean_parens split: if_splits)
    have e: "e < nextp ((TokKind k, s) # tokens ?m r @ ts)" using a(2) nextp_op [OF k(1,2)] by simp
    have "continues e te l ((TokKind k, s) # tokens ?m r @ ts) res"
    proof (cases "k = tok ''selector'' \<and> s = ''.''")
      case True
      then obtain m where "r = Member m" using Bin.prems by auto
      moreover have "\<not> 2 ^ 20 < Precedence k + 1" using tok_operator [OF k(1,2)] by simp
      ultimately show ?thesis
        using True a continues_dot [of e ts te l m res]
        by (simp add: tokens_def parens_def Precedence_steps tok_values right_binding_def)
    next
      case False
      then have "wf r" using Bin.prems by (auto split: if_splits)
      have "?m = Precedence k + 1 \<or> binding r < ?m"
        using binding_small [OF \<open>wf r\<close>] by auto
      then have "reads (Precedence k) te (tokens ?m r @ ts) (Ok (Some (f r), st ts))"
        using Bin \<open>wf r\<close> a by (intro reads_operand) auto
      with e k clean False \<open>wf r\<close> a(4) show ?thesis
        by (intro continues_op) (auto simp: cur_tokens)
    qed
    then have "reads e te (tokens (if right_binding k then Precedence k + 2 else Precedence k) l @
        (TokKind k, s) # tokens ?m r @ ts) res"
      using Bin left_operand [OF a(2) k(1,2)] clean k by (intro tokens_read) (auto simp: tok_values)
    then show "reads e te (body (Bin k s l r) @ ts) res" by (simp add: tokens_def)
  qed
qed (auto simp: body_reads_def intro: reads_literal reads_name reads_empty)

lemma tokens_parse:
  assumes "wf t" "clean ts" "nextp ts \<le> 0"
  shows "\<forall>\<^sub>F n in sequentially. run n Expression te (st (tokens 0 t @ ts)) = Ok (Some (f t), st ts)"
proof (rule run_expression)
  show "reads 0 te (tokens 0 t @ ts) (Ok (Some (f t), st ts))"
    using assms binding_pos base_nonneg [OF assms(1)] continues_stop [OF assms(3)]
    by (intro tokens_read bodies_read) (auto intro: order_trans)
qed

end

section \<open>Lists of tokens and trees\<close>

definition tree_builder :: "(tree, (token \<times> string) list) builder" where
  "tree_builder =
     \<lparr>literal = Lit, lookup_var = (\<lambda>s. None), function_named = (\<lambda>s. None), module_named = (\<lambda>s. None),
      type_named = (\<lambda>s. None), is_struct = (\<lambda>s. False), empty_struct = Name,
      struct_literal = (\<lambda>go s te p. Ok (None, p)), undeclared = Name, ident = Member, empty = Empty,
      has_type = (\<lambda>t. True), is_callable = (\<lambda>t. False), is_function = (\<lambda>t. False),
      is_binary = (\<lambda>t. \<exists>k s l r. t = Bin k s l r), call0 = id, postfix = (\<lambda>s t. Some (Post s t)),
      prefix = (\<lambda>k s t. Some (Pre k s t)), merge = (\<lambda>k s i l r. Some (Bin k s l r)),
      other_primary = (\<lambda>go te p. Ok (None, p)), index_list = (\<lambda>go te p. Ok (None, p)),
      if_expr = (\<lambda>go te p. Ok (None, p))\<rparr>"

definition start :: "(token \<times> string) list \<Rightarrow> (token \<times> string) list parser" where
  "start ts = (case ts of
     [] \<Rightarrow> \<lparr>CurTok = TokKind (tok ''eof''), TokText = '''', source = [], parseOk = True\<rparr>
   | (tk, s) # ts \<Rightarrow> \<lparr>CurTok = tk, TokText = s, source = ts, parseOk = True\<rparr>)"

interpretation tl: expr_reader token_list tree_builder "\<lambda>t. t" start
proof
  show "getNextToken token_list ex te (start (y # ts)) = Ok (start ts)" if "clean ts" for ts ex te y
    using that by (cases ts; cases y; cases "hd ts") (auto simp: getNextToken_def token_list_def start_def tok_values)
qed (auto simp: start_def cur_def tree_builder_def split: list.split)


definition sample_tree :: tree where
  "sample_tree =
     Bin (tok ''assign'') ''='' (Name ''x'')
       (Bin (tok ''add'') ''-'' (Bin (tok ''add'') ''-'' (Name ''a'') (Pre (tok ''unary'') ''-'' (Name ''b'')))
         (Bin (tok ''mult'') ''*'' (Bin (tok ''add'') ''+'' (Name ''c'') (Name ''d''))
           (Bin (tok ''pow'') ''^'' (Name ''e'') (Bin (tok ''pow'') ''^'' (Name ''f'') (Name ''g'')))))"


text \<open>
  A call keeps its arguments: for the tokens of \<open>f(a1, ..., an)\<close> the parser returns one tree, from which
  \<open>SplitExprList\<close> gets exactly the trees of the arguments in their order, the empty list for \<open>f()\<close>. The
  first argument must not be a list in parentheses itself, because the parentheses are lost.
\<close>

theorem call_arguments:
  assumes "wf f" "list_all wf args" "args \<noteq> [Empty]" "case args of [] \<Rightarrow> True | x # xs \<Rightarrow> \<not> is_list x"
    and "clean ts" "nextp ts \<le> 0"
  shows "\<exists>A. SplitExprList A = args \<and>
    (\<exists>N. \<forall>n\<ge>N. parse token_list tree_builder n Expression te (start (call_tokens f args @ ts))
      = Ok (Some (Bin (tok ''selector'') ''('' f A), start ts))"
proof (intro exI [of _ "commas args"] conjI)
  show "SplitExprList (commas args) = args"
    using assms(3,4) by (intro SplitExprList_commas) (auto split: list.splits)
  have "wf (Bin (tok ''selector'') ''('' f (commas args))"
    using assms(1) wf_commas [OF assms(2)] by (simp add: tok_values)
  from tl.tokens_parse [OF this assms(5,6)] call_tokens_tree [OF assms(1-3)]
  show "\<exists>N. \<forall>n\<ge>N. parse token_list tree_builder n Expression te (start (call_tokens f args @ ts))
      = Ok (Some (Bin (tok ''selector'') ''('' f (commas args)), start ts)"
    unfolding eventually_sequentially by simp
qed

theorem call_arguments_witness:
  "\<exists>A. SplitExprList A = [Name ''x'', comma (Name ''y'') (Name ''z''), sample_tree] \<and>
    (\<exists>N. \<forall>n\<ge>N. parse token_list tree_builder n Expression 0
      (start (call_tokens (Name ''f'') [Name ''x'', comma (Name ''y'') (Name ''z''), sample_tree] @ [(TokKind (ch CHR '';''), '';'')]))
      = Ok (Some (Bin (tok ''selector'') ''('' (Name ''f'') A), start [(TokKind (ch CHR '';''), '';'')]))"
proof (rule call_arguments)
  show "list_all wf [Name ''x'', comma (Name ''y'') (Name ''z''), sample_tree]" by code_simp
  show "nextp [(TokKind (ch CHR '';''), '';'')] \<le> 0" by (simp only: nextp_semicolon)
qed (simp_all add: tok_values ch_values)



end
