(* ===== verification/BlockTree.thy ===== *)
theory BlockTree
  imports BlockEnd ExprRead
begin

text \<open>
  Programs for the parsers of Blocks: statements with branches, their tokens and the objects that are
  expected for them. The parser reads them back from their tokens, with the levels of \<open>brk\<close> resolved.
\<close>

section \<open>Levels of brk\<close>

text \<open>
  The number of \<open>brk\<close> is a number of syntactic levels: those branches that are not \<open>elif\<close>, from the
  innermost. What is left are all branches up to the last of these.
\<close>

fun depth :: "nat \<Rightarrow> nat list \<Rightarrow> nat" where
  "depth 0 ns = 0"
| "depth (Suc n) [] = 0"
| "depth (Suc n) (k # ns) = Suc (depth (Suc n - k) ns)"

lemma brk_depth_step:
  assumes "k \<le> 1" "n < 2 ^ 31" "0 < n"
  shows "brk_depth (int n) (k # ns) d = brk_depth (int (n - k)) ns (d + 1)"
proof -
  have "take_bit 32 (int n - int k) = int (n - k)"
    using assms by (simp add: take_bit_int_eq_self of_nat_diff)
  moreover have "int n \<noteq> 0" using assms(3) by simp
  ultimately show ?thesis by (simp only: brk_depth.simps(2) if_False)
qed

lemma brk_depth_None: "sum_list ns < n \<Longrightarrow> n < 2 ^ 31 \<Longrightarrow> set ns \<subseteq> {0, 1} \<Longrightarrow> brk_depth (int n) ns d = None"
proof (induction ns arbitrary: n d)
  case (Cons k ns)
  then have "k \<le> 1" "sum_list ns < n - k" "n - k < 2 ^ 31" "0 < n" by auto
  then show ?case using Cons.IH [of "n - k" "d + 1"] Cons.prems brk_depth_step [of k n ns d] by simp
qed (simp add: brk_depth.simps)

lemma brk_depth_Some: "n \<le> sum_list ns \<Longrightarrow> n < 2 ^ 31 \<Longrightarrow> set ns \<subseteq> {0, 1} \<Longrightarrow> brk_depth (int n) ns d = Some (d + int (depth n ns))"
proof (induction n ns arbitrary: d rule: depth.induct)
  case (1 ns)
  then show ?case by (cases ns) (simp_all add: brk_depth.simps)
next
  case (3 n k ns)
  then have "k \<le> 1" "Suc n - k \<le> sum_list ns" "Suc n - k < 2 ^ 31" "set ns \<subseteq> {0, 1}" by auto
  then show ?case using "3.IH" [of "d + 1"] "3.prems" brk_depth_step [of k "Suc n" ns d] by simp
qed simp

lemma depth_le: "n \<le> sum_list ns \<Longrightarrow> set ns \<subseteq> {0, 1} \<Longrightarrow> n \<le> depth n ns \<and> depth n ns \<le> length ns"
proof (induction n ns rule: depth.induct)
  case (3 n k ns)
  then have "Suc n - k \<le> sum_list ns" "k \<le> 1" by auto
  with 3 show ?case by fastforce
qed auto

lemma depth_least:
  "n \<le> sum_list ns \<Longrightarrow> set ns \<subseteq> {0, 1} \<Longrightarrow> sum_list (take (depth n ns) ns) = n \<and> (\<forall>d<depth n ns. sum_list (take d ns) < n)"
proof (induction n ns rule: depth.induct)
  case (3 n k ns)
  then have IH: "sum_list (take (depth (Suc n - k) ns) ns) = Suc n - k" "\<forall>d<depth (Suc n - k) ns. sum_list (take d ns) < Suc n - k"
    and k: "k \<le> 1" by auto
  have "sum_list (take d (k # ns)) < Suc n" if "d < depth (Suc n) (k # ns)" for d
    using that IH(2) by (cases d) auto
  then show ?case using IH k by auto
qed auto

lemma brk_end_kind_levels:
  assumes "0 \<le> l" "l < 2 ^ 15"
  shows "is_brk (brk_end_kind (tok ''brk'') l)" "brk_levels (brk_end_kind (tok ''brk'') l) = l" "brk_end_kind (tok ''brk'') l \<noteq> 0"
    "brk_end_kind (tok ''brk'') l \<noteq> tok ''return''"
proof -
  have b: "NOT (tok ''brk'') = 53" by (simp add: block_tok_values not_int_def)
  have "53 OR take_bit 32 (push_bit 16 l) = 53 + l * 2 ^ 16"
  proof -
    have "take_bit 32 (push_bit 16 l) = push_bit 16 l"
      using assms by (simp add: take_bit_int_eq_self push_bit_eq_mult)
    moreover have "53 AND push_bit 16 l = 0"
    proof (rule bit_eqI)
      fix n show "bit (53 AND push_bit 16 l) n = bit (0 :: int) n"
        using bit_take_bit_iff [of 16 53 n] by (auto simp: bit_and_iff bit_push_bit_iff take_bit_eq_mod)
    qed
    ultimately show ?thesis using plus_and_or [of 53 "push_bit 16 l"] by (simp add: push_bit_eq_mult)
  qed
  then have k: "brk_end_kind (tok ''brk'') l = - (l * 2 ^ 16) - 54"
    unfolding brk_end_kind_def b using assms by (simp add: not_int_def signed_take_bit_int_eq_self)
  then have n: "NOT (brk_end_kind (tok ''brk'') l) = l * 2 ^ 16 + 53" by (simp add: not_int_def)
  have "(l * 2 ^ 16 + 53) AND (2 ^ 16 - 1) = 53"
    using take_bit_eq_mask [of 16 "l * 2 ^ 16 + 53"] by (simp add: mask_eq_exp_minus_1 take_bit_eq_mod)
  then show "is_brk (brk_end_kind (tok ''brk'') l)"
    unfolding is_brk_def n by (simp add: block_tok_values not_int_def)
  have "drop_bit 16 (l * 2 ^ 16 + 53) = l" by (simp add: drop_bit_eq_div)
  then show "brk_levels (brk_end_kind (tok ''brk'') l) = l"
    using assms unfolding brk_levels_def n by (simp add: take_bit_int_eq_self)
  show "brk_end_kind (tok ''brk'') l \<noteq> 0" using k assms(1) by simp
  have "l * 65536 \<noteq> 9" using assms(1) by (cases "l = 0") auto
  then show "brk_end_kind (tok ''brk'') l \<noteq> tok ''return''" unfolding k by (simp add: block_tok_values)
qed

section \<open>Programs\<close>

text \<open>
  Statements: an expression, \<open>if\<close> and \<open>while\<close> with their branches, \<open>repeat\<close>. A \<open>brk\<close> of some levels is
  between the parts of a branch.
\<close>

datatype stmt = Do tree | When bool tree stmts other | Repeat stmts tree
  and stmts = End | Seq stmt stmts | Brk nat tree stmts
  and other = NoElse | Otherwise stmts | Elif tree stmts other

definition kw :: "string \<Rightarrow> token \<times> string" where "kw s = (TokKind (tok s), s)"
definition semi :: "token \<times> string" where "semi = (TokKind (ch CHR '';''), '';'')"

definition if_word :: "bool \<Rightarrow> string" where
  "if_word loop = (if loop then ''while'' else ''if'')"

primrec stmt_tokens and stmts_tokens and other_tokens where
  "stmt_tokens (Do t) = tokens 0 t"
| "stmt_tokens (When loop c b e) = kw (if_word loop) # tokens 0 c @ semi # stmts_tokens b @ other_tokens e"
| "stmt_tokens (Repeat b c) = kw ''repeat'' # stmts_tokens b @ kw ''until'' # tokens 0 c"
| "stmts_tokens End = []"
| "stmts_tokens (Seq s b) = stmt_tokens s @ semi # stmts_tokens b"
| "stmts_tokens (Brk n c b) = replicate n (kw ''brk'') @ tokens 0 c @ semi # stmts_tokens b"
| "other_tokens NoElse = [kw ''end'']"
| "other_tokens (Otherwise b) = kw ''else'' # stmts_tokens b @ [kw ''end'']"
| "other_tokens (Elif c b e) = kw ''elif'' # tokens 0 c @ semi # stmts_tokens b @ other_tokens e"

text \<open>
  The objects: expressions, and the arguments of \<open>IfExprAST\<close> without the variables, of which there
  are none here.
\<close>

datatype node = E tree | Node int node "(node list \<times> int \<times> int) list" "(node list \<times> int \<times> int) list" int bool

definition to_part :: "node branch_desc \<Rightarrow> node list \<times> int \<times> int" where
  "to_part b = (exprs b, end_kind b, break_level b)"

fun of_part :: "node list \<times> int \<times> int \<Rightarrow> node branch_desc" where
  "of_part (es, k, l) = \<lparr>exprs = es, vars_to_destruct = {}, end_kind = k, break_level = l\<rparr>"

fun node_if :: "node \<Rightarrow> node if_expression option" where
  "node_if (E t) = None"
| "node_if (Node k c th el mx always) = Some
     \<lparr>Then = map of_part th, Else = map of_part el, then_locals = [], else_locals = [], max_brk_level = mx,
      merged_vars = {}, if_kind = k, Cond = c, always_return = always\<rparr>"

definition node_ops :: "(node, 't, unit) block_ops" where
  "node_ops =
     \<lparr>make_if = (\<lambda>I. Node (if_kind I) (Cond I) (map to_part (Then I)) (map to_part (Else I)) (max_brk_level I) (always_return I)),
      as_if = node_if, mark_elif = id, valued = (\<lambda>e. True),
      make_for = (\<lambda>d it c B. it), declare_control = (\<lambda>kv it p. (None, p))\<rparr>"

fun node_tree :: "node \<Rightarrow> tree" where
  "node_tree (E t) = t"
| "node_tree _ = Empty"

definition node_builder :: "(node, 's) builder" where
  "node_builder =
     \<lparr>literal = (\<lambda>t. E (Lit t)), lookup_var = (\<lambda>s. None), function_named = (\<lambda>s. None), module_named = (\<lambda>s. None),
      type_named = (\<lambda>s. None), is_struct = (\<lambda>s. False), empty_struct = (\<lambda>s. E (Name s)),
      struct_literal = (\<lambda>go s te p. Ok (None, p)), undeclared = (\<lambda>s. E (Name s)), ident = (\<lambda>s. E (Member s)), empty = E Empty,
      has_type = (\<lambda>t. True), is_callable = (\<lambda>t. False), is_function = (\<lambda>t. False),
      is_binary = (\<lambda>t. False), call0 = id, postfix = (\<lambda>s t. Some (E (Post s (node_tree t)))),
      prefix = (\<lambda>k s t. Some (E (Pre k s (node_tree t)))), merge = (\<lambda>k s i l r. Some (E (Bin k s (node_tree l) (node_tree r)))),
      other_primary = (\<lambda>go te p. Ok (None, p)), index_list = (\<lambda>go te p. Ok (None, p)),
      if_expr = (\<lambda>go te p. Ok (None, p))\<rparr>"

text \<open>What is expected; \<open>ns\<close> is \<open>syntax_nesting\<close> from the innermost branch.\<close>

fun other_kind :: "other \<Rightarrow> int" where
  "other_kind NoElse = tok ''end''"
| "other_kind (Otherwise b) = tok ''else''"
| "other_kind (Elif c b e) = tok ''elif''"

definition inner :: "int \<Rightarrow> int" where
  "inner mx = (if 0 < mx then mx - 1 else 0)"

primrec stmt_max and stmts_max and other_max where
  "stmt_max (Do t) ns = 0"
| "stmt_max (When loop c b e) ns = inner (max (stmts_max b (1 # ns)) (other_max e (1 # ns)))"
| "stmt_max (Repeat b c) ns = inner (stmts_max b (1 # ns))"
| "stmts_max End ns = 0"
| "stmts_max (Seq s b) ns = max (stmt_max s ns) (stmts_max b ns)"
| "stmts_max (Brk n c b) ns = max (int (depth n ns)) (stmts_max b ns)"
| "other_max NoElse ns = 0"
| "other_max (Otherwise b) ns = stmts_max b ns"
| "other_max (Elif c b e) ns = inner (max (stmts_max b (0 # ns)) (other_max e (0 # ns)))"

primrec stmt_node and stmts_parts and other_parts where
  "stmt_node (Do t) ns = E t"
| "stmt_node (When loop c b e) ns = Node (tok (if_word loop)) (E c) (stmts_parts b (1 # ns) (other_kind e) []) (other_parts e (1 # ns))
     (max (stmts_max b (1 # ns)) (other_max e (1 # ns))) False"
| "stmt_node (Repeat b c) ns = Node (tok ''repeat'') (E c) (stmts_parts b (1 # ns) (tok ''until'') []) [([], 0, 0)]
     (stmts_max b (1 # ns)) False"
| "stmts_parts End ns k es = [(es, k, 1)]"
| "stmts_parts (Seq s b) ns k es = stmts_parts b ns k (es @ [stmt_node s ns])"
| "stmts_parts (Brk n c b) ns k es =
     (es @ [E c], brk_end_kind (tok ''brk'') (int (depth n ns)), int (depth n ns)) # stmts_parts b ns k []"
| "other_parts NoElse ns = [([], 0, 0)]"
| "other_parts (Otherwise b) ns = stmts_parts b ns (tok ''end'') []"
| "other_parts (Elif c b e) ns =
     [([Node (tok ''if'') (E c) (stmts_parts b (0 # ns) (other_kind e) []) (other_parts e (0 # ns))
       (max (stmts_max b (0 # ns)) (other_max e (0 # ns))) False], tok ''end'', 1)]"

text \<open>
  Well-formed programs: no \<open>brk\<close> leaves more levels than there are. An empty branch with a value in
  the other branch is a program that the parser does not survive.
\<close>

fun one_part :: "stmts \<Rightarrow> bool" where
  "one_part End = True"
| "one_part (Seq s b) = one_part b"
| "one_part (Brk n c b) = False"

fun survives :: "stmts \<Rightarrow> other \<Rightarrow> bool" where
  "survives b NoElse = True"
| "survives b (Otherwise b') = (b \<noteq> End \<or> b' = End \<or> \<not> one_part b')"
| "survives b (Elif c b' e) = (b \<noteq> End)"

primrec stmt_wf and stmts_wf and other_wf where
  "stmt_wf (Do t) ns = wf t"
| "stmt_wf (When loop c b e) ns = (wf c \<and> stmts_wf b (1 # ns) \<and> other_wf e (1 # ns) \<and> (loop \<or> survives b e))"
| "stmt_wf (Repeat b c) ns = (wf c \<and> stmts_wf b (1 # ns))"
| "stmts_wf End ns = True"
| "stmts_wf (Seq s b) ns = (stmt_wf s ns \<and> stmts_wf b ns)"
| "stmts_wf (Brk n c b) ns = (0 < n \<and> n \<le> sum_list ns \<and> length ns < 2 ^ 15 \<and> wf c \<and> stmts_wf b ns)"
| "other_wf NoElse ns = True"
| "other_wf (Otherwise b) ns = stmts_wf b ns"
| "other_wf (Elif c b e) ns = (wf c \<and> stmts_wf b (0 # ns) \<and> other_wf e (0 # ns) \<and> survives b e)"

end
