(* ===== verification/Ir.thy ===== *)
theory Ir
  imports ExprTree "HOL-Library.Monad_Syntax"
begin

text \<open>
  The intermediate code that src/codegen.cc emits for branches: basic blocks of instructions, built by
  appending to the block at the insertion point, with phi nodes at the beginning of a block. The
  second part says what this code does, as the language reference of LLVM has it; it is what the
  emitted code is measured against.
\<close>

section \<open>Code\<close>

text \<open>
  Blocks and results of instructions are numbered in the order of their creation. \<open>Run r t\<close> stands
  for the code of the expression \<open>t\<close>, whose truth value is the result \<open>r\<close>. A destination can be a null
  pointer.
\<close>

datatype val = Const int | Reg nat | Undefined

datatype instr =
    Run nat tree
  | Cast nat val
  | Or nat val val
  | StackSave nat
  | StackRestore val
  | Br "nat option"
  | CondBr val "nat option" "nat option"
  | Switch val "nat option" "(int \<times> nat option) list"
  | Ret

record ir =
  next_id :: nat
  block :: nat
  code :: "nat \<Rightarrow> instr list"
  phi_nodes :: "nat \<Rightarrow> nat list"
  incoming :: "nat \<Rightarrow> (val \<times> nat) list"
  inserted :: "nat list"

text \<open>The functions of \<open>IRBuilder\<close>, \<open>BasicBlock\<close> and \<open>PHINode\<close> that are used.\<close>

definition emit :: "instr \<Rightarrow> ir \<Rightarrow> ir" where
  "emit i g = g\<lparr>code := (code g)(block g := code g (block g) @ [i])\<rparr>"

definition new_id :: "ir \<Rightarrow> nat \<times> ir" where
  "new_id g = (next_id g, g\<lparr>next_id := next_id g + 1\<rparr>)"

definition set_insert_point :: "nat \<Rightarrow> ir \<Rightarrow> ir" where
  "set_insert_point b g = g\<lparr>block := b\<rparr>"

definition insert_block :: "nat \<Rightarrow> ir \<Rightarrow> ir" where
  "insert_block b g = set_insert_point b (g\<lparr>inserted := inserted g @ [b]\<rparr>)"

definition create_phi :: "ir \<Rightarrow> nat \<times> ir" where
  "create_phi g = (let (r, g) = new_id g in (r, g\<lparr>phi_nodes := (phi_nodes g)(block g := phi_nodes g (block g) @ [r])\<rparr>))"

definition add_incoming :: "nat \<Rightarrow> val \<Rightarrow> nat \<Rightarrow> ir \<Rightarrow> ir" where
  "add_incoming r v b g = g\<lparr>incoming := (incoming g)(r := incoming g r @ [(v, b)])\<rparr>"

text \<open>A function with an entry block.\<close>

definition empty_function :: ir where
  "empty_function = \<lparr>next_id = 1, block = 0, code = (\<lambda>b. []), phi_nodes = (\<lambda>b. []), incoming = (\<lambda>r. []), inserted = [0]\<rparr>"

section \<open>Execution\<close>

text \<open>
  The state of a run: the next instruction, the results of instructions, the stack pointer, and the
  state of the program, on which expressions work.
\<close>

record 'x machine =
  pc_block :: nat
  pc_index :: nat
  results :: "nat \<Rightarrow> int"
  stack :: int
  memory :: 'x

type_synonym 'x expr_meaning = "tree \<Rightarrow> 'x \<times> int \<Rightarrow> bool \<times> ('x \<times> int)"

fun val_of :: "(nat \<Rightarrow> int) \<Rightarrow> val \<Rightarrow> int option" where
  "val_of R (Const i) = Some i"
| "val_of R (Reg r) = Some (R r)"
| "val_of R Undefined = None"

definition phi_value :: "ir \<Rightarrow> (nat \<Rightarrow> int) \<Rightarrow> nat \<Rightarrow> nat \<Rightarrow> int option" where
  "phi_value g R from r = (case find (\<lambda>(v, b). b = from) (incoming g r) of None \<Rightarrow> None | Some (v, b) \<Rightarrow> val_of R v)"

text \<open>A jump. All phi nodes of a block are evaluated at once; each must have a value for the block left.\<close>

definition enter :: "ir \<Rightarrow> nat option \<Rightarrow> 'x machine \<Rightarrow> 'x machine option" where
  "enter g dest m = (case dest of None \<Rightarrow> None | Some b \<Rightarrow>
     if list_all (\<lambda>r. phi_value g (results m) (pc_block m) r \<noteq> None) (phi_nodes g b) then
       Some (m\<lparr>pc_block := b, pc_index := 0, results := (\<lambda>r. if r \<in> set (phi_nodes g b)
         then the (phi_value g (results m) (pc_block m) r) else results m r)\<rparr>)
     else None)"

definition store_result :: "nat \<Rightarrow> int \<Rightarrow> 'x machine \<Rightarrow> 'x machine" where
  "store_result r v m = m\<lparr>results := (results m)(r := v), pc_index := pc_index m + 1\<rparr>"

fun exec :: "'x expr_meaning \<Rightarrow> ir \<Rightarrow> instr \<Rightarrow> 'x machine \<Rightarrow> 'x machine option" where
  "exec ev g (Run r t) m = (let (v, x, h) = ev t (memory m, stack m) in
     Some (store_result r (of_bool v) (m\<lparr>memory := x, stack := h\<rparr>)))"
| "exec ev g (Cast r v) m = map_option (\<lambda>i. store_result r i m) (val_of (results m) v)"
| "exec ev g (Or r v w) m = do { i \<leftarrow> val_of (results m) v; j \<leftarrow> val_of (results m) w; Some (store_result r (i OR j) m) }"
| "exec ev g (StackSave r) m = Some (store_result r (stack m) m)"
| "exec ev g (StackRestore v) m = map_option (\<lambda>i. m\<lparr>stack := i, pc_index := pc_index m + 1\<rparr>) (val_of (results m) v)"
| "exec ev g (Br b) m = enter g b m"
| "exec ev g (CondBr v b c) m = do { i \<leftarrow> val_of (results m) v; enter g (if i \<noteq> 0 then b else c) m }"
| "exec ev g (Switch v d cases) m = do { i \<leftarrow> val_of (results m) v;
     enter g (case map_of cases i of None \<Rightarrow> d | Some b \<Rightarrow> b) m }"
| "exec ev g Ret m = None"

definition step :: "'x expr_meaning \<Rightarrow> ir \<Rightarrow> 'x machine \<Rightarrow> 'x machine option" where
  "step ev g m = (if pc_index m < length (code g (pc_block m)) then exec ev g (code g (pc_block m) ! pc_index m) m else None)"

text \<open>
  A run goes on as long as there is a next step; \<open>None\<close> is a run that does not end. It has returned if
  it stops at a \<open>Ret\<close>; if it stops at another place its behaviour is undefined.
\<close>

partial_function (option) run_code :: "'x expr_meaning \<Rightarrow> ir \<Rightarrow> 'x machine \<Rightarrow> 'x machine option" where
  "run_code ev g m = (case step ev g m of None \<Rightarrow> Some m | Some m' \<Rightarrow> run_code ev g m')"

definition returned :: "ir \<Rightarrow> 'x machine \<Rightarrow> bool" where
  "returned g m \<longleftrightarrow> pc_index m < length (code g (pc_block m)) \<and> code g (pc_block m) ! pc_index m = Ret"

definition call :: "'x \<Rightarrow> int \<Rightarrow> 'x machine" where
  "call x h = \<lparr>pc_block = 0, pc_index = 0, results = (\<lambda>r. 0), stack = h, memory = x\<rparr>"

section \<open>Runs\<close>

definition steps :: "'x expr_meaning \<Rightarrow> ir \<Rightarrow> 'x machine \<Rightarrow> 'x machine \<Rightarrow> bool" where
  "steps ev g = (\<lambda>m m'. step ev g m = Some m')\<^sup>*\<^sup>*"

definition some_steps :: "'x expr_meaning \<Rightarrow> ir \<Rightarrow> 'x machine \<Rightarrow> 'x machine \<Rightarrow> bool" where
  "some_steps ev g = (\<lambda>m m'. step ev g m = Some m')\<^sup>+\<^sup>+"

lemma steps_refl [simp, intro]: "steps ev g m m"
  by (simp add: steps_def)

lemma steps_trans [trans]: "steps ev g m m' \<Longrightarrow> steps ev g m' m'' \<Longrightarrow> steps ev g m m''"
  unfolding steps_def by (rule rtranclp_trans)

lemma some_steps_trans [trans]:
  "steps ev g m m' \<Longrightarrow> some_steps ev g m' m'' \<Longrightarrow> some_steps ev g m m''"
  "some_steps ev g m m' \<Longrightarrow> steps ev g m' m'' \<Longrightarrow> some_steps ev g m m''"
  unfolding steps_def some_steps_def by (rule rtranclp_tranclp_tranclp, assumption+) (rule tranclp_rtranclp_tranclp)

lemma one_step: "step ev g m = Some m' \<Longrightarrow> some_steps ev g m m'"
  by (simp add: some_steps_def tranclp.r_into_trancl)

lemma some_steps_steps: "some_steps ev g m m' \<Longrightarrow> steps ev g m m'"
  unfolding steps_def some_steps_def by (rule tranclp_into_rtranclp)

lemma run_steps: "steps ev g m m' \<Longrightarrow> run_code ev g m = run_code ev g m'"
  unfolding steps_def by (induction rule: converse_rtranclp_induct) (simp_all add: run_code.simps)

lemma run_end: "step ev g m = None \<Longrightarrow> run_code ev g m = Some m"
  by (simp add: run_code.simps)

lemma steps_cases: "steps ev g m m' \<Longrightarrow> m = m' \<or> (\<exists>m''. step ev g m = Some m'' \<and> steps ev g m'' m')"
  unfolding steps_def by (blast elim: converse_rtranclpE)

lemma some_steps_cases: "some_steps ev g m m' \<Longrightarrow> \<exists>m''. step ev g m = Some m'' \<and> steps ev g m'' m'"
  unfolding steps_def some_steps_def by (auto dest: tranclpD)

text \<open>A run that comes back to a set of states again and again does not end.\<close>

lemma run_forever:
  assumes I: "\<And>m. m \<in> I \<Longrightarrow> run_code ev g m = None \<or> (\<exists>m'\<in>I. some_steps ev g m m')" and "m \<in> I"
  shows "run_code ev g m = None"
proof (rule ccontr)
  assume "run_code ev g m \<noteq> None"
  then obtain d where d: "run_code ev g m = Some d" by auto
  then have "\<not> (\<exists>e\<in>I. steps ev g m e)"
    using I
  proof (induction ev g m d rule: run_code.raw_induct)
    case (1 run' ev g m d)
    note r = "1.prems"(1) and I = "1.prems"(2)
    have False if "e \<in> I" "steps ev g m e" for e
    proof -
      have "\<exists>m' e'. step ev g m = Some m' \<and> steps ev g m' e' \<and> e' \<in> I"
        using steps_cases [OF that(2)] I [OF that(1)] that(1) r by (metis option.distinct(1) some_steps_cases)
      then obtain m' e' where m': "step ev g m = Some m'" "steps ev g m' e'" "e' \<in> I" by blast
      with "1.hyps" r have "run' ev g m' = Some d" "run_code ev g m' = Some d" by (simp_all add: run_code.simps [of ev g m])
      from "1.IH" [OF this I] m'(2,3) show False by blast
    qed
    then show ?case by blast
  qed (rule d)
  with \<open>m \<in> I\<close> show False by blast
qed

end
