(* ===== verification/Codegen.thy ===== *)
theory Codegen
  imports BlockTree Ir
begin

text \<open>
  Code generation for branches: \<open>BranchExprAST::codegen_raw\<close> and \<open>createCondBranch\<close> of
  src/codegen.cc for \<open>if\<close>, \<open>while\<close> and \<open>repeat\<close>, with \<open>merge_points\<close>, inside a function without a
  result. The branches have no values and no variables of their own, so that nothing has to be
  merged or destructed. The objects are those of BlockTree.
\<close>

section \<open>Ends of branches\<close>

text \<open>\<open>MergePointDescription\<close>; null pointers are \<open>None\<close>.\<close>

record merge_point =
  BB :: "nat option"
  contBB :: "nat option"

definition merge_at :: "nat option \<Rightarrow> merge_point" where
  "merge_at b = \<lparr>BB = b, contBB = b\<rparr>"

text \<open>An expression; \<open>static\<close> says which of them are constants for LLVM.\<close>

definition gen_expr :: "(tree \<Rightarrow> bool option) \<Rightarrow> tree \<Rightarrow> ir \<Rightarrow> val \<times> ir" where
  "gen_expr static t g = (case static t of
     Some v \<Rightarrow> (Const (of_bool v), g)
   | None \<Rightarrow> (let (r, g) = new_id g in (Reg r, emit (Run r t) g)))"

text \<open>
  The destination of a \<open>brk\<close>, counted from the back of \<open>merge_points\<close>; what lies outside of the
  vector is no block.
\<close>

definition brk_dest :: "nat option list \<Rightarrow> nat \<Rightarrow> nat option" where
  "brk_dest bbs lev = (if 1 \<le> lev \<and> lev \<le> length bbs then bbs ! (length bbs - lev) else None)"

definition gen_brk :: "nat option list \<Rightarrow> nat \<Rightarrow> val \<Rightarrow> ir \<Rightarrow> ir" where
  "gen_brk bbs lev v g =
     (let (brkBB, g) = new_id g;
          (contBB, g) = new_id g;
          g = emit (CondBr v (Some brkBB) (Some contBB)) g;
          g = emit (Br (brk_dest bbs lev)) (insert_block brkBB g)
      in insert_block contBB g)"

definition HandleReturn :: "bool \<Rightarrow> ir \<Rightarrow> ir" where
  "HandleReturn already_returned g = (if already_returned then g else emit Ret g)"

text \<open>\<open>createCondBranch\<close> behind the code of the expressions, the last of which has the value \<open>v\<close>.\<close>

definition end_branch :: "merge_point list \<Rightarrow> int \<Rightarrow> bool \<Rightarrow> val \<Rightarrow> ir \<Rightarrow> ir" where
  "end_branch mps k already_returned v g =
     (if k = tok ''return'' then HandleReturn already_returned g
      else if is_brk k then gen_brk (map BB mps) (nat (brk_levels k)) v g
      else (case contBB (last mps) of None \<Rightarrow> g | Some b \<Rightarrow> emit (Br (Some b)) g))"

section \<open>Branches\<close>

text \<open>
  \<open>codegen_raw\<close> for each of the kinds. The code of the condition and of the branches are arguments:
  that of a branch gets \<open>merge_points\<close> and the block where its last part goes on.
\<close>

type_synonym branch_gen = "merge_point list \<Rightarrow> nat option \<Rightarrow> ir \<Rightarrow> ir"

definition new_merge :: "bool \<Rightarrow> ir \<Rightarrow> nat option \<times> ir" where
  "new_merge always g = (if always then (None, g) else (let (b, g) = new_id g in (Some b, g)))"

definition continue_at :: "nat option \<Rightarrow> ir \<Rightarrow> ir" where
  "continue_at merge_block g = (case merge_block of None \<Rightarrow> g | Some b \<Rightarrow> insert_block b g)"

definition gen_if :: "(ir \<Rightarrow> val \<times> ir) \<Rightarrow> branch_gen \<Rightarrow> branch_gen \<Rightarrow> bool \<Rightarrow> merge_point list \<Rightarrow> ir \<Rightarrow> ir" where
  "gen_if cond th el always mps g =
     (let (mergeB, g) = new_merge always g;
          (CondV, g) = cond g;
          entry_end = block g;
          mps' = mps @ [merge_at mergeB]
      in case CondV of
        Const c \<Rightarrow>
          let (start, g) = new_id g;
              g = (if c \<noteq> 0 then th else el) mps' mergeB (insert_block start g);
              g = emit (Br (Some start)) (set_insert_point entry_end g)
          in continue_at mergeB g
      | _ \<Rightarrow>
          let (thenB, g) = new_id g;
              (elseB, g) = new_id g;
              g = th mps' mergeB (insert_block thenB g);
              g = el mps' mergeB (insert_block elseB g);
              g = emit (CondBr CondV (Some thenB) (Some elseB)) (set_insert_point entry_end g)
          in continue_at mergeB g)"

text \<open>
  The stack pointer is saved before the first round of a loop and restored before the others. These
  are the blocks and phi nodes of a loop; a \<open>repeat\<close> has no \<open>condPN\<close> and no \<open>ElseBB\<close>.
\<close>

record loop_blocks =
  ThenBB :: nat
  CondBB :: nat
  ElseBB :: nat
  MergeBB :: "nat option"
  StackSaveBB :: nat
  StackRestoreBB :: nat
  condPN :: nat
  savedStack :: nat
  savedStack1 :: nat

definition gen_stack_save :: "loop_blocks \<Rightarrow> ir \<Rightarrow> nat \<times> ir" where
  "gen_stack_save B g =
     (let (savedStack0, g) = new_id (insert_block (StackSaveBB B) g)
      in (savedStack0, emit (Br (Some (ThenBB B))) (emit (StackSave savedStack0) g)))"

definition gen_stack_restore :: "loop_blocks \<Rightarrow> ir \<Rightarrow> ir" where
  "gen_stack_restore B g = emit (Br (Some (ThenBB B))) (emit (StackRestore (Reg (savedStack B))) g)"

definition start_body :: "loop_blocks \<Rightarrow> nat \<Rightarrow> ir \<Rightarrow> loop_blocks \<times> ir" where
  "start_body B savedStack0 g =
     (let (r, g) = create_phi (insert_block (ThenBB B) g)
      in (B\<lparr>savedStack1 := r\<rparr>, add_incoming r (Reg (savedStack B)) (StackRestoreBB B)
            (add_incoming r (Reg savedStack0) (StackSaveBB B) g)))"

definition while_head :: "bool \<Rightarrow> ir \<Rightarrow> loop_blocks \<times> ir" where
  "while_head always g =
     (let enterBB = block g;
          (thenB, g) = new_id g;
          (condB, g) = new_id g;
          g = insert_block condB (emit (Br (Some condB)) g);
          (cpn, g) = create_phi g;
          (saved, g) = create_phi g;
          g = add_incoming saved (Const 0) enterBB (add_incoming cpn (Const 2) enterBB g);
          (elseB, g) = new_id g;
          (mergeB, g) = new_merge always g;
          (saveB, g) = new_id g;
          (restoreB, g) = new_id g
      in (\<lparr>ThenBB = thenB, CondBB = condB, ElseBB = elseB, MergeBB = mergeB, StackSaveBB = saveB, StackRestoreBB = restoreB,
            condPN = cpn, savedStack = saved, savedStack1 = 0\<rparr>, g))"

definition while_body :: "loop_blocks \<Rightarrow> val \<Rightarrow> ir \<Rightarrow> loop_blocks \<times> ir" where
  "while_body B CondV g =
     (let (CondVV, g) = new_id g;
          g = emit (Cast CondVV CondV) g;
          (switchVal, g) = new_id g;
          g = emit (Or switchVal (Reg (condPN B)) (Reg CondVV)) g;
          g = emit (Switch (Reg switchVal) (MergeBB B)
                [(1, Some (StackRestoreBB B)), (2, Some (ElseBB B)), (3, Some (StackSaveBB B))]) g;
          (savedStack0, g) = gen_stack_save B g;
          g = gen_stack_restore B (insert_block (StackRestoreBB B) g)
      in start_body B savedStack0 g)"

definition while_again :: "loop_blocks \<Rightarrow> ir \<Rightarrow> ir" where
  "while_again B g = add_incoming (savedStack B) (Reg (savedStack1 B)) (block g) (add_incoming (condPN B) (Const 0) (block g) g)"

definition gen_while :: "(ir \<Rightarrow> val \<times> ir) \<Rightarrow> branch_gen \<Rightarrow> branch_gen \<Rightarrow> bool \<Rightarrow> merge_point list \<Rightarrow> ir \<Rightarrow> ir" where
  "gen_while cond th el always mps g =
     (let (B, g) = while_head always g;
          (CondV, g) = cond g;
          (B, g) = while_body B CondV g;
          mps' = mps @ [merge_at (MergeBB B)];
          g = while_again B (th mps' (Some (CondBB B)) g);
          g = el mps' (MergeBB B) (insert_block (ElseBB B) g)
      in continue_at (MergeBB B) g)"

definition repeat_head :: "bool \<Rightarrow> ir \<Rightarrow> loop_blocks \<times> ir" where
  "repeat_head always g =
     (let (thenB, g) = new_id g;
          (condB, g) = new_id g;
          (mergeB, g) = new_merge always g;
          (saveB, g) = new_id g;
          (restoreB, g) = new_id g;
          B = \<lparr>ThenBB = thenB, CondBB = condB, ElseBB = 0, MergeBB = mergeB, StackSaveBB = saveB, StackRestoreBB = restoreB,
            condPN = 0, savedStack = 0, savedStack1 = 0\<rparr>;
          (savedStack0, g) = gen_stack_save B (emit (Br (Some saveB)) g);
          (saved, g) = create_phi (insert_block restoreB g);
          B = B\<lparr>savedStack := saved\<rparr>
      in start_body B savedStack0 (gen_stack_restore B g))"

definition gen_repeat :: "(ir \<Rightarrow> val \<times> ir) \<Rightarrow> branch_gen \<Rightarrow> bool \<Rightarrow> merge_point list \<Rightarrow> ir \<Rightarrow> ir" where
  "gen_repeat cond th always mps g =
     (let (B, g) = repeat_head always g;
          g = th (mps @ [merge_at (MergeBB B)]) (Some (CondBB B)) g;
          (CondV, g) = cond (insert_block (CondBB B) g);
          g = emit (CondBr CondV (MergeBB B) (Some (StackRestoreBB B))) g;
          g = add_incoming (savedStack B) (Reg (savedStack1 B)) (block g) g
      in continue_at (MergeBB B) g)"

text \<open>
  The statements and the parts of a branch. A branch has a value only if it is an expression; the
  last part ends with a jump to the block where the branch goes on.
\<close>

definition returned_already :: "node list \<Rightarrow> bool" where
  "returned_already es = (es \<noteq> [] \<and> (case last es of E t \<Rightarrow> False | Node k c th el mx always \<Rightarrow> always))"

definition with_cont :: "nat option \<Rightarrow> merge_point list \<Rightarrow> merge_point list" where
  "with_cont b mps = butlast mps @ [(last mps)\<lparr>contBB := b\<rparr>]"

function (sequential) gen_node :: "(tree \<Rightarrow> bool option) \<Rightarrow> merge_point list \<Rightarrow> node \<Rightarrow> ir \<Rightarrow> val \<times> ir"
  and gen_nodes :: "(tree \<Rightarrow> bool option) \<Rightarrow> merge_point list \<Rightarrow> node list \<Rightarrow> val \<Rightarrow> ir \<Rightarrow> val \<times> ir"
  and gen_parts :: "(tree \<Rightarrow> bool option) \<Rightarrow> (node list \<times> int \<times> int) list \<Rightarrow> branch_gen" where
  "gen_node static mps (E t) g = gen_expr static t g"
| "gen_node static mps (Node k c th el mx always) g =
     (Undefined,
      if k = tok ''while'' then
        gen_while (gen_node static mps c) (\<lambda>mps b g. gen_parts static th mps b g) (\<lambda>mps b g. gen_parts static el mps b g) always mps g
      else if k = tok ''repeat'' then
        gen_repeat (gen_node static mps c) (\<lambda>mps b g. gen_parts static th mps b g) always mps g
      else gen_if (gen_node static mps c) (\<lambda>mps b g. gen_parts static th mps b g) (\<lambda>mps b g. gen_parts static el mps b g) always mps g)"
| "gen_nodes static mps [] v g = (v, g)"
| "gen_nodes static mps (e # es) v g = (let (v, g) = gen_node static mps e g in gen_nodes static mps es v g)"
| "gen_parts static [] mps b g = g"
| "gen_parts static ((es, k, l) # ps) mps b g =
     (let mps = (if ps = [] then with_cont b mps else mps);
          (v, g) = gen_nodes static mps es Undefined g;
          g = end_branch mps k (returned_already es) v g
      in gen_parts static ps mps b g)"
  by pat_completeness auto
termination
  by (relation "measure (\<lambda>x. case x of
       Inl (static, mps, e, g) \<Rightarrow> size e
     | Inr (Inl (static, mps, es, v, g)) \<Rightarrow> size_list size es
     | Inr (Inr (static, ps, mps, b, g)) \<Rightarrow> size_list (size_prod (size_list size) (\<lambda>x. 0)) ps)")
    auto

end
