(* ===== verification/Meaning.thy ===== *)
theory Meaning
  imports Codegen
begin

text \<open>
  What a program of BlockTree means, and the shape of the code that is generated for it: \<open>codegen_raw\<close>
  on the objects of the parser is a recursion on the program.
\<close>

section \<open>Meaning of programs\<close>

text \<open>
  A statement ends normally, or by a \<open>brk\<close> that has still some syntactic levels to leave. \<open>if\<close>, \<open>while\<close>
  and \<open>repeat\<close> are one level, \<open>elif\<close> is none. \<open>None\<close> is a statement that does not end.
\<close>

datatype outcome = Normal | Leave nat

type_synonym 'x state = "'x \<times> int"
type_synonym 'x meaning = "'x state \<Rightarrow> (outcome \<times> 'x state) option"

fun leave :: "nat \<Rightarrow> outcome \<Rightarrow> outcome" where
  "leave 0 r = r"
| "leave (Suc k) Normal = Normal"
| "leave (Suc k) (Leave n) = (if n \<le> Suc k then Normal else Leave (n - Suc k))"

definition m_seq :: "'x meaning \<Rightarrow> 'x meaning \<Rightarrow> 'x meaning" where
  "m_seq f g x = (case f x of None \<Rightarrow> None | Some (Normal, y) \<Rightarrow> g y | Some (Leave n, y) \<Rightarrow> Some (Leave n, y))"

definition m_leave :: "nat \<Rightarrow> 'x meaning \<Rightarrow> 'x meaning" where
  "m_leave k f x = map_option (apfst (leave k)) (f x)"

definition m_brk :: "'x expr_meaning \<Rightarrow> nat \<Rightarrow> tree \<Rightarrow> 'x meaning \<Rightarrow> 'x meaning" where
  "m_brk ev n c f x = (let (v, y) = ev c x in if v then Some (Leave n, y) else f y)"

definition m_if :: "'x expr_meaning \<Rightarrow> tree \<Rightarrow> 'x meaning \<Rightarrow> 'x meaning \<Rightarrow> 'x meaning" where
  "m_if ev c f g x = (let (v, y) = ev c x in if v then f y else g y)"

partial_function (option) iterate :: "('a \<Rightarrow> ('a + 'b) option) \<Rightarrow> 'a \<Rightarrow> 'b option" where
  "iterate f x = (case f x of None \<Rightarrow> None | Some (Inl y) \<Rightarrow> iterate f y | Some (Inr z) \<Rightarrow> Some z)"

text \<open>
  A round of a loop starts with the stack pointer \<open>h\<close> of the first round, so that what the body has
  taken from the stack is given back; it goes on if the value of the condition is \<open>on\<close>.
\<close>

definition m_round :: "'x expr_meaning \<Rightarrow> tree \<Rightarrow> bool \<Rightarrow> 'x meaning \<Rightarrow> int \<Rightarrow> 'x state \<Rightarrow> ('x state + outcome \<times> 'x state) option" where
  "m_round ev c on f h x = (case f (fst x, h) of
     None \<Rightarrow> None
   | Some (Leave n, y) \<Rightarrow> Some (Inr (Leave n, y))
   | Some (Normal, y) \<Rightarrow> (let (v, z) = ev c y in Some (if v = on then Inl z else Inr (Normal, z))))"

definition m_while :: "'x expr_meaning \<Rightarrow> tree \<Rightarrow> 'x meaning \<Rightarrow> 'x meaning \<Rightarrow> 'x meaning" where
  "m_while ev c f g x = (let (v, y) = ev c x in if v then iterate (m_round ev c True f (snd y)) y else g y)"

definition m_repeat :: "'x expr_meaning \<Rightarrow> tree \<Rightarrow> 'x meaning \<Rightarrow> 'x meaning" where
  "m_repeat ev c f x = iterate (m_round ev c False f (snd x)) x"

primrec m_stmt and m_stmts and m_other where
  "m_stmt ev (Do t) = (\<lambda>x. Some (Normal, snd (ev t x)))"
| "m_stmt ev (When loop c b e) = m_leave 1 ((if loop then m_while else m_if) ev c (m_stmts ev b) (m_other ev e))"
| "m_stmt ev (Repeat b c) = m_leave 1 (m_repeat ev c (m_stmts ev b))"
| "m_stmts ev End = (\<lambda>x. Some (Normal, x))"
| "m_stmts ev (Seq s b) = m_seq (m_stmt ev s) (m_stmts ev b)"
| "m_stmts ev (Brk n c b) = m_brk ev n c (m_stmts ev b)"
| "m_other ev NoElse = (\<lambda>x. Some (Normal, x))"
| "m_other ev (Otherwise b) = m_stmts ev b"
| "m_other ev (Elif c b e) = m_leave 0 (m_if ev c (m_stmts ev b) (m_other ev e))"

section \<open>Code of programs\<close>

text \<open>Of \<open>merge_points\<close> only the blocks to leave to are used by the statements of a branch.\<close>

type_synonym stmts_gen = "nat option list \<Rightarrow> ir \<Rightarrow> ir"

definition jump_from :: "stmts_gen \<Rightarrow> branch_gen" where
  "jump_from gen mps b g = (let g = gen (map BB mps) g in case b of None \<Rightarrow> g | Some b \<Rightarrow> emit (Br (Some b)) g)"

primrec g_stmt and g_stmts and g_other where
  "g_stmt static (Do t) ns = (\<lambda>bbs g. snd (gen_expr static t g))"
| "g_stmt static (When loop c b e) ns = (\<lambda>bbs.
     (if loop then gen_while else gen_if) (gen_expr static c) (jump_from (g_stmts static b (1 # ns)))
       (jump_from (g_other static e (1 # ns))) False (map merge_at bbs))"
| "g_stmt static (Repeat b c) ns = (\<lambda>bbs.
     gen_repeat (gen_expr static c) (jump_from (g_stmts static b (1 # ns))) False (map merge_at bbs))"
| "g_stmts static End ns = (\<lambda>bbs g. g)"
| "g_stmts static (Seq s b) ns = (\<lambda>bbs g. g_stmts static b ns bbs (g_stmt static s ns bbs g))"
| "g_stmts static (Brk n c b) ns = (\<lambda>bbs g.
     let (v, g) = gen_expr static c g in g_stmts static b ns bbs (gen_brk bbs (depth n ns) v g))"
| "g_other static NoElse ns = (\<lambda>bbs g. g)"
| "g_other static (Otherwise b) ns = g_stmts static b ns"
| "g_other static (Elif c b e) ns = (\<lambda>bbs.
     gen_if (gen_expr static c) (jump_from (g_stmts static b (0 # ns))) (jump_from (g_other static e (0 # ns))) False
       (map merge_at bbs))"

lemma BB_merge_at [simp]: "BB (merge_at b) = b" "contBB (merge_at b) = b"
  by (simp_all add: merge_at_def)

lemma BB_comp [simp]: "BB \<circ> merge_at = id"
  by (simp add: fun_eq_iff)

lemma BB_with_cont [simp]: "mps \<noteq> [] \<Longrightarrow> map BB (with_cont b mps) = map BB mps"
  by (induction mps rule: rev_induct) (simp_all add: with_cont_def)

lemma contBB_with_cont [simp]: "contBB (last (with_cont b mps)) = b"
  by (simp add: with_cont_def)

lemma with_cont_nonempty [simp]: "with_cont b mps \<noteq> []"
  by (simp add: with_cont_def)

lemma jump_from_cong: "map BB mps = map BB mps' \<Longrightarrow> jump_from gen mps = jump_from gen mps'"
  by (simp add: jump_from_def fun_eq_iff)

lemma jump_from_merge_at: "jump_from gen (map merge_at (map BB mps) @ [m]) = jump_from gen (mps @ [m])"
  by (rule jump_from_cong) simp

definition plain :: "int \<Rightarrow> bool" where
  "plain k \<longleftrightarrow> k \<noteq> tok ''return'' \<and> \<not> is_brk k"

lemma plain_kinds [simp]: "plain 0" "plain (tok ''end'')" "plain (tok ''until'')" "plain (tok ''else'')" "plain (tok ''elif'')"
  unfolding plain_def is_brk_def by code_simp+

lemma end_plain: "plain k \<Longrightarrow> end_branch mps k ra v g = (case contBB (last mps) of None \<Rightarrow> g | Some b \<Rightarrow> emit (Br (Some b)) g)"
  by (simp add: end_branch_def plain_def)

lemma plain_other [simp]: "plain (other_kind e)"
  by (cases e) simp_all

definition nodes_gen :: "(tree \<Rightarrow> bool option) \<Rightarrow> node list \<Rightarrow> stmts_gen \<Rightarrow> bool" where
  "nodes_gen static es K \<longleftrightarrow> (\<forall>mps v g. snd (gen_nodes static mps es v g) = K (map BB mps) g)"

lemma gen_nodes_append:
  "gen_nodes static mps (es @ es') v g = (let (v, g) = gen_nodes static mps es v g in gen_nodes static mps es' v g)"
  by (induction es arbitrary: v g) (auto split: prod.split)

lemma nodes_gen_Nil: "nodes_gen static [] (\<lambda>bbs g. g)"
  by (simp add: nodes_gen_def)

lemma nodes_gen_snoc:
  assumes "nodes_gen static es K" "\<And>mps g. snd (gen_node static mps e g) = G (map BB mps) g"
  shows "nodes_gen static (es @ [e]) (\<lambda>bbs g. G bbs (K bbs g))"
  using assms by (auto simp: nodes_gen_def gen_nodes_append split: prod.split) (metis snd_conv)


lemma gen_if_cong:
  assumes "\<And>m. th (mps @ [m]) = th' (mps' @ [m])" "\<And>m. el (mps @ [m]) = el' (mps' @ [m])"
  shows "gen_if cond th el always mps = gen_if cond th' el' always mps'"
  by (simp add: gen_if_def assms fun_eq_iff Let_def split: prod.split val.split)

lemma gen_while_cong:
  assumes "\<And>m. th (mps @ [m]) = th' (mps' @ [m])" "\<And>m. el (mps @ [m]) = el' (mps' @ [m])"
  shows "gen_while cond th el always mps = gen_while cond th' el' always mps'"
  by (simp add: gen_while_def assms fun_eq_iff Let_def)

lemma gen_repeat_cong:
  assumes "\<And>m. th (mps @ [m]) = th' (mps' @ [m])"
  shows "gen_repeat cond th always mps = gen_repeat cond th' always mps'"
  by (simp add: gen_repeat_def assms fun_eq_iff Let_def)

lemma gen_node_E: "gen_node static mps (E t) = gen_expr static t"
  by (simp add: fun_eq_iff)

lemma if_kinds [simp]:
  "tok ''if'' \<noteq> tok ''while''" "tok ''if'' \<noteq> tok ''repeat''" "tok ''repeat'' \<noteq> tok ''while''" "tok ''while'' \<noteq> tok ''repeat''"
  by (simp_all add: tok_values)

lemma stmts_parts_nonempty [simp]: "stmts_parts b ns k es \<noteq> []"
  by (induction b arbitrary: es) simp_all

lemma gen_program:
  "stmt_wf s ns \<Longrightarrow> set ns \<subseteq> {0, 1} \<Longrightarrow> snd (gen_node static mps (stmt_node s ns) g) = g_stmt static s ns (map BB mps) g"
  "stmts_wf b ns \<Longrightarrow> set ns \<subseteq> {0, 1} \<Longrightarrow> plain k \<Longrightarrow> nodes_gen static es K \<Longrightarrow> mps \<noteq> [] \<Longrightarrow>
    gen_parts static (stmts_parts b ns k es) mps j g = jump_from (\<lambda>bbs g. g_stmts static b ns bbs (K bbs g)) mps j g"
  "other_wf e ns \<Longrightarrow> set ns \<subseteq> {0, 1} \<Longrightarrow> mps \<noteq> [] \<Longrightarrow> gen_parts static (other_parts e ns) mps j g = jump_from (g_other static e ns) mps j g"
proof (induction s and b and e arbitrary: ns mps g and ns k es K mps j g and ns mps j g)
  case (When loop c b e)
  let ?mps = "map merge_at (map BB mps)" and ?th = "gen_parts static (stmts_parts b (1 # ns) (other_kind e) [])"
    and ?el = "gen_parts static (other_parts e (1 # ns))"
  have b: "?th (mps @ [m]) = jump_from (g_stmts static b (1 # ns)) (?mps @ [m])" for m
    unfolding jump_from_merge_at using When by (simp add: fun_eq_iff nodes_gen_Nil)
  have e: "?el (mps @ [m]) = jump_from (g_other static e (1 # ns)) (?mps @ [m])" for m
    unfolding jump_from_merge_at using When by (simp add: fun_eq_iff)
  from gen_while_cong [of ?th mps _ ?mps ?el, OF b e] gen_if_cong [of ?th mps _ ?mps ?el, OF b e]
  show ?case by (auto simp: if_word_def gen_node_E)
next
  case (Repeat b c)
  let ?mps = "map merge_at (map BB mps)" and ?th = "gen_parts static (stmts_parts b (1 # ns) (tok ''until'') [])"
  have b: "?th (mps @ [m]) = jump_from (g_stmts static b (1 # ns)) (?mps @ [m])" for m
    unfolding jump_from_merge_at using Repeat by (simp add: fun_eq_iff nodes_gen_Nil)
  from gen_repeat_cong [of ?th mps _ ?mps, OF b] show ?case by (simp add: gen_node_E)
next
  case End
  then show ?case by (simp add: nodes_gen_def end_plain jump_from_def split: prod.split) (metis BB_with_cont snd_conv)
next
  case (Seq s b)
  show ?case
    using Seq.prems Seq.IH(2) [of ns k "es @ [stmt_node s ns]" "\<lambda>bbs g. g_stmt static s ns bbs (K bbs g)"] Seq.IH(1)
      nodes_gen_snoc [of static es K "stmt_node s ns" "g_stmt static s ns"] by simp
next
  case (Brk n c b)
  let ?d = "depth n ns"
  have "?d \<le> length ns" "length ns < 2 ^ 15"
    using Brk.prems(1,2) depth_le [of n ns] by auto
  then have d: "0 \<le> int ?d" "int ?d < 2 ^ 15" by simp_all
  obtain v g' where g': "gen_expr static c (K (map BB mps) g) = (v, g')" by fastforce
  have "gen_nodes static mps (es @ [E c]) Undefined g = (v, g')"
    using Brk.prems(4) g' unfolding nodes_gen_def gen_nodes_append
    by (metis (no_types, lifting) case_prod_conv gen_node.simps(1) gen_nodes.simps prod.collapse split_def)
  then show ?case
    using Brk.prems Brk.IH [of ns k "[]" "\<lambda>bbs g. g" mps] brk_end_kind_levels [OF d] g'
    by (simp add: nodes_gen_Nil end_branch_def jump_from_def)
next
  case (Otherwise b)
  then show ?case by (simp add: nodes_gen_Nil Otherwise.IH [of ns _ "[]" "\<lambda>bbs g. g"])
next
  case (Elif c b e)
  let ?m = "with_cont j mps"
  let ?mps = "map merge_at (map BB ?m)" and ?th = "gen_parts static (stmts_parts b (0 # ns) (other_kind e) [])"
    and ?el = "gen_parts static (other_parts e (0 # ns))"
  have b: "?th (?m @ [m]) = jump_from (g_stmts static b (0 # ns)) (?mps @ [m])" for m
    unfolding jump_from_merge_at using Elif by (simp add: fun_eq_iff nodes_gen_Nil)
  have e: "?el (?m @ [m]) = jump_from (g_other static e (0 # ns)) (?mps @ [m])" for m
    unfolding jump_from_merge_at using Elif by (simp add: fun_eq_iff)
  from gen_if_cong [of ?th ?m _ ?mps ?el, OF b e] Elif.prems(3)
  show ?case
    unfolding jump_from_def [of "g_other static (Elif c b e) ns"] Let_def
    by (cases j) (simp_all add: gen_node_E end_plain Let_def)
qed (simp_all add: gen_node_E jump_from_def end_plain nodes_gen_Nil)

end
