(* ===== verification/CodeSteps.thy ===== *)
theory CodeSteps
  imports Meaning "HOL-Library.Sublist"
begin

text \<open>
  Steps towards the correctness of code generation: what it means that code is only added to, and how
  a run passes the instructions that have been emitted.
\<close>

section \<open>Code that grows\<close>

text \<open>
  \<open>ext C N g g'\<close>: \<open>g'\<close> has all that \<open>g\<close> has, and may have added to the blocks in \<open>C\<close> and to the incoming
  values of the phi nodes in \<open>N\<close>.
\<close>

definition ext :: "nat set \<Rightarrow> nat set \<Rightarrow> ir \<Rightarrow> ir \<Rightarrow> bool" where
  "ext C N g g' \<longleftrightarrow> next_id g \<le> next_id g' \<and> (\<forall>l. Sublist.prefix (code g l) (code g' l)) \<and>
     (\<forall>l<next_id g. l \<notin> C \<longrightarrow> code g' l = code g l) \<and> (\<forall>l<next_id g. phi_nodes g' l = phi_nodes g l) \<and>
     (\<forall>r<next_id g. r \<notin> N \<longrightarrow> incoming g' r = incoming g r)"

definition fresh :: "ir \<Rightarrow> bool" where
  "fresh g \<longleftrightarrow> block g < next_id g \<and> (\<forall>l\<ge>next_id g. code g l = [] \<and> phi_nodes g l = [] \<and> incoming g l = [])"

definition grown :: "ir \<Rightarrow> ir \<Rightarrow> bool" where
  "grown g g' \<longleftrightarrow> fresh g' \<and> ext {block g} {} g g' \<and> (block g' = block g \<or> next_id g \<le> block g')"

definition final :: "ir \<Rightarrow> ir \<Rightarrow> ir \<Rightarrow> bool" where
  "final P g g' \<longleftrightarrow> (\<exists>C N. ext C N g' P \<and> C \<inter> {next_id g..<next_id g'} \<subseteq> {block g'} \<and> N \<inter> {next_id g..<next_id g'} = {})"

lemma ext_refl [simp]: "ext C N g g"
  by (simp add: ext_def)

lemma ext_trans: "ext C N g g' \<Longrightarrow> ext C' N' g' g'' \<Longrightarrow> ext (C \<union> C') (N \<union> N') g g''"
  unfolding ext_def by (auto intro: prefix_order.trans)

lemma ext_mono: "ext C N g g' \<Longrightarrow> C \<inter> {..<next_id g} \<subseteq> C' \<Longrightarrow> N \<inter> {..<next_id g} \<subseteq> N' \<Longrightarrow> ext C' N' g g'"
  unfolding ext_def by auto

lemma extD:
  assumes "ext C N g g'" "l < next_id g"
  shows "l \<notin> C \<Longrightarrow> code g' l = code g l" "phi_nodes g' l = phi_nodes g l" "l \<notin> N \<Longrightarrow> incoming g' l = incoming g l"
  using assms unfolding ext_def by auto

lemma ext_next: "ext C N g g' \<Longrightarrow> next_id g \<le> next_id g'"
  by (simp add: ext_def)

lemma grown_refl: "fresh g \<Longrightarrow> grown g g"
  by (simp add: grown_def)

lemma grown_trans: "grown g g' \<Longrightarrow> grown g' g'' \<Longrightarrow> grown g g''"
  unfolding grown_def
proof (elim conjE, intro conjI)
  assume e: "ext {block g} {} g g'" "ext {block g'} {} g' g''" "block g' = block g \<or> next_id g \<le> block g'"
  show "ext {block g} {} g g''" using e(3) by (intro ext_mono [OF ext_trans [OF e(1,2)]]) auto
  assume "block g'' = block g' \<or> next_id g' \<le> block g''"
  with \<open>ext {block g} {} g g'\<close> \<open>block g' = block g \<or> _\<close> show "block g'' = block g \<or> next_id g \<le> block g''"
    by (auto dest: ext_next)
qed

lemma grownD: "grown g g' \<Longrightarrow> fresh g'" "grown g g' \<Longrightarrow> ext {block g} {} g g'" "grown g g' \<Longrightarrow> next_id g \<le> next_id g'"
  by (auto simp: grown_def ext_def)

lemma grown_block: "grown g g' \<Longrightarrow> block g' = block g \<or> next_id g \<le> block g'"
  by (simp add: grown_def)

lemma finalE:
  assumes "final P g g'"
  obtains C N where "ext C N g' P" "C \<inter> {next_id g..<next_id g'} \<subseteq> {block g'}" "N \<inter> {next_id g..<next_id g'} = {}"
  using assms unfolding final_def by blast

lemma finalI:
  "ext C N g' P \<Longrightarrow> C \<inter> {next_id g..<next_id g'} \<subseteq> {block g'} \<Longrightarrow> N \<inter> {next_id g..<next_id g'} = {} \<Longrightarrow> final P g g'"
  unfolding final_def by blast

lemma final_rest:
  assumes "final P g g''" "next_id g \<le> next_id g'"
  shows "final P g' g''"
  using assms(1)
proof (rule finalE)
  fix C N assume "ext C N g'' P" "C \<inter> {next_id g..<next_id g''} \<subseteq> {block g''}" "N \<inter> {next_id g..<next_id g''} = {}"
  moreover have "{next_id g'..<next_id g''} \<subseteq> {next_id g..<next_id g''}" using assms(2) by simp
  ultimately show ?thesis by (intro finalI [of C N]) blast+
qed

lemma final_first:
  assumes "final P g g''" "grown g' g''"
  shows "final P g g'"
  using assms(1)
proof (rule finalE)
  fix C N assume P: "ext C N g'' P" "C \<inter> {next_id g..<next_id g''} \<subseteq> {block g''}" "N \<inter> {next_id g..<next_id g''} = {}"
  have "ext ({block g'} \<union> C) ({} \<union> N) g' P" by (rule ext_trans [OF grownD(2) [OF assms(2)] P(1)])
  moreover have "c = block g'" if "c \<in> C" "next_id g \<le> c" "c < next_id g'" for c
  proof -
    have "c < next_id g''" using that(3) grownD(3) [OF assms(2)] by simp
    then have "c = block g''" using that P(2) by auto
    then show ?thesis using grown_block [OF assms(2)] that(3) by auto
  qed
  moreover have "N \<inter> {next_id g..<next_id g'} = {}" using P(3) grownD(3) [OF assms(2)] by fastforce
  ultimately show ?thesis by (intro finalI [of "{block g'} \<union> C" "{} \<union> N"]) auto
qed

section \<open>The operations\<close>

lemma next_ops [simp]:
  "next_id (emit i g) = next_id g" "next_id (set_insert_point b g) = next_id g" "next_id (insert_block b g) = next_id g"
  "next_id (add_incoming r v b g) = next_id g"
  by (simp_all add: emit_def set_insert_point_def insert_block_def add_incoming_def)

lemma block_ops [simp]:
  "block (emit i g) = block g" "block (set_insert_point b g) = b" "block (insert_block b g) = b" "block (add_incoming r v b' g) = block g"
  by (simp_all add: emit_def set_insert_point_def insert_block_def add_incoming_def)

lemma code_ops [simp]:
  "code (emit i g) = (code g)(block g := code g (block g) @ [i])" "code (set_insert_point b g) = code g"
  "code (insert_block b g) = code g" "code (add_incoming r v b g) = code g"
  by (simp_all add: emit_def set_insert_point_def insert_block_def add_incoming_def)

lemma phi_ops [simp]:
  "phi_nodes (emit i g) = phi_nodes g" "phi_nodes (set_insert_point b g) = phi_nodes g"
  "phi_nodes (insert_block b g) = phi_nodes g" "phi_nodes (add_incoming r v b g) = phi_nodes g"
  "incoming (emit i g) = incoming g" "incoming (set_insert_point b g) = incoming g"
  "incoming (insert_block b g) = incoming g" "incoming (add_incoming r v b g) = (incoming g)(r := incoming g r @ [(v, b)])"
  by (simp_all add: emit_def set_insert_point_def insert_block_def add_incoming_def)

lemma new_id_eq: "new_id g = (next_id g, g\<lparr>next_id := next_id g + 1\<rparr>)"
  by (simp add: new_id_def)

lemma create_phi_eq:
  "create_phi g = (next_id g, g\<lparr>next_id := next_id g + 1, phi_nodes := (phi_nodes g)(block g := phi_nodes g (block g) @ [next_id g])\<rparr>)"
  by (simp add: create_phi_def new_id_def)

lemma ext_ops:
  "ext {block g} {} g (emit i g)" "ext {} {} g (set_insert_point b g)" "ext {} {} g (insert_block b g)" "ext {} {r} g (add_incoming r v b g)"
  by (simp_all add: ext_def)

lemma ext_after [simp]:
  "ext C N g (set_insert_point b g') \<longleftrightarrow> ext C N g g'" "ext C N g (insert_block b g') \<longleftrightarrow> ext C N g g'"
  by (simp_all add: ext_def)

lemma ext_emit: "ext C N g g' \<Longrightarrow> ext (insert (block g') C) N g (emit i g')"
  using ext_trans [OF _ ext_ops(1)] by fastforce

lemma ext_incoming: "ext C N g g' \<Longrightarrow> ext C (insert r N) g (add_incoming r v b g')"
  using ext_trans [OF _ ext_ops(4)] by fastforce

lemma grown_emit: "fresh g \<Longrightarrow> grown g (emit i g)"
  by (simp add: grown_def ext_ops) (simp add: fresh_def)

lemma grown_ids: "fresh g \<Longrightarrow> grown g (g\<lparr>next_id := next_id g + k\<rparr>)"
  by (simp add: grown_def fresh_def ext_def)

lemma fresh_block: "fresh g \<Longrightarrow> b < next_id g \<Longrightarrow> fresh (insert_block b g)"
  by (simp add: fresh_def)

section \<open>Runs of emitted code\<close>

definition here :: "ir \<Rightarrow> 'x state \<Rightarrow> (nat \<Rightarrow> int) \<Rightarrow> 'x machine" where
  "here g x R = \<lparr>pc_block = block g, pc_index = length (code g (block g)), results = R, stack = snd x, memory = fst x\<rparr>"

definition there :: "nat \<Rightarrow> 'x state \<Rightarrow> (nat \<Rightarrow> int) \<Rightarrow> 'x machine" where
  "there b x R = \<lparr>pc_block = b, pc_index = 0, results = R, stack = snd x, memory = fst x\<rparr>"

definition agree :: "nat \<Rightarrow> (nat \<Rightarrow> int) \<Rightarrow> (nat \<Rightarrow> int) \<Rightarrow> bool" where
  "agree n R R' \<longleftrightarrow> (\<forall>r<n. R' r = R r)"

lemma agree_refl [simp]: "agree n R R"
  by (simp add: agree_def)

lemma agree_trans: "agree n R R' \<Longrightarrow> agree n' R' R'' \<Longrightarrow> n \<le> n' \<Longrightarrow> agree n R R''"
  by (simp add: agree_def)

lemma here_there: "code g (block g) = [] \<Longrightarrow> here g x R = there (block g) x R"
  by (simp add: here_def there_def)

lemma here_same: "block g' = block g \<Longrightarrow> code g' (block g) = code g (block g) \<Longrightarrow> here g' x R = here g x R"
  by (simp add: here_def)

lemma results_here [simp]: "results (here g x R) = R" "results (there b x R) = R"
  by (simp_all add: here_def there_def)

lemma ext_prefix: "ext C N g P \<Longrightarrow> Sublist.prefix (code g l) (code P l)"
  by (simp add: ext_def)

lemma step_emitted:
  assumes "Sublist.prefix (code (emit i g) (block g)) (code P (block g))"
  shows "step ev P (here g x R) = exec ev P i (here g x R)"
  using assms by (auto simp: step_def here_def Sublist.prefix_def nth_append)

lemma step_emit: "ext C N (emit i g) P \<Longrightarrow> step ev P (here g x R) = exec ev P i (here g x R)"
  by (rule step_emitted [OF ext_prefix])

lemma step_run:
  assumes "Sublist.prefix (code (emit (Run r t) g) (block g)) (code P (block g))"
  shows "step ev P (here g x R) = Some (here (emit (Run r t) g) (snd (ev t x)) (R(r := of_bool (fst (ev t x)))))"
  unfolding step_emitted [OF assms] by (simp add: here_def store_result_def split_def Let_def)

lemma step_results:
  assumes "ext C N (emit i g) P"
  shows "i = Run r t \<Longrightarrow> step ev P (here g x R) = Some (here (emit i g) (snd (ev t x)) (R(r := of_bool (fst (ev t x)))))"
    "i = Cast r v \<Longrightarrow> val_of R v = Some a \<Longrightarrow> step ev P (here g x R) = Some (here (emit i g) x (R(r := a)))"
    "i = Or r v w \<Longrightarrow> val_of R v = Some a \<Longrightarrow> val_of R w = Some b \<Longrightarrow> step ev P (here g x R) = Some (here (emit i g) x (R(r := a OR b)))"
    "i = StackSave r \<Longrightarrow> step ev P (here g x R) = Some (here (emit i g) x (R(r := snd x)))"
    "i = StackRestore v \<Longrightarrow> val_of R v = Some a \<Longrightarrow> step ev P (here g x R) = Some (here (emit i g) (fst x, a) R)"
    "i = Br d \<Longrightarrow> step ev P (here g x R) = enter P d (here g x R)"
    "i = CondBr v d e \<Longrightarrow> val_of R v = Some a \<Longrightarrow> step ev P (here g x R) = enter P (if a \<noteq> 0 then d else e) (here g x R)"
    "i = Switch v d cs \<Longrightarrow> val_of R v = Some a \<Longrightarrow>
       step ev P (here g x R) = enter P (case map_of cs a of None \<Rightarrow> d | Some b \<Rightarrow> b) (here g x R)"
  unfolding step_emit [OF assms] by (auto simp: here_def store_result_def split_def Let_def)

lemma enter_plain: "phi_nodes P b = [] \<Longrightarrow> enter P (Some b) (here g x R) = Some (there b x R)"
  by (simp add: enter_def here_def there_def)

end
