(* ===== verification/CodeSim.thy ===== *)
theory CodeSim
  imports CodeSteps
begin

text \<open>
  The code of a program does what the program means: simulation of the meaning by runs of the code,
  one lemma for each construct.
\<close>

section \<open>Simulation\<close>

definition sound :: "(tree \<Rightarrow> bool option) \<Rightarrow> 'x expr_meaning \<Rightarrow> bool" where
  "sound static ev \<longleftrightarrow> (\<forall>t v x. static t = Some v \<longrightarrow> ev t x = (v, x))"

definition behaves ::
  "'x expr_meaning \<Rightarrow> ir \<Rightarrow> 'x machine \<Rightarrow> ir \<Rightarrow> nat \<Rightarrow> nat option list \<Rightarrow> nat list \<Rightarrow> (outcome \<times> 'x state) option \<Rightarrow> bool" where
  "behaves ev P m g' b bbs ns r = (case r of
     None \<Rightarrow> run_code ev P m = None
   | Some (Normal, y) \<Rightarrow> \<exists>R. steps ev P m (here g' y R) \<and> agree b (results m) R
   | Some (Leave n, y) \<Rightarrow> \<exists>R l. 0 < n \<and> n \<le> sum_list ns \<and> brk_dest bbs (depth n ns) = Some l \<and>
       steps ev P m (there l y R) \<and> agree b (results m) R)"

definition dests :: "ir \<Rightarrow> nat option list \<Rightarrow> bool" where
  "dests P bbs \<longleftrightarrow> (\<forall>b\<in>set bbs. \<exists>l. b = Some l \<and> phi_nodes P l = [])"

definition sim :: "'x expr_meaning \<Rightarrow> nat list \<Rightarrow> stmts_gen \<Rightarrow> 'x meaning \<Rightarrow> bool" where
  "sim ev ns G f \<longleftrightarrow> (\<forall>bbs g. fresh g \<longrightarrow> length bbs = length ns \<longrightarrow> grown g (G bbs g) \<and>
     (\<forall>P x R. final P g (G bbs g) \<longrightarrow> dests P bbs \<longrightarrow> behaves ev P (here g x R) (G bbs g) (next_id g) bbs ns (f x)))"

lemma simD:
  assumes "sim ev ns G f" "fresh g" "length bbs = length ns"
  shows "grown g (G bbs g)"
    "final P g (G bbs g) \<Longrightarrow> dests P bbs \<Longrightarrow> behaves ev P (here g x R) (G bbs g) (next_id g) bbs ns (f x)"
  using assms unfolding sim_def by blast+

lemma behaves_steps:
  assumes "steps ev P m m'" "agree b (results m) (results m')" "b \<le> b'" "behaves ev P m' g b' bbs ns r"
  shows "behaves ev P m g b bbs ns r"
proof -
  have "agree b (results m) R" if "agree b' (results m') R" for R
    using agree_trans [OF assms(2) that assms(3)] .
  then show ?thesis
    using assms(4) run_steps [OF assms(1)] steps_trans [OF assms(1)] unfolding behaves_def
    by (auto split: option.splits outcome.splits prod.splits) blast+
qed

lemma sim_seq:
  assumes F: "sim ev ns F f" and G: "sim ev ns G h"
  shows "sim ev ns (\<lambda>bbs g. G bbs (F bbs g)) (m_seq f h)"
  unfolding sim_def
proof (intro allI impI conjI)
  fix bbs :: "nat option list" and g assume g: "fresh g" "length bbs = length ns"
  note F1 = simD [OF F g]
  note G1 = simD [OF G grownD(1) [OF F1(1)] g(2)]
  show "grown g (G bbs (F bbs g))" by (rule grown_trans [OF F1(1) G1(1)])
  fix P x R assume P: "final P g (G bbs (F bbs g))" "dests P bbs"
  note b = F1(2) [OF final_first [OF P(1) G1(1)] P(2), of x R]
  note b' = G1(2) [OF final_rest [OF P(1) grownD(3) [OF F1(1)]] P(2)]
  show "behaves ev P (here g x R) (G bbs (F bbs g)) (next_id g) bbs ns (m_seq f h x)"
  proof (cases "f x")
    case (Some p)
    obtain o1 y where p: "p = (o1, y)" by (cases p)
    show ?thesis
    proof (cases o1)
      case Normal
      with b Some p obtain R' where R': "steps ev P (here g x R) (here (F bbs g) y R')" "agree (next_id g) R R'"
        by (auto simp: behaves_def)
      have "m_seq f h x = h y" using Some p Normal by (simp add: m_seq_def)
      then show ?thesis using behaves_steps [OF R'(1) _ _ b'] R'(2) grownD(3) [OF F1(1)] by simp
    qed (use b Some p in \<open>auto simp: m_seq_def behaves_def\<close>)
  qed (use b in \<open>auto simp: m_seq_def behaves_def\<close>)
qed

section \<open>Expressions\<close>

lemma gen_expr_sim:
  assumes "sound static ev" "fresh g" "gen_expr static t g = (v, g')"
  shows "grown g g'" "block g' = block g"
    "Sublist.prefix (code g' (block g)) (code P (block g)) \<Longrightarrow> \<exists>R'. steps ev P (here g x R) (here g' (snd (ev t x)) R') \<and> agree (next_id g) R R' \<and>
       val_of R' v = Some (of_bool (fst (ev t x)))"
proof -
  have "grown g g' \<and> block g' = block g \<and> (Sublist.prefix (code g' (block g)) (code P (block g)) \<longrightarrow> (\<exists>R'. steps ev P (here g x R) (here g' (snd (ev t x)) R') \<and>
      agree (next_id g) R R' \<and> val_of R' v = Some (of_bool (fst (ev t x)))))"
  proof (cases "static t")
    case None
    let ?g = "g\<lparr>next_id := next_id g + 1\<rparr>" and ?i = "Run (next_id g) t"
    let ?R = "R(next_id g := of_bool (fst (ev t x)))"
    have e: "v = Reg (next_id g)" "g' = emit ?i ?g" using assms(3) None by (auto simp: gen_expr_def new_id_eq)
    have "grown g ?g" by (rule grown_ids [OF assms(2)])
    then have "grown g g'" unfolding e(2) using grown_emit grown_trans grownD(1) by blast
    moreover have "steps ev P (here g x R) (here g' (snd (ev t x)) ?R)" if "Sublist.prefix (code g' (block g)) (code P (block g))"
    proof -
      have "here g x R = here ?g x R" by (rule here_same [symmetric]) simp_all
      with some_steps_steps [OF one_step [OF step_run [where g = ?g and r = "next_id g" and t = t and P = P and ev = ev and x = x and R = R]]] that show ?thesis
        unfolding e(2) by simp
    qed
    moreover have "agree (next_id g) R ?R" "val_of ?R v = Some (of_bool (fst (ev t x)))" by (simp_all add: agree_def e(1))
    ultimately show ?thesis using e(2) by auto
  next
    case (Some b)
    then have "v = Const (of_bool b)" "g' = g" "ev t x = (b, x)"
      using assms(1) [unfolded sound_def, rule_format, OF Some, of x] assms(3) by (auto simp: gen_expr_def)
    then show ?thesis using assms(2) by (auto simp: grown_refl intro: exI [of _ R])
  qed
  then show "grown g g'" "block g' = block g"
    "Sublist.prefix (code g' (block g)) (code P (block g)) \<Longrightarrow> \<exists>R'. steps ev P (here g x R) (here g' (snd (ev t x)) R') \<and> agree (next_id g) R R' \<and>
       val_of R' v = Some (of_bool (fst (ev t x)))" by blast+
qed

lemma sim_expr:
  assumes "sound static ev"
  shows "sim ev ns (\<lambda>bbs g. snd (gen_expr static t g)) (\<lambda>x. Some (Normal, snd (ev t x)))"
  unfolding sim_def
proof (intro allI impI conjI)
  fix bbs :: "nat option list" and g assume g: "fresh g"
  obtain v g' where g': "gen_expr static t g = (v, g')" by fastforce
  note s = gen_expr_sim [OF assms g g']
  show "grown g (snd (gen_expr static t g))" using s(1) g' by simp
  fix P x R assume "final P g (snd (gen_expr static t g))"
  then obtain C N where "ext C N g' P" using g' by (auto elim: finalE)
  from s(3) [OF ext_prefix [OF this], of x R] g' show "behaves ev P (here g x R) (snd (gen_expr static t g)) (next_id g) bbs ns (Some (Normal, snd (ev t x)))"
    by (auto simp: behaves_def)
qed

lemma sim_skip: "sim ev ns (\<lambda>bbs g. g) (\<lambda>x. Some (Normal, x))"
  by (auto simp: sim_def behaves_def grown_refl intro: exI [of _ "_ :: nat \<Rightarrow> int"])

section \<open>Leaving branches\<close>

lemma gen_brk_eq:
  "gen_brk bbs d v g = insert_block (next_id g + 1) (emit (Br (brk_dest bbs d)) (insert_block (next_id g)
     (emit (CondBr v (Some (next_id g)) (Some (next_id g + 1))) (g\<lparr>next_id := next_id g + 2\<rparr>))))"
  by (simp add: gen_brk_def new_id_eq Let_def)

lemma gen_brk_grown: "fresh g \<Longrightarrow> grown g (gen_brk bbs d v g)"
  by (simp add: gen_brk_eq grown_def fresh_def ext_def)

lemma gen_brk_steps:
  assumes g: "fresh g" and P: "ext C N (gen_brk bbs d v g) P" and v: "val_of R v = Some (of_bool w)"
    and l: "brk_dest bbs d = Some l" "phi_nodes P l = []" and c: "next_id g \<notin> C"
  shows "steps ev P (here g x R) (if w then there l x R else here (gen_brk bbs d v g) x R)"
proof -
  let ?n = "next_id g"
  let ?a = "g\<lparr>next_id := ?n + 2\<rparr>"
  let ?b = "emit (CondBr v (Some ?n) (Some (?n + 1))) ?a"
  let ?c = "insert_block ?n ?b"
  let ?d = "emit (Br (Some l)) ?c"
  let ?e = "gen_brk bbs d v g"
  have e: "?e = insert_block (?n + 1) ?d" by (simp add: gen_brk_eq l(1))
  have bl: "block g < ?n" using g by (simp add: fresh_def)
  have empty: "code g ?n = []" "code g (?n + 1) = []" "phi_nodes g ?n = []" "phi_nodes g (?n + 1) = []"
    using g by (auto simp: fresh_def)
  have d: "ext C N ?d P"
    using ext_trans [OF ext_ops(3) [of ?d "?n + 1"] P [unfolded e]] by simp
  have "ext {?n} {} ?b ?d" using bl by (auto simp: ext_def)
  then have b: "ext ({?n} \<union> C) ({} \<union> N) ?b P" by (rule ext_trans [OF _ d])
  have phi: "phi_nodes P ?n = []" "phi_nodes P (?n + 1) = []"
    using extD(2) [OF P, of ?n] extD(2) [OF P, of "?n + 1"] empty by (simp_all add: e)
  have "here g x R = here ?a x R" by (rule here_same [symmetric]) simp_all
  then have s1: "step ev P (here g x R) = enter P (if w then Some ?n else Some (?n + 1)) (here ?a x R)"
    using step_results(7) [OF b refl v, of ev x] by (simp split: if_splits)
  show ?thesis
  proof (cases w)
    case True
    have "there ?n x R = here ?c x R" using empty bl by (subst here_there) simp_all
    then have "step ev P (there ?n x R) = Some (there l x R)"
      using step_results(6) [OF d refl, of ev x R] l(2) by (simp add: enter_plain)
    moreover have "step ev P (here g x R) = Some (there ?n x R)" using s1 True phi by (simp add: enter_plain)
    ultimately show ?thesis using True by (auto intro!: steps_trans [OF some_steps_steps some_steps_steps] one_step)
  next
    case False
    have "there (?n + 1) x R = here ?e x R" using empty bl by (subst here_there) (simp_all add: e)
    then have "step ev P (here g x R) = Some (here ?e x R)" using s1 False phi by (simp add: enter_plain)
    then show ?thesis using False by (simp add: some_steps_steps one_step)
  qed
qed

lemma sim_brk:
  assumes ev: "sound static ev" and G: "sim ev ns G f" and n: "0 < n" "n \<le> sum_list ns" "set ns \<subseteq> {0, 1}"
  shows "sim ev ns (\<lambda>bbs g. let (v, g) = gen_expr static c g in G bbs (gen_brk bbs (depth n ns) v g)) (m_brk ev n c f)"
  unfolding sim_def
proof (intro allI impI conjI)
  fix bbs :: "nat option list" and g assume g: "fresh g" "length bbs = length ns"
  let ?d = "depth n ns"
  obtain v g1 where g1: "gen_expr static c g = (v, g1)" by fastforce
  let ?g2 = "gen_brk bbs ?d v g1"
  let ?g3 = "G bbs ?g2"
  have e: "(let (v, g) = gen_expr static c g in G bbs (gen_brk bbs ?d v g)) = ?g3" using g1 by simp
  note c = gen_expr_sim [OF ev g(1) g1]
  note b = gen_brk_grown [OF grownD(1) [OF c(1)], of bbs ?d v]
  note s = simD [OF G grownD(1) [OF b] g(2)]
  show "grown g (let (v, g) = gen_expr static c g in G bbs (gen_brk bbs ?d v g))"
    unfolding e by (rule grown_trans [OF grown_trans [OF c(1) b] s(1)])
  fix P x R assume P: "final P g (let (v, g) = gen_expr static c g in G bbs (gen_brk bbs ?d v g))" "dests P bbs"
  note P' = P(1) [unfolded e]
  have n1: "next_id g \<le> next_id g1" "next_id g1 \<le> next_id ?g2" by (rule grownD(3) [OF c(1)], rule grownD(3) [OF b])
  obtain C N where C: "ext C N g1 P" by (rule finalE [OF final_first [OF P' grown_trans [OF b s(1)]]])
  obtain C' N' where C': "ext C' N' ?g2 P" "C' \<inter> {next_id g1..<next_id ?g2} \<subseteq> {block ?g2}"
    by (rule finalE [OF final_rest [OF final_first [OF P' s(1)] n1(1)]])
  obtain R1 where R1: "steps ev P (here g x R) (here g1 (snd (ev c x)) R1)" "agree (next_id g) R R1"
      "val_of R1 v = Some (of_bool (fst (ev c x)))"
    using c(3) [OF ext_prefix [OF C], of x R] by blast
  have d: "1 \<le> ?d" "?d \<le> length bbs" using depth_le [OF n(2,3)] n(1) g(2) by auto
  then have "bbs ! (length bbs - ?d) \<in> set bbs" by simp
  then obtain l where "bbs ! (length bbs - ?d) = Some l" "phi_nodes P l = []" using P(2) unfolding dests_def by blast
  with d have l: "brk_dest bbs ?d = Some l" "phi_nodes P l = []" by (simp_all add: brk_dest_def)
  have "next_id g1 \<notin> C'" using C'(2) by (auto simp: gen_brk_eq)
  from gen_brk_steps [OF grownD(1) [OF c(1)] C'(1) R1(3) l this, of ev "snd (ev c x)"]
  have s2: "steps ev P (here g x R) (if fst (ev c x) then there l (snd (ev c x)) R1 else here ?g2 (snd (ev c x)) R1)"
    by (rule steps_trans [OF R1(1)])
  show "behaves ev P (here g x R) (let (v, g) = gen_expr static c g in G bbs (gen_brk bbs ?d v g)) (next_id g) bbs ns (m_brk ev n c f x)"
  proof (cases "fst (ev c x)")
    case True
    then show ?thesis using s2 R1(2) n l(1) by (auto simp: m_brk_def behaves_def split_def)
  next
    case False
    then have "m_brk ev n c f x = f (snd (ev c x))" by (simp add: m_brk_def split_def)
    moreover have "behaves ev P (here ?g2 (snd (ev c x)) R1) ?g3 (next_id ?g2) bbs ns (f (snd (ev c x)))"
      by (rule s(2) [OF final_rest [OF P' order.trans [OF n1]] P(2)])
    ultimately show ?thesis
      using behaves_steps [OF s2 [simplified False if_False] _ order.trans [OF n1]] R1(2) unfolding e by simp
  qed
qed

lemma depth_outer: "k \<le> n \<Longrightarrow> 0 < n \<Longrightarrow> depth n (k # ns) = Suc (depth (n - k) ns)"
  by (cases n) simp_all

lemma brk_dest_merge:
  assumes "0 < n" "n \<le> sum_list (k # ns)" "k \<le> 1" "set ns \<subseteq> {0, 1}" "length bbs = length ns"
  shows "brk_dest (bbs @ [Some l]) (depth n (k # ns)) = (if n \<le> k then Some l else brk_dest bbs (depth (n - k) ns))"
proof (cases "n \<le> k")
  case True
  then have "n = 1" "k = 1" using assms by auto
  then show ?thesis by (simp add: brk_dest_def)
next
  case False
  then have d: "depth n (k # ns) = Suc (depth (n - k) ns)" using depth_outer assms(1) by simp
  have "n - k \<le> sum_list ns" "1 \<le> n - k" using assms(2) False by simp_all
  with depth_le [of "n - k" ns] assms(4,5) have "1 \<le> depth (n - k) ns" "depth (n - k) ns \<le> length bbs" by linarith+
  then show ?thesis using False by (auto simp: d brk_dest_def nth_append Suc_diff_le)
qed

text \<open>Leaving a branch: to the block behind it, or further out.\<close>

lemma behaves_out:
  assumes B: "behaves ev P m g1 b' (bbs @ [Some l]) (k # ns) (Some (Leave n, y))"
    and l: "block g2 = l" "code g2 l = []"
    and k: "k \<le> 1" "set ns \<subseteq> {0, 1}" "length bbs = length ns" and b: "b \<le> b'"
  shows "behaves ev P m g2 b bbs ns (Some (leave k (Leave n), y))"
proof -
  obtain R l' where R: "0 < n" "n \<le> sum_list (k # ns)" "brk_dest (bbs @ [Some l]) (depth n (k # ns)) = Some l'"
    "steps ev P m (there l' y R)" "agree b' (results m) R"
    using B by (auto simp: behaves_def)
  have a: "agree b (results m) R" using R(5) b by (auto simp: agree_def)
  note d = brk_dest_merge [OF R(1,2) k]
  show ?thesis
  proof (cases "n \<le> k")
    case True
    then have "leave k (Leave n) = Normal" "l' = l" using k(1) R(1,3) d by (cases k; auto)+
    moreover have "there l y R = here g2 y R" using l by (subst here_there) simp_all
    ultimately show ?thesis using R(4) a by (auto simp: behaves_def)
  next
    case False
    then have "leave k (Leave n) = Leave (n - k)" "0 < n - k" "n - k \<le> sum_list ns" "brk_dest bbs (depth (n - k) ns) = Some l'"
      using R(1-3) d by (cases k; auto)+
    then show ?thesis using R(4) a by (auto simp: behaves_def)
  qed
qed

lemma behaves_leave:
  assumes B: "behaves ev P m g1 b' (bbs @ [Some l]) (k # ns) r" and J: "ext C N (emit (Br (Some l)) g1) P"
    and l: "phi_nodes P l = []" "block g2 = l" "code g2 l = []"
    and k: "k \<le> 1" "set ns \<subseteq> {0, 1}" "length bbs = length ns" and b: "b \<le> b'"
  shows "behaves ev P m g2 b bbs ns (map_option (apfst (leave k)) r)"
proof (cases r)
  case None
  then show ?thesis using B by (simp add: behaves_def)
next
  case (Some p)
  obtain o1 y where p: "p = (o1, y)" by (cases p)
  show ?thesis
  proof (cases o1)
    case Normal
    with B Some p obtain R where R: "steps ev P m (here g1 y R)" "agree b' (results m) R"
      by (auto simp: behaves_def)
    have "there l y R = here g2 y R" using l by (subst here_there) simp_all
    then have "step ev P (here g1 y R) = Some (here g2 y R)"
      using step_results(6) [OF J refl, of ev y R] by (simp add: enter_plain l(1))
    with R(1) have "steps ev P m (here g2 y R)" by (meson one_step some_steps_steps steps_trans)
    moreover have "leave k o1 = Normal" using Normal by (cases k) simp_all
    moreover have "agree b (results m) R" using R(2) b by (auto simp: agree_def)
    ultimately show ?thesis using Some p by (auto simp: behaves_def)
  next
    case (Leave n)
    with behaves_out [OF B [unfolded Some p Leave] l(2,3) k b] Some p show ?thesis by simp
  qed
qed

section \<open>Branches\<close>

lemma gen_if_dynamic:
  assumes "static c = None" "gen_expr static c (g\<lparr>next_id := next_id g + 1\<rparr>) = (v, g2)"
  shows "gen_if (gen_expr static c) (jump_from G) (jump_from H) False (map merge_at bbs) g =
    (let n = next_id g; bbs' = bbs @ [Some n];
         g4 = insert_block (next_id g2) (g2\<lparr>next_id := next_id g2 + 2\<rparr>);
         g6 = emit (Br (Some n)) (G bbs' g4);
         g8 = emit (Br (Some n)) (H bbs' (insert_block (next_id g2 + 1) g6))
     in insert_block n (emit (CondBr v (Some (next_id g2)) (Some (next_id g2 + 1))) (set_insert_point (block g2) g8)))"
proof -
  obtain r where "v = Reg r" using assms by (auto simp: gen_expr_def new_id_eq)
  then show ?thesis
    using assms(2) by (simp add: gen_if_def new_merge_def new_id_eq continue_at_def jump_from_def Let_def)
qed

lemma gen_if_static:
  assumes "static c = Some w"
  shows "gen_if (gen_expr static c) (jump_from G) (jump_from H) False (map merge_at bbs) g =
    (let n = next_id g; bbs' = bbs @ [Some n]; g4 = insert_block (n + 1) (g\<lparr>next_id := n + 2\<rparr>);
         g6 = emit (Br (Some n)) ((if w then G else H) bbs' g4)
     in insert_block n (emit (Br (Some (n + 1))) (set_insert_point (block g) g6)))"
  using assms by (simp add: gen_if_def gen_expr_def new_merge_def new_id_eq continue_at_def jump_from_def Let_def)

lemma fresh_start:
  assumes "fresh g" "next_id g \<le> l"
  shows "code g l = []" "phi_nodes g l = []" "incoming g l = []"
  using assms by (simp_all add: fresh_def)

lemma fresh_ids: "fresh g \<Longrightarrow> b < next_id g + k \<Longrightarrow> fresh (insert_block b (g\<lparr>next_id := next_id g + k\<rparr>))"
  by (simp add: fresh_def)

lemma fresh_emit: "fresh g \<Longrightarrow> fresh (emit i g)"
  by (simp add: fresh_def)

lemma dests_snoc: "dests P (bbs @ [Some l]) \<longleftrightarrow> dests P bbs \<and> phi_nodes P l = []"
  by (auto simp: dests_def)

lemma simI:
  assumes "\<And>bbs g. fresh g \<Longrightarrow> length bbs = length ns \<Longrightarrow> \<exists>g'. G bbs g = g' \<and> grown g g' \<and>
    (\<forall>P x R. final P g g' \<longrightarrow> dests P bbs \<longrightarrow> behaves ev P (here g x R) g' (next_id g) bbs ns (f x))"
  shows "sim ev ns G f"
  using assms unfolding sim_def by blast

text \<open>A branch, from its first block to the block behind the whole statement.\<close>

lemma branch_behaves:
  assumes K: "sim ev (k # ns) K f" "fresh g4" "length bbs = length ns" "k \<le> 1" "set ns \<subseteq> {0, 1}"
    and g5: "g5 = K (bbs @ [Some n]) g4"
    and D: "ext D M (emit (Br (Some n)) g5) P" "\<forall>d\<in>D. next_id g4 \<le> d \<longrightarrow> d < next_id g5 \<longrightarrow> d = block g5"
      "\<forall>m\<in>M. next_id g4 \<le> m \<longrightarrow> next_id g5 \<le> m"
    and P: "dests P bbs" "phi_nodes P n = []" "block g' = n" "code g' n = []"
    and start: "block g4 = T" "code g4 T = []" "b \<le> next_id g4"
  shows "behaves ev P (there T y R) g' b bbs ns (map_option (apfst (leave k)) (f y))"
proof -
  have "final P g4 g5"
  proof (rule finalI)
    show "ext ({block g5} \<union> D) M g5 P" using ext_trans [OF ext_ops(1) D(1)] by simp
  qed (use D(2,3) in \<open>auto simp: not_le [symmetric]\<close>)
  moreover have "dests P (bbs @ [Some n])" using P(1,2) by (simp add: dests_snoc)
  moreover have "length (bbs @ [Some n]) = length (k # ns)" using K(3) by simp
  ultimately have "behaves ev P (here g4 y R) g5 (next_id g4) (bbs @ [Some n]) (k # ns) (f y)"
    unfolding g5 by (intro simD(2) [OF K(1,2)]) simp_all
  moreover have "there T y R = here g4 y R" using start by (subst here_there) simp_all
  ultimately show ?thesis using behaves_leave [OF _ D(1) P(2-4) K(4,5,3) start(3)] by simp
qed

lemma sim_static:
  assumes K: "sim ev (k # ns) K f" and k: "k \<le> 1" "set ns \<subseteq> {0, 1}"
  shows "sim ev ns (\<lambda>bbs g. let n = next_id g; bbs' = bbs @ [Some n]; g4 = insert_block (n + 1) (g\<lparr>next_id := n + 2\<rparr>);
         g6 = emit (Br (Some n)) (K bbs' g4)
     in insert_block n (emit (Br (Some (n + 1))) (set_insert_point (block g) g6))) (m_leave k f)"
proof (rule simI)
  fix bbs :: "nat option list" and g0 assume g0: "fresh g0" "length bbs = length ns"
  define n where "n = next_id g0"
  define bbs' where "bbs' = bbs @ [Some n]"
  have len: "length bbs' = length (k # ns)" using g0(2) by (simp add: bbs'_def)
  define g4 where "g4 = insert_block (n + 1) (g0\<lparr>next_id := n + 2\<rparr>)"
  define g5 where "g5 = K bbs' g4"
  define g8 where "g8 = set_insert_point (block g0) (emit (Br (Some n)) g5)"
  define g9 where "g9 = emit (Br (Some (n + 1))) g8"
  define g' where "g' = insert_block n g9"
  have f4: "fresh g4" unfolding g4_def n_def by (rule fresh_ids [OF g0(1)]) simp
  note s = simD [OF K f4 len, folded g5_def]
  have N: "block g4 = n + 1" "next_id g4 = n + 2" "n + 2 \<le> next_id g5" "next_id g' = next_id g5" "block g' = n" "block g0 < n"
    using grownD(3) [OF s(1)] g0(1) by (simp_all add: g4_def g'_def g9_def g8_def fresh_def n_def)
  have b5: "block g5 = n + 1 \<or> n + 2 \<le> block g5" using grown_block [OF s(1)] N by auto
  have x04: "ext {} {} g0 g4" by (simp add: g4_def ext_def n_def)
  have x48: "ext {block g5, n + 1} {} g4 g8" unfolding g8_def ext_after using ext_emit [OF grownD(2) [OF s(1)]] N(1) by simp
  from ext_emit [OF this, of "Br (Some (n + 1))", folded g9_def]
  have X: "ext {block g5, n + 1, block g0} {} g4 g'" by (simp add: g'_def g8_def insert_commute)
  have "fresh g'" using grownD(1) [OF s(1)] N by (simp add: g'_def g9_def g8_def fresh_def)
  then have grown: "grown g0 g'"
    using ext_trans [OF x04 X] b5 N by (auto simp: grown_def n_def elim!: ext_mono)
  have "behaves ev P (here g0 x R) g' (next_id g0) bbs ns (m_leave k f x)" if P: "final P g0 g'" "dests P bbs" for P x R
  proof (rule finalE [OF P(1)])
    fix C M assume C: "ext C M g' P" "C \<inter> {next_id g0..<next_id g'} \<subseteq> {block g'}" "M \<inter> {next_id g0..<next_id g'} = {}"
    have C': "c \<notin> C" if "n \<le> c" "c < next_id g5" "c \<noteq> n" for c using C(2) that N by (auto simp: n_def)
    have M': "M \<inter> {next_id g4..<next_id g5} = {}" using C(3) N by (auto simp: n_def)
    note e4 = ext_trans [OF X C(1)]
    have e9: "ext C M g9 P" using ext_trans [OF _ C(1), of "{}" "{}" g9] by (simp add: g'_def)
    have "ext {block g0} {} (emit (Br (Some n)) g5) g9" unfolding g9_def using ext_emit [of "{}" "{}" _ g8] by (simp add: g8_def)
    note e5 = ext_trans [OF this e9]
    have phi: "phi_nodes P n = []" "phi_nodes P (n + 1) = []"
      using extD(2) [OF e4] fresh_start(2) [OF g0(1)] N by (simp_all add: g4_def n_def)
    have start: "code g' n = []" "code g4 (n + 1) = []"
      using extD(1) [OF X, of n] fresh_start(1) [OF g0(1)] N b5 by (auto simp: g4_def n_def)
    have b: "behaves ev P (there (n + 1) x R) g' (next_id g0) bbs ns (map_option (apfst (leave k)) (f x))"
      by (rule branch_behaves [OF K f4 g0(2) k g5_def [unfolded bbs'_def] e5 _ _ P(2) phi(1) N(5) start(1) N(1) start(2)])
        (use C' M' N in \<open>auto simp: n_def\<close>)
    from extD(1) [OF ext_trans [OF x04 x48], of "block g0"] N b5
    have "here g0 x R = here g8 x R" by (intro here_same [symmetric]) (auto simp: g8_def n_def)
    then have "step ev P (here g0 x R) = Some (there (n + 1) x R)"
      using step_results(6) [OF e9 [unfolded g9_def] refl, of ev x] phi by (simp add: enter_plain)
    from behaves_steps [OF some_steps_steps [OF one_step [OF this]] _ order.refl b] show ?thesis by (simp add: m_leave_def)
  qed
  with grown show "\<exists>g'. (let n = next_id g0; bbs' = bbs @ [Some n]; g4 = insert_block (n + 1) (g0\<lparr>next_id := n + 2\<rparr>);
         g6 = emit (Br (Some n)) (K bbs' g4)
     in insert_block n (emit (Br (Some (n + 1))) (set_insert_point (block g0) g6))) = g' \<and> grown g0 g' \<and>
    (\<forall>P x R. final P g0 g' \<longrightarrow> dests P bbs \<longrightarrow> behaves ev P (here g0 x R) g' (next_id g0) bbs ns (m_leave k f x))"
    unfolding Let_def g'_def g9_def g8_def g5_def g4_def bbs'_def n_def by blast
qed

lemma sim_dynamic:
  assumes c0: "static c = None" and ev: "sound static ev" and G: "sim ev (k # ns) G f" and H: "sim ev (k # ns) H h" and k: "k \<le> 1" "set ns \<subseteq> {0, 1}"
  shows "sim ev ns (\<lambda>bbs. gen_if (gen_expr static c) (jump_from G) (jump_from H) False (map merge_at bbs)) (m_leave k (m_if ev c f h))"
proof (rule simI)
  fix bbs :: "nat option list" and g0 assume g0: "fresh g0" "length bbs = length ns"
  define n where "n = next_id g0"
  define bbs' where "bbs' = bbs @ [Some n]"
  have len: "length bbs' = length (k # ns)" using g0(2) by (simp add: bbs'_def)
  let ?g1 = "g0\<lparr>next_id := next_id g0 + 1\<rparr>"
  have G1: "grown g0 ?g1" by (rule grown_ids [OF g0(1)])
  obtain v g2 where g2: "gen_expr static c ?g1 = (v, g2)" by fastforce
  note c = gen_expr_sim [OF ev grownD(1) [OF G1] g2]
  have f2: "fresh g2" and G2: "grown g0 g2" and b2: "block g2 = block g0" and n2: "n < next_id g2"
    using grownD(1,3) [OF c(1)] grown_trans [OF G1 c(1)] c(2) by (auto simp: n_def)
  have bl: "block g0 < n" using g0(1) by (simp add: fresh_def n_def)
  have e2: "code g2 n = []" "phi_nodes g2 n = []"
    using extD [OF grownD(2) [OF c(1)], of n] fresh_start [OF g0(1), of n] bl by (simp_all add: n_def)
  define T where "T = next_id g2"
  define g4 where "g4 = insert_block T (g2\<lparr>next_id := T + 2\<rparr>)"
  define g5 where "g5 = G bbs' g4"
  define g6 where "g6 = insert_block (T + 1) (emit (Br (Some n)) g5)"
  define g7 where "g7 = H bbs' g6"
  define g8 where "g8 = set_insert_point (block g2) (emit (Br (Some n)) g7)"
  define g9 where "g9 = emit (CondBr v (Some T) (Some (T + 1))) g8"
  define g' where "g' = insert_block n g9"
  have eq: "gen_if (gen_expr static c) (jump_from G) (jump_from H) False (map merge_at bbs) g0 = g'"
    unfolding gen_if_dynamic [OF c0 g2] Let_def g'_def g9_def g8_def g7_def g6_def g5_def g4_def T_def bbs'_def n_def by simp
  have f4: "fresh g4" unfolding g4_def T_def by (rule fresh_ids [OF f2]) simp
  note s = simD [OF G f4 len, folded g5_def]
  have f6: "fresh g6" unfolding g6_def using grownD(1,3) [OF s(1)]
    by (intro fresh_block fresh_emit) (simp_all add: g4_def)
  note t = simD [OF H f6 len, folded g7_def]
  have N: "n < T" "block g4 = T" "next_id g4 = T + 2" "T + 2 \<le> next_id g5" "next_id g6 = next_id g5" "block g6 = T + 1"
    "next_id g6 \<le> next_id g7" "next_id g' = next_id g7" "block g' = n" "block g2 < n"
    using n2 grownD(3) [OF s(1)] grownD(3) [OF t(1)] b2 bl
    by (simp_all add: T_def g4_def g6_def g'_def g9_def g8_def)
  have b5: "block g5 = T \<or> T + 2 \<le> block g5" and b7: "block g7 = T + 1 \<or> next_id g5 \<le> block g7"
    using grown_block [OF s(1)] grown_block [OF t(1)] N by auto
  have x24: "ext {} {} g2 g4" by (simp add: g4_def ext_def T_def)
  have x46: "ext {T, block g5} {} g4 g6"
    using ext_emit [OF grownD(2) [OF s(1)], of "Br (Some n)"] N by (simp add: g6_def insert_commute)
  have x68: "ext {block g7, T + 1} {} g6 g8" unfolding g8_def ext_after using ext_emit [OF grownD(2) [OF t(1)]] N(6) by simp
  from ext_emit [OF x68, of "CondBr v (Some T) (Some (T + 1))", folded g9_def]
  have x69: "ext {T + 1, block g7, block g2} {} g6 g'" by (simp add: g'_def g8_def insert_commute)
  have X: "ext {T, block g5, T + 1, block g7, block g2} {} g4 g'" using ext_trans [OF x46 x69] by (simp add: insert_commute)
  have f': "fresh g'" using grownD(1) [OF t(1)] N by (simp add: g'_def g9_def g8_def fresh_def)
  have grown: "grown g0 g'"
    unfolding grown_def
  proof (intro conjI)
    have "block g0 \<notin> {}" "next_id g0 \<le> T" using N by (simp_all add: n_def)
    then show "ext {block g0} {} g0 g'"
      using ext_trans [OF ext_trans [OF grownD(2) [OF G2] x24] X] b5 b7 b2 N by (auto elim!: ext_mono simp: n_def)
  qed (use f' N in \<open>simp_all add: n_def\<close>)
  have behaves: "behaves ev P (here g0 x R) g' (next_id g0) bbs ns (m_leave k (m_if ev c f h) x)"
    if P: "final P g0 g'" "dests P bbs" for P x R
  proof (rule finalE [OF P(1)])
    fix C M assume C: "ext C M g' P" "C \<inter> {next_id g0..<next_id g'} \<subseteq> {block g'}" "M \<inter> {next_id g0..<next_id g'} = {}"
    have C': "c \<notin> C" if "n \<le> c" "c < next_id g7" "c \<noteq> n" for c using C(2) that N by (auto simp: n_def)
    have M': "M \<inter> {next_id g4..<next_id g7} = {}" using C(3) N by (auto simp: n_def)
    note e4 = ext_trans [OF X C(1)] and e6 = ext_trans [OF x69 C(1)]
    have e5: "ext ({block g5} \<union> ({T + 1, block g7, block g2} \<union> C)) ({} \<union> ({} \<union> M)) (emit (Br (Some n)) g5) P"
      by (rule ext_trans [OF _ e6]) (simp add: g6_def)
    have e9: "ext C M g9 P" using ext_trans [OF _ C(1), of "{}" "{}" g9] by (simp add: g'_def)
    have "ext {block g2} {} (emit (Br (Some n)) g7) g9" unfolding g9_def using ext_emit [of "{}" "{}" _ g8] by (simp add: g8_def)
    note e7 = ext_trans [OF this e9]
    have phi: "phi_nodes P n = []" "phi_nodes P T = []" "phi_nodes P (T + 1) = []"
      using extD(2) [OF e4] extD(2) [OF x24, of n] e2(2) fresh_start(2) [OF f2] N by (simp_all add: g4_def T_def)
    have start: "code g' n = []" "code g4 T = []" "code g6 (T + 1) = []"
      using extD(1) [OF X, of n] extD(1) [OF x46, of "T + 1"] e2(1) fresh_start(1) [OF f2] N b5 b7 by (auto simp: g4_def T_def)
    let ?y = "snd (ev c x)"
    obtain R1 where R1: "steps ev P (here g0 x R) (here g2 ?y R1)" "agree (next_id g0) R R1" "val_of R1 v = Some (of_bool (fst (ev c x)))"
      using c(3) [OF ext_prefix [OF ext_trans [OF x24 e4]], of x R] here_same [of ?g1 g0 x R] by (auto simp: agree_def)
    have th: "behaves ev P (there T ?y R1) g' (next_id g0) bbs ns (map_option (apfst (leave k)) (f ?y))"
      by (rule branch_behaves [OF G f4 g0(2) k g5_def [unfolded bbs'_def] e5 _ _ P(2) phi(1) N(9) start(1) N(2) start(2)])
        (use C' M' N n2 b7 in \<open>auto simp: n_def\<close>)
    have el: "behaves ev P (there (T + 1) ?y R1) g' (next_id g0) bbs ns (map_option (apfst (leave k)) (h ?y))"
      by (rule branch_behaves [OF H f6 g0(2) k g7_def [unfolded bbs'_def] e7 _ _ P(2) phi(1) N(9) start(1) N(6) start(3)])
        (use C' M' N n2 in \<open>auto simp: n_def\<close>)
    have "ext {T, block g5, block g7, T + 1} {} g4 g8"
      using ext_trans [OF x46 x68] by (simp add: insert_commute)
    from extD(1) [OF ext_trans [OF x24 this], of "block g2"] n2 N b5 b7 have "code g8 (block g2) = code g2 (block g2)" by auto
    then have "here g2 ?y R1 = here g8 ?y R1" by (intro here_same [symmetric]) (simp_all add: g8_def)
    then have "step ev P (here g2 ?y R1) = Some (there (if fst (ev c x) then T else T + 1) ?y R1)"
      using step_results(7) [OF e9 [unfolded g9_def] refl R1(3), of ev ?y] phi by (simp add: enter_plain)
    from steps_trans [OF R1(1) some_steps_steps [OF one_step [OF this]]] R1(2)
    show ?thesis
      using behaves_steps [OF _ _ order.refl th] behaves_steps [OF _ _ order.refl el]
      by (cases "fst (ev c x)") (simp_all add: m_leave_def m_if_def split_def)
  qed
  from grown behaves
  show "\<exists>g'. gen_if (gen_expr static c) (jump_from G) (jump_from H) False (map merge_at bbs) g0 = g' \<and> grown g0 g' \<and>
    (\<forall>P x R. final P g0 g' \<longrightarrow> dests P bbs \<longrightarrow> behaves ev P (here g0 x R) g' (next_id g0) bbs ns (m_leave k (m_if ev c f h) x))"
    unfolding eq by blast
qed

lemma sim_if:
  assumes ev: "sound static ev" and G: "sim ev (k # ns) G f" and H: "sim ev (k # ns) H h" and k: "k \<le> 1" "set ns \<subseteq> {0, 1}"
  shows "sim ev ns (\<lambda>bbs. gen_if (gen_expr static c) (jump_from G) (jump_from H) False (map merge_at bbs)) (m_leave k (m_if ev c f h))"
proof (cases "static c")
  case None
  then show ?thesis by (rule sim_dynamic [OF _ ev G H k])
next
  case (Some w)
  then have "ev c x = (w, x)" for x using ev unfolding sound_def by blast
  then have "m_if ev c f h = (if w then f else h)" by (simp add: fun_eq_iff m_if_def)
  moreover have "sim ev (k # ns) (if w then G else H) (if w then f else h)" using G H by simp
  note st = sim_static [OF this k]
  have "sim ev ns (\<lambda>bbs. gen_if (gen_expr static c) (jump_from G) (jump_from H) False (map merge_at bbs)) (m_leave k (if w then f else h))"
    using st by (simp only: gen_if_static [where static = static and c = c and w = w, OF Some, symmetric])
  ultimately show ?thesis by simp
qed

end
