(* ===== verification/CodeLoop.thy ===== *)
theory CodeLoop
  imports CodeSim
begin

text \<open>
  Loops: the code of \<open>while\<close> and \<open>repeat\<close> goes round as their meaning does, with the stack pointer of
  the first round.
\<close>

section \<open>Runs of finished blocks\<close>

definition atpos :: "nat \<Rightarrow> nat \<Rightarrow> 'x state \<Rightarrow> (nat \<Rightarrow> int) \<Rightarrow> 'x machine" where
  "atpos b i x R = \<lparr>pc_block = b, pc_index = i, results = R, stack = snd x, memory = fst x\<rparr>"

lemma atpos_here: "here g x R = atpos (block g) (length (code g (block g))) x R"
  by (simp add: here_def atpos_def)

lemma atpos_there: "there b x R = atpos b 0 x R"
  by (simp add: there_def atpos_def)

lemma results_atpos [simp]: "results (atpos b i x R) = R"
  by (simp add: atpos_def)

lemma step_atpos:
  assumes "i < length (code P b)"
  shows "code P b ! i = Cast r v \<Longrightarrow> val_of R v = Some a \<Longrightarrow> step ev P (atpos b i x R) = Some (atpos b (i + 1) x (R(r := a)))"
    "code P b ! i = Or r v w \<Longrightarrow> val_of R v = Some a \<Longrightarrow> val_of R w = Some c \<Longrightarrow>
       step ev P (atpos b i x R) = Some (atpos b (i + 1) x (R(r := a OR c)))"
    "code P b ! i = StackSave r \<Longrightarrow> step ev P (atpos b i x R) = Some (atpos b (i + 1) x (R(r := snd x)))"
    "code P b ! i = StackRestore v \<Longrightarrow> val_of R v = Some a \<Longrightarrow> step ev P (atpos b i x R) = Some (atpos b (i + 1) (fst x, a) R)"
    "code P b ! i = Br d \<Longrightarrow> step ev P (atpos b i x R) = enter P d (atpos b i x R)"
    "code P b ! i = CondBr v d e \<Longrightarrow> val_of R v = Some a \<Longrightarrow> step ev P (atpos b i x R) = enter P (if a \<noteq> 0 then d else e) (atpos b i x R)"
    "code P b ! i = Switch v d cs \<Longrightarrow> val_of R v = Some a \<Longrightarrow>
       step ev P (atpos b i x R) = enter P (case map_of cs a of None \<Rightarrow> d | Some l \<Rightarrow> l) (atpos b i x R)"
  using assms by (auto simp: step_def atpos_def store_result_def)

lemma enter_atpos: "phi_nodes P l = [] \<Longrightarrow> enter P (Some l) (atpos b i x R) = Some (there l x R)"
  by (simp add: enter_def atpos_def there_def)

lemma enter_phi:
  assumes "phi_nodes P l = [r]" "phi_value P R b r = Some a"
  shows "enter P (Some l) (atpos b i x R) = Some (there l x (R(r := a)))"
  using assms by (auto simp: enter_def atpos_def there_def fun_eq_iff)

lemma enter_phi2:
  assumes "phi_nodes P l = [r, s]" "phi_value P R b r = Some a" "phi_value P R b s = Some c" "r \<noteq> s"
  shows "enter P (Some l) (atpos b i x R) = Some (there l x (R(r := a, s := c)))"
  using assms by (auto simp: enter_def atpos_def there_def fun_eq_iff)

section \<open>Iteration\<close>

lemma iterate_induct:
  fixes F :: "'a \<Rightarrow> ('a + 'b) option"
  assumes "iterate F x = Some p" "\<And>x p. F x = Some (Inr p) \<Longrightarrow> Q x p" "\<And>x y p. F x = Some (Inl y) \<Longrightarrow> Q y p \<Longrightarrow> Q x p"
  shows "Q x p"
proof -
  have "(case (F, x) of (G, x) \<Rightarrow> \<lambda>p. G = F \<longrightarrow> Q x p) p"
  proof (rule iterate.raw_induct)
    show "(case (F, x) of (G, x) \<Rightarrow> iterate G x) = Some p" using assms(1) by simp
    fix it :: "('a \<Rightarrow> ('a + 'b) option) \<Rightarrow> 'a \<Rightarrow> 'b option" and G x p
    assume IH: "\<And>H x p. it H x = Some p \<Longrightarrow> H = F \<longrightarrow> Q x p"
      and G: "(case G x of None \<Rightarrow> None | Some (Inl y) \<Rightarrow> it G y | Some (Inr z) \<Rightarrow> Some z) = Some p"
    show "G = F \<longrightarrow> Q x p"
      using G IH assms(2,3) by (auto split: option.splits sum.splits)
  qed
  then show ?thesis by simp
qed

lemma iterate_behaves:
  assumes round: "\<And>x R. I R \<Longrightarrow> case F x of
      None \<Rightarrow> run_code ev P (B x R) = None
    | Some (Inl y) \<Rightarrow> \<exists>R'. some_steps ev P (B x R) (B y R') \<and> I R' \<and> agree b R R'
    | Some (Inr (r, y)) \<Rightarrow> behaves ev P (B x R) g b bbs ns (Some (leave 1 r, y))"
    and res: "\<And>x R. results (B x R) = R" and "I R"
  shows "behaves ev P (B x R) g b bbs ns (map_option (apfst (leave 1)) (iterate F x))"
proof (cases "iterate F x")
  case None
  have "run_code ev P m = None" if "m \<in> {B x R |x R. I R \<and> iterate F x = None}" for m
  proof (rule run_forever [OF _ that])
    fix m assume "m \<in> {B x R |x R. I R \<and> iterate F x = None}"
    then obtain x R where m: "m = B x R" "I R" "iterate F x = None" by blast
    show "run_code ev P m = None \<or> (\<exists>m'\<in>{B x R |x R. I R \<and> iterate F x = None}. some_steps ev P m m')"
    proof (cases "F x")
      case None
      then show ?thesis using round [OF m(2), of x] m(1) by simp
    next
      case (Some s)
      then obtain y where y: "F x = Some (Inl y)" "iterate F y = None"
        using m(3) by (cases s) (auto simp: iterate.simps [of F x])
      with round [OF m(2), of x] m(1) show ?thesis by auto
    qed
  qed
  with None \<open>I R\<close> show ?thesis by (auto simp: behaves_def)
next
  case (Some p)
  then have "\<forall>R. I R \<longrightarrow> behaves ev P (B x R) g b bbs ns (Some (apfst (leave 1) p))"
  proof (rule iterate_induct)
    fix x p assume "F x = Some (Inr p)"
    then show "\<forall>R. I R \<longrightarrow> behaves ev P (B x R) g b bbs ns (Some (apfst (leave 1) p))"
      using round [of _ x] by (cases p) auto
  next
    fix x y p assume F: "F x = Some (Inl y)" and IH: "\<forall>R. I R \<longrightarrow> behaves ev P (B y R) g b bbs ns (Some (apfst (leave 1) p))"
    show "\<forall>R. I R \<longrightarrow> behaves ev P (B x R) g b bbs ns (Some (apfst (leave 1) p))"
    proof (intro allI impI)
      fix R assume "I R"
      from round [OF this, of x] F obtain R' where R': "some_steps ev P (B x R) (B y R')" "I R'" "agree b R R'" by auto
      show "behaves ev P (B x R) g b bbs ns (Some (apfst (leave 1) p))"
        by (rule behaves_steps [OF some_steps_steps [OF R'(1)] _ order.refl IH [rule_format, OF R'(2)]]) (simp add: res R'(3))
    qed
  qed
  with \<open>I R\<close> Some show ?thesis by simp
qed

section \<open>While\<close>

text \<open>What the pieces of the code have, in terms of the numbers \<open>n\<close> and \<open>q\<close> of the first block and result.\<close>

definition while_ids :: "nat \<Rightarrow> nat \<Rightarrow> loop_blocks" where
  "while_ids n s1 = \<lparr>ThenBB = n, CondBB = n + 1, ElseBB = n + 4, MergeBB = Some (n + 5), StackSaveBB = n + 6, StackRestoreBB = n + 7,
     condPN = n + 2, savedStack = n + 3, savedStack1 = s1\<rparr>"

lemma while_head_fields:
  assumes "fresh g" "while_head False g = (B, g')"
  defines "n \<equiv> next_id g"
  shows "B = while_ids n 0" "next_id g' = n + 8" "block g' = n + 1"
    "code g' = (code g)(block g := code g (block g) @ [Br (Some (n + 1))])"
    "phi_nodes g' = (phi_nodes g)(n + 1 := [n + 2, n + 3])"
    "incoming g' = (incoming g)(n + 2 := [(Const 2, block g)], n + 3 := [(Const 0, block g)])"
  using assms(2) fresh_start [OF assms(1)]
  by (auto simp: while_head_def new_id_eq create_phi_eq new_merge_def Let_def while_ids_def n_def)

lemma while_body_fields:
  assumes "fresh g" "block g = n + 1" "n + 8 \<le> next_id g" "code g n = []" "code g (n + 6) = []" "code g (n + 7) = []" "phi_nodes g n = []"
    and "while_body (while_ids n 0) v g = (B, g')"
  defines "q \<equiv> next_id g"
  shows "B = while_ids n (q + 3)" "next_id g' = q + 4" "block g' = n"
    "code g' = (code g)(n + 1 := code g (n + 1) @ [Cast q v, Or (q + 1) (Reg (n + 2)) (Reg q),
         Switch (Reg (q + 1)) (Some (n + 5)) [(1, Some (n + 7)), (2, Some (n + 4)), (3, Some (n + 6))]],
       n + 6 := [StackSave (q + 2), Br (Some n)], n + 7 := [StackRestore (Reg (n + 3)), Br (Some n)])"
    "phi_nodes g' = (phi_nodes g)(n := [q + 3])"
    "incoming g' = (incoming g)(q + 3 := [(Reg (q + 2), n + 6), (Reg (n + 3), n + 7)])"
  using assms(2-8) fresh_start [OF assms(1)]
  by (auto simp: while_body_def gen_stack_save_def gen_stack_restore_def start_body_def new_id_eq create_phi_eq Let_def while_ids_def q_def
      fun_upd_twist)

lemma while_again_fields:
  "next_id (while_again (while_ids n r) g) = next_id g" "block (while_again (while_ids n r) g) = block g"
  "code (while_again (while_ids n r) g) = code g" "phi_nodes (while_again (while_ids n r) g) = phi_nodes g"
  "incoming (while_again (while_ids n r) g) =
     (incoming g)(n + 2 := incoming g (n + 2) @ [(Const 0, block g)], n + 3 := incoming g (n + 3) @ [(Reg r, block g)])"
  by (simp_all add: while_again_def while_ids_def)

text \<open>The finished code of a loop; \<open>e\<close> is the block before it and \<open>t\<close> the last one of its body.\<close>

definition while_code :: "ir \<Rightarrow> nat \<Rightarrow> nat \<Rightarrow> nat \<Rightarrow> nat \<Rightarrow> val \<Rightarrow> instr list \<Rightarrow> bool" where
  "while_code P n q e t v cs \<longleftrightarrow>
     code P (n + 1) = cs @ [Cast q v, Or (q + 1) (Reg (n + 2)) (Reg q),
       Switch (Reg (q + 1)) (Some (n + 5)) [(1, Some (n + 7)), (2, Some (n + 4)), (3, Some (n + 6))]] \<and>
     code P (n + 6) = [StackSave (q + 2), Br (Some n)] \<and> code P (n + 7) = [StackRestore (Reg (n + 3)), Br (Some n)] \<and>
     phi_nodes P (n + 1) = [n + 2, n + 3] \<and> phi_nodes P n = [q + 3] \<and>
     phi_nodes P (n + 4) = [] \<and> phi_nodes P (n + 5) = [] \<and> phi_nodes P (n + 6) = [] \<and> phi_nodes P (n + 7) = [] \<and>
     incoming P (n + 2) = [(Const 2, e), (Const 0, t)] \<and> incoming P (n + 3) = [(Const 0, e), (Reg (q + 3), t)] \<and>
     incoming P (q + 3) = [(Reg (q + 2), n + 6), (Reg (n + 3), n + 7)] \<and> e \<noteq> t \<and> n + 8 \<le> q"

lemma while_switch:
  assumes W: "while_code P n q e t v cs" and v: "val_of R v = Some (of_bool w)" and a: "R (n + 2) = a" "a = 0 \<or> a = 2"
  defines "d \<equiv> if a = 0 then (if w then n + 7 else n + 5) else (if w then n + 6 else n + 4)"
  shows "some_steps ev P (atpos (n + 1) (length cs) x R) (there d x (R(q := of_bool w, q + 1 := a OR of_bool w)))"
proof -
  let ?R1 = "R(q := of_bool w)"
  let ?R2 = "?R1(q + 1 := a OR of_bool w)"
  have c: "code P (Suc n) = cs @ [Cast q v, Or (q + 1) (Reg (n + 2)) (Reg q),
       Switch (Reg (q + 1)) (Some (n + 5)) [(1, Some (n + 7)), (2, Some (n + 4)), (3, Some (n + 6))]]" and q: "n + 8 \<le> q"
    using W by (simp_all add: while_code_def)
  have d: "phi_nodes P d = []" using W by (simp add: while_code_def d_def)
  have s1: "step ev P (atpos (n + 1) (length cs) x R) = Some (atpos (n + 1) (length cs + 1) x ?R1)"
    by (rule step_atpos(1) [where v = v]) (simp_all add: c v)
  have s2: "step ev P (atpos (n + 1) (length cs + 1) x ?R1) = Some (atpos (n + 1) (length cs + 1 + 1) x ?R2)"
    by (rule step_atpos(2) [where r = "q + 1" and v = "Reg (n + 2)" and w = "Reg q"]) (use q a in \<open>simp_all add: c nth_append\<close>)
  have "step ev P (atpos (n + 1) (length cs + 1 + 1) x ?R2) = enter P (Some d) (atpos (n + 1) (length cs + 1 + 1) x ?R2)"
    by (subst step_atpos(7) [where v = "Reg (q + 1)" and a = "a OR of_bool w" and d = "Some (n + 5)"
        and cs = "[(1, Some (n + 7)), (2, Some (n + 4)), (3, Some (n + 6))]"]) (use a in \<open>auto simp: c nth_append d_def\<close>)
  then have s3: "step ev P (atpos (n + 1) (length cs + 1 + 1) x ?R2) = Some (there d x ?R2)" by (simp add: enter_atpos [OF d])
  show ?thesis
    by (rule some_steps_trans(2) [OF one_step [OF s1] steps_trans [OF some_steps_steps [OF one_step [OF s2]] some_steps_steps [OF one_step [OF s3]]]])
qed


text \<open>The blocks that save and restore the stack pointer.\<close>

lemma stack_saved:
  assumes "code P b = [StackSave r, Br (Some n)]" "phi_nodes P n = [s]" "incoming P s = [(Reg r, b), z]"
  shows "some_steps ev P (there b x R) (there n x (R(r := snd x, s := snd x)))"
proof -
  have s1: "step ev P (atpos b 0 x R) = Some (atpos b 1 x (R(r := snd x)))"
    using step_atpos(3) [of 0 P b r ev x R] assms(1) by simp
  have "phi_value P (R(r := snd x)) b s = Some (snd x)" using assms(3) by (simp add: phi_value_def)
  then have s2: "step ev P (atpos b 1 x (R(r := snd x))) = Some (there n x (R(r := snd x, s := snd x)))"
    using step_atpos(5) [of 1 P b "Some n" ev x] assms(1) enter_phi [OF assms(2)] by simp
  show ?thesis unfolding atpos_there by (rule some_steps_trans(2) [OF one_step [OF s1] some_steps_steps [OF one_step [OF s2 [unfolded atpos_there]]]])
qed

lemma stack_restored:
  assumes "code P b = [StackRestore (Reg r), Br (Some n)]" "phi_nodes P n = [s]" "incoming P s = [(z, b'), (Reg r, b)]" "b' \<noteq> b"
  shows "some_steps ev P (there b x R) (there n (fst x, R r) (R(s := R r)))"
proof -
  have s1: "step ev P (atpos b 0 x R) = Some (atpos b 1 (fst x, R r) R)"
    using step_atpos(4) [of 0 P b "Reg r" R "R r" ev x] assms(1) by simp
  have "phi_value P R b s = Some (R r)" using assms(3,4) by (simp add: phi_value_def)
  then have s2: "step ev P (atpos b 1 (fst x, R r) R) = Some (there n (fst x, R r) (R(s := R r)))"
    using step_atpos(5) [of 1 P b "Some n" ev] assms(1) enter_phi [OF assms(2)] by simp
  show ?thesis unfolding atpos_there by (rule some_steps_trans(2) [OF one_step [OF s1] some_steps_steps [OF one_step [OF s2 [unfolded atpos_there]]]])
qed

definition cond_runs :: "'x expr_meaning \<Rightarrow> ir \<Rightarrow> nat \<Rightarrow> nat \<Rightarrow> nat \<Rightarrow> val \<Rightarrow> tree \<Rightarrow> bool" where
  "cond_runs ev P b i m v c \<longleftrightarrow> (\<forall>x R. \<exists>R'. steps ev P (there b x R) (atpos b i (snd (ev c x)) R') \<and> agree m R R' \<and>
     val_of R' v = Some (of_bool (fst (ev c x))))"

lemma while_enters:
  assumes "while_code P n q e t v cs"
  shows "enter P (Some (n + 1)) (atpos e i x R) = Some (there (n + 1) x (R(n + 2 := 2, n + 3 := 0)))"
    "enter P (Some (n + 1)) (atpos t i x R) = Some (there (n + 1) x (R(n + 2 := 0, n + 3 := R (q + 3))))"
  using assms by (auto simp: while_code_def phi_value_def intro!: enter_phi2)

text \<open>From the end of the body through the condition, to the next round or to the end.\<close>

lemma while_again_runs:
  assumes W: "while_code P n q e t v cs" and C: "cond_runs ev P (n + 1) (length cs) (n + 8) v c"
    and J: "ext D M (emit (Br (Some (n + 1))) gt) P" "block gt = t" and h: "R (q + 3) = h"
  shows "\<exists>R'. some_steps ev P (here gt y R) (if fst (ev c y) then there n (fst (snd (ev c y)), h) R' else there (n + 5) (snd (ev c y)) R') \<and>
    (fst (ev c y) \<longrightarrow> R' (q + 3) = h) \<and> agree n R R'"
proof -
  let ?w = "fst (ev c y)" and ?z = "snd (ev c y)"
  let ?R1 = "R(n + 2 := 0, n + 3 := h)"
  have "here gt y R = atpos t (length (code gt t)) y R" by (simp add: atpos_here J(2))
  then have s1: "step ev P (here gt y R) = Some (there (n + 1) y ?R1)"
    using step_results(6) [OF J(1) refl, of ev y R] while_enters(2) [OF W, of _ y R] h by simp
  obtain R2 where R2: "steps ev P (there (n + 1) y ?R1) (atpos (n + 1) (length cs) ?z R2)" "agree (n + 8) ?R1 R2" "val_of R2 v = Some (of_bool ?w)"
    using C unfolding cond_runs_def by blast
  have r: "R2 (n + 2) = 0" "R2 (n + 3) = h" using R2(2) by (simp_all add: agree_def)
  let ?R3 = "R2(q := of_bool ?w, q + 1 := 0 OR of_bool ?w)"
  have "some_steps ev P (atpos (n + 1) (length cs) ?z R2) (there (if ?w then n + 7 else n + 5) ?z ?R3)"
    using while_switch [OF W R2(3) r(1), of ev ?z] by simp
  with s1 R2(1) have s: "some_steps ev P (here gt y R) (there (if ?w then n + 7 else n + 5) ?z ?R3)"
    by (blast intro: some_steps_trans one_step some_steps_steps)
  have q: "n + 8 \<le> q" using W by (simp add: while_code_def)
  have a: "agree n R ?R3" using R2(2) q by (auto simp: agree_def)
  show ?thesis
  proof (cases ?w)
    case True
    have "code P (n + 7) = [StackRestore (Reg (n + 3)), Br (Some n)]" "phi_nodes P n = [q + 3]"
      "incoming P (q + 3) = [(Reg (q + 2), n + 6), (Reg (n + 3), n + 7)]" "n + 6 \<noteq> n + 7"
      using W by (simp_all add: while_code_def)
    from stack_restored [OF this, of ev ?z ?R3]
    have "some_steps ev P (there (n + 7) ?z ?R3) (there n (fst ?z, h) (?R3(q + 3 := h)))"
      using r(2) q by simp
    with s True have "some_steps ev P (here gt y R) (there n (fst ?z, h) (?R3(q + 3 := h)))"
      by (auto intro: some_steps_trans some_steps_steps)
    with True a q show ?thesis by (intro exI [of _ "?R3(q + 3 := h)"]) (auto simp: agree_def)
  next
    case False
    with s a show ?thesis by (intro exI [of _ ?R3]) simp
  qed
qed

text \<open>
  All rounds, for any loop whose body starts in block \<open>n\<close>: \<open>again\<close> says what happens between two rounds,
  with \<open>s\<close> the result that holds the stack pointer of the first round.
\<close>

lemma loop_behaves:
  fixes f :: "'x meaning"
  assumes body: "\<And>y R. behaves ev P (there n y R) gt b' (bbs @ [Some l]) (1 # ns) (f y)" and b': "n \<le> b'" "s < b'"
    and again: "\<And>y R. R s = h \<Longrightarrow> \<exists>R'. some_steps ev P (here gt y R)
        (if fst (ev c y) = on then there n (fst (snd (ev c y)), h) R' else there l (snd (ev c y)) R') \<and>
      (fst (ev c y) = on \<longrightarrow> R' s = h) \<and> agree n R R'"
    and g': "block g' = l" "code g' l = []" and ns: "set ns \<subseteq> {0, 1}" "length bbs = length ns" and h: "R s = h"
  shows "behaves ev P (there n (fst x, h) R) g' n bbs ns (map_option (apfst (leave 1)) (iterate (m_round ev c on f h) x))"
proof (rule iterate_behaves [where B = "\<lambda>x. there n (fst x, h)" and I = "\<lambda>R. R s = h"])
  fix x :: "'x state" and R assume R: "R s = h"
  note b = body [of "(fst x, h)" R]
  show "case m_round ev c on f h x of
      None \<Rightarrow> run_code ev P (there n (fst x, h) R) = None
    | Some (Inl y) \<Rightarrow> \<exists>R'. some_steps ev P (there n (fst x, h) R) (there n (fst y, h) R') \<and> R' s = h \<and> agree n R R'
    | Some (Inr (r, y)) \<Rightarrow> behaves ev P (there n (fst x, h) R) g' n bbs ns (Some (leave 1 r, y))"
  proof (cases "f (fst x, h)")
    case None
    with b show ?thesis by (simp add: m_round_def behaves_def)
  next
    case (Some p)
    obtain o1 y where p: "p = (o1, y)" by (cases p)
    show ?thesis
    proof (cases o1)
      case Normal
      with b Some p obtain R1 where R1: "steps ev P (there n (fst x, h) R) (here gt y R1)" "agree b' R R1"
        by (auto simp: behaves_def)
      then have "R1 s = h" "agree n R R1" using R b' by (simp_all add: agree_def)
      with again [of R1 y] obtain R2 where R2: "some_steps ev P (here gt y R1)
          (if fst (ev c y) = on then there n (fst (snd (ev c y)), h) R2 else there l (snd (ev c y)) R2)"
        "fst (ev c y) = on \<longrightarrow> R2 s = h" "agree n R R2"
        by (auto simp: agree_def)
      note t = some_steps_trans(1) [OF R1(1) R2(1)]
      show ?thesis
      proof (cases "fst (ev c y) = on")
        case True
        then show ?thesis using t R2(2,3) Some p Normal by (auto simp: m_round_def split_def Let_def)
      next
        case False
        have "there l (snd (ev c y)) R2 = here g' (snd (ev c y)) R2" using g' by (subst here_there) simp_all
        then show ?thesis
          using False some_steps_steps [OF t] R2(3) Some p Normal by (auto simp: m_round_def split_def Let_def behaves_def)
      qed
    next
      case (Leave k)
      from behaves_out [OF b [unfolded Some p Leave] g' _ ns b'(1)] Some p Leave show ?thesis by (simp add: m_round_def)
    qed
  qed
qed (use h in simp_all)

lemma gen_while_eq:
  assumes "while_head False g = (B0, gh)" "gen_expr static c gh = (v, gc)" "while_body B0 v gc = (B, gb)" "MergeBB B = Some l"
  shows "gen_while (gen_expr static c) (jump_from G) (jump_from H) False (map merge_at bbs) g =
    insert_block l (emit (Br (Some l)) (H (bbs @ [Some l]) (insert_block (ElseBB B) (while_again B (emit (Br (Some (CondBB B))) (G (bbs @ [Some l]) gb))))))"
  using assms by (simp add: gen_while_def jump_from_def continue_at_def Let_def)

lemma while_parts:
  assumes ev: "sound static ev" and g0: "fresh g0" and eqs: "while_head False g0 = (B0, gh)" "gen_expr static c gh = (v, gc)"
    "while_body B0 v gc = (B, gb)"
  defines "n \<equiv> next_id g0" and "q \<equiv> next_id gc"
  shows "B0 = while_ids n 0" "B = while_ids n (q + 3)" "fresh gb" "next_id gb = q + 4" "block gb = n" "n + 8 \<le> q" "block g0 < n"
    "ext {block g0} {} g0 gb" "code gb n = []" "code gb (n + 4) = []" "code gb (n + 5) = []"
    "Sublist.prefix (code gh l) (code gb l)" "code gh (n + 1) = []" "block gh = n + 1" "next_id gh = n + 8" "fresh gh" "block gc = n + 1"
    "code gb (n + 1) = code gc (n + 1) @ [Cast q v, Or (q + 1) (Reg (n + 2)) (Reg q),
       Switch (Reg (q + 1)) (Some (n + 5)) [(1, Some (n + 7)), (2, Some (n + 4)), (3, Some (n + 6))]]"
    "code gb (n + 6) = [StackSave (q + 2), Br (Some n)]" "code gb (n + 7) = [StackRestore (Reg (n + 3)), Br (Some n)]"
    "phi_nodes gb (n + 1) = [n + 2, n + 3]" "phi_nodes gb n = [q + 3]" "phi_nodes gb (n + 4) = []" "phi_nodes gb (n + 5) = []"
    "phi_nodes gb (n + 6) = []" "phi_nodes gb (n + 7) = []"
    "incoming gb (n + 2) = [(Const 2, block g0)]" "incoming gb (n + 3) = [(Const 0, block g0)]"
    "incoming gb (q + 3) = [(Reg (q + 2), n + 6), (Reg (n + 3), n + 7)]" "code gh (block g0) = code (emit (Br (Some (n + 1))) g0) (block g0)"
proof -
  note h = while_head_fields [OF g0 eqs(1), folded n_def]
  have bl: "block g0 < n" using g0 by (simp add: fresh_def n_def)
  note z = fresh_start [OF g0, folded n_def]
  have fh: "fresh gh" using z bl by (auto simp: fresh_def h)
  note c = gen_expr_sim [OF ev fh eqs(2)]
  have xhc: "ext {n + 1} {} gh gc" using grownD(2) [OF c(1)] h(3) by simp
  have q: "n + 8 \<le> q" using grownD(3) [OF c(1)] h(2) by (simp add: q_def)
  have bc: "block gc = n + 1" using c(2) h(3) by simp
  have cc: "l < n + 8 \<Longrightarrow> l \<noteq> n + 1 \<Longrightarrow> code gc l = code gh l" "l < n + 8 \<Longrightarrow> phi_nodes gc l = phi_nodes gh l"
    "l < n + 8 \<Longrightarrow> incoming gc l = incoming gh l" for l
    using extD [OF xhc, of l] h(2) by auto
  have ch: "code gh l = []" if "n \<le> l" for l using that bl z(1) [of l] by (simp add: h(4))
  have b0: "while_body (while_ids n 0) v gc = (B, gb)" using eqs(3) h(1) by simp
  have e: "code gc n = []" "code gc (n + 6) = []" "code gc (n + 7) = []" "phi_nodes gc n = []"
    using cc ch z h(5) by simp_all
  note b = while_body_fields [OF grownD(1) [OF c(1)] bc q [unfolded q_def] e b0, folded q_def]
  show "B0 = while_ids n 0" "B = while_ids n (q + 3)" "next_id gb = q + 4" "block gb = n" "n + 8 \<le> q" "block g0 < n"
    "block gh = n + 1" "next_id gh = n + 8" "fresh gh" "block gc = n + 1" "code gh (n + 1) = []"
    using h b q bl fh bc ch by simp_all
  show "code gb n = []" "code gb (n + 4) = []" "code gb (n + 5) = []" "phi_nodes gb n = [q + 3]" "phi_nodes gb (n + 1) = [n + 2, n + 3]"
    "phi_nodes gb (n + 4) = []" "phi_nodes gb (n + 5) = []" "phi_nodes gb (n + 6) = []" "phi_nodes gb (n + 7) = []"
    "incoming gb (n + 2) = [(Const 2, block g0)]" "incoming gb (n + 3) = [(Const 0, block g0)]"
    "incoming gb (q + 3) = [(Reg (q + 2), n + 6), (Reg (n + 3), n + 7)]"
    using b cc ch z h(5,6) q by simp_all
  show "code gb (n + 1) = code gc (n + 1) @ [Cast q v, Or (q + 1) (Reg (n + 2)) (Reg q),
       Switch (Reg (q + 1)) (Some (n + 5)) [(1, Some (n + 7)), (2, Some (n + 4)), (3, Some (n + 6))]]"
    "code gb (n + 6) = [StackSave (q + 2), Br (Some n)]" "code gb (n + 7) = [StackRestore (Reg (n + 3)), Br (Some n)]"
    "code gh (block g0) = code (emit (Br (Some (n + 1))) g0) (block g0)"
    using b(4) h(4) by simp_all
  have p: "Sublist.prefix (code gh l) (code gb l)" for l
    using ext_prefix [OF xhc, of l] ch by (auto simp: b(4))
  then show "Sublist.prefix (code gh l) (code gb l)" .
  show "fresh gb"
    using grownD(1) [OF c(1)] q by (auto simp: fresh_def b q_def)
  show "ext {block g0} {} g0 gb"
    unfolding ext_def
  proof (intro conjI allI impI)
    show "next_id g0 \<le> next_id gb" using q b(2) by (simp add: n_def)
    fix l
    show "Sublist.prefix (code g0 l) (code gb l)" using p [of l] by (auto simp: h(4) split: if_splits dest: append_prefixD)
    assume "l < next_id g0"
    then have l: "l < n" by (simp add: n_def)
    then show "phi_nodes gb l = phi_nodes g0 l" "incoming gb l = incoming g0 l" using cc h q by (simp_all add: b)
    assume "l \<notin> {block g0}"
    then show "code gb l = code g0 l" using l cc(1) [of l] h by (simp add: b)
  qed
qed

lemma fresh_else: "fresh gt \<Longrightarrow> n + 5 \<le> next_id gt \<Longrightarrow> fresh (insert_block (n + 4) (while_again (while_ids n r) (emit i gt)))"
  by (simp add: fresh_def while_again_fields)

lemma while_final:
  assumes ev: "sound static ev" and g0: "fresh g0" and eqs: "while_head False g0 = (B0, gh)" "gen_expr static c gh = (v, gc)"
    "while_body B0 v gc = (B, gb)" and gt: "grown gb gt"
  defines "n \<equiv> next_id g0" and "q \<equiv> next_id gc"
  assumes ge: "ge = insert_block (n + 4) (while_again B (emit (Br (Some (n + 1))) gt))" and gl: "grown ge gl"
    and g': "g' = insert_block (n + 5) (emit (Br (Some (n + 5))) gl)"
  shows "grown g0 g'" "block ge = n + 4" "code ge (n + 4) = []" "code g' (n + 5) = []" "next_id ge = next_id gt"
    "final P g0 g' \<Longrightarrow> while_code P n q (block g0) (block gt) v (code gc (n + 1))"
    "final P g0 g' \<Longrightarrow> final P gb gt"
    "final P g0 g' \<Longrightarrow> \<exists>D M. ext D M (emit (Br (Some (n + 1))) gt) P"
    "final P g0 g' \<Longrightarrow> \<exists>D M. ext D M (emit (Br (Some (n + 5))) gl) P \<and> (\<forall>d\<in>D. next_id ge \<le> d \<longrightarrow> d < next_id gl \<longrightarrow> d = block gl) \<and>
       (\<forall>m\<in>M. next_id ge \<le> m \<longrightarrow> next_id gl \<le> m)"
    "final P g0 g' \<Longrightarrow> Sublist.prefix (code gb l) (code P l)"
proof -
  note w = while_parts [OF ev g0 eqs, folded n_def q_def]
  have nx: "q + 4 \<le> next_id gt" "next_id ge = next_id gt" "next_id gt \<le> next_id gl" "next_id g' = next_id gl" "block g' = n + 5"
    using grownD(3) [OF gt] grownD(3) [OF gl] w(2,4) by (simp_all add: ge g' while_again_fields)
  have t: "block gt = n \<or> q + 4 \<le> block gt" using grown_block [OF gt] w(4,5) by auto
  have be: "block ge = n + 4" by (simp add: ge)
  have l: "block gl = n + 4 \<or> next_id gt \<le> block gl" using grown_block [OF gl] be nx by auto
  have xte: "ext {} {n + 2, n + 3} (emit (Br (Some (n + 1))) gt) ge"
    using ext_incoming [OF ext_incoming [OF ext_refl [of "{}" "{}"]], of "n + 3" "n + 2" "emit (Br (Some (n + 1))) gt"]
    unfolding ge w(2) while_again_def ext_after by (simp add: while_ids_def insert_commute)
  have xbe: "ext {n, block gt} {n + 2, n + 3} gb ge"
    using ext_trans [OF ext_emit [OF grownD(2) [OF gt]] xte] w(5) by (simp add: insert_commute)
  have xe: "ext {n + 4, block gl} {} ge g'"
    using ext_emit [OF grownD(2) [OF gl]] be by (simp add: g' insert_commute)
  note X = ext_trans [OF xbe xe]
  have ft: "fresh gt" "fresh gl" using grownD(1) [OF gt] grownD(1) [OF gl] by simp_all
  show "block ge = n + 4" "next_id ge = next_id gt" using be nx by simp_all
  show "code ge (n + 4) = []" using extD(1) [OF xbe, of "n + 4"] w(4,6,10) t by auto
  show "code g' (n + 5) = []" using extD(1) [OF X, of "n + 5"] w(4,6,11) t l nx by auto
  have f': "fresh g'" using ft(2) nx w(6) by (simp add: g' fresh_def)
  show "grown g0 g'"
    unfolding grown_def
  proof (intro conjI f')
    show "ext {block g0} {} g0 g'" using ext_trans [OF w(8) X] w(6) t l nx by (auto elim!: ext_mono simp: n_def)
  qed (use nx in \<open>simp add: n_def\<close>)
  assume "final P g0 g'"
  then obtain C M where C: "ext C M g' P" "C \<inter> {next_id g0..<next_id g'} \<subseteq> {block g'}" "M \<inter> {next_id g0..<next_id g'} = {}"
    by (rule finalE)
  have C': "c \<notin> C" if "n \<le> c" "c < next_id gl" "c \<noteq> n + 5" for c using C(2) that nx by (auto simp: n_def)
  have M': "m \<notin> M" if "n \<le> m" "m < next_id gl" for m using C(3) that nx by (auto simp: n_def)
  note XP = ext_trans [OF X C(1)] and xeP = ext_trans [OF xe C(1)]
  show "\<exists>D M. ext D M (emit (Br (Some (n + 1))) gt) P" using ext_trans [OF xte xeP] by blast
  then obtain D N where "ext D N (emit (Br (Some (n + 1))) gt) P" by blast
  show "final P gb gt"
  proof (rule finalI)
    show "ext ({block gt} \<union> ({} \<union> ({n + 4, block gl} \<union> C))) ({} \<union> ({n + 2, n + 3} \<union> ({} \<union> M))) gt P"
      by (rule ext_trans [OF ext_ops(1) ext_trans [OF xte xeP]])
  qed (use C' M' w(4,6) l nx in \<open>auto simp: less_Suc_eq_le\<close>)
  have "d = block gl" if "d \<in> C" "next_id ge \<le> d" "d < next_id gl" for d using C' [of d] that w(6) nx by auto
  moreover have "next_id gl \<le> m" if "m \<in> M" "next_id ge \<le> m" for m using M' [of m] that w(6) nx by fastforce
  moreover have "ext C M (emit (Br (Some (n + 5))) gl) P" using ext_trans [OF _ C(1), of "{}" "{}"] by (simp add: g')
  ultimately show "\<exists>D M. ext D M (emit (Br (Some (n + 5))) gl) P \<and> (\<forall>d\<in>D. next_id ge \<le> d \<longrightarrow> d < next_id gl \<longrightarrow> d = block gl) \<and>
       (\<forall>m\<in>M. next_id ge \<le> m \<longrightarrow> next_id gl \<le> m)"
    by blast
  show "Sublist.prefix (code gb l) (code P l)" for l by (rule ext_prefix [OF XP])
  have code: "code P l = code gb l" if "n + 1 \<le> l" "l < n + 8" "l \<noteq> n + 4" "l \<noteq> n + 5" for l
    using extD(1) [OF XP, of l] that C' [of l] w(4,6) t \<open>block gl = n + 4 \<or> _\<close> nx by auto
  have inc: "incoming P r = incoming gt r @ s" if "incoming ge r = incoming gt r @ s" "n \<le> r" "r < q + 4" for r s
    using extD(3) [OF xeP, of r] that M' [of r] nx by auto
  have "incoming ge (n + 2) = incoming gt (n + 2) @ [(Const 0, block gt)]" "incoming ge (n + 3) = incoming gt (n + 3) @ [(Reg (q + 3), block gt)]"
    by (simp_all add: ge w(2) while_again_fields)
  from inc [OF this(1)] inc [OF this(2)]
  have i: "incoming P (n + 2) = [(Const 2, block g0), (Const 0, block gt)]" "incoming P (n + 3) = [(Const 0, block g0), (Reg (q + 3), block gt)]"
    using extD(3) [OF grownD(2) [OF gt], of "n + 2"] extD(3) [OF grownD(2) [OF gt], of "n + 3"] w(4,6,27,28) by simp_all
  have "incoming P (q + 3) = incoming gb (q + 3)" using extD(3) [OF XP, of "q + 3"] M' [of "q + 3"] w(4,6) nx by auto
  with i show "while_code P n q (block g0) (block gt) v (code gc (n + 1))"
    using code extD(2) [OF XP] w t unfolding while_code_def by auto
qed

lemma sim_while:
  fixes ev :: "'x expr_meaning"
  assumes ev: "sound static ev" and G: "sim ev (1 # ns) G f" and H: "sim ev (1 # ns) H h" and ns: "set ns \<subseteq> {0, 1}"
  shows "sim ev ns (\<lambda>bbs. gen_while (gen_expr static c) (jump_from G) (jump_from H) False (map merge_at bbs)) (m_leave 1 (m_while ev c f h))"
proof (rule simI)
  fix bbs :: "nat option list" and g0 assume g0: "fresh g0" "length bbs = length ns"
  define n where "n = next_id g0"
  obtain B0 gh where eq1: "while_head False g0 = (B0, gh)" by fastforce
  obtain v gc where eq2: "gen_expr static c gh = (v, gc)" by fastforce
  obtain B gb where eq3: "while_body B0 v gc = (B, gb)" by fastforce
  note w = while_parts [OF ev g0(1) eq1 eq2 eq3, folded n_def]
  let ?bbs = "bbs @ [Some (n + 5)]" and ?q = "next_id gc" and ?cs = "code gc (n + 1)"
  define gt where "gt = G ?bbs gb"
  define ge where "ge = insert_block (n + 4) (while_again B (emit (Br (Some (n + 1))) gt))"
  define gl where "gl = H ?bbs ge"
  define g' where "g' = insert_block (n + 5) (emit (Br (Some (n + 5))) gl)"
  have B: "MergeBB B = Some (n + 5)" "ElseBB B = n + 4" "CondBB B = n + 1" using w(2) by (simp_all add: while_ids_def)
  have eq: "gen_while (gen_expr static c) (jump_from G) (jump_from H) False (map merge_at bbs) g0 = g'"
    unfolding gen_while_eq [OF eq1 eq2 eq3 B(1)] B g'_def gl_def ge_def gt_def ..
  have len: "length ?bbs = length (1 # ns)" using g0(2) by simp
  note s = simD [OF G w(3) len, folded gt_def]
  have "n + 5 \<le> next_id gt" using grownD(3) [OF s(1)] w(4,6) by simp
  then have fe: "fresh ge" unfolding ge_def w(2) by (intro fresh_else grownD(1) [OF s(1)])
  note t = simD [OF H fe len, folded gl_def]
  note F = while_final [OF ev g0(1) eq1 eq2 eq3 s(1) _ t(1), folded n_def, OF ge_def g'_def]
  have "behaves ev P (here g0 x R) g' n bbs ns (m_leave 1 (m_while ev c f h) x)" if P: "final P g0 g'" "dests P bbs" for P x R
  proof -
    note W = F(6) [OF P(1)]
    have phi: "phi_nodes P (n + 5) = []" and q: "n + 8 \<le> ?q" using W by (simp_all add: while_code_def)
    then have d: "dests P ?bbs" using P(2) by (simp add: dests_snoc)
    have C: "cond_runs ev P (n + 1) (length ?cs) (n + 8) v c"
      unfolding cond_runs_def
    proof (intro allI)
      fix x :: "'x state" and R
      have "Sublist.prefix (code gc (block gh)) (code P (block gh))" using W by (simp add: w(14) while_code_def)
      note c = gen_expr_sim(3) [OF ev w(16) eq2 this, of x R]
      have "there (n + 1) x R = here gh x R" using w(13,14) by (subst here_there) simp_all
      moreover have "here gc y R' = atpos (n + 1) (length ?cs) y R'" for y :: "'x state" and R' by (simp add: atpos_here w(17))
      ultimately
      show "\<exists>R'. steps ev P (there (n + 1) x R) (atpos (n + 1) (length ?cs) (snd (ev c x)) R') \<and> agree (n + 8) R R' \<and>
          val_of R' v = Some (of_bool (fst (ev c x)))"
        using c unfolding w(15) by (simp only:)
    qed
    have body: "behaves ev P (there n y R) gt (?q + 4) ?bbs (1 # ns) (f y)" for y R
      using s(2) [OF F(7) [OF P(1)] d, of y R] here_there [of gb y R] w(4,5,9) by simp
    have el: "behaves ev P (there (n + 4) y R) g' n bbs ns (m_leave 1 h y)" for y R
    proof -
      obtain D M where D: "ext D M (emit (Br (Some (n + 5))) gl) P" "\<forall>d\<in>D. next_id ge \<le> d \<longrightarrow> d < next_id gl \<longrightarrow> d = block gl"
        "\<forall>m\<in>M. next_id ge \<le> m \<longrightarrow> next_id gl \<le> m"
        using F(9) [OF P(1)] by blast
      have "n \<le> next_id ge" using F(5) grownD(3) [OF s(1)] w(4,6) by simp
      then show ?thesis
        unfolding m_leave_def
        by (intro branch_behaves [OF H fe g0(2) _ ns gl_def D P(2) phi _ F(4) F(2,3)]) (simp_all add: g'_def)
    qed
    let ?w = "fst (ev c x)" and ?y = "snd (ev c x)" and ?R0 = "R(n + 2 := 2, n + 3 := 0)"
    have s1: "step ev P (here g0 x R) = Some (there (n + 1) x ?R0)"
    proof -
      have "Sublist.prefix (code gh (block g0)) (code P (block g0))"
        by (rule prefix_order.trans [OF w(12) F(10) [OF P(1)]])
      from step_emitted [of "Br (Some (n + 1))" g0 P ev x R, folded w(30), OF this] show ?thesis
        by (simp only: exec.simps atpos_here while_enters(1) [OF W])
    qed
    obtain R1 where R1: "steps ev P (there (n + 1) x ?R0) (atpos (n + 1) (length ?cs) ?y R1)" "agree (n + 8) ?R0 R1" "val_of R1 v = Some (of_bool ?w)"
      using C unfolding cond_runs_def by blast
    have "R1 (n + 2) = 2" using R1(2) by (simp add: agree_def)
    let ?R2 = "R1(?q := of_bool ?w, ?q + 1 := 2 OR of_bool ?w)"
    have "some_steps ev P (atpos (n + 1) (length ?cs) ?y R1) (there (if ?w then n + 6 else n + 4) ?y ?R2)"
      using while_switch [OF W R1(3) \<open>R1 (n + 2) = 2\<close>, of ev ?y] by simp
    with s1 R1(1) have S: "some_steps ev P (here g0 x R) (there (if ?w then n + 6 else n + 4) ?y ?R2)"
      by (blast intro: some_steps_trans one_step some_steps_steps)
    have a: "agree n R ?R2" using R1(2) q by (auto simp: agree_def)
    show ?thesis
    proof (cases ?w)
      case True
      have "code P (n + 6) = [StackSave (?q + 2), Br (Some n)]" "phi_nodes P n = [?q + 3]"
        "incoming P (?q + 3) = [(Reg (?q + 2), n + 6), (Reg (n + 3), n + 7)]"
        using W by (simp_all add: while_code_def)
      note S2 = stack_saved [OF this, of ev ?y ?R2]
      let ?R3 = "?R2(?q + 2 := snd ?y, ?q + 3 := snd ?y)"
      obtain D M where D: "ext D M (emit (Br (Some (n + 1))) gt) P" using F(8) [OF P(1)] by blast
      have "behaves ev P (there n (fst ?y, snd ?y) ?R3) g' n bbs ns (map_option (apfst (leave 1)) (iterate (m_round ev c True f (snd ?y)) ?y))"
      proof (rule loop_behaves [OF body, where s = "?q + 3"])
        fix y R assume "R (?q + 3) = snd ?y"
        from while_again_runs [OF W C D refl, where R = R and h = "snd ?y", OF this, of y]
        show "\<exists>R'. some_steps ev P (here gt y R) (if fst (ev c y) = True then there n (fst (snd (ev c y)), snd ?y) R'
            else there (n + 5) (snd (ev c y)) R') \<and> (fst (ev c y) = True \<longrightarrow> R' (?q + 3) = snd ?y) \<and> agree n R R'" by simp
      qed (use q g0(2) ns F(4) in \<open>simp_all add: g'_def\<close>)
      moreover have "steps ev P (here g0 x R) (there n ?y ?R3)"
        using steps_trans [OF some_steps_steps [OF S]] some_steps_steps [OF S2] True by simp
      moreover have "agree n R ?R3" using a q by (auto simp: agree_def)
      ultimately show ?thesis using behaves_steps [of ev P "here g0 x R" "there n ?y ?R3" n n] True
        by (simp add: m_leave_def m_while_def split_def Let_def)
    next
      case False
      with S have "steps ev P (here g0 x R) (there (n + 4) ?y ?R2)" by (simp add: some_steps_steps)
      from behaves_steps [OF this _ order.refl el] a False show ?thesis by (simp add: m_leave_def m_while_def split_def Let_def)
    qed
  qed
  with F(1) show "\<exists>g'. gen_while (gen_expr static c) (jump_from G) (jump_from H) False (map merge_at bbs) g0 = g' \<and> grown g0 g' \<and>
    (\<forall>P x R. final P g0 g' \<longrightarrow> dests P bbs \<longrightarrow> behaves ev P (here g0 x R) g' (next_id g0) bbs ns (m_leave 1 (m_while ev c f h) x))"
    unfolding eq n_def by blast
qed

section \<open>Repeat\<close>

definition repeat_ids :: "nat \<Rightarrow> loop_blocks" where
  "repeat_ids n = \<lparr>ThenBB = n, CondBB = n + 1, ElseBB = 0, MergeBB = Some (n + 2), StackSaveBB = n + 3, StackRestoreBB = n + 4,
     condPN = 0, savedStack = n + 6, savedStack1 = n + 7\<rparr>"

lemma repeat_head_fields:
  assumes "fresh g" "repeat_head False g = (B, g')"
  defines "n \<equiv> next_id g"
  shows "B = repeat_ids n" "next_id g' = n + 8" "block g' = n"
    "code g' = (code g)(block g := code g (block g) @ [Br (Some (n + 3))], n + 3 := [StackSave (n + 5), Br (Some n)],
       n + 4 := [StackRestore (Reg (n + 6)), Br (Some n)])"
    "phi_nodes g' = (phi_nodes g)(n + 4 := [n + 6], n := [n + 7])"
    "incoming g' = (incoming g)(n + 7 := [(Reg (n + 5), n + 3), (Reg (n + 6), n + 4)])"
proof -
  have "block g < n" using assms(1) by (simp add: fresh_def n_def)
  then show "B = repeat_ids n" "next_id g' = n + 8" "block g' = n"
    "code g' = (code g)(block g := code g (block g) @ [Br (Some (n + 3))], n + 3 := [StackSave (n + 5), Br (Some n)],
       n + 4 := [StackRestore (Reg (n + 6)), Br (Some n)])"
    "phi_nodes g' = (phi_nodes g)(n + 4 := [n + 6], n := [n + 7])"
    "incoming g' = (incoming g)(n + 7 := [(Reg (n + 5), n + 3), (Reg (n + 6), n + 4)])"
    using assms(2) fresh_start [OF assms(1)]
    by (auto simp: repeat_head_def gen_stack_save_def gen_stack_restore_def start_body_def new_id_eq create_phi_eq new_merge_def Let_def
        repeat_ids_def n_def fun_upd_twist)
qed

lemma gen_repeat_eq:
  assumes "repeat_head False g = (B, gb)" "MergeBB B = Some l"
    "gen_expr static c (insert_block (CondBB B) (emit (Br (Some (CondBB B))) (G (bbs @ [Some l]) gb))) = (v, gc)"
  shows "gen_repeat (gen_expr static c) (jump_from G) False (map merge_at bbs) g =
    insert_block l (add_incoming (savedStack B) (Reg (savedStack1 B)) (block gc) (emit (CondBr v (Some l) (Some (StackRestoreBB B))) gc))"
  using assms by (simp add: gen_repeat_def jump_from_def continue_at_def Let_def)

definition repeat_code :: "ir \<Rightarrow> nat \<Rightarrow> bool" where
  "repeat_code P n \<longleftrightarrow> code P (n + 3) = [StackSave (n + 5), Br (Some n)] \<and> code P (n + 4) = [StackRestore (Reg (n + 6)), Br (Some n)] \<and>
     phi_nodes P n = [n + 7] \<and> phi_nodes P (n + 1) = [] \<and> phi_nodes P (n + 2) = [] \<and> phi_nodes P (n + 3) = [] \<and> phi_nodes P (n + 4) = [n + 6] \<and>
     incoming P (n + 6) = [(Reg (n + 7), n + 1)] \<and> incoming P (n + 7) = [(Reg (n + 5), n + 3), (Reg (n + 6), n + 4)]"

lemma repeat_again_runs:
  assumes W: "repeat_code P n" and C: "cond_runs ev P (n + 1) (length cs) (n + 8) v c"
    and J: "ext D M (emit (Br (Some (n + 1))) gt) P"
    and E: "length cs < length (code P (n + 1))" "code P (n + 1) ! length cs = CondBr v (Some (n + 2)) (Some (n + 4))" and h: "R (n + 7) = h"
  shows "\<exists>R'. some_steps ev P (here gt y R) (if fst (ev c y) = False then there n (fst (snd (ev c y)), h) R' else there (n + 2) (snd (ev c y)) R') \<and>
    (fst (ev c y) = False \<longrightarrow> R' (n + 7) = h) \<and> agree n R R'"
proof -
  let ?w = "fst (ev c y)" and ?z = "snd (ev c y)"
  have phi: "phi_nodes P (n + 1) = []" "phi_nodes P (n + 2) = []" "phi_nodes P (n + 4) = [n + 6]" and inc: "incoming P (n + 6) = [(Reg (n + 7), n + 1)]"
    using W by (simp_all add: repeat_code_def)
  have s1: "step ev P (here gt y R) = Some (there (n + 1) y R)"
    using step_results(6) [OF J refl, of ev y R] enter_plain [OF phi(1), of gt y R] by simp
  obtain R2 where R2: "steps ev P (there (n + 1) y R) (atpos (n + 1) (length cs) ?z R2)" "agree (n + 8) R R2" "val_of R2 v = Some (of_bool ?w)"
    using C unfolding cond_runs_def by blast
  from s1 R2(1) have s: "steps ev P (here gt y R) (atpos (n + 1) (length cs) ?z R2)"
    by (blast intro: steps_trans one_step some_steps_steps)
  have s2: "step ev P (atpos (n + 1) (length cs) ?z R2) = enter P (if ?w then Some (n + 2) else Some (n + 4)) (atpos (n + 1) (length cs) ?z R2)"
    using step_atpos(6) [OF E R2(3), of ev ?z] by simp
  have r: "R2 (n + 7) = h" using R2(2) h by (simp add: agree_def)
  show ?thesis
  proof (cases ?w)
    case True
    then have "step ev P (atpos (n + 1) (length cs) ?z R2) = Some (there (n + 2) ?z R2)"
      using s2 enter_atpos [OF phi(2), of "n + 1" "length cs" ?z R2] by simp
    from some_steps_trans(1) [OF s one_step [OF this]] have "some_steps ev P (here gt y R) (there (n + 2) ?z R2)" .
    with True R2(2) show ?thesis by (intro exI [of _ R2]) (simp add: agree_def)
  next
    case False
    let ?R3 = "R2(n + 6 := h)"
    have "phi_value P R2 (n + 1) (n + 6) = Some h" using inc r by (simp add: phi_value_def)
    then have "step ev P (atpos (n + 1) (length cs) ?z R2) = Some (there (n + 4) ?z ?R3)"
      using s2 False enter_phi [OF phi(3), of R2 "n + 1" h "length cs" ?z] by simp
    from some_steps_trans(1) [OF s one_step [OF this]] have "some_steps ev P (here gt y R) (there (n + 4) ?z ?R3)" .
    moreover have "code P (n + 4) = [StackRestore (Reg (n + 6)), Br (Some n)]" "phi_nodes P n = [n + 7]"
      "incoming P (n + 7) = [(Reg (n + 5), n + 3), (Reg (n + 6), n + 4)]" "n + 3 \<noteq> n + 4"
      using W by (simp_all add: repeat_code_def)
    from stack_restored [OF this, of ev ?z ?R3]
    have "some_steps ev P (there (n + 4) ?z ?R3) (there n (fst ?z, h) (?R3(n + 7 := h)))" by simp
    ultimately have "some_steps ev P (here gt y R) (there n (fst ?z, h) (?R3(n + 7 := h)))"
      by (blast intro: some_steps_trans some_steps_steps)
    with False R2(2) show ?thesis by (intro exI [of _ "?R3(n + 7 := h)"]) (simp add: agree_def)
  qed
qed

lemma repeat_final:
  assumes ev: "sound static ev" and g0: "fresh g0" and head: "repeat_head False g0 = (B, gb)" and gt: "grown gb gt"
  defines "n \<equiv> next_id g0" and "gq \<equiv> insert_block (next_id g0 + 1) (emit (Br (Some (next_id g0 + 1))) gt)"
  assumes cond: "gen_expr static c gq = (v, gc)"
    and g': "g' = insert_block (n + 2) (add_incoming (n + 6) (Reg (n + 7)) (n + 1) (emit (CondBr v (Some (n + 2)) (Some (n + 4))) gc))"
  shows "grown g0 g'" "fresh gq" "code gq (n + 1) = []" "code g' (n + 2) = []" "block gc = n + 1"
    "final P g0 g' \<Longrightarrow> repeat_code P n" "final P g0 g' \<Longrightarrow> final P gb gt"
    "final P g0 g' \<Longrightarrow> \<exists>D M. ext D M (emit (Br (Some (n + 1))) gt) P"
    "final P g0 g' \<Longrightarrow> Sublist.prefix (code gc (n + 1) @ [CondBr v (Some (n + 2)) (Some (n + 4))]) (code P (n + 1))"
    "final P g0 g' \<Longrightarrow> Sublist.prefix (code gb l) (code P l)"
proof -
  note b = repeat_head_fields [OF g0 head, folded n_def]
  have bl: "block g0 < n" using g0 by (simp add: fresh_def n_def)
  note z = fresh_start [OF g0, folded n_def]
  have x0: "ext {block g0} {} g0 gb" using bl z by (auto simp: ext_def b n_def)
  have nt: "n + 8 \<le> next_id gt" using grownD(3) [OF gt] b(2) by simp
  have t: "block gt = n \<or> n + 8 \<le> block gt" using grown_block [OF gt] b(2,3) by auto
  have q: "next_id gq = next_id gt" "block gq = n + 1" by (simp_all add: gq_def n_def)
  show fq: "fresh gq" using grownD(1) [OF gt] nt by (simp add: gq_def fresh_def n_def)
  note c = gen_expr_sim [OF ev fq cond]
  show bc: "block gc = n + 1" using c(2) q by simp
  have nx: "next_id gt \<le> next_id gc" "next_id g' = next_id gc" "block g' = n + 2" using grownD(3) [OF c(1)] q by (simp_all add: g')
  have xtq: "ext {} {} (emit (Br (Some (n + 1))) gt) gq" by (simp add: gq_def n_def)
  have xbq: "ext {n, block gt} {} gb gq"
    using ext_trans [OF ext_emit [OF grownD(2) [OF gt]] xtq] b(3) by (simp add: insert_commute)
  have xc: "ext {n + 1} {} gq (emit (CondBr v (Some (n + 2)) (Some (n + 4))) gc)"
    using ext_emit [OF grownD(2) [OF c(1)]] bc q by simp
  have xq: "ext {n + 1} {n + 6} gq g'" using ext_incoming [OF xc] by (simp add: g')
  note X = ext_trans [OF xbq xq]
  have cb: "code gb (n + 1) = []" "code gb (n + 2) = []" using z bl by (simp_all add: b)
  show "code gq (n + 1) = []" using extD(1) [OF xbq, of "n + 1"] cb t b(2) by auto
  show "code g' (n + 2) = []" using extD(1) [OF X, of "n + 2"] cb t b(2) by auto
  have "fresh g'" using grownD(1) [OF c(1)] nx nt by (auto simp: g' fresh_def)
  moreover have "ext {block g0} {} g0 g'" using ext_trans [OF x0 X] t by (auto elim!: ext_mono simp: n_def)
  ultimately show "grown g0 g'" using nx by (simp add: grown_def n_def)
  assume "final P g0 g'"
  then obtain C M where C: "ext C M g' P" "C \<inter> {next_id g0..<next_id g'} \<subseteq> {block g'}" "M \<inter> {next_id g0..<next_id g'} = {}"
    by (rule finalE)
  have C': "c \<notin> C" if "n \<le> c" "c < next_id gc" "c \<noteq> n + 2" for c using C(2) that nx by (auto simp: n_def)
  have M': "m \<notin> M" if "n \<le> m" "m < next_id gc" for m using C(3) that nx by (auto simp: n_def)
  note XP = ext_trans [OF X C(1)] and xqP = ext_trans [OF xq C(1)]
  have "ext {} {} (emit (Br (Some (n + 1))) gt) gq" by (rule xtq)
  from ext_trans [OF this xqP] show "\<exists>D M. ext D M (emit (Br (Some (n + 1))) gt) P" by blast
  show "final P gb gt"
  proof (rule finalI)
    show "ext ({block gt} \<union> ({} \<union> ({n + 1} \<union> C))) ({} \<union> ({} \<union> ({n + 6} \<union> M))) gt P"
      by (rule ext_trans [OF ext_ops(1) ext_trans [OF xtq xqP]])
  qed (use C' M' b(2) nx in \<open>auto simp: less_Suc_eq_le\<close>)
  show "Sublist.prefix (code gb l) (code P l)" for l by (rule ext_prefix [OF XP])
  show "Sublist.prefix (code gc (n + 1) @ [CondBr v (Some (n + 2)) (Some (n + 4))]) (code P (n + 1))"
    using ext_prefix [OF C(1), of "n + 1"] bc by (simp add: g')
  have code: "code P l = code gb l" if "n + 3 \<le> l" "l < n + 8" for l
    using extD(1) [OF XP, of l] that C' [of l] b(2) t nx nt by auto
  have "incoming g' (n + 6) = incoming gb (n + 6) @ [(Reg (n + 7), n + 1)]"
    using extD(3) [OF ext_trans [OF xbq xc], of "n + 6"] b(2) by (simp add: g')
  then have i: "incoming P (n + 6) = [(Reg (n + 7), n + 1)]" "incoming P (n + 7) = incoming gb (n + 7)"
    using extD(3) [OF C(1), of "n + 6"] extD(3) [OF XP, of "n + 7"] M' [of "n + 6"] M' [of "n + 7"] nx nt b(2) z by (simp_all add: b(6))
  then show "repeat_code P n"
    using code extD(2) [OF XP] z bl nt unfolding repeat_code_def by (simp add: b)
qed

lemma sim_repeat:
  fixes ev :: "'x expr_meaning"
  assumes ev: "sound static ev" and G: "sim ev (1 # ns) G f" and ns: "set ns \<subseteq> {0, 1}"
  shows "sim ev ns (\<lambda>bbs. gen_repeat (gen_expr static c) (jump_from G) False (map merge_at bbs)) (m_leave 1 (m_repeat ev c f))"
proof (rule simI)
  fix bbs :: "nat option list" and g0 assume g0: "fresh g0" "length bbs = length ns"
  define n where "n = next_id g0"
  obtain B gb where head: "repeat_head False g0 = (B, gb)" by fastforce
  note b = repeat_head_fields [OF g0(1) head, folded n_def]
  let ?bbs = "bbs @ [Some (n + 2)]"
  define gt where "gt = G ?bbs gb"
  define gq where "gq = insert_block (n + 1) (emit (Br (Some (n + 1))) gt)"
  obtain v gc where cond: "gen_expr static c gq = (v, gc)" by fastforce
  define g' where "g' = insert_block (n + 2) (add_incoming (n + 6) (Reg (n + 7)) (n + 1) (emit (CondBr v (Some (n + 2)) (Some (n + 4))) gc))"
  have bl: "block g0 < n" and z: "\<And>l. n \<le> l \<Longrightarrow> code g0 l = []" "\<And>l. n \<le> l \<Longrightarrow> incoming g0 l = []" "\<And>l. n \<le> l \<Longrightarrow> phi_nodes g0 l = []"
    using g0(1) fresh_start [OF g0(1)] by (simp_all add: fresh_def n_def)
  have fb: "fresh gb" "code gb n = []" using z bl by (auto simp: fresh_def b)
  have len: "length ?bbs = length (1 # ns)" using g0(2) by simp
  note s = simD [OF G fb(1) len, folded gt_def]
  note F = repeat_final [OF ev g0(1) head s(1), folded n_def, folded gq_def, OF cond g'_def]
  have B: "MergeBB B = Some (n + 2)" "CondBB B = n + 1" "savedStack B = n + 6" "savedStack1 B = n + 7" "StackRestoreBB B = n + 4"
    by (simp_all add: b(1) repeat_ids_def)
  have eq: "gen_repeat (gen_expr static c) (jump_from G) False (map merge_at bbs) g0 = g'"
    using gen_repeat_eq [OF head B(1), where G = G and bbs = bbs, unfolded B, folded gt_def, folded gq_def, OF cond]
    by (simp add: g'_def F(5))
  have "behaves ev P (here g0 x R) g' n bbs ns (m_leave 1 (m_repeat ev c f) x)" if P: "final P g0 g'" "dests P bbs" for P x R
  proof -
    note W = F(6) [OF P(1)]
    let ?cs = "code gc (n + 1)"
    have phi: "phi_nodes P (n + 2) = []" "phi_nodes P (n + 3) = []" using W by (simp_all add: repeat_code_def)
    have d: "dests P ?bbs" using P(2) phi by (simp add: dests_snoc)
    have E: "length ?cs < length (code P (n + 1))" "code P (n + 1) ! length ?cs = CondBr v (Some (n + 2)) (Some (n + 4))"
      using F(9) [OF P(1)] by (auto simp: Sublist.prefix_def nth_append)
    have C: "cond_runs ev P (n + 1) (length ?cs) (n + 8) v c"
      unfolding cond_runs_def
    proof (intro allI)
      fix x :: "'x state" and R
      have q: "block gq = n + 1" by (simp add: gq_def)
      have "Sublist.prefix (code gc (block gq)) (code P (block gq))" using F(9) [OF P(1)] by (auto simp: q dest: append_prefixD)
      note c = gen_expr_sim(3) [OF ev F(2) cond this, of x R]
      have "there (n + 1) x R = here gq x R" using F(3) q by (subst here_there) simp_all
      moreover have "here gc y R' = atpos (n + 1) (length ?cs) y R'" for y :: "'x state" and R' by (simp add: atpos_here F(5))
      moreover have "n + 8 \<le> next_id gq" using grownD(3) [OF s(1)] b(2) by (simp add: gq_def)
      ultimately
      show "\<exists>R'. steps ev P (there (n + 1) x R) (atpos (n + 1) (length ?cs) (snd (ev c x)) R') \<and> agree (n + 8) R R' \<and>
          val_of R' v = Some (of_bool (fst (ev c x)))"
        using c by (auto simp: agree_def simp del: fun_upd_apply)
    qed
    have body: "behaves ev P (there n y R) gt (n + 8) ?bbs (1 # ns) (f y)" for y R
      using s(2) [OF F(7) [OF P(1)] d, of y R] here_there [of gb y R] b(2,3) fb(2) by simp
    obtain D M where D: "ext D M (emit (Br (Some (n + 1))) gt) P" using F(8) [OF P(1)] by blast
    have "code gb (block g0) = code (emit (Br (Some (n + 3))) g0) (block g0)" using bl by (simp add: b(4))
    then have "Sublist.prefix (code (emit (Br (Some (n + 3))) g0) (block g0)) (code P (block g0))" using F(10) [OF P(1), of "block g0"] by simp
    from step_emitted [OF this, of ev x R] have s1: "step ev P (here g0 x R) = Some (there (n + 3) x R)"
      using enter_plain [OF phi(2), of g0 x R] by simp
    have "code P (n + 3) = [StackSave (n + 5), Br (Some n)]" "phi_nodes P n = [n + 7]"
      "incoming P (n + 7) = [(Reg (n + 5), n + 3), (Reg (n + 6), n + 4)]"
      using W by (simp_all add: repeat_code_def)
    note s2 = stack_saved [OF this, of ev x R]
    let ?R = "R(n + 5 := snd x, n + 7 := snd x)"
    have "behaves ev P (there n (fst x, snd x) ?R) g' n bbs ns (map_option (apfst (leave 1)) (iterate (m_round ev c False f (snd x)) x))"
    proof (rule loop_behaves [OF body, where s = "n + 7"])
      fix y R assume "R (n + 7) = snd x"
      from repeat_again_runs [OF W C D E, where R = R and h = "snd x", OF this, of y]
      show "\<exists>R'. some_steps ev P (here gt y R) (if fst (ev c y) = False then there n (fst (snd (ev c y)), snd x) R'
          else there (n + 2) (snd (ev c y)) R') \<and> (fst (ev c y) = False \<longrightarrow> R' (n + 7) = snd x) \<and> agree n R R'" .
    qed (use g0(2) ns F(4) in \<open>simp_all add: g'_def\<close>)
    moreover have "steps ev P (here g0 x R) (there n x ?R)"
      using steps_trans [OF some_steps_steps [OF one_step [OF s1]] some_steps_steps [OF s2]] .
    ultimately show ?thesis using behaves_steps [of ev P "here g0 x R" "there n x ?R" n n]
      by (simp add: m_leave_def m_repeat_def agree_def)
  qed
  with F(1) show "\<exists>g'. gen_repeat (gen_expr static c) (jump_from G) False (map merge_at bbs) g0 = g' \<and> grown g0 g' \<and>
    (\<forall>P x R. final P g0 g' \<longrightarrow> dests P bbs \<longrightarrow> behaves ev P (here g0 x R) g' (next_id g0) bbs ns (m_leave 1 (m_repeat ev c f) x))"
    unfolding eq n_def by blast
qed

end
