(* ===== verification/BlockRead.thy ===== *)
theory BlockRead
  imports BlockTree
begin

text \<open>
  The parsers of Blocks read the programs of BlockTree. Expressions are read by the locale of
  ExprRead, interpreted for the state with the vectors of the parser.
\<close>

section \<open>The parser in front of tokens\<close>

type_synonym place = "(token \<times> string) list scopes"

abbreviation src :: "place token_source" where "src \<equiv> scoped token_list"
abbreviation run :: "nat \<Rightarrow> (node, place) go" where "run \<equiv> parse src (block_builder node_ops src node_builder)"

definition place :: "place \<Rightarrow> (token \<times> string) list \<Rightarrow> place parser" where
  "place x ts = (let p = start ts in \<lparr>CurTok = CurTok p, TokText = TokText p, source = x\<lparr>stream := source p\<rparr>, parseOk = True\<rparr>)"

interpretation bl: expr_reader "scoped token_list" "block_builder node_ops (scoped token_list) node_builder" E "place x" for x
proof
  show "getNextToken src ex te (place x (y # ts)) = Ok (place x ts)" if "clean ts" for ts ex te y
    using that by (cases ts; cases y; cases "hd ts")
      (auto simp: getNextToken_def scoped_def token_list_def place_def start_def tok_values)
qed (auto simp: place_def start_def cur_def block_builder_def node_builder_def split: list.split)

lemma scope_place: "(\<And>s u. f (s\<lparr>stream := u\<rparr>) = (f s)\<lparr>stream := u\<rparr>) \<Longrightarrow> scope f (place x ts) = place (f x) ts"
  by (simp add: scope_def place_def Let_def)

lemma source_place [simp]: "syntax_nesting (source (place x ts)) = syntax_nesting x"
  "current_branch_part (source (place x ts)) = current_branch_part x" "locals_table (source (place x ts)) = locals_table x"
  "globals_table (source (place x ts)) = globals_table x" "inside_function (source (place x ts)) = inside_function x"
  "function_return_kind (source (place x ts)) = function_return_kind x"
  by (simp_all add: place_def Let_def)

lemma push_place [simp]:
  "push_nesting n (place x ts) = place (x\<lparr>syntax_nesting := syntax_nesting x @ [n]\<rparr>) ts"
  "push_part b (place x ts) = place (x\<lparr>current_branch_part := current_branch_part x @ [b]\<rparr>) ts"
  "push_locals (place x ts) = place (x\<lparr>locals_table := locals_table x @ [[]]\<rparr>) ts"
  by (simp_all add: push_nesting_def push_part_def push_locals_def scope_place)

lemma pop_place [simp]:
  "syntax_nesting x \<noteq> [] \<Longrightarrow> pop_nesting (place x ts) = Ok (place (x\<lparr>syntax_nesting := butlast (syntax_nesting x)\<rparr>) ts)"
  "current_branch_part x \<noteq> [] \<Longrightarrow> pop_part (place x ts) = Ok (place (x\<lparr>current_branch_part := butlast (current_branch_part x)\<rparr>) ts)"
  "locals_table x \<noteq> [] \<Longrightarrow> pop_locals (place x ts) = Ok (last (locals_table x), place (x\<lparr>locals_table := butlast (locals_table x)\<rparr>) ts)"
  "current_branch_part x \<noteq> [] \<Longrightarrow> change_part f (place x ts) =
     Ok (place (x\<lparr>current_branch_part := butlast (current_branch_part x) @ [f (last (current_branch_part x))]\<rparr>) ts)"
  by (simp_all add: pop_nesting_def pop_part_def pop_locals_def change_part_def vector_back_def scope_place)

text \<open>The counters of the innermost branch are all that a statement changes.\<close>

definition same :: "place \<Rightarrow> place \<Rightarrow> bool" where
  "same x y \<longleftrightarrow> (\<exists>ps. y = x\<lparr>current_branch_part := ps\<rparr> \<and> length ps = length (current_branch_part x) \<and>
     butlast ps = butlast (current_branch_part x))"

lemma same_refl [simp]: "same x x"
  unfolding same_def by (rule exI [of _ "current_branch_part x"]) simp

lemma same_trans: "same x y \<Longrightarrow> same y z \<Longrightarrow> same x z"
  by (auto simp: same_def)

definition ready :: "place \<Rightarrow> nat list \<Rightarrow> bool" where
  "ready x ns \<longleftrightarrow> syntax_nesting x = rev ns \<and> set ns \<subseteq> {0, 1} \<and> length ns \<le> length (current_branch_part x) \<and>
     length ns \<le> length (locals_table x) \<and> (\<forall>t\<in>set (locals_table x). to_destruct t = {})"

lemma ready_same: "ready x ns \<Longrightarrow> same x y \<Longrightarrow> ready y ns"
  by (auto simp: ready_def same_def)

lemma no_vars: "ready x ns \<Longrightarrow> n \<le> length (locals_table x) \<Longrightarrow> n < 2 ^ 31 \<Longrightarrow> get_destruct_vars (int n) (locals_table x) = Ok {}"
  by (auto simp: get_destruct_vars_def Let_def ready_def signed_take_bit_int_eq_self dest: in_set_dropD)

section \<open>Loops from the middle\<close>

definition list_end ::
  "bool \<times> node list \<times> int \<times> int \<times> place parser \<Rightarrow> ((node list \<times> int \<times> int) \<times> place parser) parsed" where
  "list_end r = (case r of (stop, list, k, mx, p) \<Rightarrow>
       if is_brk k then
         (case brk_depth (brk_levels k) (rev (syntax_nesting (source p))) 0 of
            None \<Rightarrow> Ok (([], 0, 0), p)
          | Some d \<Rightarrow> Ok ((list, brk_end_kind (tok ''brk'') d, max mx d), p))
       else Ok ((list, k, mx), p))"

definition list_from :: "nat \<Rightarrow> node list \<Rightarrow> int \<Rightarrow> place parser \<Rightarrow> ((node list \<times> int \<times> int) \<times> place parser) parsed" where
  "list_from n list mx p =
     pbind (ploop (\<lambda>(stop, list, k, mx, p). \<not> stop \<and> k = 0)
        (\<lambda>(stop, list, k, mx, p). pbind (ParseExprOrReturn (run n) src p) (\<lambda>((e, k), p). expr_list_step node_ops e k list mx p))
        (False, list, 0, mx, p)) list_end"

definition parts_from :: "nat \<Rightarrow> node branch_desc list \<Rightarrow> int \<Rightarrow> place parser \<Rightarrow> ((node branch_desc list \<times> int) \<times> place parser) parsed" where
  "parts_from n bs mx p =
     pbind (ploop (\<lambda>(stop, branches, mx, p). \<not> stop)
        (\<lambda>(stop, branches, mx, p). pbind (ParseExprList node_ops (run n) src p) (\<lambda>(part, p). branch_step part branches mx p))
        (False, bs, mx, p)) (\<lambda>(stop, branches, mx, p). Ok ((branches, mx), p))"

definition block_from ::
  "nat \<Rightarrow> node list \<Rightarrow> int \<Rightarrow> node branch_desc list \<Rightarrow> int \<Rightarrow> place parser \<Rightarrow> ((node branch_desc list \<times> int) \<times> place parser) parsed" where
  "block_from n list mx bs bmx p =
     pbind (list_from n list mx p) (\<lambda>(part, p). pbind (branch_step part bs bmx p) (\<lambda>(stop, bs, bmx, p).
       if stop then Ok ((bs, bmx), p) else parts_from n bs bmx p))"

lemma ParseExprList_from: "ParseExprList node_ops (run n) src p = list_from n [] 0 p"
  by (simp add: ParseExprList_def list_from_def list_end_def [abs_def])

lemma ParseBranches_from: "ParseBranches node_ops (run n) src p = parts_from n [] 0 p"
  by (simp add: ParseBranches_def parts_from_def)

lemma pbind_assoc: "pbind (pbind m f) g = pbind m (\<lambda>x. pbind (f x) g)"
  by (cases m) simp_all

lemma list_from_step:
  "list_from n list mx p = pbind (ParseExprOrReturn (run n) src p) (\<lambda>((e, k), p). pbind (expr_list_step node_ops e k list mx p)
     (\<lambda>(stop, list, k, mx, p). if \<not> stop \<and> k = 0 then list_from n list mx p else list_end (stop, list, k, mx, p)))"
proof -
  have "(case x of (stop, list, k, mx, p) \<Rightarrow> if \<not> stop \<and> k = 0 then list_from n list mx p else list_end (stop, list, k, mx, p)) =
    pbind (ploop (\<lambda>(stop, list, k, mx, p). \<not> stop \<and> k = 0)
        (\<lambda>(stop, list, k, mx, p). pbind (ParseExprOrReturn (run n) src p) (\<lambda>((e, k), p). expr_list_step node_ops e k list mx p))
        x) list_end" for x
    by (cases x) (simp add: list_from_def ploop_unfold [of _ _ "(_, _, _, _, _)"])
  then show ?thesis
    unfolding list_from_def by (subst ploop_unfold) (simp add: pbind_assoc case_prod_unfold)
qed

lemma parts_from_step: "parts_from n bs bmx p = block_from n [] 0 bs bmx p"
proof -
  have "(case x of (stop, bs, bmx, p) \<Rightarrow> if stop then Ok ((bs, bmx), p) else parts_from n bs bmx p) =
    pbind (ploop (\<lambda>(stop, branches, mx, p). \<not> stop)
        (\<lambda>(stop, branches, mx, p). pbind (ParseExprList node_ops (run n) src p) (\<lambda>(part, p). branch_step part branches mx p))
        x) (\<lambda>(stop, branches, mx, p). Ok ((branches, mx), p))" for x
    by (cases x) (simp add: parts_from_def ploop_unfold [of _ _ "(_, _, _, _)"])
  then show ?thesis
    unfolding parts_from_def block_from_def ParseExprList_from
    by (subst ploop_unfold) (simp add: pbind_assoc case_prod_unfold)
qed

section \<open>One statement, one brk, one end\<close>

definition end_words :: "string set" where
  "end_words = {''else'', ''elif'', ''end'', ''until''}"

lemma kind_kw [simp]: "kind (fst (kw s)) = tok s" "kind (fst semi) = ch CHR '';''"
  by (simp_all add: kw_def semi_def)

lemma cur_place [simp]: "cur (place x (y # ts)) = kind (fst y)"
  by (cases y) simp

lemma stmts_parts_last: "\<exists>bs es'. stmts_parts b ns k es = bs @ [(es', k, 1)]"
proof (induction b arbitrary: es rule: stmts.induct [where ?P1.0 = "\<lambda>s. True" and ?P3.0 = "\<lambda>e. True"])
  case (Brk n c b)
  obtain bs es' where "stmts_parts b ns k [] = bs @ [(es', k, 1)]" using Brk.IH by blast
  then show ?case
    by (simp only: stmts_parts.simps) (metis append_Cons)
qed auto

lemma vector_back_single [simp]: "vector_back [x] = Ok x"
  by (simp add: vector_back_def)

lemma list_step_stmt:
  assumes "0 \<le> mx"
  shows "expr_list_step node_ops (Some (stmt_node s ns)) 0 l mx q = Ok (False, l @ [stmt_node s ns], 0, max mx (stmt_max s ns), q)"
proof -
  have "vector_back (map of_part xs) = Ok (of_part (last xs))" if "xs \<noteq> []" for xs
    using that by (simp add: vector_back_def last_map)
  moreover have "stmts_parts b ns k es \<noteq> []" "end_kind (of_part (last (stmts_parts b ns k es))) = k" for b k es and ns :: "nat list"
    using stmts_parts_last [of b ns k es] by auto
  moreover have "other_parts e ns \<noteq> []" for e and ns :: "nat list"
    using calculation(2) by (cases e) simp_all
  moreover have "other_kind e \<noteq> tok ''return''" "tok ''until'' \<noteq> tok ''return''" for e
    by (cases e; simp add: block_tok_values)+
  ultimately show ?thesis
    using assms by (cases s) (simp_all add: expr_list_step_def node_ops_def inner_def)
qed

lemma block_from_item:
  assumes "ParseExprOrReturn (run n) src p = Ok ((Some (stmt_node s ns), 0), q)" "0 \<le> mx"
  shows "block_from n l mx bs bmx p = block_from n (l @ [stmt_node s ns]) (max mx (stmt_max s ns)) bs bmx q"
  unfolding block_from_def by (subst list_from_step) (simp add: assms list_step_stmt)

lemma block_from_end:
  assumes "w \<in> end_words" "ready x ns" "locals_table x \<noteq> []"
  shows "block_from n l mx bs bmx (place x (kw w # ts)) = Ok ((bs @ [of_part (l, tok w, 1)], max bmx mx), place x (kw w # ts))"
proof -
  have w: "tok w \<in> {tok ''else'', tok ''elif'', tok ''end'', tok ''until''}" "tok w \<noteq> tok ''return''"
    "tok w \<noteq> tok ''brk''" "tok w \<noteq> tok ''global''" "tok w \<noteq> 0" "tok w \<noteq> ch CHR '';''"
    using assms(1) by (auto simp: end_words_def block_tok_values ch_values)
  have "\<not> is_brk (tok w)" using assms(1) by (auto simp: end_words_def not_brk)
  note w = w this
  have "ParseExprOrReturn (run n) src (place x (kw w # ts)) = Ok ((None, tok w), place x (kw w # ts))"
    using w by (simp add: ParseExprOrReturn_def skip_semicolons_def ploop_unfold Let_def)
  then have "list_from n l mx (place x (kw w # ts)) = Ok ((l, tok w, mx), place x (kw w # ts))"
    using w by (subst list_from_step) (simp add: expr_list_step_def list_end_def)
  moreover have "get_destruct_vars 1 (locals_table x) = Ok {}"
    using no_vars [OF assms(2), of 1] assms(3) by (cases "locals_table x") simp_all
  ultimately show ?thesis
    using w by (simp add: block_from_def branch_step_def)
qed

lemma block_from_brk:
  assumes "ParseExprOrReturn (run m) src p = Ok ((Some (E c), brk_end_kind (tok ''brk'') (int n)), place x ts)"
    and "ready x ns" "0 < n" "n \<le> sum_list ns" "length ns < 2 ^ 15" "0 \<le> mx"
  shows "same x (x\<lparr>current_branch_part := butlast (current_branch_part x) @ [next_brk_part (last (current_branch_part x))]\<rparr>)"
    and "block_from m l mx bs bmx p =
      block_from m [] 0 (bs @ [of_part (l @ [E c], brk_end_kind (tok ''brk'') (int (depth n ns)), int (depth n ns))])
        (max bmx (max mx (int (depth n ns))))
        (place (x\<lparr>current_branch_part := butlast (current_branch_part x) @ [next_brk_part (last (current_branch_part x))]\<rparr>) ts)"
proof -
  let ?d = "int (depth n ns)"
  let ?y = "x\<lparr>current_branch_part := butlast (current_branch_part x) @ [next_brk_part (last (current_branch_part x))]\<rparr>"
  have ns: "set ns \<subseteq> {0, 1}" "syntax_nesting x = rev ns" "length ns \<le> length (current_branch_part x)" "length ns \<le> length (locals_table x)"
    using assms(2) by (auto simp: ready_def)
  have d: "n \<le> depth n ns" "depth n ns \<le> length ns" using depth_le [OF assms(4) ns(1)] by auto
  then have bounds: "0 \<le> int n" "int n < 2 ^ 15" "0 \<le> ?d" "?d < 2 ^ 15" "n < 2 ^ 31" "0 < depth n ns" using assms(3,5) by simp_all
  note brk = brk_end_kind_levels [OF bounds(1,2)] brk_end_kind_levels [OF bounds(3,4)]
  have "list_from m l mx p = Ok ((l @ [E c], brk_end_kind (tok ''brk'') ?d, max mx ?d), place x ts)"
    using brk brk_depth_Some [OF assms(4) bounds(5) ns(1), of 0] ns(2)
    by (subst list_from_step) (simp add: assms(1) expr_list_step_def list_end_def)
  moreover have "get_destruct_vars ?d (locals_table x) = Ok {}"
    using d(2) ns(4) bounds(4) by (intro no_vars [OF assms(2)]) simp_all
  moreover have part: "current_branch_part x \<noteq> []" using d ns(3) bounds(6) by auto
  ultimately show "block_from m l mx bs bmx p =
    block_from m [] 0 (bs @ [of_part (l @ [E c], brk_end_kind (tok ''brk'') ?d, ?d)]) (max bmx (max mx ?d)) (place ?y ts)"
    using brk by (simp add: block_from_def [of m l] branch_step_def Let_def parts_from_step)
  show "same x ?y" using part by (auto simp: same_def intro!: exI)
qed

section \<open>Statements in front of the parser\<close>

definition expr_starts :: "int set" where
  "expr_starts = prefix_kinds \<union> {tok ''number'', tok ''str_lit'', tok ''ptr_lit'', tok ''identifier'', ch CHR ''(''}"

lemma body_starts: "wf t \<Longrightarrow> \<exists>y us. body t = y # us \<and> kind (fst y) \<in> expr_starts"
proof (induction t)
  case (Post s t)
  then show ?case by (auto simp: parens_def lpar_def expr_starts_def)
next
  case (Bin k s l r)
  then show ?case by (auto simp: parens_def lpar_def expr_starts_def)
qed (auto simp: lpar_def expr_starts_def)

lemma tree_starts:
  assumes "wf t"
  obtains y us where "tokens m t = y # us" "kind (fst y) \<in> expr_starts"
proof (cases "binding t < m")
  case True
  then show thesis using that [of lpar] by (simp add: tokens_def parens_def lpar_def expr_starts_def)
next
  case False
  then show thesis using that body_starts [OF assms] by (auto simp: tokens_def parens_def)
qed

lemma stmt_starts:
  assumes "stmt_wf s ns"
  obtains y us where "stmt_tokens s = y # us" "kind (fst y) \<in> expr_starts \<union> tok ` {''if'', ''while'', ''repeat''}"
proof (cases s)
  case (Do t)
  with assms that show thesis by (auto elim: tree_starts [of t 0])
next
  case (When loop c b e)
  with that [of "kw (if_word loop)"] show thesis by (auto simp: if_word_def)
next
  case (Repeat b c)
  with that [of "kw ''repeat''"] show thesis by auto
qed

lemma starts_plain:
  assumes "k \<in> expr_starts \<union> tok ` {''if'', ''while'', ''repeat''}"
  shows "k \<noteq> ch CHR '';''" "k \<noteq> tok ''return''" "k \<noteq> tok ''brk''" "k \<notin> {tok ''else'', tok ''elif'', tok ''end'', tok ''until''}"
    "k \<notin> {tok ''global'', tok ''const'', tok ''atomic''}"
  using assms by (auto simp: expr_starts_def prefix_kinds_def tok_values block_tok_values ch_values)

lemma statement_item:
  assumes "run n Expression 0 (place x (y # us)) = Ok (Some v, q)" "kind (fst y) \<in> expr_starts \<union> tok ` {''if'', ''while'', ''repeat''}"
  shows "ParseExprOrReturn (run n) src (place x (y # us)) = Ok ((Some v, 0), q)"
  using starts_plain [OF assms(2)] assms(1)
  by (simp add: ParseExprOrReturn_def skip_semicolons_def ploop_unfold Let_def)

lemma skip_semi:
  "clean ts \<Longrightarrow> ParseExprOrReturn (run n) src (place x (semi # ts)) = ParseExprOrReturn (run n) src (place x ts)"
  by (simp add: ParseExprOrReturn_def skip_semicolons_def ploop_unfold [of _ _ "place x (semi # ts)"])

lemma block_from_semi: "clean ts \<Longrightarrow> block_from n l mx bs bmx (place x (semi # ts)) = block_from n l mx bs bmx (place x ts)"
  unfolding block_from_def list_from_step [of n l mx] by (simp add: skip_semi)

lemma brk_tokens:
  assumes "clean (us @ ts)" "us \<noteq> []" "kind (fst (hd us)) \<noteq> tok ''brk''"
  shows "ploop (\<lambda>(levels, p). cur p = tok ''brk'')
     (\<lambda>(levels, p). pbind (getNextToken src eSemi 0 p) (\<lambda>p. Ok (levels + 1, p))) (i, place x (replicate m (kw ''brk'') @ us @ ts))
    = Ok (i + int m, place x (us @ ts))"
proof (induction m arbitrary: i)
  case 0
  with assms(2,3) show ?case by (cases us) (simp_all add: ploop_unfold)
next
  case (Suc m)
  have "clean (replicate m (kw ''brk'') @ us @ ts)" using assms(1) by (auto simp: clean_def kw_def block_tok_values tok_values)
  then show ?case using Suc.IH [of "i + 1"] by (subst ploop_unfold) (simp add: algebra_simps)
qed

lemma brk_item:
  assumes "run n Expression 0 (place x (tokens 0 c @ ts)) = Ok (Some v, q)" "0 < m" "m \<le> length (current_branch_part x)" "wf c" "clean ts"
  shows "ParseExprOrReturn (run n) src (place x (replicate m (kw ''brk'') @ tokens 0 c @ ts)) = Ok ((Some v, brk_end_kind (tok ''brk'') (int m)), q)"
proof -
  obtain k where m: "m = Suc k" using assms(2) by (cases m) auto
  obtain y us where c: "tokens 0 c = y # us" "kind (fst y) \<in> expr_starts" by (rule tree_starts [OF assms(4)])
  have clean: "clean (tokens 0 c @ ts)" "clean (replicate k (kw ''brk'') @ tokens 0 c @ ts)"
    using assms(4,5) clean_body [of c] by (auto simp: tokens_def clean_parens) (auto simp: clean_def kw_def block_tok_values tok_values)
  have brk: "tok ''brk'' \<noteq> ch CHR '';''" "tok ''brk'' \<noteq> tok ''return''" by (simp_all add: block_tok_values ch_values)
  have "kind (fst y) \<noteq> tok ''brk''" using starts_plain(3) [of "kind (fst y)"] c(2) by simp
  then have "ploop (\<lambda>(levels, p). cur p = tok ''brk'')
     (\<lambda>(levels, p). pbind (getNextToken src eSemi 0 p) (\<lambda>p. Ok (levels + 1, p))) (1, place x (replicate k (kw ''brk'') @ tokens 0 c @ ts))
    = Ok (int m, place x (tokens 0 c @ ts))"
    using brk_tokens [of "tokens 0 c" ts 1 x k] clean(1) by (simp add: c(1) m)
  then show ?thesis
    using assms(1,3) brk clean(2) m by (simp add: ParseExprOrReturn_def skip_semicolons_def ploop_unfold [of _ _ "place x _"] Let_def)
qed

lemma clean_tokens: "wf t \<Longrightarrow> clean (tokens m t)"
  using clean_body [of t] by (simp add: tokens_def clean_parens)

lemma clean_words [simp]:
  "clean (semi # ts) \<longleftrightarrow> clean ts"
  "s \<in> end_words \<union> {''if'', ''while'', ''repeat'', ''brk''} \<Longrightarrow> clean (kw s # ts) \<longleftrightarrow> clean ts"
  by (auto simp: semi_def kw_def end_words_def tok_values block_tok_values ch_values)

lemma clean_if_word [simp]: "clean (kw (if_word loop) # ts) \<longleftrightarrow> clean ts"
  by (simp add: if_word_def)

lemma clean_program:
  "stmt_wf s ns \<Longrightarrow> clean (stmt_tokens s)" "stmts_wf b ns \<Longrightarrow> clean (stmts_tokens b)" "other_wf e ns \<Longrightarrow> clean (other_tokens e)"
proof (induction s and b and e arbitrary: ns and ns and ns)
  case (Brk n c b)
  have "clean (replicate n (kw ''brk''))" by (auto simp: clean_def kw_def block_tok_values tok_values)
  then show ?case using Brk by (simp add: clean_tokens) blast
qed (auto simp: clean_tokens end_words_def)

section \<open>Programs are read\<close>

definition stmt_reads :: "stmt \<Rightarrow> bool" where
  "stmt_reads s \<longleftrightarrow> (\<forall>x ns ts te. stmt_wf s ns \<longrightarrow> ready x ns \<longrightarrow> clean ts \<longrightarrow> nextp ts \<le> 0 \<longrightarrow>
     (\<exists>y. same x y \<and> (\<forall>\<^sub>F n in sequentially. run n Expression te (place x (stmt_tokens s @ ts)) = Ok (Some (stmt_node s ns), place y ts))))"

definition stmts_read :: "stmts \<Rightarrow> bool" where
  "stmts_read b \<longleftrightarrow> (\<forall>x ns ts w l mx bs bmx. stmts_wf b ns \<longrightarrow> ready x ns \<longrightarrow> locals_table x \<noteq> [] \<longrightarrow> clean ts \<longrightarrow> w \<in> end_words \<longrightarrow> 0 \<le> mx \<longrightarrow>
     (\<exists>y. same x y \<and> (\<forall>\<^sub>F n in sequentially. block_from n l mx bs bmx (place x (stmts_tokens b @ kw w # ts)) =
        Ok ((bs @ map of_part (stmts_parts b ns (tok w) l), max bmx (max mx (stmts_max b ns))), place y (kw w # ts)))))"

lemma stmt_readsD:
  assumes "stmt_reads s" "stmt_wf s ns" "ready x ns" "clean ts" "nextp ts \<le> 0"
  obtains y where "same x y"
    "\<forall>\<^sub>F n in sequentially. run n Expression te (place x (stmt_tokens s @ ts)) = Ok (Some (stmt_node s ns), place y ts)"
  using assms unfolding stmt_reads_def by meson

lemma stmts_readD:
  assumes "stmts_read b" "stmts_wf b ns" "ready x ns" "locals_table x \<noteq> []" "clean ts" "w \<in> end_words" "0 \<le> mx"
  obtains y where "same x y"
    "\<forall>\<^sub>F n in sequentially. block_from n l mx bs bmx (place x (stmts_tokens b @ kw w # ts)) =
        Ok ((bs @ map of_part (stmts_parts b ns (tok w) l), max bmx (max mx (stmts_max b ns))), place y (kw w # ts))"
  using assms unfolding stmts_read_def by meson

lemma nextp_semi: "nextp (semi # ts) \<le> 0"
  by (simp add: nextp_def semi_def right_binding_def tok_values ch_values)

lemma stmts_max_nonneg: "0 \<le> stmts_max b ns"
  by (induction b rule: stmts.induct [where ?P1.0 = "\<lambda>s. True" and ?P3.0 = "\<lambda>e. True"]) (auto intro: order_trans max.cobounded1)

lemma block_end_reads: "stmts_read End"
  unfolding stmts_read_def
proof (intro allI impI, intro exI conjI)
  fix x ns ts w l mx bs bmx
  assume "ready x ns" "locals_table x \<noteq> []" "w \<in> end_words" "(0 :: int) \<le> mx"
  then show "\<forall>\<^sub>F n in sequentially. block_from n l mx bs bmx (place x (stmts_tokens End @ kw w # ts)) =
        Ok ((bs @ map of_part (stmts_parts End ns (tok w) l), max bmx (max mx (stmts_max End ns))), place x (kw w # ts))"
    using block_from_end by simp
qed simp

lemma block_stmt_reads:
  assumes "stmt_reads s" "stmts_read b"
  shows "stmts_read (Seq s b)"
  unfolding stmts_read_def
proof (intro allI impI)
  fix x ns ts w l mx bs bmx
  assume a: "stmts_wf (Seq s b) ns" "ready x ns" "locals_table x \<noteq> []" "clean ts" "w \<in> end_words" "(0 :: int) \<le> mx"
  let ?us = "stmts_tokens b @ kw w # ts"
  have s: "stmt_wf s ns" "stmts_wf b ns" using a(1) by auto
  have c: "clean ?us" "clean (semi # ?us)" using a clean_program(2) [of b ns] by simp_all
  obtain y where y: "same x y"
    "\<forall>\<^sub>F n in sequentially. run n Expression 0 (place x (stmt_tokens s @ semi # ?us)) = Ok (Some (stmt_node s ns), place y (semi # ?us))"
    by (rule stmt_readsD [OF assms(1) s(1) a(2) c(2) nextp_semi])
  have "0 \<le> max mx (stmt_max s ns)" using a(6) by simp
  moreover have "ready y ns" "locals_table y \<noteq> []" using ready_same a(2,3) y(1) by (auto simp: same_def)
  ultimately obtain z where z: "same y z" "\<forall>\<^sub>F n in sequentially. block_from n (l @ [stmt_node s ns]) (max mx (stmt_max s ns)) bs bmx (place y ?us) =
      Ok ((bs @ map of_part (stmts_parts b ns (tok w) (l @ [stmt_node s ns])), max bmx (max (max mx (stmt_max s ns)) (stmts_max b ns))), place z (kw w # ts))"
    using stmts_readD [OF assms(2) s(2) _ _ a(4,5)] by metis
  obtain t us where t: "stmt_tokens s = t # us" "kind (fst t) \<in> expr_starts \<union> tok ` {''if'', ''while'', ''repeat''}"
    by (rule stmt_starts [OF s(1)])
  have "\<forall>\<^sub>F n in sequentially. block_from n l mx bs bmx (place x (stmt_tokens s @ semi # ?us)) =
      Ok ((bs @ map of_part (stmts_parts b ns (tok w) (l @ [stmt_node s ns])), max bmx (max (max mx (stmt_max s ns)) (stmts_max b ns))), place z (kw w # ts))"
    using y(2) z(2)
  proof (rule eventually_elim2)
    fix n
    assume r: "run n Expression 0 (place x (stmt_tokens s @ semi # ?us)) = Ok (Some (stmt_node s ns), place y (semi # ?us))"
    have "ParseExprOrReturn (run n) src (place x (stmt_tokens s @ semi # ?us)) = Ok ((Some (stmt_node s ns), 0), place y (semi # ?us))"
      using statement_item [OF _ t(2), of n x "us @ semi # ?us"] r by (simp add: t(1))
    then show "block_from n l mx bs bmx (place x (stmt_tokens s @ semi # ?us)) = rhs"
      if "block_from n (l @ [stmt_node s ns]) (max mx (stmt_max s ns)) bs bmx (place y ?us) = rhs" for rhs
      using that c a(6) by (simp add: block_from_item block_from_semi)
  qed
  then show "\<exists>y. same x y \<and> (\<forall>\<^sub>F n in sequentially. block_from n l mx bs bmx (place x (stmts_tokens (Seq s b) @ kw w # ts)) =
        Ok ((bs @ map of_part (stmts_parts (Seq s b) ns (tok w) l), max bmx (max mx (stmts_max (Seq s b) ns))), place y (kw w # ts)))"
    using same_trans [OF y(1) z(1)] by (auto simp: max.assoc)
qed

lemma block_brk_reads:
  assumes "stmts_read b"
  shows "stmts_read (Brk m c b)"
  unfolding stmts_read_def
proof (intro allI impI)
  fix x ns ts w l mx bs bmx
  assume a: "stmts_wf (Brk m c b) ns" "ready x ns" "locals_table x \<noteq> []" "clean ts" "w \<in> end_words" "(0 :: int) \<le> mx"
  let ?us = "stmts_tokens b @ kw w # ts" and ?d = "int (depth m ns)"
  have c: "clean ?us" "clean (semi # ?us)" using a clean_program(2) [of b ns] by simp_all
  have m: "0 < m" "m \<le> sum_list ns" "length ns < 2 ^ 15" "wf c" "stmts_wf b ns" using a(1) by auto
  have "m \<le> length (current_branch_part x)"
    using depth_le [OF m(2)] a(2) by (auto simp: ready_def)
  note item = brk_item [OF _ m(1) this m(4) c(2)]
  have "\<forall>\<^sub>F n in sequentially. run n Expression 0 (place x (tokens 0 c @ semi # ?us)) = Ok (Some (E c), place x (semi # ?us))"
    by (rule bl.tokens_parse [OF m(4) c(2) nextp_semi])
  then have read: "\<forall>\<^sub>F n in sequentially. ParseExprOrReturn (run n) src (place x (replicate m (kw ''brk'') @ tokens 0 c @ semi # ?us))
      = Ok ((Some (E c), brk_end_kind (tok ''brk'') (int m)), place x (semi # ?us))"
    by (rule eventually_mono) (rule item)
  define y where "y = x\<lparr>current_branch_part := butlast (current_branch_part x) @ [next_brk_part (last (current_branch_part x))]\<rparr>"
  let ?bs = "bs @ [of_part (l @ [E c], brk_end_kind (tok ''brk'') ?d, ?d)]"
  have y: "same x y" "block_from n l mx bs bmx (place x (stmts_tokens (Brk m c b) @ kw w # ts)) =
      block_from n [] 0 ?bs (max bmx (max mx ?d)) (place y ?us)"
    if "ParseExprOrReturn (run n) src (place x (replicate m (kw ''brk'') @ tokens 0 c @ semi # ?us))
      = Ok ((Some (E c), brk_end_kind (tok ''brk'') (int m)), place x (semi # ?us))" for n
    using block_from_brk(1) [OF that a(2) m(1,2,3) a(6)] block_from_brk(2) [OF that a(2) m(1,2,3) a(6), of l bs bmx] c(1)
    by (simp_all add: y_def block_from_semi)
  have "same x y" using y(1) read eventually_happens sequentially_bot by blast
  have "ready y ns" "locals_table y \<noteq> []" using ready_same a(2,3) \<open>same x y\<close> by (auto simp: same_def)
  then obtain z where z: "same y z" "\<forall>\<^sub>F n in sequentially. block_from n [] 0 ?bs (max bmx (max mx ?d)) (place y ?us) =
      Ok ((?bs @ map of_part (stmts_parts b ns (tok w) []), max (max bmx (max mx ?d)) (max 0 (stmts_max b ns))), place z (kw w # ts))"
    by (rule stmts_readD [OF assms m(5) _ _ a(4,5) order_refl])
  have "\<forall>\<^sub>F n in sequentially. block_from n l mx bs bmx (place x (stmts_tokens (Brk m c b) @ kw w # ts)) =
      Ok ((?bs @ map of_part (stmts_parts b ns (tok w) []), max (max bmx (max mx ?d)) (max 0 (stmts_max b ns))), place z (kw w # ts))"
    using read z(2) by (rule eventually_elim2) (simp only: y(2))
  then show "\<exists>y. same x y \<and> (\<forall>\<^sub>F n in sequentially. block_from n l mx bs bmx (place x (stmts_tokens (Brk m c b) @ kw w # ts)) =
        Ok ((bs @ map of_part (stmts_parts (Brk m c b) ns (tok w) l), max bmx (max mx (stmts_max (Brk m c b) ns))), place y (kw w # ts)))"
    using same_trans [OF \<open>same x y\<close> z(1)] stmts_max_nonneg [of b ns] by (auto simp: max.assoc max.commute max.left_commute)
qed

section \<open>Branches are read\<close>

definition left_scope :: "bool \<Rightarrow> place \<Rightarrow> place" where
  "left_scope els x = x
     \<lparr>current_branch_part := (let ps = butlast (current_branch_part x) in
        if ps = [] then [] else butlast ps @ [next_conditional (last ps)]),
      locals_table := if els then butlast (locals_table x) else locals_table x\<rparr>"

lemma leave_place:
  assumes "current_branch_part x \<noteq> []" "els \<Longrightarrow> locals_table x \<noteq> [] \<and> last (locals_table x) = []"
  shows "leave_branches knd [] (els, k) (bs, level) (place x ts) =
    Ok (Some \<lparr>else_branches = bs, else_merged = {}, else_table = [], have_else = els, then_end_kind = k, else_level = level\<rparr>,
      place (left_scope els x) ts)"
  using assms by (auto simp: leave_branches_def merge_branches_def left_scope_def Let_def)

definition else_result :: "other \<Rightarrow> nat list \<Rightarrow> node else_part" where
  "else_result e ns =
     \<lparr>else_branches = map of_part (other_parts e ns), else_merged = {}, else_table = [], have_else = (e \<noteq> NoElse),
      then_end_kind = (if e = NoElse then 0 else other_kind e), else_level = other_max e ns\<rparr>"

fun after :: "other \<Rightarrow> (token \<times> string) list \<Rightarrow> (token \<times> string) list" where
  "after (Elif c b e) ts = ts"
| "after e ts = kw ''end'' # ts"

definition outer_same :: "place \<Rightarrow> place \<Rightarrow> bool" where
  "outer_same x y \<longleftrightarrow> same (x\<lparr>current_branch_part := butlast (current_branch_part x)\<rparr>) y"

definition branch_end :: "place \<Rightarrow> nat list \<Rightarrow> bool" where
  "branch_end x ns \<longleftrightarrow> syntax_nesting x = rev ns \<and> set ns \<subseteq> {0, 1} \<and> length ns \<le> length (current_branch_part x) \<and>
     length ns \<le> Suc (length (locals_table x)) \<and> (\<forall>t\<in>set (locals_table x). to_destruct t = {}) \<and> current_branch_part x \<noteq> []"

definition other_reads :: "other \<Rightarrow> bool" where
  "other_reads e \<longleftrightarrow> (\<forall>x ns ts knd. other_wf e ns \<longrightarrow> branch_end x ns \<longrightarrow> clean ts \<longrightarrow> knd \<noteq> tok ''repeat'' \<longrightarrow>
     (\<exists>y. outer_same x y \<and> (\<forall>\<^sub>F n in sequentially. ParseElse node_ops (run n) src [] knd (other_kind e) (place x (other_tokens e @ ts)) =
        Ok (Some (else_result e ns), place y (after e ts)))))"

lemma else_branches_result [simp]: "else_branches (else_result e ns) = map of_part (other_parts e ns)"
  by (simp add: else_result_def)

lemma other_readsD:
  assumes "other_reads e" "other_wf e ns" "branch_end x ns" "clean ts" "knd \<noteq> tok ''repeat''"
  obtains y where "outer_same x y" "\<forall>\<^sub>F n in sequentially. ParseElse node_ops (run n) src [] knd (other_kind e) (place x (other_tokens e @ ts)) =
        Ok (Some (else_result e ns), place y (after e ts))"
  using assms unfolding other_reads_def by meson

lemma butlast_length:
  "butlast xs = [] \<Longrightarrow> length xs \<le> Suc 0" "butlast xs \<noteq> [] \<Longrightarrow> Suc (length xs - Suc (Suc 0)) = length xs - Suc 0"
  by (cases xs rule: rev_cases; simp)+

lemma outer_same_left: "current_branch_part x \<noteq> [] \<Longrightarrow> outer_same x (left_scope False x)"
  by (auto simp: outer_same_def same_def left_scope_def Let_def butlast_length intro!: exI)

lemma no_else_place:
  assumes "current_branch_part x \<noteq> []" "te \<in> {tok ''end'', tok ''until''}"
  shows "ParseElse node_ops go src [] knd te (place x ts) = Ok (Some (else_result NoElse ns), place (left_scope False x) ts)"
proof -
  have "te \<noteq> tok ''else''" "te \<noteq> tok ''elif''" "te \<noteq> tok ''return''"
    using assms(2) by (auto simp: block_tok_values)
  moreover have "of_part ([], 0, 0) = no_branch" by (simp add: no_branch_def)
  ultimately show ?thesis
    using leave_place [OF assms(1), of False] by (simp add: ParseElse_def else_start_def else_body_def else_result_def)
qed

lemma no_else_reads: "other_reads NoElse"
  unfolding other_reads_def
proof (intro allI impI)
  fix x ns ts knd assume x: "branch_end x ns"
  then have "current_branch_part x \<noteq> []" by (simp add: branch_end_def)
  note * = no_else_place [OF this, of "tok ''end''" _ knd "kw ''end'' # ts" ns]
  show "\<exists>y. outer_same x y \<and> (\<forall>\<^sub>F n in sequentially. ParseElse node_ops (run n) src [] knd (other_kind NoElse) (place x (other_tokens NoElse @ ts)) =
        Ok (Some (else_result NoElse ns), place y (after NoElse ts)))"
    by (rule exI [of _ "left_scope False x"]) (simp add: * outer_same_left \<open>current_branch_part x \<noteq> []\<close>)
qed

lemma else_begins:
  assumes "branch_end x ns" "k = tok ''else'' \<or> k = tok ''elif''" "knd \<noteq> tok ''repeat''" "clean ts"
    and "k = tok ''elif'' \<longrightarrow> us = y # ts" "k = tok ''else'' \<longrightarrow> us = ts"
  defines "x' \<equiv> x\<lparr>locals_table := locals_table x @ [[]], current_branch_part := butlast (current_branch_part x) @ [new_part 1]\<rparr>"
  shows "ready x' ns" "locals_table x' \<noteq> []"
    "ParseElse node_ops go src [] knd k (place x (y # ts)) =
      ebind (if cur (place x' us) = tok ''elif'' then elif_branch node_ops go (place x' us) else else_branch node_ops go src (place x' us))
        (leave_branches knd [] (True, k))"
proof -
  have x: "current_branch_part x \<noteq> []" using assms(1) by (simp add: branch_end_def)
  show "ready x' ns" using assms(1) by (auto simp: ready_def branch_end_def x'_def to_destruct_def)
  show "locals_table x' \<noteq> []" by (simp add: x'_def)
  have "tok ''else'' \<noteq> tok ''elif''" by (simp add: block_tok_values)
  then have start: "else_start src knd k (place x (y # ts)) = Ok (Some (True, k), place x us)"
    using assms(2-6) by (auto simp: else_start_def)
  have "else_body node_ops go src True (place x us) =
    (if cur (place x' us) = tok ''elif'' then elif_branch node_ops go (place x' us) else else_branch node_ops go src (place x' us))"
    using x by (simp add: else_body_def x'_def)
  with start show "ParseElse node_ops go src [] knd k (place x (y # ts)) =
      ebind (if cur (place x' us) = tok ''elif'' then elif_branch node_ops go (place x' us) else else_branch node_ops go src (place x' us))
        (leave_branches knd [] (True, k))"
    by (simp add: ParseElse_def)
qed

lemma left_after_else:
  assumes "branch_end x ns" "same (x\<lparr>locals_table := locals_table x @ [[]], current_branch_part := butlast (current_branch_part x) @ [new_part 1]\<rparr>) y"
  shows "current_branch_part y \<noteq> []" "locals_table y = locals_table x @ [[]]" "outer_same x (left_scope True y)"
proof -
  obtain ps where y: "y = x\<lparr>locals_table := locals_table x @ [[]], current_branch_part := ps\<rparr>"
    "length ps = Suc (length (current_branch_part x) - 1)" "butlast ps = butlast (current_branch_part x)"
    using assms(2) by (auto simp: same_def)
  show "current_branch_part y \<noteq> []" "locals_table y = locals_table x @ [[]]" using y by auto
  show "outer_same x (left_scope True y)"
    using y by (auto simp: outer_same_def same_def left_scope_def Let_def butlast_length intro!: exI)
qed

lemma to_of_part [simp]: "to_part (of_part x) = x"
  by (cases x) (simp add: to_part_def)

lemma last_part:
  assumes "p = bs @ map of_part (stmts_parts b ns k es)"
  shows "end_kind (last p) = k" "p \<noteq> []"
  using stmts_parts_last [of b ns k es] assms by auto

lemma branches_read:
  assumes "stmts_read b" "stmts_wf b ns" "ready x ns" "locals_table x \<noteq> []" "clean ts" "w \<in> end_words"
  obtains y where "same x y" "\<forall>\<^sub>F n in sequentially. ParseBranches node_ops (run n) src (place x (stmts_tokens b @ kw w # ts)) =
    Ok ((map of_part (stmts_parts b ns (tok w) []), stmts_max b ns), place y (kw w # ts))"
proof -
  obtain y where y: "same x y" "\<forall>\<^sub>F n in sequentially. block_from n [] 0 [] 0 (place x (stmts_tokens b @ kw w # ts)) =
        Ok (([] @ map of_part (stmts_parts b ns (tok w) []), max 0 (max 0 (stmts_max b ns))), place y (kw w # ts))"
    by (rule stmts_readD [OF assms order_refl])
  then show thesis
    using that [of y] stmts_max_nonneg [of b ns] by (simp add: ParseBranches_from parts_from_step)
qed

lemma else_reads:
  assumes "stmts_read b"
  shows "other_reads (Otherwise b)"
  unfolding other_reads_def
proof (intro allI impI)
  fix x ns ts knd
  assume a: "other_wf (Otherwise b) ns" "branch_end x ns" "clean ts" "knd \<noteq> tok ''repeat''"
  let ?us = "stmts_tokens b @ kw ''end'' # ts"
  have k: "''end'' \<in> end_words" "clean ?us" "stmts_wf b ns" using a clean_program(2) [of b ns] by (simp_all add: end_words_def)
  define x' where "x' = x\<lparr>locals_table := locals_table x @ [[]], current_branch_part := butlast (current_branch_part x) @ [new_part 1]\<rparr>"
  have e: "tok ''else'' = tok ''elif'' \<longrightarrow> ?us = kw ''else'' # ?us" "tok ''else'' = tok ''else'' \<longrightarrow> ?us = ?us"
    by (simp_all add: block_tok_values)
  note begins = else_begins [OF a(2) disjI1 [OF refl] a(4) k(2) e, folded x'_def]
  obtain y where y: "same x' y" "\<forall>\<^sub>F n in sequentially. ParseBranches node_ops (run n) src (place x' ?us) =
    Ok ((map of_part (stmts_parts b ns (tok ''end'') []), stmts_max b ns), place y (kw ''end'' # ts))"
    by (rule branches_read [OF assms k(3) begins(1,2) a(3) k(1)])
  have "cur (place x' ?us) \<noteq> tok ''elif''"
  proof (cases b)
    case (Seq s b')
    then obtain t us where "stmt_tokens s = t # us" "kind (fst t) \<in> expr_starts \<union> tok ` {''if'', ''while'', ''repeat''}"
      using k(3) by (auto elim: stmt_starts)
    then show ?thesis using Seq starts_plain(4) by auto
  next
    case (Brk m c b')
    then show ?thesis using k(3) by (cases m) (simp_all add: block_tok_values)
  qed (simp add: block_tok_values)
  note y' = left_after_else [OF a(2) y(1) [unfolded x'_def]]
  have "\<forall>\<^sub>F n in sequentially. ParseElse node_ops (run n) src [] knd (tok ''else'') (place x (kw ''else'' # ?us)) =
        Ok (Some (else_result (Otherwise b) ns), place (left_scope True y) (kw ''end'' # ts))"
    using y(2)
  proof (rule eventually_mono)
    fix n assume r: "ParseBranches node_ops (run n) src (place x' ?us) =
      Ok ((map of_part (stmts_parts b ns (tok ''end'') []), stmts_max b ns), place y (kw ''end'' # ts))"
    have "tok ''end'' \<noteq> 0" "tok ''end'' \<noteq> tok ''return''" by (simp_all add: block_tok_values)
    then have "else_branch node_ops (run n) src (place x' ?us) =
      Ok (Some (map of_part (stmts_parts b ns (tok ''end'') []), stmts_max b ns), place y (kw ''end'' # ts))"
      using r last_part(1) [of _ "[]" b ns "tok ''end''" "[]"] by (simp add: else_branch_def malformed_def)
    then show "ParseElse node_ops (run n) src [] knd (tok ''else'') (place x (kw ''else'' # ?us)) =
        Ok (Some (else_result (Otherwise b) ns), place (left_scope True y) (kw ''end'' # ts))"
      using \<open>cur _ \<noteq> _\<close> y'(1,2) by (simp add: begins(3) leave_place else_result_def)
  qed
  then show "\<exists>y. outer_same x y \<and> (\<forall>\<^sub>F n in sequentially.
      ParseElse node_ops (run n) src [] knd (other_kind (Otherwise b)) (place x (other_tokens (Otherwise b) @ ts)) =
        Ok (Some (else_result (Otherwise b) ns), place y (after (Otherwise b) ts)))"
    using y'(3) by auto
qed

text \<open>What an \<open>if\<close>, \<open>elif\<close> or \<open>while\<close> is.\<close>

definition branch_words :: "string set" where
  "branch_words = {''if'', ''while'', ''elif''}"

definition branch_node :: "string \<Rightarrow> tree \<Rightarrow> stmts \<Rightarrow> other \<Rightarrow> nat list \<Rightarrow> node" where
  "branch_node w c b e ns = Node (tok (if w = ''elif'' then ''if'' else w)) (E c) (stmts_parts b ns (other_kind e) []) (other_parts e ns)
     (max (stmts_max b ns) (other_max e ns)) False"

definition other_word :: "other \<Rightarrow> string" where
  "other_word e = (case e of NoElse \<Rightarrow> ''end'' | Otherwise b \<Rightarrow> ''else'' | Elif c b e \<Rightarrow> ''elif'')"

lemma other_tokens_word: "\<exists>us. other_tokens e = kw (other_word e) # us" "tok (other_word e) = other_kind e" "other_word e \<in> end_words"
  by (cases e; simp add: other_word_def end_words_def)+

lemma one_part_iff: "length (stmts_parts b ns k es) = 1 \<longleftrightarrow> one_part b"
  using stmts_parts_last by (induction b arbitrary: es rule: stmts.induct [where ?P1.0 = "\<lambda>s. True" and ?P3.0 = "\<lambda>e. True"])
    (simp_all, metis append_is_Nil_conv list.distinct(1))

lemma one_part_exprs: "one_part b \<Longrightarrow> exprs (of_part (last (stmts_parts b ns k es))) = [] \<longleftrightarrow> b = End \<and> es = []"
  by (induction b arbitrary: es rule: stmts.induct [where ?P1.0 = "\<lambda>s. True" and ?P3.0 = "\<lambda>e. True"]) auto

lemma parts_nonempty: "stmts_parts b ns k es \<noteq> []" "other_parts e ns \<noteq> []"
proof -
  show *: "stmts_parts b ns k es \<noteq> []" for b k es using stmts_parts_last [of b ns k es] by auto
  then show "other_parts e ns \<noteq> []" by (cases e) simp_all
qed

lemma survives_type:
  assumes "survives b e \<or> knd = tok ''while''"
  shows "type_of_if node_ops knd (map of_part (stmts_parts b ns k [])) (map of_part (other_parts e ns)) = Ok ()"
proof (cases "(knd = tok ''if'' \<or> knd = tok ''elif'') \<and> one_part b \<and> length (other_parts e ns) = 1 \<and> exprs (of_part (last (other_parts e ns))) \<noteq> []")
  case True
  then have s: "survives b e" using assms by (auto simp: tok_values block_tok_values)
  have "b \<noteq> End"
  proof (cases e)
    case (Otherwise b')
    then show ?thesis using True s one_part_iff [of b' ns "tok ''end''" "[]"] one_part_exprs [of b' ns "tok ''end''" "[]"] by auto
  qed (use True s in auto)
  then have "exprs (of_part (last (stmts_parts b ns k []))) \<noteq> []" using True one_part_exprs [of b ns k "[]"] by simp
  then show ?thesis by (simp add: type_of_if_def last_map vector_back_def parts_nonempty)
next
  case False
  then show ?thesis
    using one_part_iff [of b ns k "[]"] by (auto simp: type_of_if_def last_map parts_nonempty)
qed

lemma condition_reads:
  assumes "wf c" "clean ts" "knd \<noteq> tok ''repeat''"
  shows "\<forall>\<^sub>F n in sequentially. ParseCondition (run n) src knd te (place x (tokens 0 c @ semi # ts)) = Ok (Some (E c), place x ts)"
proof (rule eventually_mono)
  have "clean (semi # ts)" using assms(2) by simp
  then show "\<forall>\<^sub>F n in sequentially. run n Expression te (place x (tokens 0 c @ semi # ts)) = Ok (Some (E c), place x (semi # ts))"
    by (rule bl.tokens_parse [OF assms(1) _ nextp_semi])
  fix n assume "run n Expression te (place x (tokens 0 c @ semi # ts)) = Ok (Some (E c), place x (semi # ts))"
  then show "ParseCondition (run n) src knd te (place x (tokens 0 c @ semi # ts)) = Ok (Some (E c), place x ts)"
    using assms(2,3) by (simp add: ParseCondition_def Expect_def)
qed

lemma if_end_reads:
  assumes "knd \<noteq> tok ''repeat''" "clean ts"
  shows "if_end go src knd te (Some v) (other_kind e) (else_result e ns) (place x (after e ts)) = Ok (Some v, place x ts)"
proof -
  have d: "tok ''else'' \<noteq> tok ''elif''" "tok ''elif'' \<noteq> tok ''end''" by (simp_all add: block_tok_values)
  show ?thesis
  proof (cases e)
    case (Otherwise b)
    have "end_kind (last (map of_part (stmts_parts b ns (tok ''end'') []))) = tok ''end''"
      by (rule last_part(1) [of _ "[]" b ns "tok ''end''" "[]"]) simp
    then show ?thesis using Otherwise d assms by (simp add: if_end_def else_result_def Expect_def)
  qed (use d assms in \<open>simp_all add: if_end_def else_result_def Expect_def\<close>)
qed

lemma new_if_node:
  assumes "w \<in> branch_words"
  shows "new_if node_ops (tok w) (E c) (map of_part (stmts_parts b ns (other_kind e) [])) [] (stmts_max b ns) (else_result e ns)
    = branch_node w c b e ns"
proof -
  have "other_kind e \<noteq> tok ''return''" by (cases e; simp add: block_tok_values)
  then have "\<not> returns (map of_part (stmts_parts b ns (other_kind e) []))"
    using last_part(1) [of _ "[]" b ns "other_kind e" "[]"] by (simp add: returns_def)
  moreover have "tok ''if'' \<noteq> tok ''elif''" "tok ''while'' \<noteq> tok ''elif''" by (simp_all add: block_tok_values tok_values)
  ultimately show ?thesis
    using assms by (auto simp: new_if_def node_ops_def branch_node_def branch_expr_of_def else_result_def branch_words_def
      branch_expr.extend_def if_expression.fields_def comp_def)
qed

lemma enter_branch:
  assumes "ready x ns" "z \<in> {0, 1}"
  defines "x' \<equiv> x\<lparr>syntax_nesting := syntax_nesting x @ [z], locals_table := locals_table x @ [[]],
    current_branch_part := current_branch_part x @ [new_part 0]\<rparr>"
  shows "ready x' (z # ns)" "locals_table x' \<noteq> []"
  using assms by (auto simp: ready_def to_destruct_def)

lemma leave_branch:
  assumes "ready x ns" "z \<in> {0, 1}"
    and "same (x\<lparr>syntax_nesting := syntax_nesting x @ [z], locals_table := locals_table x @ [[]],
      current_branch_part := current_branch_part x @ [new_part 0]\<rparr>) y"
  defines "y' \<equiv> y\<lparr>locals_table := locals_table x\<rparr>"
  shows "pop_locals (place y ts) = Ok ([], place y' ts)" "branch_end y' (z # ns)"
    "outer_same y' v \<Longrightarrow> pop_nesting (place v ts') = Ok (place (v\<lparr>syntax_nesting := syntax_nesting x\<rparr>) ts')"
    "outer_same y' v \<Longrightarrow> same x (v\<lparr>syntax_nesting := syntax_nesting x\<rparr>)"
proof -
  obtain ps where y: "y = x\<lparr>syntax_nesting := syntax_nesting x @ [z], locals_table := locals_table x @ [[]],
      current_branch_part := ps\<rparr>" "length ps = Suc (length (current_branch_part x))" "butlast ps = current_branch_part x"
    using assms(3) by (auto simp: same_def)
  show "pop_locals (place y ts) = Ok ([], place y' ts)" by (simp add: y'_def y)
  show "branch_end y' (z # ns)" using assms(1,2) y by (auto simp: branch_end_def ready_def y'_def)
  assume v: "outer_same y' v"
  then obtain qs where v: "v = x\<lparr>syntax_nesting := syntax_nesting x @ [z], current_branch_part := qs\<rparr>"
    "length qs = length (current_branch_part x)" "butlast qs = butlast (current_branch_part x)"
    using y by (auto simp: outer_same_def same_def y'_def)
  then show "pop_nesting (place v ts') = Ok (place (v\<lparr>syntax_nesting := syntax_nesting x\<rparr>) ts')" by simp
  show "same x (v\<lparr>syntax_nesting := syntax_nesting x\<rparr>)" using v by (auto simp: same_def intro!: exI [of _ qs])
qed

text \<open>An \<open>if\<close> up to its type, which needs an expression in each branch.\<close>

lemma if_reads_typed:
  assumes "w \<in> branch_words" "stmts_read b" "other_reads e" "wf c" "ready x ns" "clean ts"
    and z: "z = (if w = ''elif'' then 0 else 1)" "stmts_wf b (z # ns)" "other_wf e (z # ns)"
  obtains y where "same x y" "\<forall>\<^sub>F n in sequentially. ParseIfExpr node_ops (run n) src te
    (place x (kw w # tokens 0 c @ semi # stmts_tokens b @ other_tokens e @ ts)) =
      pbind (type_of_if (node_ops :: (node, (token \<times> string) list, unit) block_ops) (tok w) (map of_part (stmts_parts b (z # ns) (other_kind e) [])) (map of_part (other_parts e (z # ns))))
        (\<lambda>_. Ok (Some (branch_node w c b e (z # ns)), place y ts))"
proof -
  have w: "tok w \<noteq> tok ''repeat''" "tok w = tok ''elif'' \<longleftrightarrow> w = ''elif''" "w = ''while'' \<longrightarrow> tok w = tok ''while''"
    using assms(1) by (auto simp: branch_words_def tok_values block_tok_values)
  obtain us where us: "other_tokens e = kw (other_word e) # us" using other_tokens_word(1) by blast
  have clean: "clean (other_tokens e @ ts)" "clean (stmts_tokens b @ other_tokens e @ ts)" "clean (tokens 0 c @ semi # stmts_tokens b @ other_tokens e @ ts)"
    using assms(4,6) clean_program(2) [OF z(2)] clean_program(3) [OF z(3)] by (simp_all add: clean_tokens)
  have cu: "clean (us @ ts)" using clean(1) us other_tokens_word(3) [of e] by simp
  have z01: "z \<in> {0, 1}" using z(1) by simp
  define x1 where "x1 = x\<lparr>syntax_nesting := syntax_nesting x @ [z]\<rparr>"
  define x2 where "x2 = x\<lparr>syntax_nesting := syntax_nesting x @ [z], locals_table := locals_table x @ [[]],
    current_branch_part := current_branch_part x @ [new_part 0]\<rparr>"
  note enter = enter_branch [OF assms(5) z01, folded x2_def]
  have x2: "x1\<lparr>locals_table := locals_table x1 @ [[]], current_branch_part := current_branch_part x1 @ [new_part 0]\<rparr> = x2"
    by (simp add: x1_def x2_def)
  obtain y2 where y2: "same x2 y2" "\<forall>\<^sub>F n in sequentially. ParseBranches node_ops (run n) src (place x2 (stmts_tokens b @ kw (other_word e) # us @ ts)) =
    Ok ((map of_part (stmts_parts b (z # ns) (tok (other_word e)) []), stmts_max b (z # ns)), place y2 (kw (other_word e) # us @ ts))"
    by (rule branches_read [OF assms(2) z(2) enter(1,2) cu other_tokens_word(3)])
  have y2': "\<forall>\<^sub>F n in sequentially. ParseBranches node_ops (run n) src (place x2 (stmts_tokens b @ other_tokens e @ ts)) =
    Ok ((map of_part (stmts_parts b (z # ns) (other_kind e) []), stmts_max b (z # ns)), place y2 (other_tokens e @ ts))"
    using y2(2) by (simp add: us other_tokens_word(2))
  define y3 where "y3 = y2\<lparr>locals_table := locals_table x\<rparr>"
  note lb = leave_branch [OF assms(5) z01 y2(1) [unfolded x2_def], folded y3_def]
  obtain y4 where y4: "outer_same y3 y4" "\<forall>\<^sub>F n in sequentially. ParseElse node_ops (run n) src [] (tok w) (other_kind e) (place y3 (other_tokens e @ ts)) =
        Ok (Some (else_result e (z # ns)), place y4 (after e ts))"
    by (rule other_readsD [OF assms(3) z(3) lb(2) assms(6) w(1)])
  have cond: "\<forall>\<^sub>F n in sequentially. ParseCondition (run n) src (tok w) 0 (place x1 (tokens 0 c @ semi # stmts_tokens b @ other_tokens e @ ts))
    = Ok (Some (E c), place x1 (stmts_tokens b @ other_tokens e @ ts))"
    by (rule condition_reads [OF assms(4) clean(2) w(1)])
  let ?y = "y4\<lparr>syntax_nesting := syntax_nesting x\<rparr>"
  have "\<forall>\<^sub>F n in sequentially. ParseIfExpr node_ops (run n) src te
    (place x (kw w # tokens 0 c @ semi # stmts_tokens b @ other_tokens e @ ts)) =
      pbind (type_of_if (node_ops :: (node, (token \<times> string) list, unit) block_ops) (tok w) (map of_part (stmts_parts b (z # ns) (other_kind e) [])) (map of_part (other_parts e (z # ns))))
        (\<lambda>_. Ok (Some (branch_node w c b e (z # ns)), place ?y ts))"
    using cond y2' y4(2)
  proof eventually_elim
    case (elim n)
    have mal: "\<not> malformed (map of_part (stmts_parts b (z # ns) (other_kind e) []))"
      "end_kind (last (map of_part (stmts_parts b (z # ns) (other_kind e) []))) = other_kind e"
      using last_part(1) [of _ "[]" b "z # ns" "other_kind e" "[]"] by (cases e; simp add: malformed_def block_tok_values)+
    have "(if w = ''elif'' then 0 else 1) = z" by (simp add: z(1))
    then show ?case
      using elim w clean(3) mal
      by (simp add: ParseIfExpr_def Let_def x1_def [symmetric] x2 lb(1)
          if_end_reads [OF w(1) assms(6)] lb(3) [OF y4(1)] new_if_node [OF assms(1)])
  qed
  with lb(4) [OF y4(1)] that show thesis by blast
qed

lemma if_reads:
  assumes "w \<in> branch_words" "stmts_read b" "other_reads e" "wf c" "ready x ns" "clean ts"
    and "z = (if w = ''elif'' then 0 else 1)" "stmts_wf b (z # ns)" "other_wf e (z # ns)" "survives b e \<or> w = ''while''"
  obtains y where "same x y" "\<forall>\<^sub>F n in sequentially. ParseIfExpr node_ops (run n) src te
    (place x (kw w # tokens 0 c @ semi # stmts_tokens b @ other_tokens e @ ts)) = Ok (Some (branch_node w c b e (z # ns)), place y ts)"
proof -
  have sv: "survives b e \<or> tok w = tok ''while''" using assms(10) by auto
  show thesis
    by (rule if_reads_typed [OF assms(1-9)]) (rule that, simp_all add: survives_type [OF sv])
qed

lemma elif_reads:
  assumes "stmts_read b" "other_reads e"
  shows "other_reads (Elif c b e)"
  unfolding other_reads_def
proof (intro allI impI)
  fix x ns ts knd
  assume a: "other_wf (Elif c b e) ns" "branch_end x ns" "clean ts" "knd \<noteq> tok ''repeat''"
  let ?us = "tokens 0 c @ semi # stmts_tokens b @ other_tokens e @ ts"
  have wf: "wf c" "stmts_wf b (0 # ns)" "other_wf e (0 # ns)" "survives b e \<or> ''elif'' = ''while''" using a(1) by auto
  have clean: "clean ?us" using a(3) wf clean_program(2) [OF wf(2)] clean_program(3) [OF wf(3)] by (simp add: clean_tokens)
  have el: "tok ''elif'' = tok ''elif'' \<longrightarrow> kw ''elif'' # ?us = kw ''elif'' # ?us"
    "tok ''elif'' = tok ''else'' \<longrightarrow> kw ''elif'' # ?us = ?us" by (simp_all add: block_tok_values)
  define x' where "x' = x\<lparr>locals_table := locals_table x @ [[]], current_branch_part := butlast (current_branch_part x) @ [new_part 1]\<rparr>"
  note begins = else_begins [OF a(2) disjI2 [OF refl] a(4) clean el, folded x'_def]
  have w: "''elif'' \<in> branch_words" "(0 :: nat) = (if ''elif'' = ''elif'' then 0 else 1)" by (simp_all add: branch_words_def)
  obtain y where y: "same x' y" "\<forall>\<^sub>F n in sequentially. ParseIfExpr node_ops (run n) src 0 (place x' (kw ''elif'' # ?us)) =
      Ok (Some (branch_node ''elif'' c b e (0 # ns)), place y ts)"
    by (rule if_reads [OF w(1) assms wf(1) begins(1) a(3) w(2) wf(2,3,4)])
  note y' = left_after_else [OF a(2) y(1) [unfolded x'_def]]
  have "\<forall>\<^sub>F n in sequentially. ParseElse node_ops (run (Suc n)) src [] knd (tok ''elif'') (place x (kw ''elif'' # ?us)) =
        Ok (Some (else_result (Elif c b e) ns), place (left_scope True y) ts)"
    using y(2)
  proof (rule eventually_mono)
    fix n assume r: "ParseIfExpr node_ops (run n) src 0 (place x' (kw ''elif'' # ?us)) =
      Ok (Some (branch_node ''elif'' c b e (0 # ns)), place y ts)"
    then have go: "run (Suc n) IfExpr 0 (place x' (kw ''elif'' # ?us)) = Ok (Some (branch_node ''elif'' c b e (0 # ns)), place y ts)"
      by (simp add: parse.simps block_builder_def)
    have "get_destruct_vars 1 (locals_table y) = Ok {}"
      using no_vars [OF ready_same [OF begins(1) y(1)], of 1] y'(2) by simp
    then have "elif_branch node_ops (run (Suc n)) (place x' (kw ''elif'' # ?us)) =
      Ok (Some (map of_part (other_parts (Elif c b e) ns), other_max (Elif c b e) ns), place y ts)"
      unfolding elif_branch_def go by (simp add: node_ops_def branch_node_def inner_def)
    then show "ParseElse node_ops (run (Suc n)) src [] knd (tok ''elif'') (place x (kw ''elif'' # ?us)) =
        Ok (Some (else_result (Elif c b e) ns), place (left_scope True y) ts)"
      unfolding begins(3) using y'(1,2) by (simp add: leave_place else_result_def del: other_parts.simps other_max.simps)
  qed
  then have "\<forall>\<^sub>F n in sequentially. ParseElse node_ops (run n) src [] knd (tok ''elif'') (place x (kw ''elif'' # ?us)) =
        Ok (Some (else_result (Elif c b e) ns), place (left_scope True y) ts)"
    using eventually_sequentially_Suc [of "\<lambda>n. ParseElse node_ops (run n) src [] knd (tok ''elif'') (place x (kw ''elif'' # ?us)) =
        Ok (Some (else_result (Elif c b e) ns), place (left_scope True y) ts)"] by simp
  then show "\<exists>y. outer_same x y \<and> (\<forall>\<^sub>F n in sequentially.
      ParseElse node_ops (run n) src [] knd (other_kind (Elif c b e)) (place x (other_tokens (Elif c b e) @ ts)) =
        Ok (Some (else_result (Elif c b e) ns), place y (after (Elif c b e) ts)))"
    using y'(3) by auto
qed

text \<open>A statement with branches where an expression is expected.\<close>

lemma expression_branch:
  assumes "k \<in> tok ` {''if'', ''while'', ''repeat''}" "kind (fst y) = k"
    and "\<forall>\<^sub>F n in sequentially. ParseIfExpr node_ops (run n) src te (place x (y # us)) = res"
    and "res = Wild \<or> res = Ok (Some v, place x' ts) \<and> nextp ts \<le> 0"
  shows "\<forall>\<^sub>F n in sequentially. run n Expression te (place x (y # us)) = res"
proof -
  have k: "k \<noteq> tok ''eof''" "k \<noteq> tok ''identifier''" "k \<noteq> tok ''number''" "k \<noteq> tok ''str_lit''" "k \<noteq> tok ''ptr_lit''"
    "k \<noteq> ch CHR ''(''" "k \<noteq> ch CHR '')''" "k \<notin> prefix_kinds"
    using assms(1) by (auto simp: tok_values ch_values prefix_kinds_def)
  have "\<forall>\<^sub>F n in sequentially. run (Suc (Suc (Suc n))) Expression te (place x (y # us)) = res"
    using assms(3)
  proof (rule eventually_mono)
    fix n assume r: "ParseIfExpr node_ops (run n) src te (place x (y # us)) = res"
    have "run (Suc n) Primary te (place x (y # us)) = res"
      using r k assms(1,2) by (simp add: parse.simps ParsePrimary_def block_builder_def)
    then have "run (Suc (Suc n)) Unary te (place x (y # us)) = res"
      using k assms(2) by (simp add: parse.simps(2) [of _ _ "Suc n"] ParseUnary_def)
    moreover have "nextp ts \<le> 0 \<Longrightarrow> run (Suc (Suc n)) (BinOpRHS 0 (Some v)) te (place x' ts) = Ok (Some v, place x' ts)"
      using bl.run_stop [of "place x' ts" 0 "Suc n" v te] by simp
    ultimately show "run (Suc (Suc (Suc n))) Expression te (place x (y # us)) = res"
      using assms(4) by (auto simp: parse.simps(2) [of _ _ "Suc (Suc n)"] ParseExpression_def)
  qed
  then show ?thesis
    using eventually_sequentially_Suc [of "\<lambda>n. run n Expression te (place x (y # us)) = res"]
    by (intro eventually_Suc2 [of "\<lambda>n. run n Expression te (place x (y # us)) = res"])
      (rule eventually_sequentially_Suc [THEN iffD1])
qed

lemma repeat_reads:
  assumes "stmts_read b" "wf c" "ready x ns" "clean ts" "nextp ts \<le> 0" "stmts_wf b (1 # ns)"
  obtains y where "same x y" "\<forall>\<^sub>F n in sequentially. ParseIfExpr node_ops (run n) src te
    (place x (kw ''repeat'' # stmts_tokens b @ kw ''until'' # tokens 0 c @ ts)) = Ok (Some (stmt_node (Repeat b c) ns), place y ts)"
proof -
  let ?us = "tokens 0 c @ ts" and ?parts = "map of_part (stmts_parts b (1 # ns) (tok ''until'') [])"
  have w: "''until'' \<in> end_words" by (simp add: end_words_def)
  have clean: "clean ?us" "clean (stmts_tokens b @ kw ''until'' # ?us)"
    using assms(2,4) clean_program(2) [OF assms(6)] w by (simp_all add: clean_tokens)
  have z01: "(1 :: nat) \<in> {0, 1}" by simp
  define x2 where "x2 = x\<lparr>syntax_nesting := syntax_nesting x @ [1], locals_table := locals_table x @ [[]],
    current_branch_part := current_branch_part x @ [new_part 0]\<rparr>"
  note enter = enter_branch [OF assms(3) z01, folded x2_def]
  obtain y2 where y2: "same x2 y2" "\<forall>\<^sub>F n in sequentially. ParseBranches node_ops (run n) src (place x2 (stmts_tokens b @ kw ''until'' # ?us)) =
    Ok ((?parts, stmts_max b (1 # ns)), place y2 (kw ''until'' # ?us))"
    by (rule branches_read [OF assms(1,6) enter(1,2) clean(1) w])
  define y3 where "y3 = y2\<lparr>locals_table := locals_table x\<rparr>"
  note lb = leave_branch [OF assms(3) z01 y2(1) [unfolded x2_def], folded y3_def]
  define y4 where "y4 = left_scope False y3"
  have y3: "current_branch_part y3 \<noteq> []" using lb(2) by (simp add: branch_end_def)
  have no_else: "ParseElse node_ops go src [] (tok ''repeat'') (tok ''until'') (place y3 us) = Ok (Some (else_result NoElse (1 # ns)), place y4 us)"
    for go :: "(node, place) go" and us
    unfolding y4_def by (rule no_else_place [OF y3]) simp
  have y4: "outer_same y3 y4" unfolding y4_def by (rule outer_same_left [OF y3])
  have mal: "\<not> malformed ?parts" "end_kind (last ?parts) = tok ''until''" "\<not> returns ?parts"
    using last_part(1) [of ?parts "[]" b "1 # ns" "tok ''until''" "[]"] by (simp_all add: malformed_def returns_def block_tok_values)
  have d: "tok ''repeat'' \<noteq> tok ''elif''" "tok ''repeat'' \<noteq> tok ''if''" by (simp_all add: tok_values block_tok_values)
  have node: "new_if node_ops (tok ''repeat'') (E c) ?parts [] (stmts_max b (1 # ns)) (else_result NoElse (1 # ns)) = stmt_node (Repeat b c) ns"
    using d mal(3) stmts_max_nonneg [of b "1 # ns"]
    by (simp add: new_if_def node_ops_def branch_expr_of_def else_result_def to_part_def [of "\<lparr>exprs = [], vars_to_destruct = {}, end_kind = 0, break_level = 0\<rparr>"]
        branch_expr.extend_def if_expression.fields_def comp_def)
  have type: "type_of_if node_ops (tok ''repeat'') ?parts bs = Ok ()" for bs :: "node branch_desc list"
    using d by (simp add: type_of_if_def)
  have read: "\<forall>\<^sub>F n in sequentially. run n Expression te (place y4 ?us) = Ok (Some (E c), place y4 ts)"
    by (rule bl.tokens_parse [OF assms(2,4,5)])
  let ?y = "y4\<lparr>syntax_nesting := syntax_nesting x\<rparr>"
  have "\<forall>\<^sub>F n in sequentially. ParseIfExpr node_ops (run n) src te
    (place x (kw ''repeat'' # stmts_tokens b @ kw ''until'' # ?us)) = Ok (Some (stmt_node (Repeat b c) ns), place ?y ts)"
    using y2(2) read
  proof eventually_elim
    case (elim n)
    have "if_end (run n) src (tok ''repeat'') te None (tok ''until'') (else_result NoElse (1 # ns)) (place y4 (kw ''until'' # ?us))
      = Ok (Some (E c), place y4 ts)"
      using elim(2) clean(1) by (simp add: if_end_def Expect_def ParseCondition_def)
    moreover have "x\<lparr>syntax_nesting := syntax_nesting x @ [1], locals_table := locals_table x @ [[]],
      current_branch_part := current_branch_part x @ [new_part 0]\<rparr> = x2" by (simp add: x2_def)
    ultimately show ?case
      using elim(1) clean(2) mal(1,2) no_else d(1)
      by (simp add: ParseIfExpr_def Let_def lb(1) lb(3) [OF y4] type [simplified] node [simplified])
  qed
  with lb(4) [OF y4] that show thesis by blast
qed

lemma stmt_read_branch:
  assumes "k \<in> tok ` {''if'', ''while'', ''repeat''}"
    and "\<And>ns. stmt_wf s ns \<Longrightarrow> \<exists>y us. stmt_tokens s = y # us \<and> kind (fst y) = k"
    and "\<And>x ns ts te. stmt_wf s ns \<Longrightarrow> ready x ns \<Longrightarrow> clean ts \<Longrightarrow> nextp ts \<le> 0 \<Longrightarrow>
      \<exists>y. same x y \<and> (\<forall>\<^sub>F n in sequentially. ParseIfExpr node_ops (run n) src te (place x (stmt_tokens s @ ts)) = Ok (Some (stmt_node s ns), place y ts))"
  shows "stmt_reads s"
  unfolding stmt_reads_def
proof (intro allI impI)
  fix x ns ts te
  assume a: "stmt_wf s ns" "ready x ns" "clean ts" "nextp ts \<le> 0"
  obtain t us where s: "stmt_tokens s = t # us" "kind (fst t) = k" using assms(2) [OF a(1)] by blast
  obtain y where y: "same x y" "\<forall>\<^sub>F n in sequentially. ParseIfExpr node_ops (run n) src te (place x (t # us @ ts)) = Ok (Some (stmt_node s ns), place y ts)"
    using assms(3) [OF a] s(1) by auto
  then show "\<exists>y. same x y \<and> (\<forall>\<^sub>F n in sequentially. run n Expression te (place x (stmt_tokens s @ ts)) = Ok (Some (stmt_node s ns), place y ts))"
    using expression_branch [OF assms(1) s(2) y(2)] a(4) s(1) by auto
qed

lemma when_reads:
  assumes "stmts_read b" "other_reads e"
  shows "stmt_reads (When loop c b e)"
proof (rule stmt_read_branch [of "tok (if_word loop)"])
  fix x ns ts te
  assume a: "stmt_wf (When loop c b e) ns" "ready x ns" "clean ts"
  have w: "if_word loop \<in> branch_words" "(1 :: nat) = (if if_word loop = ''elif'' then 0 else 1)" "survives b e \<or> if_word loop = ''while''"
    using a(1) by (auto simp: if_word_def branch_words_def)
  have wf: "wf c" "stmts_wf b (1 # ns)" "other_wf e (1 # ns)" using a(1) by auto
  obtain y where "same x y" "\<forall>\<^sub>F n in sequentially. ParseIfExpr node_ops (run n) src te
    (place x (kw (if_word loop) # tokens 0 c @ semi # stmts_tokens b @ other_tokens e @ ts)) = Ok (Some (branch_node (if_word loop) c b e (1 # ns)), place y ts)"
    by (rule if_reads [OF w(1) assms wf(1) a(2,3) w(2) wf(2,3) w(3)])
  moreover have "branch_node (if_word loop) c b e (1 # ns) = stmt_node (When loop c b e) ns"
    by (simp add: branch_node_def if_word_def)
  ultimately show "\<exists>y. same x y \<and> (\<forall>\<^sub>F n in sequentially.
      ParseIfExpr node_ops (run n) src te (place x (stmt_tokens (When loop c b e) @ ts)) = Ok (Some (stmt_node (When loop c b e) ns), place y ts))"
    by auto
qed (auto simp: if_word_def)

lemma programs_read: "stmt_reads s" "stmts_read b" "other_reads e"
proof (induction s and b and e)
  case (Do t)
  show ?case
    unfolding stmt_reads_def
  proof (intro allI impI)
    fix x ns ts te assume a: "stmt_wf (Do t) ns" "clean ts" "nextp ts \<le> 0"
    then show "\<exists>y. same x y \<and> (\<forall>\<^sub>F n in sequentially. run n Expression te (place x (stmt_tokens (Do t) @ ts)) = Ok (Some (stmt_node (Do t) ns), place y ts))"
      using bl.tokens_parse [of t ts te x] by (intro exI [of _ x]) simp
  qed
next
  case (Repeat b c)
  show ?case
  proof (rule stmt_read_branch [of "tok ''repeat''"])
    fix x ns ts te
    assume a: "stmt_wf (Repeat b c) ns" "ready x ns" "clean ts" "nextp ts \<le> 0"
    then have wf: "wf c" "stmts_wf b (1 # ns)" by auto
    show "\<exists>y. same x y \<and> (\<forall>\<^sub>F n in sequentially.
        ParseIfExpr node_ops (run n) src te (place x (stmt_tokens (Repeat b c) @ ts)) = Ok (Some (stmt_node (Repeat b c) ns), place y ts))"
      using repeat_reads [OF Repeat.IH wf(1) a(2,3,4) wf(2)] by (metis append.assoc append_Cons stmt_tokens.simps(3))
  qed auto
qed (auto intro: when_reads block_end_reads block_stmt_reads block_brk_reads no_else_reads else_reads elif_reads)

end
