(* ===== verification/Programs.thy ===== *)
theory Programs
  imports BlockRead
begin

text \<open>
  What the parser of statements does with programs: levels of \<open>brk\<close>, reading back of programs,
  termination, and two inputs that it does not survive.
\<close>

section \<open>Properties\<close>

lemma tok_while_not_if: "tok ''while'' \<noteq> tok ''if''" by (simp add: tok_values)

lemma brk_depth_leaves:
  assumes "set ns \<subseteq> {0, 1}" "n < 2 ^ 15"
  shows "brk_depth (int n) ns 0 = (if n \<le> sum_list ns then Some (int (depth n ns)) else None)"
  using brk_depth_Some [of n ns 0] brk_depth_None [of ns n 0] assms by auto

text \<open>C30.
  A \<open>brk\<close> of \<open>n\<close> levels leaves the branches up to the \<open>n\<close>-th one that is not \<open>elif\<close>, counted from the
  innermost, and is refused if there are fewer. The number survives the encoding in the upper half
  of the kind of the end, and a \<open>brk\<close> is told from all other kinds.
\<close>

theorem brk_levels_resolved:
  assumes "set ns \<subseteq> {0, 1}" "n < 2 ^ 15"
  shows "is_brk (brk_end_kind (tok ''brk'') (int n)) \<and>
    (case brk_depth (brk_levels (brk_end_kind (tok ''brk'') (int n))) ns 0 of
       None \<Rightarrow> sum_list ns < n
     | Some d \<Rightarrow> n \<le> d \<and> d \<le> length ns \<and> sum_list (take (nat d) ns) = n \<and> (\<forall>j<nat d. sum_list (take j ns) < n))"
proof -
  have "0 \<le> int n" "int n < 2 ^ 15" using assms(2) by simp_all
  note k = brk_end_kind_levels [OF this]
  show ?thesis
  proof (cases "n \<le> sum_list ns")
    case True
    then show ?thesis
      using k(1) depth_le [OF True assms(1)] depth_least [OF True assms(1)] by (simp add: k(2) brk_depth_leaves [OF assms])
  qed (use k(1) in \<open>simp add: k(2) brk_depth_leaves [OF assms]\<close>)
qed

theorem brk_levels_resolved_witness:
  "is_brk (brk_end_kind (tok ''brk'') 2) \<and> brk_depth (brk_levels (brk_end_kind (tok ''brk'') 2)) [1, 0, 0, 1] 0 = Some 4"
proof -
  have "set [1 :: nat, 0, 0, 1] \<subseteq> {0, 1}" "(2 :: nat) < 2 ^ 15" by simp_all
  from brk_levels_resolved [OF this]
  have r: "is_brk (brk_end_kind (tok ''brk'') 2)"
    "case brk_depth (brk_levels (brk_end_kind (tok ''brk'') 2)) [1, 0, 0, 1] 0 of None \<Rightarrow> False
     | Some d \<Rightarrow> d \<le> 4 \<and> sum_list (take (nat d) [1, 0, 0, 1]) = (2 :: nat)"
    by (auto split: option.splits)
  then obtain d where d: "brk_depth (brk_levels (brk_end_kind (tok ''brk'') 2)) [1, 0, 0, 1] 0 = Some d" "d \<le> 4"
    "sum_list (take (nat d) [1, 0, 0, 1]) = (2 :: nat)"
    by (auto split: option.splits)
  have "\<not> nat d \<le> 3"
  proof
    assume "nat d \<le> 3"
    then have "nat d = 0 \<or> nat d = 1 \<or> nat d = 2 \<or> nat d = 3" by auto
    with d(3) show False by (auto simp: numeral_eq_Suc)
  qed
  with d(1,2) r(1) show ?thesis by simp
qed

text \<open>C29.
  The parser of statements finds the structure of a program. Take any statement built from
  expressions, \<open>if\<close>, \<open>elif\<close>, \<open>else\<close>, \<open>while\<close>, \<open>repeat\<close> and \<open>brk\<close> over any number of levels, and write its
  tokens. Then the parser builds exactly the objects that are meant, with every \<open>brk\<close> resolved to
  the branches it leaves, and stops behind the statement; of the vectors that say where the
  parser is, only the counters of the innermost branch have changed.
\<close>

theorem program_roundtrip:
  assumes "stmt_wf s ns" "ready x ns" "clean ts" "nextp ts \<le> 0"
  shows "\<exists>y. same x y \<and> (\<exists>N. \<forall>n\<ge>N. parse (scoped token_list) (block_builder node_ops (scoped token_list) node_builder) n
     Expression te (place x (stmt_tokens s @ ts)) = Ok (Some (stmt_node s ns), place y ts))"
proof -
  obtain y where "same x y"
    "\<forall>\<^sub>F n in sequentially. run n Expression te (place x (stmt_tokens s @ ts)) = Ok (Some (stmt_node s ns), place y ts)"
    by (rule stmt_readsD [OF programs_read(1) assms])
  then show ?thesis unfolding eventually_sequentially by blast
qed

definition sample_program :: stmt where
  "sample_program =
     When True (Name ''a'')
       (Seq (When False (Name ''b'') (Seq (Do (Name ''x'')) (Brk 2 (Name ''c'') (Seq (Do (Name ''y'')) End)))
         (Elif (Name ''d'') (Seq (Repeat (Brk 3 (Name ''e'') End) (Name ''f'')) End) (Otherwise (Seq (Do (Name ''z'')) End)))) End)
       NoElse"

definition outside :: place where
  "outside = \<lparr>stream = [], syntax_nesting = [], current_branch_part = [], locals_table = [], globals_table = [],
     inside_function = False, function_return_kind = 0\<rparr>"

lemma outside_ready: "ready outside []"
  by (simp add: ready_def outside_def)

theorem program_roundtrip_witness:
  "\<exists>y N. \<forall>n\<ge>N. parse (scoped token_list) (block_builder node_ops (scoped token_list) node_builder) n
     Expression 0 (place outside (stmt_tokens sample_program @ [semi])) = Ok (Some (stmt_node sample_program []), place y [semi])"
proof -
  have "stmt_wf sample_program []" by (simp add: sample_program_def)
  moreover have "clean [semi]" by simp
  ultimately show ?thesis using program_roundtrip [OF _ outside_ready _ nextp_semi] by blast
qed




section \<open>Inputs that are not survived\<close>

text \<open>C32.
  An \<open>if\<close> with an empty first branch and a value in the second one makes the parser look at the
  last expression of an empty list: \<open>if c; else t; end\<close> is undefined behaviour for all conditions and
  values, where an error message would be in place.
\<close>

theorem empty_branch_crashes:
  assumes "wf c" "wf t" "ready x ns" "clean ts"
  shows "\<exists>N. \<forall>n\<ge>N. parse (scoped token_list) (block_builder node_ops (scoped token_list) node_builder) n
     Expression te (place x (stmt_tokens (When False c End (Otherwise (Seq (Do t) End))) @ ts)) = Wild"
proof -
  let ?e = "Otherwise (Seq (Do t) End)"
  have w: "''if'' \<in> branch_words" "(1 :: nat) = (if ''if'' = ''elif'' then 0 else 1)" by (simp_all add: branch_words_def)
  have wf: "stmts_wf End (1 # ns)" "other_wf ?e (1 # ns)" using assms(2) by simp_all
  obtain y where "\<forall>\<^sub>F n in sequentially. ParseIfExpr node_ops (run n) src te
      (place x (kw ''if'' # tokens 0 c @ semi # stmts_tokens End @ other_tokens ?e @ ts)) =
    pbind (type_of_if (node_ops :: (node, (token \<times> string) list, unit) block_ops) (tok ''if'')
        (map of_part (stmts_parts End (1 # ns) (other_kind ?e) [])) (map of_part (other_parts ?e (1 # ns))))
      (\<lambda>_. Ok (Some (branch_node ''if'' c End ?e (1 # ns)), place y ts))"
    by (rule if_reads_typed [OF w(1) programs_read(2,3) assms(1,3,4) w(2) wf])
  moreover have "type_of_if (node_ops :: (node, (token \<times> string) list, unit) block_ops) (tok ''if'')
      (map of_part (stmts_parts End (1 # ns) (other_kind ?e) [])) (map of_part (other_parts ?e (1 # ns))) = Wild"
    by (simp add: type_of_if_def node_ops_def vector_back_def)
  ultimately have r: "\<forall>\<^sub>F n in sequentially. ParseIfExpr node_ops (run n) src te
      (place x (kw ''if'' # tokens 0 c @ semi # stmts_tokens End @ other_tokens ?e @ ts)) = Wild"
    by simp
  have "tok ''if'' \<in> tok ` {''if'', ''while'', ''repeat''}" "kind (fst (kw ''if'')) = tok ''if''" by simp_all
  from expression_branch [OF this r] show ?thesis by (simp add: if_word_def eventually_sequentially)
qed

theorem empty_branch_crashes_witness:
  "\<exists>N. \<forall>n\<ge>N. parse (scoped token_list) (block_builder node_ops (scoped token_list) node_builder) n
     Expression 0 (place outside (stmt_tokens (When False (Name ''c'') End (Otherwise (Seq (Do (Lit (TokKind (tok ''number'')))) End))) @ [semi])) = Wild"
proof -
  have "wf (Name ''c'')" "wf (Lit (TokKind (tok ''number'')))" "clean [semi]" by simp_all
  from empty_branch_crashes [OF this(1,2) outside_ready this(3)] show ?thesis .
qed

text \<open>
  A syntax error clears \<open>current_branch_part\<close>, but in a function without a value \<open>return\<close> goes on
  without its expression, and the parser of the branch takes its part from the empty vector.
\<close>

definition broken_return :: "tree \<Rightarrow> (token \<times> string) list \<Rightarrow> (token \<times> string) list" where
  "broken_return c us = kw ''if'' # tokens 0 c @ semi # kw ''return'' # rpar # us @ semi # [kw ''end'']"

lemma purge_place:
  assumes "\<forall>(t, x)\<in>set us. kind t \<noteq> ch CHR '';''" "kind tk \<noteq> ch CHR '';''"
  shows "purgeLine src (place x ((tk, s) # us @ semi # ts)) =
    Ok ((place (x\<lparr>current_branch_part := [], syntax_nesting := []\<rparr>) (semi # ts)))"
proof -
  have "dropWhile (\<lambda>(t, x). kind t \<noteq> ch CHR '';'') (us @ semi # ts) = semi # ts"
    using assms(1) by (induction us) (auto simp: semi_def)
  then show ?thesis
    by (simp add: purgeLine_def scoped_def token_list_def place_def start_def semi_def Let_def)
qed

lemma expression_purges:
  assumes "\<forall>(t, x)\<in>set us. kind t \<noteq> ch CHR '';''"
  shows "run (Suc (Suc (Suc n))) Expression 0 (place x (rpar # us @ semi # ts)) =
    Ok (None, place (x\<lparr>current_branch_part := [], syntax_nesting := []\<rparr>) (semi # ts))"
proof -
  have k: "ch CHR '')'' \<notin> prefix_kinds" "ch CHR '')'' \<noteq> tok ''eof''" "ch CHR '')'' \<noteq> tok ''identifier''" "ch CHR '')'' \<noteq> ch CHR '';''"
    "ch CHR '')'' \<notin> {tok ''number'', tok ''str_lit'', tok ''ptr_lit''}" "ch CHR '')'' \<noteq> ch CHR ''(''" "ch CHR '')'' \<noteq> 0"
    "ch CHR '')'' \<notin> tok ` {''if'', ''while'', ''repeat''}" "ch CHR '')'' \<notin> other_starts"
    using primary_starts by (auto simp: tok_values ch_values other_starts_def)
  have "run (Suc n) Primary 0 (place x (rpar # us @ semi # ts)) =
    pbind (purgeLine src (place x (rpar # us @ semi # ts))) (\<lambda>p. Ok (None, p))"
    using k by (simp add: parse.simps ParsePrimary_def rpar_def)
  also have "\<dots> = Ok (None, place (x\<lparr>current_branch_part := [], syntax_nesting := []\<rparr>) (semi # ts))"
    using purge_place [OF assms, of "TokKind (ch CHR '')'')"] k(4) by (simp add: rpar_def)
  finally have "run (Suc (Suc n)) Unary 0 (place x (rpar # us @ semi # ts)) =
      Ok (None, place (x\<lparr>current_branch_part := [], syntax_nesting := []\<rparr>) (semi # ts))"
    using k(1) by (simp add: parse.simps(2) [of _ _ "Suc n"] ParseUnary_def rpar_def)
  moreover have "parseOk (place y us')" for y us' by (simp add: place_def Let_def)
  ultimately show ?thesis by (simp add: parse.simps(2) [of _ _ "Suc (Suc n)"] ParseExpression_def)
qed

lemma all_vars: "\<exists>v. get_destruct_vars (int (length ts)) ts = Ok v"
  by (simp add: get_destruct_vars_def Let_def not_less signed_take_bit_int_less_eq_self_iff)

lemma broken_block:
  assumes "\<forall>(t, x)\<in>set us. kind t \<noteq> ch CHR '';''" "clean us" "clean ts" "function_return_kind x \<noteq> 0"
  shows "\<exists>b. end_kind b = tok ''return'' \<and>
    ParseBranches node_ops (run (Suc (Suc (Suc n)))) src (place x (kw ''return'' # rpar # us @ semi # ts)) =
      Ok (([b], 0), place (x\<lparr>current_branch_part := [], syntax_nesting := []\<rparr>) (semi # ts))"
proof -
  let ?x = "x\<lparr>current_branch_part := [], syntax_nesting := []\<rparr>" and ?go = "run (Suc (Suc (Suc n)))"
  have k: "tok ''return'' \<noteq> ch CHR '';''" "ch CHR '')'' \<noteq> ch CHR '';''" "ch CHR '')'' \<noteq> tok ''end''" "tok ''return'' \<noteq> 0"
    "tok ''return'' \<noteq> tok ''global''"
    by (simp_all add: block_tok_values ch_values)
  have c: "clean (rpar # us @ semi # ts)" using assms(2,3) by simp
  have "ParseExprOrReturn ?go src (place x (kw ''return'' # rpar # us @ semi # ts)) = Ok ((None, tok ''return''), place ?x (semi # ts))"
    using expression_purges [OF assms(1), of n x ts] k c
    by (simp add: ParseExprOrReturn_def skip_semicolons_def ploop_unfold Let_def)
      (simp add: rpar_def)
  then have "list_from (Suc (Suc (Suc n))) [] 0 (place x (kw ''return'' # rpar # us @ semi # ts)) = Ok (([], tok ''return'', 0), place ?x (semi # ts))"
    using k assms(4) by (subst list_from_step) (simp add: expr_list_step_def list_end_def not_brk)
  moreover obtain v where "get_destruct_vars (int (length (locals_table x))) (locals_table x) = Ok v" using all_vars by blast
  ultimately show ?thesis
    by (simp add: ParseBranches_from parts_from_step block_from_def branch_step_def not_brk Let_def)
qed

text \<open>C33.
  In a function without a return value, a \<open>return\<close> in an \<open>if\<close> that is followed by something which is no
  expression is not survived: whatever the condition and the rest of the line are, the parser goes
  on to the end of the \<open>if\<close> and removes an element from a vector that is empty.
\<close>

theorem broken_return_crashes:
  assumes "wf c" "function_return_kind x \<noteq> 0" "\<forall>(t, s)\<in>set us. kind t \<noteq> ch CHR '';''"
    and clean: "clean us" "clean ts"
  shows "\<exists>N. \<forall>n\<ge>N. parse (scoped token_list) (block_builder node_ops (scoped token_list) node_builder) n
     Expression te (place x (broken_return c us @ ts)) = Wild"
proof -
  let ?tail = "semi # kw ''end'' # ts" and ?line = "\<lambda>ts. kw ''return'' # rpar # us @ ts"
  define x1 where "x1 = x\<lparr>syntax_nesting := syntax_nesting x @ [1]\<rparr>"
  define x2 where "x2 = x1\<lparr>locals_table := locals_table x @ [[]], current_branch_part := current_branch_part x @ [new_part 0]\<rparr>"
  have x1: "push_nesting (Suc 0) (place x vs) = place x1 vs" for vs by (simp add: x1_def)
  let ?x = "x2\<lparr>current_branch_part := [], syntax_nesting := []\<rparr>"
  have k: "tok ''if'' \<noteq> tok ''repeat''" "tok ''if'' \<noteq> tok ''elif''" "tok ''return'' \<noteq> tok ''else''" "tok ''return'' \<noteq> tok ''elif''"
    "tok ''end'' \<noteq> ch CHR '';''" "tok ''return'' \<noteq> 0"
    by (simp_all add: tok_values block_tok_values ch_values)
  have e: "clean (kw ''end'' # ts)" using clean(2) by (simp add: end_words_def)
  have ret: "clean (kw ''return'' # us') \<longleftrightarrow> clean us'" for us' by (simp add: kw_def block_tok_values tok_values)
  have c: "clean (?line ?tail)" "clean (tokens 0 c @ semi # ?line ?tail)"
    using assms(1) clean(1) e by (simp_all add: ret clean_tokens)
  have wild: "ParseElse node_ops go src [] (tok ''if'') (tok ''return'') (place y ?tail) = Wild" if "current_branch_part y = []" for y go
    using that k e clean(2)
    by (simp add: ParseElse_def else_start_def skip_semicolons_def ploop_unfold [of _ _ "place _ _"] else_body_def leave_branches_def
        pop_part_def vector_back_def)
  have "\<forall>\<^sub>F n in sequentially. ParseIfExpr node_ops (run (Suc (Suc (Suc n)))) src te (place x (broken_return c us @ ts)) = Wild"
    using eventually_Suc [OF eventually_Suc [OF eventually_Suc [OF condition_reads [OF assms(1) c(1) k(1), of 0 x1]]]]
  proof (rule eventually_mono)
    fix n
    let ?go = "run (Suc (Suc (Suc n)))"
    assume cond: "ParseCondition ?go src (tok ''if'') 0 (place x1 (tokens 0 c @ semi # ?line ?tail)) = Ok (Some (E c), place x1 (?line ?tail))"
    obtain b where b: "end_kind b = tok ''return''"
      "ParseBranches node_ops ?go src (place x2 (?line ?tail)) = Ok (([b], 0), place ?x ?tail)"
      using broken_block [OF assms(3) clean(1) e, of x2 n] assms(2) by (auto simp: x2_def x1_def)
    have "pop_locals (place ?x ?tail) = Ok ([], place (?x\<lparr>locals_table := locals_table x\<rparr>) ?tail)" by (simp add: x2_def)
    moreover have "push_part (new_part 0) (push_locals (place x1 (?line ?tail))) = place x2 (?line ?tail)" by (simp add: x2_def x1_def)
    ultimately show "ParseIfExpr node_ops ?go src te (place x (broken_return c us @ ts)) = Wild"
      using cond b c k wild [of "?x\<lparr>locals_table := locals_table x\<rparr>" ?go]
      by (simp add: ParseIfExpr_def Let_def broken_return_def x1 malformed_def ebind_def del: push_place)
  qed
  then have "\<forall>\<^sub>F n in sequentially. ParseIfExpr node_ops (run n) src te (place x (broken_return c us @ ts)) = Wild"
    by (rule eventually_sequentially_Suc [THEN iffD1, OF eventually_Suc2 [of "\<lambda>n. ParseIfExpr node_ops (run (Suc n)) src te _ = Wild"]])
  then have r: "\<forall>\<^sub>F n in sequentially. ParseIfExpr node_ops (run n) src te
      (place x (kw ''if'' # tokens 0 c @ semi # ?line ?tail)) = Wild"
    by (simp add: broken_return_def)
  have "tok ''if'' \<in> tok ` {''if'', ''while'', ''repeat''}" "kind (fst (kw ''if'')) = tok ''if''" by simp_all
  from expression_branch [OF this r] show ?thesis by (simp add: broken_return_def eventually_sequentially)
qed

theorem broken_return_crashes_witness:
  "\<exists>N. \<forall>n\<ge>N. parse (scoped token_list) (block_builder node_ops (scoped token_list) node_builder) n
     Expression 0 (place (outside\<lparr>function_return_kind := 1\<rparr>) (broken_return (Name ''c'') [rpar] @ [semi])) = Wild"
proof -
  have "function_return_kind (outside\<lparr>function_return_kind := 1\<rparr>) \<noteq> 0" "\<forall>(t, s)\<in>set [rpar]. kind t \<noteq> ch CHR '';''" "wf (Name ''c'')"
    by (simp_all add: rpar_def ch_values)
  from broken_return_crashes [OF this(3) this(1,2)] show ?thesis by simp
qed

end
