(* ===== verification/Compiled.thy ===== *)
theory Compiled
  imports CodeLoop Programs
begin

text \<open>
  From the tokens of a program to the runs of its code: parser and code generator together.
\<close>

section \<open>Programs\<close>

lemma sim_program:
  assumes ev: "sound static ev"
  shows "stmt_wf s ns \<Longrightarrow> set ns \<subseteq> {0, 1} \<Longrightarrow> sim ev ns (g_stmt static s ns) (m_stmt ev s)"
    "stmts_wf b ns \<Longrightarrow> set ns \<subseteq> {0, 1} \<Longrightarrow> sim ev ns (g_stmts static b ns) (m_stmts ev b)"
    "other_wf e ns \<Longrightarrow> set ns \<subseteq> {0, 1} \<Longrightarrow> sim ev ns (g_other static e ns) (m_other ev e)"
proof (induction s and b and e arbitrary: ns and ns and ns)
  case (Do t)
  then show ?case by (simp add: sim_expr [OF ev])
next
  case (When loop c b e)
  then have "sim ev (1 # ns) (g_stmts static b (1 # ns)) (m_stmts ev b)" "sim ev (1 # ns) (g_other static e (1 # ns)) (m_other ev e)" by simp_all
  then show ?case
    using sim_while [OF ev _ _ When.prems(2)] sim_if [OF ev _ _ order.refl When.prems(2)] by (cases loop) simp_all
next
  case (Repeat b c)
  then show ?case using sim_repeat [OF ev _ Repeat.prems(2)] by simp
next
  case (Seq s b)
  then show ?case using sim_seq [of ev ns "g_stmt static s ns" "m_stmt ev s"] by simp
next
  case (Brk n c b)
  then show ?case using sim_brk [OF ev, of ns "g_stmts static b ns" "m_stmts ev b" n c] by simp
next
  case (Elif c b e)
  then have "sim ev (0 # ns) (g_stmts static b (0 # ns)) (m_stmts ev b)" "sim ev (0 # ns) (g_other static e (0 # ns)) (m_other ev e)" by simp_all
  then show ?case using sim_if [OF ev _ _ _ Elif.prems(2), of 0] by simp
qed (simp_all add: sim_skip)

text \<open>A function without a result whose body is one statement.\<close>

definition gen_function :: "(tree \<Rightarrow> bool option) \<Rightarrow> node \<Rightarrow> ir" where
  "gen_function static e = emit Ret (snd (gen_node static [] e empty_function))"

text \<open>
  What it means that the code of a function does what a statement means: it ends if the statement
  does, by returning, with the same memory and stack pointer; otherwise it runs for ever.
\<close>

definition runs_as :: "'x expr_meaning \<Rightarrow> ir \<Rightarrow> 'x state \<Rightarrow> (outcome \<times> 'x state) option \<Rightarrow> bool" where
  "runs_as ev P x r \<longleftrightarrow> (case r of
      None \<Rightarrow> run_code ev P (call (fst x) (snd x)) = None
    | Some (q, y, k) \<Rightarrow> q = Normal \<and>
        (\<exists>m. run_code ev P (call (fst x) (snd x)) = Some m \<and> returned P m \<and> memory m = y \<and> stack m = k))"

lemma generated_code_runs:
  assumes ev: "sound static ev" and s: "stmt_wf s []"
  shows "runs_as ev (gen_function static (stmt_node s [])) (x, h) (m_stmt ev s (x, h))"
proof -
  let ?g = "g_stmt static s [] [] empty_function"
  let ?P = "gen_function static (stmt_node s [])"
  have P: "?P = emit Ret ?g" using gen_program(1) [OF s, of static "[]" empty_function] by (simp add: gen_function_def)
  have "fresh empty_function" by (simp add: fresh_def empty_function_def)
  note sim = simD [OF sim_program(1) [OF ev s] this, of "[]", simplified]
  have "final ?P empty_function ?g" unfolding P by (rule finalI [OF ext_ops(1)]) simp_all
  moreover have "here empty_function (x, h) (\<lambda>r. 0) = call x h" by (simp add: here_def empty_function_def call_def)
  ultimately have b: "behaves ev ?P (call x h) ?g (next_id empty_function) [] [] (m_stmt ev s (x, h))"
    using sim(2) [of ?P "(x, h)" "\<lambda>r. 0"] by (simp add: dests_def)
  have stop: "run_code ev ?P (here ?g y R) = Some (here ?g y R)" for y R
  proof (rule run_end)
    have "ext {} {} (emit Ret ?g) ?P" by (simp add: P)
    from step_emit [OF this, of ev y R] show "step ev ?P (here ?g y R) = None" by simp
  qed
  have ret: "returned ?P (here ?g y R)" for y :: "'a state" and R
    by (simp add: returned_def here_def P)
  show ?thesis
  proof (cases "m_stmt ev s (x, h)")
    case None
    then show ?thesis using b by (simp add: behaves_def runs_as_def)
  next
    case (Some p)
    obtain r y k where p: "p = (r, y, k)" by (cases p)
    show ?thesis
    proof (cases r)
      case Normal
      with b Some p obtain R where "steps ev ?P (call x h) (here ?g (y, k) R)" by (auto simp: behaves_def)
      from run_steps [OF this] stop have "run_code ev ?P (call x h) = Some (here ?g (y, k) R)" by simp
      with ret Some p Normal show ?thesis by (auto simp: here_def runs_as_def)
    qed (use b Some p in \<open>auto simp: behaves_def\<close>)
  qed
qed


text \<open>C3.
  From the tokens of a program to the runs of its code. Take any statement built from expressions,
  \<open>if\<close>, \<open>elif\<close>, \<open>else\<close>, \<open>while\<close>, \<open>repeat\<close> and \<open>brk\<close> over any number of levels. The parser reads its
  tokens, and the code that is generated for the object it returns does what the statement means:
  if the statement ends, then the code returns with the same memory and the same stack pointer, and
  if the statement does not end, then neither does the code.
\<close>

theorem compiled_program_correct:
  fixes ev :: "'x expr_meaning" and x :: 'x
  assumes "sound static ev" "stmt_wf s []" "ready p []" "clean ts" "nextp ts \<le> 0"
  shows "\<exists>e q. same p q \<and>
    (\<exists>N. \<forall>n\<ge>N. parse (scoped token_list) (block_builder node_ops (scoped token_list) node_builder) n
       Expression te (place p (stmt_tokens s @ ts)) = Ok (Some e, place q ts)) \<and>
    runs_as ev (gen_function static e) (x, h) (m_stmt ev s (x, h))"
proof -
  obtain q where "same p q"
    "\<forall>\<^sub>F n in sequentially. run n Expression te (place p (stmt_tokens s @ ts)) = Ok (Some (stmt_node s []), place q ts)"
    by (rule stmt_readsD [OF programs_read(1) assms(2-5)])
  then show ?thesis
    using generated_code_runs [OF assms(1,2), of x h] unfolding eventually_sequentially by blast
qed

text \<open>
  A loop with a \<open>brk\<close>: \<open>a\<close> is true as long as the memory is less than 3, \<open>b\<close> takes 8 bytes from the
  stack and is never true, and \<open>x\<close> counts. The bytes of a round are given back in the next one.
\<close>

definition counting :: stmt where
  "counting = When True (Name ''a'') (Seq (Do (Name ''x'')) (Brk 1 (Name ''b'') End)) NoElse"

definition counting_ev :: "int expr_meaning" where
  "counting_ev t x = (if t = Name ''a'' then (fst x < 3, x) else if t = Name ''x'' then (True, fst x + 1, snd x)
     else (False, fst x, snd x + 8))"

lemma counting_means: "m_stmt counting_ev counting (0, 16) = Some (Normal, 3, 24)"
  unfolding counting_def
  by (simp add: m_leave_def m_while_def m_seq_def m_brk_def m_round_def counting_ev_def iterate.simps Let_def)

theorem compiled_program_correct_witness:
  "\<exists>e q. (\<exists>N. \<forall>n\<ge>N. parse (scoped token_list) (block_builder node_ops (scoped token_list) node_builder) n
       Expression 0 (place outside (stmt_tokens counting @ [semi])) = Ok (Some e, place q [semi])) \<and>
    runs_as counting_ev (gen_function (\<lambda>t. None) e) (0, 16) (Some (Normal, 3, 24))"
proof -
  have "sound (\<lambda>t. None) counting_ev" by (simp add: sound_def)
  moreover have "stmt_wf counting []" by (simp add: counting_def)
  moreover have "clean [semi]" by simp
  ultimately show ?thesis
    using compiled_program_correct [of "\<lambda>t. None" counting_ev counting outside "[semi]" 0 0 16, OF _ _ outside_ready _ nextp_semi]
    by (auto simp: counting_means)
qed

end
