(* ===== verification/Rejected.thy ===== *)
theory Rejected
  imports Compiled
begin

text \<open>
  Programs for which the code that is generated is not accepted by LLVM.
\<close>

section \<open>What the verifier asks for\<close>

text \<open>
  \<open>verifyFunction\<close>, which \<open>finishFunctionOrModule\<close> calls for each function, demands that a phi node
  has a value for each predecessor of its block, and for no other block.
\<close>

fun targets :: "instr \<Rightarrow> nat option list" where
  "targets (Br b) = [b]"
| "targets (CondBr v b c) = [b, c]"
| "targets (Switch v d cases) = d # map snd cases"
| "targets _ = []"

definition jumps_to :: "ir \<Rightarrow> nat \<Rightarrow> nat option \<Rightarrow> bool" where
  "jumps_to g l b \<longleftrightarrow> list_ex (\<lambda>i. b \<in> set (targets i)) (code g l)"

definition phis_match :: "ir \<Rightarrow> bool" where
  "phis_match g \<longleftrightarrow> list_all (\<lambda>b. list_all (\<lambda>r.
     list_all (\<lambda>(v, l). jumps_to g l (Some b)) (incoming g r) \<and>
     list_all (\<lambda>l. jumps_to g l (Some b) \<longrightarrow> l \<in> set (map snd (incoming g r))) (inserted g)) (phi_nodes g b)) (inserted g)"

section \<open>Blocks that return\<close>

lemma return_word:
  "tok ''return'' \<noteq> ch CHR '';''" "tok ''return'' \<noteq> 0" "tok ''return'' \<noteq> tok ''global''" "tok ''return'' \<noteq> tok ''end''"
  "tok ''return'' \<noteq> tok ''else''" "tok ''return'' \<noteq> tok ''elif''" "tok ''return'' \<noteq> tok ''brk''" "\<not> is_brk (tok ''return'')"
  using not_brk by (simp_all add: block_tok_values ch_values)

definition returning :: "place \<Rightarrow> node list \<Rightarrow> string set \<Rightarrow> node branch_desc" where
  "returning x es vs = \<lparr>exprs = es, vars_to_destruct = vs, end_kind = tok ''return'', break_level = int (length (locals_table x))\<rparr>"

lemma block_from_return:
  assumes "function_return_kind x \<noteq> 0" "clean ts"
  obtains vs where "\<And>n l mx bs bmx. block_from n l mx bs bmx (place x (kw ''return'' # semi # ts)) =
      Ok ((bs @ [returning x l vs], max bmx mx), place x (semi # ts))"
proof -
  have c: "clean (semi # ts)" using assms(2) by simp
  obtain v where v: "get_destruct_vars (int (length (locals_table x))) (locals_table x) = Ok v" using all_vars by blast
  have "ParseExprOrReturn (run n) src (place x (kw ''return'' # semi # ts)) = Ok ((None, tok ''return''), place x (semi # ts))" for n
    using c return_word by (simp add: ParseExprOrReturn_def skip_semicolons_def ploop_unfold Let_def)
  then have "list_from n l mx (place x (kw ''return'' # semi # ts)) = Ok ((l, tok ''return'', mx), place x (semi # ts))" for n l mx
    using return_word assms(1) by (subst list_from_step) (simp add: expr_list_step_def list_end_def)
  with v show thesis
    using return_word
    by (intro that [of "if inside_function x then v else v \<union> get_destruct_vars_main (globals_table x)"])
      (simp add: block_from_def branch_step_def returning_def Let_def)
qed

primrec list_tokens :: "stmt list \<Rightarrow> (token \<times> string) list" where
  "list_tokens [] = []"
| "list_tokens (s # ss) = stmt_tokens s @ semi # list_tokens ss"

lemma clean_list: "list_all (\<lambda>s. stmt_wf s ns) ss \<Longrightarrow> clean (list_tokens ss)"
  by (induction ss) (auto dest: clean_program(1))

lemma clean_return [simp]: "clean (kw ''return'' # ts) \<longleftrightarrow> clean ts"
  by (simp add: kw_def block_tok_values tok_values)

lemma block_return_reads:
  assumes "list_all (\<lambda>s. stmt_wf s ns) ss" "ready x ns" "function_return_kind x \<noteq> 0" "clean ts" "0 \<le> mx"
  shows "\<exists>y vs m. same x y \<and> (\<forall>\<^sub>F n in sequentially. block_from n l mx bs bmx (place x (list_tokens ss @ kw ''return'' # semi # ts)) =
      Ok ((bs @ [returning x (l @ map (\<lambda>s. stmt_node s ns) ss) vs], m), place y (semi # ts)))"
  using assms
proof (induction ss arbitrary: x l mx)
  case Nil
  obtain vs where "\<And>n l mx bs bmx. block_from n l mx bs bmx (place x (kw ''return'' # semi # ts)) =
      Ok ((bs @ [returning x l vs], max bmx mx), place x (semi # ts))"
    using block_from_return [OF Nil(3,4)] by blast
  then show ?case by (intro exI [of _ x]) auto
next
  case (Cons s ss)
  let ?us = "list_tokens ss @ kw ''return'' # semi # ts"
  have s: "stmt_wf s ns" "list_all (\<lambda>s. stmt_wf s ns) ss" using Cons.prems(1) by auto
  have c: "clean ?us" "clean (semi # ?us)" using Cons.prems(4) clean_list [OF s(2)] by simp_all
  obtain y where y: "same x y"
    "\<forall>\<^sub>F n in sequentially. run n Expression 0 (place x (stmt_tokens s @ semi # ?us)) = Ok (Some (stmt_node s ns), place y (semi # ?us))"
    by (rule stmt_readsD [OF programs_read(1) s(1) Cons.prems(2) c(2) nextp_semi])
  have "ready y ns" "function_return_kind y \<noteq> 0" "locals_table y = locals_table x" "0 \<le> max mx (stmt_max s ns)"
    using ready_same [OF Cons.prems(2) y(1)] Cons.prems(3,5) y(1) by (auto simp: same_def)
  with Cons.IH [OF s(2) _ _ Cons.prems(4), of y "max mx (stmt_max s ns)" "l @ [stmt_node s ns]"] obtain z vs m where z: "same y z"
    "\<forall>\<^sub>F n in sequentially. block_from n (l @ [stmt_node s ns]) (max mx (stmt_max s ns)) bs bmx (place y ?us) =
      Ok ((bs @ [returning x (l @ map (\<lambda>s. stmt_node s ns) (s # ss)) vs], m), place z (semi # ts))"
    by (auto simp: returning_def)
  obtain t us where t: "stmt_tokens s = t # us" "kind (fst t) \<in> expr_starts \<union> tok ` {''if'', ''while'', ''repeat''}"
    by (rule stmt_starts [OF s(1)])
  have "\<forall>\<^sub>F n in sequentially. block_from n l mx bs bmx (place x (stmt_tokens s @ semi # ?us)) =
      Ok ((bs @ [returning x (l @ map (\<lambda>s. stmt_node s ns) (s # ss)) vs], m), place z (semi # ts))"
    using y(2) z(2)
  proof (rule eventually_elim2)
    fix n
    assume r: "run n Expression 0 (place x (stmt_tokens s @ semi # ?us)) = Ok (Some (stmt_node s ns), place y (semi # ?us))"
    have "ParseExprOrReturn (run n) src (place x (stmt_tokens s @ semi # ?us)) = Ok ((Some (stmt_node s ns), 0), place y (semi # ?us))"
      using statement_item [OF _ t(2), of n x "us @ semi # ?us"] r by (simp add: t(1))
    then show "block_from n l mx bs bmx (place x (stmt_tokens s @ semi # ?us)) = rhs"
      if "block_from n (l @ [stmt_node s ns]) (max mx (stmt_max s ns)) bs bmx (place y ?us) = rhs" for rhs
      using that c Cons.prems(5) by (simp add: block_from_item block_from_semi)
  qed
  then show ?case using same_trans [OF y(1) z(1)] by (auto simp: same_def)
qed

text \<open>The two ways on behind a branch that returns.\<close>

lemma no_else_after_return:
  assumes "branch_end x ns" "clean ts"
  shows "ParseElse node_ops go src [] knd (tok ''return'') (place x (semi # kw ''end'' # ts)) =
    Ok (Some \<lparr>else_branches = [no_branch], else_merged = {}, else_table = [], have_else = False, then_end_kind = tok ''end'', else_level = 0\<rparr>,
      place (left_scope False x) ts)"
proof -
  have "clean (kw ''end'' # ts)" using assms(2) by (simp add: end_words_def)
  moreover have "tok ''end'' \<noteq> ch CHR '';''" by (simp add: block_tok_values ch_values)
  ultimately have "else_start src knd (tok ''return'') (place x (semi # kw ''end'' # ts)) = Ok (Some (False, tok ''end''), place x ts)"
    using assms(2) return_word by (simp add: else_start_def skip_semicolons_def ploop_unfold [of _ _ "place _ _"] Let_def)
  then show ?thesis
    using leave_place [of x False knd "tok ''end''"] assms(1) by (simp add: ParseElse_def else_body_def branch_end_def)
qed

lemma else_after_return:
  assumes "branch_end x ns" "clean ts" "list_all (\<lambda>s. stmt_wf s ns) ss" "function_return_kind x \<noteq> 0" "knd \<noteq> tok ''repeat''"
  shows "\<exists>y b m. outer_same x y \<and> to_part b = (map (\<lambda>s. stmt_node s ns) ss, tok ''return'', int (Suc (length (locals_table x)))) \<and>
    (\<forall>\<^sub>F n in sequentially. ParseElse node_ops (run n) src [] knd (tok ''return'')
      (place x (semi # kw ''else'' # list_tokens ss @ kw ''return'' # semi # kw ''end'' # ts)) =
    Ok (Some \<lparr>else_branches = [b], else_merged = {}, else_table = [], have_else = True, then_end_kind = tok ''else'', else_level = m\<rparr>,
      place y ts))"
proof -
  let ?us = "list_tokens ss @ kw ''return'' # semi # kw ''end'' # ts"
  have c: "clean ?us" "clean (kw ''end'' # ts)" "clean (kw ''else'' # ?us)"
    using assms(2) clean_list [OF assms(3)] by (simp_all add: end_words_def)
  have k: "tok ''end'' \<noteq> ch CHR '';''" "tok ''else'' \<noteq> ch CHR '';''" "tok ''else'' \<noteq> tok ''end''" "tok ''else'' \<noteq> tok ''elif''"
    by (simp_all add: block_tok_values ch_values)
  define x' where "x' = x\<lparr>locals_table := locals_table x @ [[]], current_branch_part := butlast (current_branch_part x) @ [new_part 1]\<rparr>"
  have x: "ready x' ns" "current_branch_part x \<noteq> []"
    using assms(1) by (auto simp: ready_def branch_end_def x'_def to_destruct_def)
  have "function_return_kind x' \<noteq> 0" using assms(4) by (simp add: x'_def)
  from block_return_reads [OF assms(3) x(1) this c(2) order_refl, of "[]" "[]" 0] obtain y vs m where y: "same x' y"
    "\<forall>\<^sub>F n in sequentially. block_from n [] 0 [] 0 (place x' ?us) = Ok (([returning x' (map (\<lambda>s. stmt_node s ns) ss) vs], m), place y (semi # kw ''end'' # ts))"
    by auto
  let ?b = "returning x' (map (\<lambda>s. stmt_node s ns) ss) vs"
  have start: "else_start src knd (tok ''return'') (place x (semi # kw ''else'' # ?us)) = Ok (Some (True, tok ''else''), place x ?us)"
    using c assms(5) return_word k by (simp add: else_start_def skip_semicolons_def ploop_unfold [of _ _ "place _ _"] Let_def)
  have "cur (place x' ?us) \<noteq> tok ''elif''"
  proof (cases ss)
    case (Cons s ss')
    then obtain t us where "stmt_tokens s = t # us" "kind (fst t) \<in> expr_starts \<union> tok ` {''if'', ''while'', ''repeat''}"
      using assms(3) by (auto elim: stmt_starts)
    then show ?thesis using Cons starts_plain(4) by auto
  qed (simp add: return_word)
  then have body: "else_body node_ops go src True (place x ?us) = else_branch node_ops go src (place x' ?us)" for go
    using x(2) by (simp add: else_body_def x'_def)
  note y' = left_after_else [OF assms(1) y(1) [unfolded x'_def]]
  have "\<forall>\<^sub>F n in sequentially. ParseElse node_ops (run n) src [] knd (tok ''return'') (place x (semi # kw ''else'' # ?us)) =
    Ok (Some \<lparr>else_branches = [?b], else_merged = {}, else_table = [], have_else = True, then_end_kind = tok ''else'', else_level = m\<rparr>,
      place (left_scope True y) ts)"
    using y(2)
  proof (rule eventually_mono)
    fix n assume "block_from n [] 0 [] 0 (place x' ?us) = Ok (([?b], m), place y (semi # kw ''end'' # ts))"
    then have "else_branch node_ops (run n) src (place x' ?us) = Ok (Some ([?b], m), place y ts)"
      using c assms(2) k return_word
      by (simp add: else_branch_def ParseBranches_from parts_from_step malformed_def returning_def skip_semicolons_def ploop_unfold [of _ _ "place _ _"])
    then show "ParseElse node_ops (run n) src [] knd (tok ''return'') (place x (semi # kw ''else'' # ?us)) =
      Ok (Some \<lparr>else_branches = [?b], else_merged = {}, else_table = [], have_else = True, then_end_kind = tok ''else'', else_level = m\<rparr>,
        place (left_scope True y) ts)"
      using y'(1,2) by (simp add: ParseElse_def start body leave_place)
  qed
  moreover have "to_part ?b = (map (\<lambda>s. stmt_node s ns) ss, tok ''return'', int (Suc (length (locals_table x))))"
    by (simp add: to_part_def returning_def x'_def)
  ultimately show ?thesis using y'(3) by blast
qed

lemma return_branch_reads:
  assumes w: "w \<in> {''if'', ''while''}" and "wf c" and ss: "list_all (\<lambda>s. stmt_wf s (1 # ns)) ss" and x: "ready x ns"
    and ret: "function_return_kind x \<noteq> 0" and c: "clean us" "clean ts" and ty: "w = ''if'' \<longrightarrow> ss \<noteq> []" and ts: "nextp ts \<le> 0"
    and els: "\<And>y. branch_end y (1 # ns) \<Longrightarrow> function_return_kind y \<noteq> 0 \<Longrightarrow> locals_table y = locals_table x \<Longrightarrow>
      \<exists>z El. outer_same y z \<and> map to_part (else_branches El) = P \<and> have_else El = h \<and> returns (else_branches El) = h \<and> else_table El = [] \<and>
        end_kind (last (else_branches El)) \<noteq> tok ''end'' \<and> else_branches El \<noteq> [] \<and>
        (\<forall>\<^sub>F n in sequentially. ParseElse node_ops (run n) src [] (tok w) (tok ''return'') (place y (semi # us)) = Ok (Some El, place z ts))"
  shows "\<exists>y m. same x y \<and> (\<forall>\<^sub>F n in sequentially. run n Expression te (place x (kw w # tokens 0 c @ semi # list_tokens ss @ kw ''return'' # semi # us)) =
    Ok (Some (Node (tok w) (E c) [(map (\<lambda>s. stmt_node s (1 # ns)) ss, tok ''return'', int (Suc (length (locals_table x))))] P m h), place y ts))"
proof -
  let ?us = "list_tokens ss @ kw ''return'' # semi # us"
  have k: "tok w \<noteq> tok ''repeat''" "tok w \<noteq> tok ''elif''" "tok w \<in> tok ` {''if'', ''while'', ''repeat''}" "w = ''while'' \<longrightarrow> tok w \<noteq> tok ''if''"
    using w by (auto simp: tok_values block_tok_values)
  have z01: "(1 :: nat) \<in> {0, 1}" by simp
  have clean: "clean ?us" "clean (tokens 0 c @ semi # ?us)"
    using c(1) clean_list [OF ss] \<open>wf c\<close> by (simp_all add: clean_tokens)
  define x1 where "x1 = x\<lparr>syntax_nesting := syntax_nesting x @ [1]\<rparr>"
  define x2 where "x2 = x\<lparr>syntax_nesting := syntax_nesting x @ [1], locals_table := locals_table x @ [[]],
    current_branch_part := current_branch_part x @ [new_part 0]\<rparr>"
  have x1: "x\<lparr>syntax_nesting := syntax_nesting x @ [Suc 0]\<rparr> = x1" by (simp add: x1_def)
  note enter = enter_branch [OF x z01, folded x2_def]
  have x2: "x1\<lparr>locals_table := locals_table x1 @ [[]], current_branch_part := current_branch_part x1 @ [new_part 0]\<rparr> = x2"
    by (simp add: x1_def x2_def)
  have "function_return_kind x2 \<noteq> 0" using ret by (simp add: x2_def)
  from block_return_reads [OF ss enter(1) this c(1) order_refl, of "[]" "[]" 0] obtain y2 vs m where y2: "same x2 y2"
    "\<forall>\<^sub>F n in sequentially. block_from n [] 0 [] 0 (place x2 ?us) =
      Ok (([returning x2 (map (\<lambda>s. stmt_node s (1 # ns)) ss) vs], m), place y2 (semi # us))" by auto
  define body where "body = returning x2 (map (\<lambda>s. stmt_node s (1 # ns)) ss) vs"
  have body: "\<forall>\<^sub>F n in sequentially. ParseBranches node_ops (run n) src (place x2 ?us) = Ok (([body], m), place y2 (semi # us))"
    using y2(2) by (simp add: ParseBranches_from parts_from_step body_def)
  define y3 where "y3 = y2\<lparr>locals_table := locals_table x\<rparr>"
  note lb = leave_branch [OF x z01 y2(1) [unfolded x2_def], folded y3_def]
  have "function_return_kind y3 \<noteq> 0" "locals_table y3 = locals_table x"
    using ret y2(1) by (auto simp: y3_def x2_def same_def)
  from els [OF lb(2) this] obtain z El where z: "outer_same y3 z" "map to_part (else_branches El) = P" "have_else El = h" "returns (else_branches El) = h"
    "else_table El = []" "end_kind (last (else_branches El)) \<noteq> tok ''end''" "else_branches El \<noteq> []"
    "\<forall>\<^sub>F n in sequentially. ParseElse node_ops (run n) src [] (tok w) (tok ''return'') (place y3 (semi # us)) = Ok (Some El, place z ts)"
    by blast
  have cond: "\<forall>\<^sub>F n in sequentially. ParseCondition (run n) src (tok w) 0 (place x1 (tokens 0 c @ semi # ?us)) = Ok (Some (E c), place x1 ?us)"
    by (rule condition_reads [OF \<open>wf c\<close> clean(1) k(1)])
  let ?y = "z\<lparr>syntax_nesting := syntax_nesting x\<rparr>" and ?mx = "max m (else_level El)"
  have typed: "type_of_if node_ops (tok w) [body] (else_branches El) = Ok ()"
    using ty k(2,4) w z(7) by (auto simp: type_of_if_def node_ops_def vector_back_def returning_def body_def)
  define e where "e = Node (tok w) (E c) [(map (\<lambda>s. stmt_node s (1 # ns)) ss, tok ''return'', int (Suc (length (locals_table x))))] P ?mx h"
  have new: "new_if node_ops (tok w) (E c) [body] [] m El = e"
    unfolding e_def using z(2,3,4) k(2) by (auto simp: new_if_def node_ops_def branch_expr_of_def branch_expr.extend_def if_expression.fields_def
        returns_def returning_def to_part_def x2_def body_def)
  have "\<forall>\<^sub>F n in sequentially. ParseIfExpr node_ops (run n) src te (place x (kw w # tokens 0 c @ semi # ?us)) =
      Ok (Some e, place ?y ts)"
    using cond body z(8)
  proof eventually_elim
    case (elim n)
    have "\<not> malformed [body]" "end_kind body = tok ''return''" by (simp_all add: malformed_def returning_def body_def return_word)
    then show ?case
      using elim k clean z(6) return_word
      by (simp add: ParseIfExpr_def Let_def x1 x2 lb(1) if_end_def typed new lb(3) [OF z(1)])
  qed
  from expression_branch [OF k(3) _ this] ts show ?thesis
    unfolding e_def using lb(4) [OF z(1)] by (auto simp: kw_def)
qed

section \<open>A loop that returns\<close>

lemma expressions_code:
  "\<exists>v g'. gen_nodes static mps (map E us) v0 g = (v, g') \<and> block g' = block g \<and> phi_nodes g' = phi_nodes g \<and> incoming g' = incoming g \<and>
     inserted g' = inserted g \<and> next_id g \<le> next_id g' \<and> (\<forall>b. b \<noteq> block g \<longrightarrow> code g' b = code g b) \<and>
     (\<exists>is. code g' (block g) = code g (block g) @ is \<and> (\<forall>i\<in>set is. targets i = []))"
proof (induction us arbitrary: v0 g)
  case (Cons t us)
  show ?case
  proof (cases "static t")
    case None
    let ?g = "emit (Run (next_id g) t) (g\<lparr>next_id := Suc (next_id g)\<rparr>)"
    have "gen_expr static t g = (Reg (next_id g), ?g)" using None by (simp add: gen_expr_def new_id_def)
    moreover obtain v g' "is" where "gen_nodes static mps (map E us) (Reg (next_id g)) ?g = (v, g')" "block g' = block g"
      "phi_nodes g' = phi_nodes g" "incoming g' = incoming g" "inserted g' = inserted g" "Suc (next_id g) \<le> next_id g'"
      "\<forall>b. b \<noteq> block g \<longrightarrow> code g' b = code g b" "code g' (block g) = code g (block g) @ Run (next_id g) t # is" "\<forall>i\<in>set is. targets i = []"
      using Cons.IH [of "Reg (next_id g)" ?g] by (auto simp: emit_def)
    ultimately show ?thesis by (auto intro!: exI [of _ "Run (next_id g) t # is"])
  next
    case (Some b)
    with Cons.IH [of "Const (of_bool b)" g] show ?thesis by (simp add: gen_expr_def)
  qed
qed simp

text \<open>
  The code of a loop whose body is a list of expressions and a \<open>return\<close>: the last block of the body
  does not jump, but the phi nodes in front of the condition have a value for it.
\<close>

lemma loop_inserted:
  "while_head False g = (B, g') \<Longrightarrow> set (inserted g') = insert (next_id g + 1) (set (inserted g))"
  "gen_expr static c g = (v, g') \<Longrightarrow> inserted g' = inserted g"
  "while_body B v g = (B', g') \<Longrightarrow> set (inserted g) \<subseteq> set (inserted g')"
  by (auto simp: while_head_def while_body_def gen_stack_save_def gen_stack_restore_def start_body_def new_merge_def new_id_eq create_phi_eq Let_def
      gen_expr_def emit_def insert_block_def set_insert_point_def add_incoming_def split: option.splits)

lemma expressions_alike: "gen_nodes static mps (map E us) v g = gen_nodes static [] (map E us) v g"
  by (induction us arbitrary: v g) (auto split: prod.split)

lemma return_loop_code:
  assumes th: "\<And>m b g. th [m] b g = emit Ret (snd (gen_nodes static [m] (map E us) Undefined g))"
    and el: "\<And>m b g. el [m] (Some b) g = emit (Br (Some b)) g"
  shows "\<not> phis_match (emit Ret (gen_while (gen_expr static c) th el False [] empty_function))"
proof -
  obtain B0 gh v gc B gb where eqs: "while_head False empty_function = (B0, gh)" "gen_expr static c gh = (v, gc)" "while_body B0 v gc = (B, gb)"
    by (metis surj_pair)
  have s: "sound static (\<lambda>t x. (static t = Some True, x))" by (auto simp: sound_def)
  have "fresh empty_function" by (simp add: fresh_def empty_function_def)
  note parts = while_parts [OF s this eqs]
  have n: "next_id empty_function = 1" "block empty_function = 0" by (simp_all add: empty_function_def)
  have in2: "2 \<in> set (inserted gb)" using loop_inserted(1) [OF eqs(1)] loop_inserted(2) [OF eqs(2)] loop_inserted(3) [OF eqs(3)] n by (auto simp: numeral_2_eq_2)
  have gb: "block gb = 1" "code gb 1 = []" "phi_nodes gb 2 = [3, 4]" "incoming gb 3 = [(Const 2, 0)]"
    using parts(5,9,21,27) n by (simp_all add: numeral_2_eq_2 numeral_3_eq_3)
  obtain v' g' "is" where g': "gen_nodes static [] (map E us) Undefined gb = (v', g')" "block g' = 1"
    "phi_nodes g' 2 = [3, 4]" "incoming g' 3 = [(Const 2, 0)]" "inserted g' = inserted gb" "code g' 1 = is" "\<forall>i\<in>set is. targets i = []"
    using expressions_code [of static "[]" us Undefined gb] gb by auto
  obtain r where B: "B = while_ids 1 r" using parts(2) n by auto
  define P where "P = emit Ret (gen_while (gen_expr static c) th el False [] empty_function)"
  have "P = emit Ret (insert_block 6 (emit (Br (Some 6)) (insert_block 5 (while_again (while_ids 1 r) (emit Ret g')))))"
    using g'(1) eqs by (simp add: P_def gen_while_def th el B continue_at_def while_ids_def expressions_alike [of _ "[_]"])
  then have P: "code P 1 = is @ [Ret]" "phi_nodes P 2 = [3, 4]" "incoming P 3 = [(Const 2, 0), (Const 0, 1)]" "2 \<in> set (inserted P)"
    using g'(2-6) in2 while_again_fields [of 1 r]
    by (simp_all add: while_again_def while_ids_def numeral_3_eq_3)
      (simp add: emit_def insert_block_def set_insert_point_def add_incoming_def)
  have "\<not> jumps_to P 1 (Some 2)" using P(1) g'(7) by (auto simp: jumps_to_def list_ex_iff)
  with P(2-4) have "\<exists>b\<in>set (inserted P). \<exists>r\<in>set (phi_nodes P b). \<exists>(v, l)\<in>set (incoming P r). \<not> jumps_to P l (Some b)"
    by (intro bexI [of _ 2] bexI [of _ 3] bexI [of _ "(Const 0, 1)"]) auto
  then show ?thesis unfolding P_def [symmetric] phis_match_def list_all_iff by fastforce
qed

text \<open>C34.
  A \<open>while\<close> loop whose body ends with \<open>return\<close>, in a function without a result, is read by the parser
  but refused by LLVM: for all conditions and all lists of expressions before the \<open>return\<close>, the phi
  nodes of the loop have a value for the last block of the body, which does not go back to the
  condition.
\<close>

theorem while_return_rejected:
  assumes "wf c" "list_all wf us" "ready x ns" "function_return_kind x \<noteq> 0" "clean ts" "nextp ts \<le> 0"
  shows "\<exists>e y. (\<exists>N. \<forall>n\<ge>N. parse (scoped token_list) (block_builder node_ops (scoped token_list) node_builder) n Expression te
      (place x (kw ''while'' # tokens 0 c @ semi # list_tokens (map Do us) @ kw ''return'' # semi # kw ''end'' # ts)) = Ok (Some e, place y ts)) \<and>
    \<not> phis_match (gen_function static e)"
proof -
  have ss: "list_all (\<lambda>s. stmt_wf s (1 # ns)) (map Do us)" using assms(2) by (simp add: list_all_iff)
  have c: "clean (kw ''end'' # ts)" using assms(5) by (simp add: end_words_def)
  have w: "''while'' \<in> {''if'', ''while''}" "''while'' = ''if'' \<longrightarrow> map Do us \<noteq> []" by simp_all
  let ?e = "\<lambda>m. Node (tok ''while'') (E c) [(map (\<lambda>s. stmt_node s (1 # ns)) (map Do us), tok ''return'', int (Suc (length (locals_table x))))]
    [([], 0, 0)] m False"
  have "\<exists>y m. same x y \<and> (\<forall>\<^sub>F n in sequentially. run n Expression te
      (place x (kw ''while'' # tokens 0 c @ semi # list_tokens (map Do us) @ kw ''return'' # semi # kw ''end'' # ts)) = Ok (Some (?e m), place y ts))"
  proof (rule return_branch_reads [OF w(1) assms(1) ss assms(3,4) c assms(5) w(2) assms(6)])
    fix y assume y: "branch_end y (1 # ns)"
    then have "current_branch_part y \<noteq> []" by (simp add: branch_end_def)
    let ?El = "\<lparr>else_branches = [no_branch], else_merged = {}, else_table = [], have_else = False, then_end_kind = tok ''end'', else_level = 0\<rparr>"
    from \<open>current_branch_part y \<noteq> []\<close> no_else_after_return [OF y assms(5)] outer_same_left [of y] show "\<exists>z El. outer_same y z \<and>
        map to_part (else_branches El) = [([], 0, 0)] \<and> have_else El = False \<and> returns (else_branches El) = False \<and> else_table El = [] \<and>
        end_kind (last (else_branches El)) \<noteq> tok ''end'' \<and> else_branches El \<noteq> [] \<and>
        (\<forall>\<^sub>F n in sequentially. ParseElse node_ops (run n) src [] (tok ''while'') (tok ''return'') (place y (semi # kw ''end'' # ts)) = Ok (Some El, place z ts))"
      by (intro exI [of _ "left_scope False y"] exI [of _ ?El]) (simp add: no_branch_def to_part_def returns_def block_tok_values)
  qed
  then obtain y m where "\<forall>\<^sub>F n in sequentially. run n Expression te
      (place x (kw ''while'' # tokens 0 c @ semi # list_tokens (map Do us) @ kw ''return'' # semi # kw ''end'' # ts)) = Ok (Some (?e m), place y ts)"
    by blast
  moreover have "\<not> phis_match (gen_function static (?e m))"
  proof -
    let ?th = "gen_parts static [(map E us, tok ''return'', int (Suc (length (locals_table x))))]" and ?el = "gen_parts static [([], 0, 0)]"
    have "\<not> phis_match (emit Ret (gen_while (gen_expr static c) ?th ?el False [] empty_function))"
    proof (rule return_loop_code)
      show "?th [m] b g = emit Ret (snd (gen_nodes static [m] (map E us) Undefined g))" for m b g
      proof -
        have "\<not> returned_already (map E us)" by (cases us rule: rev_cases) (simp_all add: returned_already_def)
        then show ?thesis
          by (simp add: end_branch_def HandleReturn_def expressions_alike [of _ "with_cont _ _"] expressions_alike [of _ "[_]"] split: prod.split)
      qed
      show "?el [m] (Some b) g = emit (Br (Some b)) g" for m b g by (simp add: end_plain)
    qed
    then show ?thesis by (simp add: gen_function_def comp_def gen_node_E)
  qed
  ultimately show ?thesis unfolding eventually_sequentially by blast
qed

theorem while_return_rejected_witness:
  "\<exists>e y. (\<exists>N. \<forall>n\<ge>N. parse (scoped token_list) (block_builder node_ops (scoped token_list) node_builder) n Expression 0
      (place (outside\<lparr>function_return_kind := 1\<rparr>)
        (kw ''while'' # tokens 0 (Name ''a'') @ semi # list_tokens (map Do [Name ''x'']) @ kw ''return'' # semi # kw ''end'' # [semi])) =
      Ok (Some e, place y [semi])) \<and>
    \<not> phis_match (gen_function (\<lambda>t. None) e)"
proof -
  have "wf (Name ''a'')" "list_all wf [Name ''x'']" "ready (outside\<lparr>function_return_kind := 1\<rparr>) []" "clean [semi]"
    by (simp_all add: ready_def outside_def)
  from while_return_rejected [OF this(1-3) _ this(4) nextp_semi] show ?thesis by simp
qed

section \<open>A jump to nowhere\<close>

definition jumps_nowhere :: "ir \<Rightarrow> bool" where
  "jumps_nowhere g \<longleftrightarrow> list_ex (\<lambda>l. jumps_to g l None) (inserted g)"

lemma nowhere_ops [simp]:
  "jumps_nowhere g \<Longrightarrow> jumps_nowhere (emit i g)" "jumps_nowhere g \<Longrightarrow> jumps_nowhere (set_insert_point b g)"
  "jumps_nowhere g \<Longrightarrow> jumps_nowhere (insert_block b g)" "jumps_nowhere g \<Longrightarrow> jumps_nowhere (add_incoming r v b' g)"
proof -
  have "jumps_nowhere g'" if "jumps_nowhere g" "set (inserted g) \<subseteq> set (inserted g')" "\<And>l. set (code g l) \<subseteq> set (code g' l)" for g'
    using that unfolding jumps_nowhere_def jumps_to_def list_ex_iff by blast
  note mono = this
  show "jumps_nowhere (emit i g)" "jumps_nowhere (set_insert_point b g)" "jumps_nowhere (insert_block b g)"
    "jumps_nowhere (add_incoming r v b' g)" if "jumps_nowhere g"
    by (rule mono [OF that]; auto simp: emit_def set_insert_point_def insert_block_def add_incoming_def)+
qed

lemma emit_nowhere: "block g \<in> set (inserted g) \<Longrightarrow> jumps_nowhere (emit (Br None) g)"
  by (auto simp: jumps_nowhere_def jumps_to_def list_ex_iff emit_def intro!: bexI [of _ "block g"])

lemma brk_nowhere: "brk_dest bbs d = None \<Longrightarrow> jumps_nowhere (gen_brk bbs d v g)"
  unfolding gen_brk_eq
  by (rule nowhere_ops(3)) (simp add: emit_nowhere insert_block_def set_insert_point_def)

definition brk_2 :: "tree \<Rightarrow> tree \<Rightarrow> stmt" where
  "brk_2 b c = When True b (Brk 2 c End) NoElse"

lemma brk_2_nowhere: "jumps_nowhere (g_stmt static (brk_2 b c) [1] [None] g)"
proof -
  obtain B0 gh v gc B gb where eqs: "while_head False g = (B0, gh)" "gen_expr static b gh = (v, gc)" "while_body B0 v gc = (B, gb)"
    by (metis surj_pair)
  obtain w g1 where c: "gen_expr static c gb = (w, g1)" by fastforce
  have d: "depth 2 [Suc 0, Suc 0] = 2" by (simp add: numeral_2_eq_2)
  have "jumps_nowhere (gen_brk [None, MergeBB B] 2 w g1)" by (rule brk_nowhere) (simp add: brk_dest_def)
  then show ?thesis
    using eqs c d unfolding brk_2_def
    by (cases "MergeBB B") (simp_all add: gen_while_def Let_def while_again_def continue_at_def jump_from_def comp_def)
qed

lemma gen_node_brk_2:
  assumes "wf b" "wf c"
  shows "jumps_nowhere (snd (gen_node static [merge_at None] (stmt_node (brk_2 b c) [1]) g))"
proof -
  have "stmt_wf (brk_2 b c) [1]" using assms by (simp add: brk_2_def)
  from gen_program(1) [OF this, of static "[merge_at None]" g] brk_2_nowhere show ?thesis by simp
qed

lemma if_nowhere:
  assumes "static a \<noteq> Some False" and th: "\<And>g. jumps_nowhere (th [merge_at None] None g)"
    and el: "\<And>m b g. jumps_nowhere g \<Longrightarrow> jumps_nowhere (el [m] b g)"
  shows "jumps_nowhere (emit Ret (gen_if (gen_expr static a) th el True [] g))"
  using assms(1)
  by (cases "static a"; cases "the (static a)")
    (simp_all add: gen_if_def gen_expr_def new_merge_def new_id_def continue_at_def Let_def el th)

text \<open>C35.
  An \<open>if\<close> whose branches both end with \<open>return\<close> has no block behind it, but a \<open>brk\<close> of two levels in
  a loop inside of it goes there: the program is read by the parser, and the code has a jump to a
  null pointer instead of a block, whatever the three conditions are.
\<close>

theorem brk_jumps_nowhere:
  assumes "wf a" "wf b" "wf c" "ready x ns" "function_return_kind x \<noteq> 0" "clean ts" "nextp ts \<le> 0" "static a \<noteq> Some False"
    and "length ns < 2 ^ 14"
  shows "\<exists>e y. (\<exists>N. \<forall>n\<ge>N. parse (scoped token_list) (block_builder node_ops (scoped token_list) node_builder) n Expression te
      (place x (kw ''if'' # tokens 0 a @ semi # list_tokens [brk_2 b c] @ kw ''return'' # semi #
        kw ''else'' # kw ''return'' # semi # kw ''end'' # ts)) = Ok (Some e, place y ts)) \<and>
    jumps_nowhere (gen_function static e)"
proof -
  let ?s = "\<lambda>s. stmt_node s (1 # ns)" and ?us = "kw ''else'' # list_tokens [] @ kw ''return'' # semi # kw ''end'' # ts"
  let ?lev = "int (Suc (length (locals_table x)))"
  have ss: "list_all (\<lambda>s. stmt_wf s (1 # ns)) [brk_2 b c]" "list_all (\<lambda>s. stmt_wf s (1 # ns)) []"
    using assms(2,3,9) by (simp_all add: brk_2_def)
  have cl: "clean ?us" using assms(6) by (simp add: end_words_def)
  have w: "''if'' \<in> {''if'', ''while''}" "''if'' = ''if'' \<longrightarrow> [brk_2 b c] \<noteq> []" "tok ''if'' \<noteq> tok ''repeat''"
    by (simp_all add: tok_values)
  let ?e = "\<lambda>m. Node (tok ''if'') (E a) [(map ?s [brk_2 b c], tok ''return'', ?lev)] [(map ?s [], tok ''return'', ?lev)] m True"
  have "\<exists>y m. same x y \<and> (\<forall>\<^sub>F n in sequentially. run n Expression te
      (place x (kw ''if'' # tokens 0 a @ semi # list_tokens [brk_2 b c] @ kw ''return'' # semi # ?us)) = Ok (Some (?e m), place y ts))"
  proof (rule return_branch_reads [OF w(1) assms(1) ss(1) assms(4,5) cl assms(6) w(2) assms(7)])
    fix y assume y: "branch_end y (1 # ns)" "function_return_kind y \<noteq> 0" "locals_table y = locals_table x"
    from else_after_return [OF y(1) assms(6) ss(2) y(2) w(3)] obtain z b m where
      "outer_same y z" "to_part b = (map ?s [], tok ''return'', ?lev)"
      "\<forall>\<^sub>F n in sequentially. ParseElse node_ops (run n) src [] (tok ''if'') (tok ''return'') (place y (semi # ?us)) =
        Ok (Some \<lparr>else_branches = [b], else_merged = {}, else_table = [], have_else = True, then_end_kind = tok ''else'', else_level = m\<rparr>, place z ts)"
      using y(3) by auto
    then show "\<exists>z El. outer_same y z \<and> map to_part (else_branches El) = [(map ?s [], tok ''return'', ?lev)] \<and>
        have_else El = True \<and> returns (else_branches El) = True \<and> else_table El = [] \<and>
        end_kind (last (else_branches El)) \<noteq> tok ''end'' \<and> else_branches El \<noteq> [] \<and>
        (\<forall>\<^sub>F n in sequentially. ParseElse node_ops (run n) src [] (tok ''if'') (tok ''return'') (place y (semi # ?us)) = Ok (Some El, place z ts))"
      using return_word
      by (intro exI [of _ z] exI [of _ "\<lparr>else_branches = [b], else_merged = {}, else_table = [], have_else = True, then_end_kind = tok ''else'', else_level = m\<rparr>"])
        (simp add: to_part_def returns_def)
  qed
  then obtain y m where "\<forall>\<^sub>F n in sequentially. run n Expression te
      (place x (kw ''if'' # tokens 0 a @ semi # list_tokens [brk_2 b c] @ kw ''return'' # semi # ?us)) = Ok (Some (?e m), place y ts)" by blast
  moreover have "jumps_nowhere (gen_function static (?e m))"
  proof -
    let ?th = "gen_parts static [(map ?s [brk_2 b c], tok ''return'', ?lev)]" and ?el = "gen_parts static [(map ?s [], tok ''return'', ?lev)]"
    have "jumps_nowhere (emit Ret (gen_if (gen_expr static a) ?th ?el True [] empty_function))"
    proof (rule if_nowhere [of static a, OF assms(8)])
      have "?s (brk_2 b c) = stmt_node (brk_2 b c) [1]" by (simp add: brk_2_def numeral_2_eq_2)
      moreover have "with_cont None [merge_at None] = [merge_at None]" by (simp add: with_cont_def merge_at_def)
      ultimately show "jumps_nowhere (?th [merge_at None] None g)" for g
        using gen_node_brk_2 [OF assms(2,3), of static g] return_word
        by (simp add: end_branch_def HandleReturn_def Let_def split_def)
      show "jumps_nowhere g \<Longrightarrow> jumps_nowhere (?el [m] b g)" for m b g
        using return_word by (simp add: end_branch_def HandleReturn_def)
    qed
    then show ?thesis by (simp add: gen_function_def gen_node_E)
  qed
  ultimately show ?thesis unfolding eventually_sequentially by auto
qed

theorem brk_jumps_nowhere_witness:
  "\<exists>e y. (\<exists>N. \<forall>n\<ge>N. parse (scoped token_list) (block_builder node_ops (scoped token_list) node_builder) n Expression 0
      (place (outside\<lparr>function_return_kind := 1\<rparr>) (kw ''if'' # tokens 0 (Name ''a'') @ semi # list_tokens [brk_2 (Name ''b'') (Name ''c'')] @
        kw ''return'' # semi # kw ''else'' # kw ''return'' # semi # kw ''end'' # [semi])) = Ok (Some e, place y [semi])) \<and>
    jumps_nowhere (gen_function (\<lambda>t. None) e)"
proof -
  have "wf (Name ''a'')" "wf (Name ''b'')" "wf (Name ''c'')" "ready (outside\<lparr>function_return_kind := 1\<rparr>) []" "clean [semi]"
    by (simp_all add: ready_def outside_def)
  from brk_jumps_nowhere [OF this(1-4) _ this(5) nextp_semi, of "\<lambda>t. None"] show ?thesis by simp
qed

end
