(* ===== verification/ForLoops.thy ===== *)
theory ForLoops
  imports Meaning "HOL-Library.Word"
begin

text \<open>
  Loops with a control variable, \<open>ForExprAST\<close> of src/codegen.cc without iterator methods: integers,
  ranges and the elements of arrays. What the emitted instructions compute is written as functions on
  words; the loop is put together as in \<open>codegen_raw\<close>.
\<close>

section \<open>Preparation, condition and iteration\<close>

text \<open>\<open>initializer\<close> or \<open>Ptr\<close>, \<open>limit\<close> and \<open>Step\<close>, as \<open>PrepareIterator\<close> leaves them.\<close>

record 'v for_range =
  initial :: 'v
  limit :: 'v
  Step :: 'v

text \<open>\<open>for v in n\<close>, \<open>for v in min..max\<close> and \<open>for v in array\<close>; with \<open>reverse_in\<close> the ends are swapped.\<close>

definition in_number :: "bool \<Rightarrow> 'w::len word \<Rightarrow> 'w word for_range" where
  "in_number descending n = (let limit = n - 1 in
     if descending then \<lparr>initial = limit, limit = 0, Step = 1\<rparr> else \<lparr>initial = 0, limit = limit, Step = 1\<rparr>)"

definition in_range :: "bool \<Rightarrow> 'w::len word \<Rightarrow> 'w word \<Rightarrow> 'w word for_range" where
  "in_range descending mn mx =
     (if descending then \<lparr>initial = mx, limit = mn, Step = 1\<rparr> else \<lparr>initial = mn, limit = mx, Step = 1\<rparr>)"

definition in_array :: "bool \<Rightarrow> 'w::len word \<Rightarrow> 'w word \<Rightarrow> 'w word \<Rightarrow> 'w word for_range" where
  "in_array descending Ptr Dim sz = (let limit = Ptr + sz * (Dim - 1) in
     if descending then \<lparr>initial = limit, limit = Ptr, Step = sz\<rparr> else \<lparr>initial = Ptr, limit = limit, Step = sz\<rparr>)"

definition StartIndex :: "bool \<Rightarrow> 'w::len word \<Rightarrow> 'k::len word" where
  "StartIndex descending Dim = (if descending then ucast Dim - 1 else 0)"

definition next_index :: "bool \<Rightarrow> 'k::len word \<Rightarrow> 'k word" where
  "next_index descending i = (if descending then i - 1 else i + 1)"

definition CreateCondition :: "bool \<Rightarrow> bool \<Rightarrow> bool \<Rightarrow> 'w::len word for_range \<Rightarrow> 'w word \<Rightarrow> bool" where
  "CreateCondition sg descending at_end R v =
     (if descending then
        (if sg then (if at_end then limit R <s v else limit R \<le>s v) else (if at_end then limit R < v else limit R \<le> v))
      else
        (if sg then (if at_end then v <s limit R else v \<le>s limit R) else (if at_end then v < limit R else v \<le> limit R)))"

definition Iterate :: "bool \<Rightarrow> 'w::len word for_range \<Rightarrow> 'w word \<Rightarrow> 'w word" where
  "Iterate descending R v = (if descending then v - Step R else v + Step R)"

text \<open>
  An existing variable gets the first element of an array only if \<open>range_is_valid\<close>; a new one gets it
  before the condition.
\<close>

definition first_copied :: "bool \<Rightarrow> bool \<Rightarrow> 'w::len word for_range \<Rightarrow> bool" where
  "first_copied existing descending R \<longleftrightarrow> \<not> existing \<or> (if descending then limit R < initial R else initial R < limit R)"

section \<open>The loop\<close>

text \<open>
  The control variable is part of the memory. The stack pointer is that of the beginning in every
  round. The condition is checked before the first round, with equality, and after each round,
  without it; so the last value is not passed.
\<close>

definition for_round :: "bool \<Rightarrow> bool \<Rightarrow> 'w::len word for_range \<Rightarrow> ('w word \<times> 'x) meaning \<Rightarrow> int \<Rightarrow> ('w word \<times> 'x) state
    \<Rightarrow> (('w word \<times> 'x) state + outcome \<times> ('w word \<times> 'x) state) option" where
  "for_round sg descending R f h s = (case f (fst s, h) of
     None \<Rightarrow> None
   | Some (Leave n, y) \<Rightarrow> Some (Inr (Leave n, y))
   | Some (Normal, (v, x), k) \<Rightarrow>
       Some (if CreateCondition sg descending True R v then Inl ((Iterate descending R v, x), k) else Inr (Normal, (v, x), k)))"

definition m_for :: "bool \<Rightarrow> bool \<Rightarrow> 'w::len word for_range \<Rightarrow> ('w word \<times> 'x) meaning \<Rightarrow> ('w word \<times> 'x) meaning \<Rightarrow> ('w word \<times> 'x) meaning" where
  "m_for sg descending R f els s = (let s = ((initial R, snd (fst s)), snd s) in
     if CreateCondition sg descending False R (initial R) then iterate (for_round sg descending R f (snd s)) s else els s)"

section \<open>Loops over a list of values\<close>

text \<open>A body that ends normally and leaves the control variable alone.\<close>

definition body_of :: "('w::len word \<Rightarrow> 'x state \<Rightarrow> 'x state) \<Rightarrow> ('w word \<times> 'x) meaning" where
  "body_of f s = (let y = f (fst (fst s)) (snd (fst s), snd s) in Some (Normal, (fst (fst s), fst y), snd y))"

definition rounds :: "('w \<Rightarrow> 'x state \<Rightarrow> 'x state) \<Rightarrow> int \<Rightarrow> 'w list \<Rightarrow> 'x state \<Rightarrow> 'x state" where
  "rounds f h vs s = fold (\<lambda>v s. f v (fst s, h)) vs s"

fun linked :: "bool \<Rightarrow> bool \<Rightarrow> 'w::len word for_range \<Rightarrow> 'w word list \<Rightarrow> bool" where
  "linked sg descending R [] = False"
| "linked sg descending R [v] = (\<not> CreateCondition sg descending True R v)"
| "linked sg descending R (v # w # vs) =
     (CreateCondition sg descending True R v \<and> w = Iterate descending R v \<and> linked sg descending R (w # vs))"

lemma for_round_body:
  "for_round sg descending R (body_of f) h ((v, x), k) = (let (x', k') = f v (x, h) in
     Some (if CreateCondition sg descending True R v then Inl ((Iterate descending R v, x'), k') else Inr (Normal, (v, x'), k')))"
  by (simp add: for_round_def body_of_def split_def Let_def)

lemma rounds_Cons: "rounds f h (v # vs) s = rounds f h vs (f v (fst s, h))"
  by (simp add: rounds_def)

lemma iterate_linked:
  "linked sg descending R vs \<Longrightarrow> iterate (for_round sg descending R (body_of f) h) ((hd vs, x), k) =
     Some (Normal, (last vs, fst (rounds f h vs (x, k))), snd (rounds f h vs (x, k)))"
proof (induction vs arbitrary: x k rule: induct_list012)
  case (2 v)
  then show ?case by (subst iterate.simps) (simp add: for_round_body rounds_def split_def Let_def)
next
  case (3 v w vs)
  obtain x' k' where f: "f v (x, h) = (x', k')" by fastforce
  have l: "linked sg descending R (w # vs)" "CreateCondition sg descending True R v" "w = Iterate descending R v"
    using "3.prems" unfolding linked.simps by blast+
  have "iterate (for_round sg descending R (body_of f) h) ((v, x), k) = iterate (for_round sg descending R (body_of f) h) ((w, x'), k')"
    by (subst iterate.simps) (simp add: for_round_body f l(2,3))
  with "3.IH"(2) [OF l(1), of x' k'] show ?case by (simp add: rounds_Cons [of f h v] f)
qed simp

lemma for_linked:
  assumes "linked sg descending R vs" "hd vs = initial R" "CreateCondition sg descending False R (initial R)"
  shows "m_for sg descending R (body_of f) els ((v, x), h) =
    Some (Normal, (last vs, fst (rounds f h vs (x, h))), snd (rounds f h vs (x, h)))"
  using iterate_linked [OF assms(1), of f h x h] assms(2,3) by (simp add: m_for_def)

section \<open>Ranges of integers\<close>

definition value_of :: "bool \<Rightarrow> 'w::len word \<Rightarrow> int" where
  "value_of sg v = (if sg then sint v else uint v)"

definition range_values :: "bool \<Rightarrow> bool \<Rightarrow> 'w::len word \<Rightarrow> 'w word \<Rightarrow> 'w word list" where
  "range_values sg descending mn mx =
     (let vs = map word_of_int [value_of sg mn..value_of sg mx] in if descending then rev vs else vs)"

lemma condition_value:
  "CreateCondition sg descending at_end R v \<longleftrightarrow>
    (let a = value_of sg (limit R); b = value_of sg v in if descending then (if at_end then a < b else a \<le> b) else (if at_end then b < a else b \<le> a))"
  by (simp add: CreateCondition_def value_of_def word_less_def word_le_def word_sless_alt word_sle_eq)

lemma value_of_word:
  fixes mn mx :: "'w::len word"
  assumes "value_of sg mn \<le> i" "i \<le> value_of sg mx"
  shows "value_of sg (word_of_int i :: 'w word) = i"
proof (cases sg)
  case True
  then have "- (2 ^ (LENGTH('w) - 1)) \<le> i" "i < 2 ^ (LENGTH('w) - 1)"
    using assms sint_greater_eq [of mn] sint_less [of mx] by (auto simp: value_of_def)
  then show ?thesis using True by (simp add: value_of_def signed_take_bit_int_eq_self signed_of_int)
next
  case False
  then have "uint mn \<le> i" "i \<le> uint mx" using assms by (simp_all add: value_of_def)
  moreover have "0 \<le> uint mn" "uint mx < 2 ^ LENGTH('w)" by simp_all
  ultimately have "0 \<le> i" "i < 2 ^ LENGTH('w)" by linarith+
  then show ?thesis using False by (simp add: value_of_def take_bit_int_eq_self unsigned_of_int)
qed

lemma value_of_int [simp]: "word_of_int (value_of sg v) = v"
  by (simp add: value_of_def)

text \<open>Values at equal distances, up to the limit or down to it.\<close>

lemma linked_up:
  fixes e :: "int \<Rightarrow> 'w::len word"
  assumes "i \<le> m" and e: "\<And>k. l \<le> k \<Longrightarrow> k \<le> m \<Longrightarrow> value_of sg (e k) = a + b * k" "0 < b" "\<And>k. e (k + 1) = e k + Step R" "limit R = e m"
    and "l \<le> i"
  shows "linked sg False R (map e [i..m])"
  using assms(1,6)
proof (induction i rule: int_le_induct)
  case base
  then show ?case by (simp add: condition_value e(4))
next
  case (step i)
  have "[i - 1..m] = (i - 1) # i # [i + 1..m]" "[i..m] = i # [i + 1..m]"
    using step.hyps by (simp_all add: upto_rec1 [of "i - 1"] upto_rec1 [of i])
  moreover have "b * (i - 1) < b * m" using step.hyps e(2) by simp
  ultimately show ?case
    using step e(1) [of "i - 1"] e(1) [of m] e(3) [of "i - 1"] by (simp add: condition_value e(4) Iterate_def Let_def)
qed

lemma linked_down:
  fixes e :: "int \<Rightarrow> 'w::len word"
  assumes "m \<le> i" and e: "\<And>k. m \<le> k \<Longrightarrow> k \<le> l \<Longrightarrow> value_of sg (e k) = a + b * k" "0 < b" "\<And>k. e (k + 1) = e k + Step R" "limit R = e m"
    and "i \<le> l"
  shows "linked sg True R (rev (map e [m..i]))"
  using assms(1,6)
proof (induction i rule: int_ge_induct)
  case base
  then show ?case by (simp add: condition_value e(4))
next
  case (step i)
  have "[m..i + 1] = [m..i - 1] @ [i, i + 1]" "[m..i] = [m..i - 1] @ [i]"
    using step.hyps by (simp_all add: upto_rec2)
  moreover have "b * m < b * (i + 1)" using step.hyps e(2) by simp
  ultimately show ?case
    using step e(1) [of "i + 1"] e(1) [of m] e(3) [of i] by (simp add: condition_value e(4) Iterate_def Let_def)
qed

lemma range_linked:
  fixes mn mx :: "'w::len word"
  assumes "value_of sg mn \<le> value_of sg mx"
  shows "linked sg False (in_range False mn mx) (map word_of_int [value_of sg mn..value_of sg mx])"
    "linked sg True (in_range True mn mx) (rev (map word_of_int [value_of sg mn..value_of sg mx]))"
  by (rule linked_up [where l = "value_of sg mn" and a = 0 and b = 1], use assms in \<open>simp_all add: in_range_def value_of_word\<close>)
    (rule linked_down [where l = "value_of sg mx" and a = 0 and b = 1], use assms in \<open>simp_all add: in_range_def value_of_word\<close>)

lemma for_range:
  fixes mn mx :: "'w::len word" and x :: 'x
  shows "m_for sg descending (in_range descending mn mx) (body_of f) els ((v, x), h) =
    (let vs = range_values sg descending mn mx in
     if vs = [] then els ((if descending then mx else mn, x), h)
     else Some (Normal, (last vs, fst (rounds f h vs (x, h))), snd (rounds f h vs (x, h))))"
proof (cases "value_of sg mn \<le> value_of sg mx")
  case True
  note ends = range_linked [OF True]
  show ?thesis
  proof (cases descending)
    case d: True
    have "hd (rev (map word_of_int [value_of sg mn..value_of sg mx])) = mx"
      using True by (simp add: hd_rev last_map upto_rec2)
    then show ?thesis
      using True ends(2) d for_linked [of sg True "in_range True mn mx" "rev (map word_of_int [value_of sg mn..value_of sg mx])" f els v x h]
      by (simp add: range_values_def in_range_def condition_value Let_def)
  next
    case d: False
    have "hd (map word_of_int [value_of sg mn..value_of sg mx]) = mn"
      using True by (simp add: upto_rec1 [of "value_of sg mn"])
    then show ?thesis
      using True ends(1) d for_linked [of sg False "in_range False mn mx" "map word_of_int [value_of sg mn..value_of sg mx]" f els v x h]
      by (simp add: range_values_def in_range_def condition_value Let_def)
  qed
next
  case False
  then show ?thesis
    by (simp add: m_for_def range_values_def in_range_def condition_value Let_def)
qed

text \<open>C36.
  A loop over a range of integers visits each value from the lower to the upper end once, with
  \<open>reverse_in\<close> from the upper to the lower one, and ends, whatever the ends are: also if the upper end
  is the greatest value of the type, after which the control variable would wrap around. The stack
  pointer of every round is that of the first one; with an empty range the \<open>else\<close> branch is executed.
\<close>

theorem for_range_visits:
  fixes mn mx :: "'w::len word" and x :: 'x
  shows "m_for sg descending (in_range descending mn mx) (body_of f) els ((v, x), h) =
    (let vs = range_values sg descending mn mx in
     if vs = [] then els ((if descending then mx else mn, x), h)
     else Some (Normal, (last vs, fst (rounds f h vs (x, h))), snd (rounds f h vs (x, h))))"
  by (rule for_range)

text \<open>A number \<open>n\<close> stands for the range from 0 to \<open>n - 1\<close>, which is computed with wrap-around.\<close>

lemma in_number_range: "in_number descending n = in_range descending 0 (n - 1)"
  by (simp add: in_number_def in_range_def Let_def)

lemma all_words: "range_values False False 0 (- 1 :: 'w::len word) = map word_of_int [0..2 ^ LENGTH('w) - 1]"
proof -
  have "uint (- 1 :: 'w word) = 2 ^ LENGTH('w) - 1" by (simp add: unsigned_minus_1_eq_mask mask_eq_exp_minus_1)
  then show ?thesis by (simp add: range_values_def value_of_def)
qed

lemma all_words_set: "distinct (range_values False descending 0 (- 1 :: 'w::len word))" "set (range_values False descending 0 (- 1 :: 'w word)) = UNIV"
proof -
  let ?vs = "map word_of_int [0..2 ^ LENGTH('w) - 1] :: 'w word list"
  have "inj_on (word_of_int :: int \<Rightarrow> 'w word) {0..2 ^ LENGTH('w) - 1}"
    by (rule inj_on_inverseI [of _ uint]) (simp add: unsigned_of_int take_bit_int_eq_self)
  then have "distinct ?vs" by (simp add: distinct_map)
  moreover have "v \<in> set ?vs" for v
    using uint_lt2p [of v] by (auto intro!: image_eqI [of _ _ "uint v"])
  then have "set ?vs = UNIV" by blast
  moreover have "range_values False descending 0 (- 1 :: 'w word) = (if descending then rev ?vs else ?vs)"
    using all_words by (simp add: range_values_def)
  ultimately show "distinct (range_values False descending 0 (- 1 :: 'w word))" "set (range_values False descending 0 (- 1 :: 'w word)) = UNIV"
    by simp_all
qed

text \<open>C38.
  A loop over the number 0 of an unsigned type does not skip its body, as it does for a signed one:
  \<open>n - 1\<close> wraps around, and the body is executed for every value of the type.
\<close>

theorem for_zero_visits_all:
  fixes x :: 'x and els :: "('w::len word \<times> 'x) meaning"
  shows "\<exists>vs. distinct vs \<and> set vs = UNIV \<and> m_for False descending (in_number descending (0 :: 'w word)) (body_of f) els ((v, x), h) =
    Some (Normal, (last vs, fst (rounds f h vs (x, h))), snd (rounds f h vs (x, h)))"
proof (intro exI conjI)
  let ?vs = "range_values False descending 0 (- 1 :: 'w word)"
  show "distinct ?vs" "set ?vs = UNIV" by (rule all_words_set)+
  then have "?vs \<noteq> []" by auto
  then show "m_for False descending (in_number descending (0 :: 'w word)) (body_of f) els ((v, x), h) =
      Some (Normal, (last ?vs, fst (rounds f h ?vs (x, h))), snd (rounds f h ?vs (x, h)))"
    by (simp add: in_number_range for_range Let_def)
qed

section \<open>Elements of arrays\<close>

definition element :: "'w::len word \<Rightarrow> 'w word \<Rightarrow> int \<Rightarrow> 'w word" where
  "element Ptr sz k = Ptr + sz * word_of_int k"

text \<open>The addresses do not reach the end of the address space, or of its lower half if they are compared with sign.\<close>

definition fits :: "bool \<Rightarrow> 'w::len word \<Rightarrow> 'w word \<Rightarrow> 'w word \<Rightarrow> bool" where
  "fits sg Ptr Dim sz \<longleftrightarrow> 0 < Dim \<and> 0 < sz \<and> uint Ptr + uint sz * uint Dim \<le> 2 ^ (if sg then LENGTH('w) - 1 else LENGTH('w))"

lemma element_value:
  fixes Ptr :: "'w::len word"
  assumes "fits sg Ptr Dim sz" "0 \<le> k" "k < uint Dim"
  shows "value_of sg (element Ptr sz k) = uint Ptr + uint sz * k"
proof -
  have "uint sz * k < uint sz * uint Dim" using assms by (simp add: fits_def word_less_def)
  moreover have "0 \<le> uint sz * k" using assms(2) by simp
  ultimately have b: "0 \<le> uint Ptr + uint sz * k" "uint Ptr + uint sz * k < 2 ^ (if sg then LENGTH('w) - 1 else LENGTH('w))"
    using assms(1) unfolding fits_def by (simp, linarith)
  have word: "0 \<le> m \<Longrightarrow> m < 2 ^ (if sg then LENGTH('w) - 1 else LENGTH('w)) \<Longrightarrow> value_of sg (word_of_int m :: 'w word) = m" for m
    by (auto simp: value_of_def signed_of_int unsigned_of_int signed_take_bit_int_eq_self take_bit_int_eq_self)
  from word [OF b] show ?thesis by (simp add: element_def)
qed

lemma array_linked:
  fixes Ptr :: "'w::len word"
  assumes "fits sg Ptr Dim sz"
  shows "linked sg False (in_array False Ptr Dim sz) (map (element Ptr sz) [0..uint Dim - 1])"
    "linked sg True (in_array True Ptr Dim sz) (rev (map (element Ptr sz) [0..uint Dim - 1]))"
proof -
  have d: "0 \<le> uint Dim - 1" "0 < uint sz" using assms by (auto simp: fits_def word_less_def)
  have e: "element Ptr sz (k + 1) = element Ptr sz k + sz" "element Ptr sz (uint Dim - 1) = Ptr + sz * (Dim - 1)" "element Ptr sz 0 = Ptr" for k
    by (simp_all add: element_def algebra_simps)
  show "linked sg False (in_array False Ptr Dim sz) (map (element Ptr sz) [0..uint Dim - 1])"
    by (rule linked_up [where l = 0 and a = "uint Ptr" and b = "uint sz"])
      (use d e element_value [OF assms] in \<open>simp_all add: in_array_def Let_def\<close>)
  show "linked sg True (in_array True Ptr Dim sz) (rev (map (element Ptr sz) [0..uint Dim - 1]))"
    by (rule linked_down [where l = "uint Dim - 1" and a = "uint Ptr" and b = "uint sz"])
      (use d e element_value [OF assms] in \<open>simp_all add: in_array_def Let_def\<close>)
qed

lemma index_steps:
  "(next_index True ^^ i) s = s - of_nat i" "(next_index False ^^ i) s = s + of_nat i"
  by (induction i) (simp_all add: next_index_def algebra_simps)

lemma index_value:
  fixes Dim :: "'w::len word"
  assumes "int i < uint Dim"
  shows "uint ((next_index descending ^^ i) (StartIndex descending Dim :: 'w word)) = (if descending then uint Dim - 1 - int i else int i)"
proof -
  have "uint (word_of_int m :: 'w word) = m" if "0 \<le> m" "m < uint Dim" for m
  proof -
    have "m < 2 ^ LENGTH('w)" using uint_lt2p [of Dim] that by linarith
    with that show ?thesis by (simp add: unsigned_of_int take_bit_int_eq_self)
  qed
  from this [of "int i"] this [of "uint Dim - 1 - int i"] show ?thesis
    using assms by (cases descending) (simp_all add: index_steps StartIndex_def)
qed

text \<open>C37.
  A loop over a non-empty array visits the addresses of its elements in their order, with \<open>reverse_in\<close>
  in the reverse order, each of them once, and ends; the index counts along with them.
\<close>

theorem for_array_visits:
  fixes x :: 'x and els :: "('w::len word \<times> 'x) meaning"
  assumes "fits sg Ptr Dim sz"
  shows "let vs = map (element Ptr sz) [0..uint Dim - 1]; vs = (if descending then rev vs else vs) in
    m_for sg descending (in_array descending Ptr Dim sz) (body_of f) els ((v, x), h) =
      Some (Normal, (last vs, fst (rounds f h vs (x, h))), snd (rounds f h vs (x, h))) \<and>
    (\<forall>i<length vs. vs ! i = element Ptr sz (uint ((next_index descending ^^ i) (StartIndex descending Dim :: 'w word))))"
proof -
  let ?vs = "map (element Ptr sz) [0..uint Dim - 1]"
  have d: "0 < uint Dim" "0 < uint sz" using assms by (auto simp: fits_def word_less_def)
  have l: "length ?vs = nat (uint Dim)" by simp
  have n: "?vs ! i = element Ptr sz (int i)" if "int i < uint Dim" for i 
  proof -
    have "0 + int i \<le> uint Dim - 1" "i < length [0..uint Dim - 1]" using that unfolding length_upto by linarith+
    then show ?thesis using nth_upto [of 0 i "uint Dim - 1"] by (simp add: nth_map)
  qed
  have v: "0 \<le> k \<Longrightarrow> k < uint Dim \<Longrightarrow> value_of sg (element Ptr sz k) = uint Ptr + uint sz * k" for k by (rule element_value [OF assms])
  have "hd ?vs = Ptr" "?vs \<noteq> []" using d by (simp_all add: upto_rec1 [of 0] element_def)
  moreover have "last ?vs = Ptr + sz * (Dim - 1)" using d upto_rec2 [of 0 "uint Dim - 1"] by (simp add: element_def)
  ultimately have ends: "hd ?vs = Ptr" "last ?vs = Ptr + sz * (Dim - 1)" "?vs \<noteq> []" by blast+
  have b: "int i < uint Dim" if "i < unat Dim" for i
    using that of_nat_less_iff [of i "unat Dim", where ?'a = int] by (simp only: of_nat_unat)
  have first: "CreateCondition sg descending False (in_array descending Ptr Dim sz) (initial (in_array descending Ptr Dim sz))"
  proof -
    have "0 \<le> uint sz * (uint Dim - 1)" using d by simp
    then show ?thesis using v [of 0] v [of "uint Dim - 1"] d by (simp add: condition_value in_array_def element_def Let_def)
  qed
  show ?thesis
  proof (cases descending)
    case True
    have "m_for sg descending (in_array descending Ptr Dim sz) (body_of f) els ((v, x), h) =
        Some (Normal, (last (rev ?vs), fst (rounds f h (rev ?vs) (x, h))), snd (rounds f h (rev ?vs) (x, h)))"
      using array_linked(2) [OF assms] first ends(2,3) True by (intro for_linked) (simp_all add: in_array_def Let_def hd_rev)
    moreover have "rev ?vs ! i = element Ptr sz (uint Dim - 1 - int i)" if "int i < uint Dim" for i

    proof -
      have i: "i < length ?vs" using that unfolding l by linarith
      then have e: "int (length ?vs - Suc i) = uint Dim - 1 - int i" using d that unfolding l by linarith
      then show ?thesis using n [of "length ?vs - Suc i"] that unfolding rev_nth [OF i] e by simp
    qed
    ultimately show ?thesis using True index_value [of _ Dim True] b by (simp add: Let_def)
  next
    case False
    have "m_for sg descending (in_array descending Ptr Dim sz) (body_of f) els ((v, x), h) =
        Some (Normal, (last ?vs, fst (rounds f h ?vs (x, h))), snd (rounds f h ?vs (x, h)))"
      using array_linked(1) [OF assms] first ends(1) False by (intro for_linked) (simp_all add: in_array_def Let_def)
    then show ?thesis using False n index_value [of _ Dim False] b by (simp add: Let_def)
  qed
qed

text \<open>Three elements of 8 bytes in reverse order; the body adds the address to the memory.\<close>

theorem for_array_visits_witness:
  "m_for False True (in_array True (0x1000 :: 64 word) 3 8) (body_of (\<lambda>a (x, h). (x @ [uint a], h + 16))) (\<lambda>s. None) ((0, []), 0) =
    Some (Normal, (0x1000, [0x1010, 0x1008, 0x1000]), 16)"
proof -
  have "fits False (0x1000 :: 64 word) 3 8" by (simp add: fits_def)
  moreover have "map (element (0x1000 :: 64 word) 8) [0..2] = [0x1000, 0x1008, 0x1010]" by (simp add: upto.simps element_def)
  ultimately show ?thesis
    using for_array_visits [where sg = False and Ptr = "0x1000 :: 64 word" and Dim = 3 and sz = 8 and descending = True and x = "[]" and h = 0 and v = 0
        and els = "\<lambda>s. None" and f = "\<lambda>a (x, h). (x @ [uint a], h + 16)"]
    by (simp add: Let_def rounds_def)
qed

text \<open>
  If the variable exists already and the array has a single element, the body is executed once, but
  with the old contents of the variable.
\<close>

lemma single_element_missed:
  "\<not> first_copied True descending (in_array descending Ptr 1 sz)"
  "CreateCondition sg descending False (in_array descending Ptr 1 sz) (initial (in_array descending Ptr 1 sz))"
  by (simp_all add: first_copied_def in_array_def CreateCondition_def)

end
