(* ===== verification/Memory.thy ===== *)
theory Memory
  imports Prelude
begin

text \<open>
  Memory as the C code of the runtime library sees it: bytes and the blocks that may be accessed.
  Every access outside of a block, every copy between regions that overlap and every reallocation
  of something that is not a live block of the heap is undefined, the value \<open>None\<close>.
\<close>

section \<open>Blocks and bytes\<close>

record block =
  blk_base :: nat
  blk_size :: nat
  blk_heap :: bool

record memory =
  byte_at :: "nat \<Rightarrow> u8"
  blocks :: "block list"

definition inside :: "nat \<Rightarrow> nat \<Rightarrow> block \<Rightarrow> bool" where
  "inside a n b \<longleftrightarrow> blk_base b \<le> a \<and> a + n \<le> blk_base b + blk_size b"

definition accessible :: "memory \<Rightarrow> nat \<Rightarrow> nat \<Rightarrow> bool" where
  "accessible m a n \<longleftrightarrow> n = 0 \<or> list_ex (inside a n) (blocks m)"

definition apart :: "block \<Rightarrow> block \<Rightarrow> bool" where
  "apart b b' \<longleftrightarrow> blk_base b + blk_size b \<le> blk_base b' \<or> blk_base b' + blk_size b' \<le> blk_base b"

definition valid_memory :: "memory \<Rightarrow> bool" where
  "valid_memory m \<longleftrightarrow> sorted_wrt apart (blocks m) \<and> list_all (\<lambda>b. 0 < blk_base b \<and> 0 < blk_size b) (blocks m)"

definition bytes :: "memory \<Rightarrow> nat \<Rightarrow> nat \<Rightarrow> u8 list" where
  "bytes m a n = map (byte_at m) [a..<a + n]"

definition put :: "nat \<Rightarrow> u8 list \<Rightarrow> memory \<Rightarrow> memory" where
  "put a xs m = m\<lparr>byte_at := (\<lambda>x. if a \<le> x \<and> x < a + length xs then xs ! (x - a) else byte_at m x)\<rparr>"

definition load_byte :: "memory \<Rightarrow> nat \<Rightarrow> u8 option" where
  "load_byte m a = (if accessible m a 1 then Some (byte_at m a) else None)"

definition store_bytes :: "memory \<Rightarrow> nat \<Rightarrow> u8 list \<Rightarrow> memory option" where
  "store_bytes m a xs = (if accessible m a (length xs) then Some (put a xs m) else None)"

definition memcpy :: "memory \<Rightarrow> nat \<Rightarrow> nat \<Rightarrow> nat \<Rightarrow> memory option" where
  "memcpy m dst src n =
     (if accessible m src n \<and> accessible m dst n \<and> (n = 0 \<or> dst + n \<le> src \<or> src + n \<le> dst)
      then Some (put dst (bytes m src n) m) else None)"

text \<open>A \<open>size_t\<close> has eight bytes, the lowest first.\<close>

definition word_bytes :: "nat \<Rightarrow> u8 list" where
  "word_bytes x = map (\<lambda>i. word_of_nat (x div 256 ^ i)) [0..<8]"

fun bytes_word :: "u8 list \<Rightarrow> nat" where
  "bytes_word [] = 0"
| "bytes_word (b # bs) = unat b + 256 * bytes_word bs"

definition load_word :: "memory \<Rightarrow> nat \<Rightarrow> nat option" where
  "load_word m a = (if accessible m a 8 then Some (bytes_word (bytes m a 8)) else None)"

definition store_word :: "memory \<Rightarrow> nat \<Rightarrow> nat \<Rightarrow> memory option" where
  "store_word m a x = store_bytes m a (word_bytes x)"

text \<open>The allocator is a parameter: it is given the memory and a size and returns an address.\<close>

type_synonym allocator = "memory \<Rightarrow> nat \<Rightarrow> nat"

definition good_allocator :: "allocator \<Rightarrow> bool" where
  "good_allocator alloc \<longleftrightarrow>
     (\<forall>m n. 0 < alloc m n \<and> 8 dvd alloc m n \<and>
        list_all (apart \<lparr>blk_base = alloc m n, blk_size = n, blk_heap = True\<rparr>) (blocks m))"

definition malloc :: "allocator \<Rightarrow> memory \<Rightarrow> nat \<Rightarrow> nat \<times> memory" where
  "malloc alloc m n =
     (alloc m n, m\<lparr>blocks := \<lparr>blk_base = alloc m n, blk_size = n, blk_heap = True\<rparr> # blocks m\<rparr>)"

definition heap_block :: "memory \<Rightarrow> nat \<Rightarrow> block option" where
  "heap_block m p = find (\<lambda>b. blk_base b = p \<and> blk_heap b) (blocks m)"

definition without :: "nat \<Rightarrow> memory \<Rightarrow> memory" where
  "without p m = m\<lparr>blocks := filter (\<lambda>b. blk_base b \<noteq> p) (blocks m)\<rparr>"

definition realloc :: "allocator \<Rightarrow> memory \<Rightarrow> nat \<Rightarrow> nat \<Rightarrow> (nat \<times> memory) option" where
  "realloc alloc m p n =
     (if p = 0 then Some (malloc alloc m n)
      else case heap_block m p of
        None \<Rightarrow> None
      | Some b \<Rightarrow>
          let (q, m') = malloc alloc (without p m) n
          in Some (q, put q (bytes m p (min n (blk_size b))) m'))"

section \<open>Reading what has been written\<close>

lemma length_bytes [simp]: "length (bytes m a n) = n"
  by (simp add: bytes_def)

lemma nth_bytes [simp]: "i < n \<Longrightarrow> bytes m a n ! i = byte_at m (a + i)"
  by (simp add: bytes_def)

lemma blocks_put [simp]: "blocks (put a xs m) = blocks m"
  by (simp add: put_def)

lemma accessible_put [simp]: "accessible (put a xs m) = accessible m"
  by (simp add: accessible_def fun_eq_iff)

lemma valid_put [simp]: "valid_memory (put a xs m) = valid_memory m"
  by (simp add: valid_memory_def)

lemma put_Nil [simp]: "put a [] m = m"
proof -
  have "(\<lambda>x. if a \<le> x \<and> x < a + length [] then [] ! (x - a) else byte_at m x) = byte_at m" by (rule ext) auto
  then show ?thesis by (simp add: put_def)
qed

lemma byte_put:
  "byte_at (put a xs m) x = (if a \<le> x \<and> x < a + length xs then xs ! (x - a) else byte_at m x)"
  by (simp add: put_def)

lemma bytes_put_same: "length xs = n \<Longrightarrow> bytes (put a xs m) a n = xs"
  by (rule nth_equalityI) (simp_all add: byte_put)

lemma bytes_put_apart: "b + n \<le> a \<or> a + length xs \<le> b \<Longrightarrow> bytes (put a xs m) b n = bytes m b n"
  by (rule nth_equalityI) (auto simp: byte_put)

lemma bytes_put_prefix: "n \<le> length xs \<Longrightarrow> bytes (put a xs m) a n = take n xs"
  by (rule nth_equalityI) (simp_all add: byte_put)

lemma bytes_split: "bytes m a (n + k) = bytes m a n @ bytes m (a + n) k"
  by (rule nth_equalityI) (auto simp: nth_append)

lemma bytes_0 [simp]: "bytes m a 0 = []"
  by (simp add: bytes_def)

lemma bytes_cong: "(\<And>x. a \<le> x \<Longrightarrow> x < a + n \<Longrightarrow> byte_at m x = byte_at m' x) \<Longrightarrow> bytes m a n = bytes m' a n"
  by (rule nth_equalityI) auto

lemma length_word_bytes [simp]: "length (word_bytes x) = 8"
  by (simp add: word_bytes_def)

lemma bytes_word_map:
  "bytes_word (map (\<lambda>i. word_of_nat (x div 256 ^ i)) [0..<n]) = x mod 256 ^ n"
proof (induction n arbitrary: x)
  case (Suc n)
  have "map (\<lambda>i. word_of_nat (x div 256 ^ i)) [0..<Suc n] =
    (word_of_nat x :: u8) # map (\<lambda>i. word_of_nat (x div 256 div 256 ^ i)) [0..<n]"
    by (simp add: upt_conv_Cons map_Suc_upt [symmetric] div_mult2_eq [symmetric] del: upt_Suc)
  then show ?case
    using Suc [of "x div 256"] by (simp add: unat_of_nat mod_mult2_eq add.commute del: upt_Suc)
qed simp

lemma bytes_word_bytes: "x < 2 ^ 64 \<Longrightarrow> bytes_word (word_bytes x) = x"
  unfolding word_bytes_def bytes_word_map by simp

section \<open>Blocks that do not change\<close>

text \<open>Only blocks with an address in \<open>C\<close> have been changed or freed.\<close>

definition unchanged :: "nat set \<Rightarrow> memory \<Rightarrow> memory \<Rightarrow> bool" where
  "unchanged C m m' \<longleftrightarrow>
     (\<forall>b\<in>set (blocks m). blk_base b \<notin> C \<longrightarrow> b \<in> set (blocks m') \<and>
        (\<forall>x. blk_base b \<le> x \<longrightarrow> x < blk_base b + blk_size b \<longrightarrow> byte_at m' x = byte_at m x))"

lemma unchanged_refl [simp]: "unchanged C m m"
  by (simp add: unchanged_def)

lemma unchanged_trans:
  "unchanged C m m' \<Longrightarrow> unchanged C m' m'' \<Longrightarrow> unchanged C m m''"
  unfolding unchanged_def by (smt (verit, best))

lemma unchanged_mono: "unchanged C m m' \<Longrightarrow> C \<subseteq> C' \<Longrightarrow> unchanged C' m m'"
  unfolding unchanged_def by blast

lemma unchangedD:
  "unchanged C m m' \<Longrightarrow> b \<in> set (blocks m) \<Longrightarrow> blk_base b \<notin> C \<Longrightarrow> b \<in> set (blocks m')"
  "unchanged C m m' \<Longrightarrow> b \<in> set (blocks m) \<Longrightarrow> blk_base b \<notin> C \<Longrightarrow> inside a n b \<Longrightarrow> bytes m' a n = bytes m a n"
  by (auto simp: unchanged_def inside_def intro!: bytes_cong)

lemma accessibleI: "b \<in> set (blocks m) \<Longrightarrow> inside a n b \<Longrightarrow> accessible m a n"
  by (auto simp: accessible_def list_ex_iff)

lemma apart_sym: "apart b b' \<longleftrightarrow> apart b' b"
  by (auto simp: apart_def)

lemma sorted_wrt_apartD:
  assumes "sorted_wrt apart bs" "b \<in> set bs" "b' \<in> set bs" "b \<noteq> b'"
  shows "apart b b'"
  using assms by (induction bs) (auto simp: apart_sym)

lemma blocks_apart:
  "valid_memory m \<Longrightarrow> b \<in> set (blocks m) \<Longrightarrow> b' \<in> set (blocks m) \<Longrightarrow> b \<noteq> b' \<Longrightarrow> apart b b'"
  unfolding valid_memory_def by (blast intro: sorted_wrt_apartD)

lemma blocks_nonempty: "valid_memory m \<Longrightarrow> b \<in> set (blocks m) \<Longrightarrow> 0 < blk_base b \<and> 0 < blk_size b"
  by (auto simp: valid_memory_def list_all_iff)

lemma same_block:
  assumes "valid_memory m" "b \<in> set (blocks m)" "b' \<in> set (blocks m)" "blk_base b = blk_base b'"
  shows "b = b'"
proof (rule ccontr)
  assume "b \<noteq> b'"
  from blocks_apart [OF assms(1-3) this] blocks_nonempty [OF assms(1,2)] blocks_nonempty [OF assms(1,3)] assms(4)
  show False by (auto simp: apart_def)
qed

lemma unchanged_put:
  assumes "valid_memory m" "b \<in> set (blocks m)" "inside a (length xs) b"
  shows "unchanged {blk_base b} m (put a xs m)"
  unfolding unchanged_def
proof (intro ballI impI conjI allI)
  fix d x assume d: "d \<in> set (blocks m)" "blk_base d \<notin> {blk_base b}" "blk_base d \<le> x" "x < blk_base d + blk_size d"
  then have "apart b d" using blocks_apart [OF assms(1,2) d(1)] by auto
  with d(3,4) assms(3) show "byte_at (put a xs m) x = byte_at m x"
    by (auto simp: byte_put apart_def inside_def)
qed simp

lemma malloc_spec:
  assumes "good_allocator alloc" "valid_memory m" "0 < n" "malloc alloc m n = (q, m')"
  shows "valid_memory m'" "\<lparr>blk_base = q, blk_size = n, blk_heap = True\<rparr> \<in> set (blocks m')" "unchanged {} m m'"
    "0 < q" "8 dvd q" "\<forall>b\<in>set (blocks m). blk_base b \<noteq> q" "byte_at m' = byte_at m"
proof -
  have q: "q = alloc m n" "m' = m\<lparr>blocks := \<lparr>blk_base = q, blk_size = n, blk_heap = True\<rparr> # blocks m\<rparr>"
    using assms(4) by (auto simp: malloc_def)
  have a: "0 < q" "8 dvd q" "list_all (apart \<lparr>blk_base = q, blk_size = n, blk_heap = True\<rparr>) (blocks m)"
    using assms(1) unfolding good_allocator_def q(1) by auto
  then show "0 < q" "8 dvd q" by auto
  show "valid_memory m'" using a assms(2,3) by (simp add: q(2) valid_memory_def list_all_iff)
  show "\<lparr>blk_base = q, blk_size = n, blk_heap = True\<rparr> \<in> set (blocks m')" "unchanged {} m m'" "byte_at m' = byte_at m"
    by (simp_all add: q(2) unchanged_def)
  show "\<forall>b\<in>set (blocks m). blk_base b \<noteq> q"
    using a(3) blocks_nonempty [OF assms(2)] assms(3) by (fastforce simp: list_all_iff apart_def)
qed

lemma heap_block_eq:
  assumes "valid_memory m" "b \<in> set (blocks m)" "blk_heap b"
  shows "heap_block m (blk_base b) = Some b"
proof -
  obtain b' where "heap_block m (blk_base b) = Some b'"
    using assms(2,3) by (cases "heap_block m (blk_base b)") (auto simp: heap_block_def find_None_iff)
  then have "b' \<in> set (blocks m)" "blk_base b' = blk_base b"
    by (auto simp: heap_block_def find_Some_iff)
  with same_block [OF assms(1) this(1) assms(2)] \<open>heap_block m _ = _\<close> show ?thesis by simp
qed

lemma valid_without: "valid_memory m \<Longrightarrow> valid_memory (without p m)"
  by (auto simp: valid_memory_def without_def list_all_iff sorted_wrt_filter)

lemma unchanged_without: "unchanged {p} m (without p m)"
  by (auto simp: unchanged_def without_def)

lemma realloc_spec:
  assumes "good_allocator alloc" "valid_memory m" "0 < n" "b \<in> set (blocks m)" "blk_heap b"
  obtains q m' where "realloc alloc m (blk_base b) n = Some (q, m')" "valid_memory m'"
    "\<lparr>blk_base = q, blk_size = n, blk_heap = True\<rparr> \<in> set (blocks m')" "unchanged {blk_base b} m m'" "0 < q" "8 dvd q"
    "bytes m' q (min n (blk_size b)) = bytes m (blk_base b) (min n (blk_size b))"
    "q = alloc (without (blk_base b) m) n" "\<forall>d\<in>set (blocks m). blk_base d \<noteq> blk_base b \<longrightarrow> blk_base d \<noteq> q"
proof -
  let ?w = "without (blk_base b) m"
  let ?q = "alloc ?w n"
  obtain m1 where m1: "malloc alloc ?w n = (?q, m1)" by (simp add: malloc_def)
  note M = malloc_spec [OF assms(1) valid_without [OF assms(2)] assms(3) m1]
  let ?xs = "bytes m (blk_base b) (min n (blk_size b))"
  let ?m = "put ?q ?xs m1"
  have r: "realloc alloc m (blk_base b) n = Some (?q, ?m)"
    using blocks_nonempty [OF assms(2,4)] heap_block_eq [OF assms(2,4,5)] m1 by (simp add: realloc_def)
  have "unchanged {?q} m1 ?m" using unchanged_put [OF M(1,2), of ?q ?xs] by (simp add: inside_def)
  then have "unchanged {} ?w ?m"
    using M(3,6) unfolding unchanged_def by (metis (no_types, lifting) empty_iff singletonD)
  then have "unchanged {blk_base b} m ?m"
    by (blast intro: unchanged_trans [OF unchanged_without] unchanged_mono)
  moreover have "\<forall>d\<in>set (blocks m). blk_base d \<noteq> blk_base b \<longrightarrow> blk_base d \<noteq> ?q"
    using M(6) by (auto simp: without_def)
  ultimately show thesis
    using that [OF r] M by (simp add: bytes_put_same)
qed

end
