(* ===== verification/Strings.thy ===== *)
theory Strings
  imports Memory
begin

text \<open>
  The strings of the language in clib/str_c.c and clib/str.h. A string is a pointer to a word with its
  size, counting the terminating 0; the characters lie in front of this word, from the beginning of
  the block, and the word behind it is the size of the block if this belongs to the heap and 0 if it
  is a constant. The null pointer is the empty string. Function names have lost their leading
  underscores.
\<close>

section \<open>Layout\<close>

definition size_t :: "nat \<Rightarrow> nat" where
  "size_t x = x mod 2 ^ 64"

definition string_allocsize :: "nat \<Rightarrow> nat" where
  "string_allocsize len = size_t (len + 24) div 8 * 8"

definition string_min_cap :: "nat \<Rightarrow> nat" where
  "string_min_cap raw_sz = size_t (raw_sz + 24 - 1) div 8 * 8"

definition string_c_ptr :: "nat \<Rightarrow> nat \<Rightarrow> nat" where
  "string_c_ptr s raw_sz = (s - raw_sz) div 8 * 8"

definition raw_offset :: "nat \<Rightarrow> nat" where
  "raw_offset alloc = alloc - 16"

definition string_raw_size :: "memory \<Rightarrow> nat \<Rightarrow> nat option" where
  "string_raw_size m s = load_word m s"

definition string_raw_cap :: "memory \<Rightarrow> nat \<Rightarrow> nat option" where
  "string_raw_cap m s = load_word m (s + 8)"

definition volvox_string_len :: "memory \<Rightarrow> nat \<Rightarrow> nat option" where
  "volvox_string_len m v = (if v = 0 then Some 0 else do { x \<leftarrow> load_word m v; Some (size_t (x + (2 ^ 64 - 1))) })"

text \<open>Nothing is ever read from the literal that stands for the null pointer; it is the address 0 here.\<close>

definition volvox2cstr :: "memory \<Rightarrow> nat \<Rightarrow> nat option" where
  "volvox2cstr m v = (if v = 0 then Some 0 else do { x \<leftarrow> load_word m v; Some (string_c_ptr v x) })"

section \<open>Operations\<close>

definition modstr :: "memory \<Rightarrow> nat \<Rightarrow> nat \<Rightarrow> u8 \<Rightarrow> memory option" where
  "modstr m s idx c = do { sc \<leftarrow> volvox2cstr m s; store_bytes m (sc + idx) [c] }"

fun total_len :: "memory \<Rightarrow> nat list \<Rightarrow> nat \<Rightarrow> nat option" where
  "total_len m [] new_l = Some new_l"
| "total_len m (a # as) new_l =
     (if a = 0 then total_len m as new_l
      else do { l \<leftarrow> volvox_string_len m a; total_len m as (size_t (new_l + l)) })"

fun copy_all :: "memory \<Rightarrow> nat list \<Rightarrow> nat \<Rightarrow> (nat \<times> memory) option" where
  "copy_all m [] offset = Some (offset, m)"
| "copy_all m (a # as) offset =
     (if a = 0 then copy_all m as offset
      else do { cstr \<leftarrow> volvox2cstr m a; len \<leftarrow> volvox_string_len m a; m \<leftarrow> memcpy m offset cstr len;
        copy_all m as (offset + len) })"

definition string_accumulate :: "allocator \<Rightarrow> memory \<Rightarrow> nat list \<Rightarrow> (nat \<times> memory) option" where
  "string_accumulate alloc m as = do {
     new_l \<leftarrow> total_len m as 0;
     if new_l = 0 then Some (0, m) else do {
       let new_alloc = string_allocsize new_l;
       let (n, m) = malloc alloc m new_alloc;
       (offset, m) \<leftarrow> copy_all m as n;
       m \<leftarrow> store_bytes m offset [0];
       let res = n + raw_offset new_alloc;
       m \<leftarrow> store_word m res (size_t (new_l + 1));
       m \<leftarrow> store_word m (res + 8) new_alloc;
       Some (res, m) } }"

definition string_add :: "allocator \<Rightarrow> memory \<Rightarrow> nat \<Rightarrow> nat \<Rightarrow> (nat \<times> memory) option" where
  "string_add alloc m a b = string_accumulate alloc m [a, b]"

definition string_dup :: "allocator \<Rightarrow> memory \<Rightarrow> nat \<Rightarrow> (nat \<times> memory) option" where
  "string_dup alloc m s =
     (if s = 0 then Some (s, m) else do {
        sz \<leftarrow> string_raw_size m s;
        let s_c = string_c_ptr s sz;
        let min_cap = string_min_cap sz;
        let (new_str, m) = malloc alloc m min_cap;
        m \<leftarrow> memcpy m new_str s_c (min_cap - 8);
        let res = new_str + raw_offset min_cap;
        m \<leftarrow> store_word m (res + 8) min_cap;
        Some (res, m) })"

text \<open>
  The first argument is the value of the variable \<open>*a\<close>, the first result its new value. \<open>grow\<close> is the
  new capacity.
\<close>

definition grow :: "nat \<Rightarrow> nat" where
  "grow min_cap = size_t (min_cap + min_cap div 2 + 32)"

definition string_add_assign_gen :: "allocator \<Rightarrow> memory \<Rightarrow> nat \<Rightarrow> nat \<Rightarrow> nat \<Rightarrow> (nat \<times> memory) option" where
  "string_add_assign_gen alloc m a c_b sz_b = do {
     sz_a \<leftarrow> string_raw_size m a;
     let c_a = string_c_ptr a sz_a;
     cap_a \<leftarrow> string_raw_cap m a;
     let new_sz = size_t (sz_a + sz_b - 1);
     let min_cap = string_min_cap new_sz;
     (c_a, cap_a, m) \<leftarrow>
       (if cap_a < min_cap then
          if cap_a \<noteq> 0 then do {
            (new_a, m) \<leftarrow> realloc alloc m c_a (grow min_cap);
            Some (new_a, grow min_cap, m) }
          else do {
            let (new_a, m) = malloc alloc m (grow min_cap);
            m \<leftarrow> memcpy m new_a c_a (sz_a - 1);
            Some (new_a, grow min_cap, m) }
        else Some (c_a, cap_a, m));
     m \<leftarrow> memcpy m (c_a + sz_a - 1) c_b sz_b;
     let res = (c_a + new_sz + 8 - 1) div 8 * 8;
     m \<leftarrow> store_word m res new_sz;
     m \<leftarrow> store_word m (res + 8) cap_a;
     Some (res, m) }"

definition string_add_assign :: "allocator \<Rightarrow> memory \<Rightarrow> nat \<Rightarrow> nat \<Rightarrow> (nat \<times> memory) option" where
  "string_add_assign alloc m a b =
     (if b = 0 then Some (a, m)
      else if a = 0 then string_dup alloc m b
      else do {
        sz_b \<leftarrow> string_raw_size m b;
        let c_b = string_c_ptr b sz_b;
        string_add_assign_gen alloc m a c_b sz_b })"

fun repeat_copy :: "nat \<Rightarrow> memory \<Rightarrow> nat \<Rightarrow> nat \<Rightarrow> nat \<Rightarrow> memory option" where
  "repeat_copy 0 m dst cstr len = Some m"
| "repeat_copy (Suc k) m dst cstr len = do { m \<leftarrow> memcpy m dst cstr len; repeat_copy k m (dst + len) cstr len }"

definition string_mult_general :: "allocator \<Rightarrow> memory \<Rightarrow> nat \<Rightarrow> nat \<Rightarrow> bool \<Rightarrow> (nat \<times> memory) option" where
  "string_mult_general alloc m k a is_mult_assign = do {
     cstr \<leftarrow> volvox2cstr m a;
     len \<leftarrow> volvox_string_len m a;
     let new_l = size_t (k * len);
     let new_alloc = string_allocsize new_l;
     heap \<leftarrow> (if is_mult_assign then do { cap \<leftarrow> string_raw_cap m a; Some (cap \<noteq> 0) } else Some False);
     (n, idx, offset, m) \<leftarrow>
       (if heap then do {
          cstr0 \<leftarrow> volvox2cstr m a;
          (n, m) \<leftarrow> realloc alloc m cstr0 new_alloc;
          Some (n, 1, len, m) }
        else do {
          let (n, m) = malloc alloc m new_alloc;
          Some (n, 0, 0, m) });
     m \<leftarrow> repeat_copy (k - idx) m (n + offset) cstr len;
     m \<leftarrow> store_bytes m (n + new_l) [0];
     let volvox_str = n + raw_offset new_alloc;
     m \<leftarrow> store_word m volvox_str (size_t (new_l + 1));
     m \<leftarrow> store_word m (volvox_str + 8) new_alloc;
     Some (volvox_str, m) }"

definition string_mult :: "allocator \<Rightarrow> memory \<Rightarrow> nat \<Rightarrow> nat \<Rightarrow> (nat \<times> memory) option" where
  "string_mult alloc m k a = string_mult_general alloc m k a False"

definition string_mult_assign :: "allocator \<Rightarrow> memory \<Rightarrow> nat \<Rightarrow> nat \<Rightarrow> (nat \<times> memory) option" where
  "string_mult_assign alloc m a k = string_mult_general alloc m k a True"

definition string_make_writable :: "allocator \<Rightarrow> memory \<Rightarrow> nat \<Rightarrow> (nat \<times> memory) option" where
  "string_make_writable alloc m s = do {
     len \<leftarrow> string_raw_size m s;
     let alloc_l = string_allocsize (size_t (len + (2 ^ 64 - 1)));
     let (cstr, m) = malloc alloc m alloc_l;
     let offset = raw_offset alloc_l;
     m \<leftarrow> memcpy m cstr (s - offset) len;
     let volvox_str = cstr + offset;
     m \<leftarrow> store_word m volvox_str len;
     m \<leftarrow> store_word m (volvox_str + 8) alloc_l;
     Some (volvox_str, m) }"

text \<open>\<open>strlen\<close> of the C library: it reads until the first 0.\<close>

partial_function (option) strlen :: "memory \<Rightarrow> nat \<Rightarrow> nat option" where
  "strlen m p = do { b \<leftarrow> load_byte m p; if b = 0 then Some 0 else do { n \<leftarrow> strlen m (p + 1); Some (n + 1) } }"

definition cstr2volvoxstr :: "allocator \<Rightarrow> memory \<Rightarrow> nat \<Rightarrow> nat \<Rightarrow> bool \<Rightarrow> (nat \<times> memory) option" where
  "cstr2volvoxstr alloc m c_str len mark_as_heap = do {
     let lalloc = size_t (len + 3 * 8) div 8 * 8;
     let (target, m) = malloc alloc m lalloc;
     let res = target + lalloc - 2 * 8;
     m \<leftarrow> store_word m (res - 8) 0;
     m \<leftarrow> store_word m res (size_t (len + 1));
     m \<leftarrow> store_word m (res + 8) (if mark_as_heap then lalloc else 0);
     m \<leftarrow> memcpy m target c_str len;
     Some (res, m) }"

definition cstr2volvox :: "allocator \<Rightarrow> memory \<Rightarrow> nat \<Rightarrow> (nat \<times> memory) option" where
  "cstr2volvox alloc m c_str =
     (if c_str = 0 then cstr2volvoxstr alloc m c_str 0 True
      else do { l \<leftarrow> strlen m c_str; cstr2volvoxstr alloc m c_str l True })"

definition string_add_c_assign :: "allocator \<Rightarrow> memory \<Rightarrow> nat \<Rightarrow> nat \<Rightarrow> (nat \<times> memory) option" where
  "string_add_c_assign alloc m a c_b =
     (if a = 0 then cstr2volvox alloc m c_b
      else do { l \<leftarrow> strlen m c_b; string_add_assign_gen alloc m a c_b (size_t (l + 1)) })"

definition strdup :: "allocator \<Rightarrow> memory \<Rightarrow> nat \<Rightarrow> (nat \<times> memory) option" where
  "strdup alloc m s = do {
     l \<leftarrow> strlen m s;
     let (d, m) = malloc alloc m (l + 1);
     m \<leftarrow> memcpy m d s (l + 1);
     Some (d, m) }"

definition volvox2cstr_dup :: "allocator \<Rightarrow> memory \<Rightarrow> nat \<Rightarrow> (nat \<times> memory) option" where
  "volvox2cstr_dup alloc m v = do {
     sz \<leftarrow> string_raw_size m v;
     strdup alloc m (string_c_ptr v sz) }"

definition transformcstr2volvox_l :: "allocator \<Rightarrow> memory \<Rightarrow> nat \<Rightarrow> nat \<Rightarrow> nat \<Rightarrow> (nat \<times> memory) option" where
  "transformcstr2volvox_l alloc m c_str l cap = do {
     let min_cap = size_t (l + 3 * 8) div 8 * 8;
     (cap, targ, m) \<leftarrow>
       (if min_cap > cap then do { (targ, m) \<leftarrow> realloc alloc m c_str min_cap; Some (min_cap, targ, m) }
        else Some (cap, c_str, m));
     let res = targ + min_cap - 2 * 8;
     m \<leftarrow> store_word m res (size_t (l + 1));
     m \<leftarrow> store_word m (res + 8) cap;
     Some (res, m) }"

definition transformcstr2volvox :: "allocator \<Rightarrow> memory \<Rightarrow> nat \<Rightarrow> nat \<Rightarrow> (nat \<times> memory) option" where
  "transformcstr2volvox alloc m c_str cap = do {
     l \<leftarrow> strlen m c_str;
     transformcstr2volvox_l alloc m c_str l cap }"

section \<open>What a string is\<close>

text \<open>Where the word with the size is, from the beginning of the block.\<close>

definition lay :: "nat \<Rightarrow> nat" where
  "lay len = (len + 24) div 8 * 8 - 16"

text \<open>\<open>v\<close> is a string \<open>s\<close> in the block at \<open>c\<close>, with the capacity \<open>cap\<close>.\<close>

definition string_at :: "memory \<Rightarrow> nat \<Rightarrow> nat \<Rightarrow> u8 list \<Rightarrow> nat \<Rightarrow> bool" where
  "string_at m v c s cap \<longleftrightarrow>
     v = c + lay (length s) \<and> 0 < c \<and> 8 dvd c \<and> length s < 2 ^ 61 \<and> cap < 2 ^ 63 \<and>
     bytes m c (length s) = s \<and> byte_at m (c + length s) = 0 \<and>
     bytes m v 8 = word_bytes (length s + 1) \<and> bytes m (v + 8) 8 = word_bytes cap \<and>
     (\<exists>b\<in>set (blocks m). blk_base b = c \<and> lay (length s) + 16 \<le> blk_size b \<and> (cap \<noteq> 0 \<longrightarrow> blk_heap b \<and> blk_size b = cap))"

lemma lay_bounds: "len + 1 \<le> lay len" "lay len \<le> len + 8" "8 dvd lay len" "8 \<le> lay len"
proof -
  have d: "(len + 24) div 8 * 8 + (len + 24) mod 8 = len + 24" by (rule div_mult_mod_eq)
  have m: "(len + 24) mod 8 < 8" by simp
  show "len + 1 \<le> lay len" "lay len \<le> len + 8" unfolding lay_def using d m by linarith+
  have "lay len = ((len + 24) div 8 - 2) * 8" unfolding lay_def by (simp add: diff_mult_distrib)
  then show "8 dvd lay len" by simp
  have "3 \<le> (len + 24) div 8" by simp
  then have "3 * 8 \<le> (len + 24) div 8 * 8" by (rule mult_le_mono1)
  then show "8 \<le> lay len" unfolding lay_def by linarith
qed

lemma size_t_small [simp]: "x < 2 ^ 64 \<Longrightarrow> size_t x = x"
  by (simp add: size_t_def)

lemma allocsize_lay: "len < 2 ^ 63 \<Longrightarrow> string_allocsize len = lay len + 16"
  using lay_bounds(4) [of len] by (simp add: string_allocsize_def lay_def)

lemma min_cap_lay: "len < 2 ^ 63 \<Longrightarrow> string_min_cap (len + 1) = lay len + 16"
  using lay_bounds(4) [of len] by (simp add: string_min_cap_def lay_def)

lemma div_8_exact: "8 dvd (c :: nat) \<Longrightarrow> r < 8 \<Longrightarrow> (c + r) div 8 * 8 = c"
  by (auto elim!: dvdE)

lemma c_ptr_lay: "8 dvd c \<Longrightarrow> string_c_ptr (c + lay len) (len + 1) = c"
  using lay_bounds(1,2) [of len] div_8_exact [of c "lay len - (len + 1)"]
  by (simp add: string_c_ptr_def)

lemma res_lay: "8 dvd c \<Longrightarrow> (c + (len + 1) + 8 - 1) div 8 * 8 = c + lay len"
proof -
  assume c: "8 dvd c"
  have "8 dvd c + lay len" using c lay_bounds(3) by simp
  moreover have "c + (len + 1) + 8 - 1 = c + lay len + (len + 8 - lay len)" "len + 8 - lay len < 8"
    using lay_bounds(1,2) [of len] by auto
  ultimately show ?thesis by (metis div_8_exact)
qed

lemma string_atD:
  assumes "string_at m v c s cap"
  shows "v = c + lay (length s)" "v \<noteq> 0" "0 < c" "8 dvd c" "length s < 2 ^ 61" "cap < 2 ^ 63"
    "bytes m c (length s) = s" "byte_at m (c + length s) = 0"
    "accessible m c (length s + 1)" "accessible m c (lay (length s) + 16)"
    "load_word m v = Some (length s + 1)" "load_word m (v + 8) = Some cap"
    "string_c_ptr v (length s + 1) = c" "string_min_cap (length s + 1) = lay (length s) + 16"
    "volvox_string_len m v = Some (length s)" "volvox2cstr m v = Some c"
proof -
  show v: "v = c + lay (length s)" and c: "0 < c" "8 dvd c" and l: "length s < 2 ^ 61" and cap: "cap < 2 ^ 63"
    and "bytes m c (length s) = s" "byte_at m (c + length s) = 0"
    using assms by (auto simp: string_at_def)
  then show v0: "v \<noteq> 0" by simp
  have words: "bytes m v 8 = word_bytes (length s + 1)" "bytes m (v + 8) 8 = word_bytes cap"
    using assms by (auto simp: string_at_def)
  obtain b where b: "b \<in> set (blocks m)" "blk_base b = c" "lay (length s) + 16 \<le> blk_size b"
    using assms by (auto simp: string_at_def)
  have acc: "accessible m (c + i) n" if "i + n \<le> lay (length s) + 16" for i n
    using that b by (intro accessibleI [OF b(1)]) (auto simp: inside_def)
  show "accessible m c (length s + 1)" using acc [of 0 "length s + 1"] lay_bounds(1) [of "length s"] by simp
  show "accessible m c (lay (length s) + 16)" using acc [of 0] by simp
  have w: "bytes_word (word_bytes (length s + 1)) = length s + 1" "bytes_word (word_bytes cap) = cap"
    using l cap by (intro bytes_word_bytes; simp)+
  show ld: "load_word m v = Some (length s + 1)"
    using acc [of "lay (length s)" 8] words(1) w(1) unfolding load_word_def v by (simp del: add_Suc_right)
  show "load_word m (v + 8) = Some cap"
    using acc [of "lay (length s) + 8" 8] words(2) w(2) unfolding load_word_def v by (simp add: add.assoc)
  show cp: "string_c_ptr v (length s + 1) = c" using c_ptr_lay c v by simp
  show "string_min_cap (length s + 1) = lay (length s) + 16" using l by (intro min_cap_lay) simp
  have "size_t (length s + 1 + (2 ^ 64 - 1)) = length s" using l by (simp add: size_t_def)
  then show "volvox_string_len m v = Some (length s)" using v0 ld by (simp add: volvox_string_len_def)
  show "volvox2cstr m v = Some c" using v0 ld cp by (simp add: volvox2cstr_def)
qed

lemma byte_bytes: "byte_at m a = 0 \<longleftrightarrow> bytes m a 1 = [0]"
  by (simp add: bytes_def)

lemma string_at_unchanged:
  assumes "string_at m v c s cap" "unchanged C m m'" "c \<notin> C"
  shows "string_at m' v c s cap"
proof -
  obtain b where b: "b \<in> set (blocks m)" "blk_base b = c" "lay (length s) + 16 \<le> blk_size b"
    "cap \<noteq> 0 \<longrightarrow> blk_heap b \<and> blk_size b = cap"
    using assms(1) by (auto simp: string_at_def)
  have v: "v = c + lay (length s)" using string_atD(1) [OF assms(1)] .
  have same: "bytes m' a n = bytes m a n" if "inside a n b" for a n
    using unchangedD(2) [OF assms(2) b(1) _ that] assms(3) b(2) by simp
  have "bytes m' c (length s) = bytes m c (length s)" "bytes m' (c + length s) 1 = bytes m (c + length s) 1"
    "bytes m' v 8 = bytes m v 8" "bytes m' (v + 8) 8 = bytes m (v + 8) 8"
    using b v lay_bounds(1) [of "length s"] by (auto intro!: same simp: inside_def)
  moreover have "b \<in> set (blocks m')" using unchangedD(1) [OF assms(2) b(1)] b(2) assms(3) by simp
  ultimately show ?thesis
    using assms(1) b unfolding string_at_def byte_bytes by metis
qed

lemma store_word_inside:
  assumes "b \<in> set (blocks m)" "inside a 8 b"
  shows "store_word m a x = Some (put a (word_bytes x) m)"
  using accessibleI [OF assms] by (simp add: store_word_def store_bytes_def)

text \<open>The last steps of all operations: the size and the capacity.\<close>

lemma finish_string:
  assumes "valid_memory m" "b \<in> set (blocks m)" "blk_base b = c" "8 dvd c"
    and "bytes m c (length s) = s" "byte_at m (c + length s) = 0" "length s < 2 ^ 61" "blk_size b < 2 ^ 63"
    and "lay (length s) + 16 \<le> blk_size b" "cap \<noteq> 0 \<longrightarrow> blk_heap b \<and> blk_size b = cap" "v = c + lay (length s)"
  obtains m' where "store_word m v (length s + 1) = Some (put v (word_bytes (length s + 1)) m)"
    "store_word (put v (word_bytes (length s + 1)) m) (v + 8) cap = Some m'"
    "string_at m' v c s cap" "valid_memory m'" "unchanged {c} m m'"
proof -
  let ?m1 = "put v (word_bytes (length s + 1)) m"
  let ?m2 = "put (v + 8) (word_bytes cap) ?m1"
  have i: "inside v 8 b" "inside (v + 8) 8 b" using assms(3,9,11) by (auto simp: inside_def)
  have "unchanged {c} m ?m1" "unchanged {c} ?m1 ?m2"
    using unchanged_put [OF assms(1,2), of v] unchanged_put [of ?m1 b "v + 8"] assms(1-3) i by auto
  then have u: "unchanged {c} m ?m2" by (rule unchanged_trans)
  have "bytes ?m2 c (length s) = s" "byte_at ?m2 (c + length s) = 0"
    using assms(5,6,11) lay_bounds(1) [of "length s"] by (auto simp: bytes_put_apart byte_put)
  moreover have "bytes ?m2 v 8 = word_bytes (length s + 1)" "bytes ?m2 (v + 8) 8 = word_bytes cap"
    by (simp_all add: bytes_put_apart bytes_put_same)
  moreover have cap: "cap < 2 ^ 63" using assms(8,10) by (cases "cap = 0") auto
  moreover have "blocks ?m2 = blocks m" by simp
  ultimately have "string_at ?m2 v c s cap"
    using assms(2-4,7-11) blocks_nonempty [OF assms(1,2)] cap unfolding string_at_def \<open>blocks ?m2 = blocks m\<close> by blast
  moreover have "store_word m v (length s + 1) = Some ?m1" "store_word ?m1 (v + 8) cap = Some ?m2"
    using i assms(2) by (auto intro!: store_word_inside)
  ultimately show thesis using that u assms(1) by simp
qed

section \<open>What the operations do\<close>

lemma string_block:
  assumes "string_at m v c s cap"
  obtains b where "b \<in> set (blocks m)" "blk_base b = c" "lay (length s) + 16 \<le> blk_size b"
    "cap \<noteq> 0 \<longrightarrow> blk_heap b \<and> blk_size b = cap"
  using assms by (auto simp: string_at_def)

lemma memcpy_blocks:
  assumes "valid_memory m" "b \<in> set (blocks m)" "b' \<in> set (blocks m)" "blk_base b \<noteq> blk_base b'"
    and "inside src n b" "inside dst n b'"
  shows "memcpy m dst src n = Some (put dst (bytes m src n) m)"
proof -
  have "apart b b'" using blocks_apart [OF assms(1-3)] assms(4) by auto
  then have "dst + n \<le> src \<or> src + n \<le> dst" using assms(5,6) by (auto simp: apart_def inside_def)
  then show ?thesis
    using accessibleI [OF assms(2,5)] accessibleI [OF assms(3,6)] by (simp add: memcpy_def)
qed

lemma memcpy_0 [simp]: "memcpy m dst src 0 = Some m"
  by (simp add: memcpy_def accessible_def)

lemma put_bytes_same: "bytes m a (length xs) = xs \<Longrightarrow> put a xs m = m"
proof -
  assume b: "bytes m a (length xs) = xs"
  have "(\<lambda>x. if a \<le> x \<and> x < a + length xs then xs ! (x - a) else byte_at m x) = byte_at m"
  proof (rule ext)
    fix x
    have "bytes m a (length xs) ! (x - a) = byte_at m x" if "a \<le> x" "x < a + length xs"
      using that by simp
    then show "(if a \<le> x \<and> x < a + length xs then xs ! (x - a) else byte_at m x) = byte_at m x"
      unfolding b by auto
  qed
  then show ?thesis by (simp add: put_def)
qed

lemma string_bytes:
  assumes "string_at m v c s cap"
  shows "bytes m c (length s + 1) = s @ [0]"
  using string_atD(7,8) [OF assms] bytes_split [of m c "length s" 1] by (simp add: bytes_def)

text \<open>A new block of the heap, as far as the next steps need it.\<close>

lemma malloc_string:
  assumes "good_allocator alloc" "valid_memory m" "0 < n"
  obtains q m' b where "malloc alloc m n = (q, m')" "valid_memory m'" "b \<in> set (blocks m')" "blk_base b = q"
    "blk_size b = n" "blk_heap b" "8 dvd q" "unchanged {} m m'" "\<forall>d\<in>set (blocks m). blk_base d \<noteq> q"
    "byte_at m' = byte_at m" "set (blocks m) \<subseteq> set (blocks m')"
proof -
  obtain q m' where q: "malloc alloc m n = (q, m')" by (cases "malloc alloc m n")
  note M = malloc_spec [OF assms q]
  have "set (blocks m) \<subseteq> set (blocks m')" using unchangedD(1) [OF M(3)] by auto
  with that [OF q M(1,2) _ _ _ M(5,3,6,7)] show thesis by simp
qed

lemma unchanged_fresh:
  assumes "unchanged {} m m'" "unchanged {q} m' m''" "\<forall>d\<in>set (blocks m). blk_base d \<noteq> q"
  shows "unchanged {} m m''"
  using assms unfolding unchanged_def by (metis (no_types, lifting) empty_iff singletonD)

lemma string_dup_spec:
  assumes "good_allocator alloc" "valid_memory m" "string_at m v c s cap"
  obtains r q m' where "string_dup alloc m v = Some (r, m')" "string_at m' r q s (lay (length s) + 16)"
    "valid_memory m'" "unchanged {} m m'" "\<forall>d\<in>set (blocks m). blk_base d \<noteq> q"
proof -
  note S = string_atD [OF assms(3)]
  let ?n = "lay (length s) + 16"
  obtain q m1 b where q: "malloc alloc m ?n = (q, m1)" "valid_memory m1" "b \<in> set (blocks m1)" "blk_base b = q"
    "blk_size b = ?n" "blk_heap b" "8 dvd q" "unchanged {} m m1" "\<forall>d\<in>set (blocks m). blk_base d \<noteq> q"
    by (rule malloc_string [OF assms(1,2), of ?n]) auto
  have s1: "string_at m1 v c s cap" using string_at_unchanged [OF assms(3) q(8)] by simp
  obtain d where d: "d \<in> set (blocks m1)" "blk_base d = c" "?n \<le> blk_size d" using string_block [OF s1] by metis
  have "c \<noteq> q" using string_block [OF assms(3)] q(9) by metis
  let ?xs = "bytes m1 c (?n - 8)"
  let ?m2 = "put q ?xs m1"
  have cp: "memcpy m1 q c (?n - 8) = Some ?m2"
    using d q \<open>c \<noteq> q\<close> by (intro memcpy_blocks [OF q(2) d(1) q(3)]) (auto simp: inside_def)
  have b2: "bytes ?m2 (q + i) k = bytes m1 (c + i) k" if "i + k \<le> ?n - 8" for i k
    using that by (intro nth_equalityI) (auto simp: byte_put add.assoc)
  have str: "bytes ?m2 q (length s) = s" "byte_at ?m2 (q + length s) = 0"
    "bytes ?m2 (q + lay (length s)) 8 = word_bytes (length s + 1)"
    using b2 [of 0 "length s"] b2 [of "length s" 1] b2 [of "lay (length s)" 8] lay_bounds(1) [of "length s"] s1
      string_atD(1,7,8) [OF s1] by (auto simp: byte_bytes string_at_def)
  have l: "length s < 2 ^ 61" "?n < 2 ^ 63" using S(5) lay_bounds(2) [of "length s"] by auto
  obtain m3 where m3: "store_word (put (q + lay (length s)) (word_bytes (length s + 1)) ?m2) (q + lay (length s) + 8) ?n = Some m3"
    "string_at m3 (q + lay (length s)) q s ?n" "valid_memory m3" "unchanged {q} ?m2 m3"
    using finish_string [of ?m2 b q s ?n "q + lay (length s)"] q str l by (metis blocks_put le_refl valid_put)
  have same: "put (q + lay (length s)) (word_bytes (length s + 1)) ?m2 = ?m2"
    using str(3) by (intro put_bytes_same) simp
  have "unchanged {q} m1 ?m2" using unchanged_put [OF q(2,3), of q ?xs] q(4,5) by (auto simp: inside_def)
  then have "unchanged {} m m3" using unchanged_fresh [OF q(8) unchanged_trans [OF _ m3(4)] q(9)] by simp
  moreover have "string_dup alloc m v = Some (q + lay (length s), m3)"
    using S(2) S(11) S(13,14) q(1) cp m3(1) [unfolded same]
    by (simp add: string_dup_def string_raw_size_def raw_offset_def Let_def del: add_Suc_right)
  ultimately show thesis using that m3 q(9) by blast
qed

text \<open>Sizes and rounding of a concatenation.\<close>

lemma sizes_add:
  assumes "la < 2 ^ 61" "lb < 2 ^ 61"
  shows "size_t ((la + 1) + (lb + 1) - 1) = (la + lb) + 1" "string_min_cap ((la + lb) + 1) = lay (la + lb) + 16"
    "grow (lay (la + lb) + 16) = lay (la + lb) + 16 + (lay (la + lb) + 16) div 2 + 32"
    "grow (lay (la + lb) + 16) < 2 ^ 63"
proof -
  show "size_t ((la + 1) + (lb + 1) - 1) = (la + lb) + 1" using assms by (simp add: size_t_def)
  show "string_min_cap ((la + lb) + 1) = lay (la + lb) + 16" using assms by (intro min_cap_lay) simp
  have b: "lay (la + lb) + 16 + (lay (la + lb) + 16) div 2 + 32 < 2 ^ 63"
    using assms lay_bounds(2) [of "la + lb"] by simp
  show "grow (lay (la + lb) + 16) = lay (la + lb) + 16 + (lay (la + lb) + 16) div 2 + 32"
    unfolding grow_def using b by (intro size_t_small) simp
  with b show "grow (lay (la + lb) + 16) < 2 ^ 63" by simp
qed

text \<open>The part of the operation behind the allocation.\<close>

lemma append_into:
  assumes "valid_memory m" "b \<in> set (blocks m)" "blk_base b = q" "8 dvd q" "blk_heap b" "cap = blk_size b" "cap < 2 ^ 63"
    and "bytes m q (length s) = s" "lay (length s + length t) + 16 \<le> cap"
    and "d \<in> set (blocks m)" "blk_base d \<noteq> q" "inside cb (length t + 1) d" "bytes m cb (length t + 1) = t @ [0]"
    and "length s + length t < 2 ^ 61"
  obtains m' where
    "do { m \<leftarrow> memcpy m (q + (length s + 1) - 1) cb (length t + 1);
       m \<leftarrow> store_word m ((q + (length s + length t + 1) + 8 - 1) div 8 * 8) (length s + length t + 1);
       m \<leftarrow> store_word m ((q + (length s + length t + 1) + 8 - 1) div 8 * 8 + 8) cap;
       Some ((q + (length s + length t + 1) + 8 - 1) div 8 * 8, m) } = Some (q + lay (length s + length t), m')"
    "string_at m' (q + lay (length s + length t)) q (s @ t) cap" "valid_memory m'" "unchanged {q} m m'"
proof -
  let ?l = "length s + length t"
  let ?m1 = "put (q + length s) (t @ [0]) m"
  have in': "inside (q + length s) (length t + 1) b"
    using assms(3,6,9) lay_bounds(1) [of ?l] by (simp add: inside_def)
  have cp: "memcpy m (q + (length s + 1) - 1) cb (length t + 1) = Some ?m1"
    using memcpy_blocks [OF assms(1,10,2) _ assms(12) in'] assms(3,11,13) by simp
  have "bytes ?m1 q ?l = s @ t"
  proof -
    have "bytes ?m1 q (length s) = s" using assms(8) by (simp add: bytes_put_apart)
    moreover have "bytes ?m1 (q + length s) (length t) = t" by (simp add: bytes_put_prefix)
    ultimately show ?thesis by (simp add: bytes_split)
  qed
  moreover have "byte_at ?m1 (q + ?l) = 0" by (simp add: byte_put nth_append)
  moreover have "unchanged {q} m ?m1" using unchanged_put [OF assms(1,2), of "q + length s" "t @ [0]"] in' assms(3) by simp
  ultimately have f: "bytes ?m1 q (length (s @ t)) = s @ t" "byte_at ?m1 (q + length (s @ t)) = 0" "unchanged {q} m ?m1"
    by simp_all
  have v1: "valid_memory ?m1" "b \<in> set (blocks ?m1)" using assms(1,2) by simp_all
  have l: "length (s @ t) < 2 ^ 61" "blk_size b < 2 ^ 63" "lay (length (s @ t)) + 16 \<le> blk_size b"
    "cap \<noteq> 0 \<longrightarrow> blk_heap b \<and> blk_size b = cap" "q + lay ?l = q + lay (length (s @ t))"
    using assms(5-7,9,14) by auto
  obtain m' where m': "store_word ?m1 (q + lay ?l) (length (s @ t) + 1) = Some (put (q + lay ?l) (word_bytes (length (s @ t) + 1)) ?m1)"
    "store_word (put (q + lay ?l) (word_bytes (length (s @ t) + 1)) ?m1) (q + lay ?l + 8) cap = Some m'"
    "string_at m' (q + lay ?l) q (s @ t) cap" "valid_memory m'" "unchanged {q} ?m1 m'"
    by (rule finish_string [OF v1 assms(3,4) f(1,2) l]) blast
  have "?l + 1 = length (s @ t) + 1" by simp
  with cp m' res_lay [OF assms(4), of ?l] unchanged_trans [OF f(3) m'(5)] that [of m'] show thesis
    by (simp only: bind.bind_lunit add.assoc [symmetric])
qed

lemma unchanged_step:
  assumes "unchanged C m m'" "unchanged {q} m' m''" "\<forall>d\<in>set (blocks m). blk_base d \<notin> C \<longrightarrow> blk_base d \<noteq> q"
  shows "unchanged C m m''"
  using assms unfolding unchanged_def by (metis (no_types, lifting) singletonD)

lemma bytes_take: "k \<le> n \<Longrightarrow> bytes m a k = take k (bytes m a n)"
  by (simp add: bytes_def take_map)

text \<open>What an assignment \<open>a += b\<close> needs to know about \<open>b\<close>.\<close>

definition c_string :: "memory \<Rightarrow> nat \<Rightarrow> u8 list \<Rightarrow> block \<Rightarrow> bool" where
  "c_string m p t d \<longleftrightarrow> d \<in> set (blocks m) \<and> inside p (length t + 1) d \<and> bytes m p (length t + 1) = t @ [0]"

lemma c_string_unchanged:
  "c_string m p t d \<Longrightarrow> unchanged C m m' \<Longrightarrow> blk_base d \<notin> C \<Longrightarrow> c_string m' p t d"
  unfolding c_string_def using unchangedD by metis

lemma string_add_assign_gen_spec:
  assumes "good_allocator alloc" "valid_memory m" "string_at m a ca s cap" "c_string m cb t d" "blk_base d \<noteq> ca"
    and "length s + length t < 2 ^ 61"
  obtains q m' cap' where
    "string_add_assign_gen alloc m a cb (length t + 1) = Some (q + lay (length s + length t), m')"
    "string_at m' (q + lay (length s + length t)) q (s @ t) cap'" "valid_memory m'" "unchanged {ca} m m'"
    "cap' = (if cap < lay (length s + length t) + 16 then grow (lay (length s + length t) + 16) else cap)"
    "\<forall>d\<in>set (blocks m). blk_base d \<noteq> ca \<longrightarrow> blk_base d \<noteq> q"
proof -
  note S = string_atD [OF assms(3)]
  let ?l = "length s + length t"
  let ?n = "lay ?l + 16"
  have small: "length s < 2 ^ 61" "length t < 2 ^ 61" using assms(6) by auto
  note Z = sizes_add [OF small]
  obtain b where b: "b \<in> set (blocks m)" "blk_base b = ca" "lay (length s) + 16 \<le> blk_size b"
    "cap \<noteq> 0 \<longrightarrow> blk_heap b \<and> blk_size b = cap" using string_block [OF assms(3)] by metis
  let ?tail = "\<lambda>q cap m. do { m \<leftarrow> memcpy m (q + (length s + 1) - 1) cb (length t + 1);
       m \<leftarrow> store_word m ((q + (length s + length t + 1) + 8 - 1) div 8 * 8) (length s + length t + 1);
       m \<leftarrow> store_word m ((q + (length s + length t + 1) + 8 - 1) div 8 * 8 + 8) cap;
       Some ((q + (length s + length t + 1) + 8 - 1) div 8 * 8, m) }"
  have head: "string_add_assign_gen alloc m a cb (length t + 1) =
      do { (q, cap', m) \<leftarrow>
         (if cap < ?n then
            if cap \<noteq> 0 then do { (new_a, m) \<leftarrow> realloc alloc m ca (grow ?n); Some (new_a, grow ?n, m) }
            else do { let (new_a, m) = malloc alloc m (grow ?n); m \<leftarrow> memcpy m new_a ca (length s + 1 - 1); Some (new_a, grow ?n, m) }
          else Some (ca, cap, m));
         ?tail q cap' m }"
    by (simp only: string_add_assign_gen_def string_raw_size_def string_raw_cap_def Let_def S(11-13) Z(1,2) bind.bind_lunit)
  have g: "0 < grow ?n" "?n \<le> grow ?n" using Z(3) by auto
  show thesis
  proof (cases "cap < ?n")
    case False
    then have c: "cap = blk_size b" "blk_heap b" "cap < 2 ^ 63" "?n \<le> cap" using b(4) S(6) by auto
    obtain m' where m': "?tail ca cap m = Some (ca + lay ?l, m')" "string_at m' (ca + lay ?l) ca (s @ t) cap"
      "valid_memory m'" "unchanged {ca} m m'"
      using append_into [OF assms(2) b(1,2) S(4) c(2,1,3) S(7) c(4) _ assms(5)] assms(4,6) unfolding c_string_def by metis
    have "string_add_assign_gen alloc m a cb (length t + 1) = Some (ca + lay ?l, m')"
      unfolding head using False m'(1) by (simp only: if_False bind.bind_lunit prod.case)
    from that [OF this m'(2-4)] False show thesis by simp
  next
    case True
    obtain q m1 b1 where new: "(if cap \<noteq> 0 then do { (new_a, m) \<leftarrow> realloc alloc m ca (grow ?n); Some (new_a, grow ?n, m) }
        else do { let (new_a, m) = malloc alloc m (grow ?n); m \<leftarrow> memcpy m new_a ca (length s + 1 - 1); Some (new_a, grow ?n, m) })
        = Some (q, grow ?n, m1)"
      "valid_memory m1" "b1 \<in> set (blocks m1)" "blk_base b1 = q" "8 dvd q" "blk_heap b1" "blk_size b1 = grow ?n"
      "bytes m1 q (length s) = s" "unchanged {ca} m m1" "\<forall>d\<in>set (blocks m). blk_base d \<notin> {ca} \<longrightarrow> blk_base d \<noteq> q"
    proof (cases "cap = 0")
      case False
      then have "blk_heap b" using b(4) by simp
      from realloc_spec [OF assms(1,2) g(1) b(1) this] obtain q m1 where r:
        "realloc alloc m ca (grow ?n) = Some (q, m1)" "valid_memory m1"
        "\<lparr>blk_base = q, blk_size = grow ?n, blk_heap = True\<rparr> \<in> set (blocks m1)" "unchanged {ca} m m1" "8 dvd q"
        "bytes m1 q (min (grow ?n) (blk_size b)) = bytes m ca (min (grow ?n) (blk_size b))"
        "\<forall>d\<in>set (blocks m). blk_base d \<noteq> ca \<longrightarrow> blk_base d \<noteq> q"
        unfolding b(2) by metis
      have k: "length s \<le> min (grow ?n) (blk_size b)"
        using g(2) b(3) lay_bounds(1) [of ?l] lay_bounds(1) [of "length s"] by simp
      have "bytes m1 q (length s) = s" using r(6) S(7) bytes_take [OF k] by metis
      then show thesis using False r by (intro that [of q m1]) auto
    next
      case True
      obtain q m0 b1 where q: "malloc alloc m (grow ?n) = (q, m0)" "valid_memory m0" "b1 \<in> set (blocks m0)" "blk_base b1 = q"
        "blk_size b1 = grow ?n" "blk_heap b1" "8 dvd q" "unchanged {} m m0" "\<forall>d\<in>set (blocks m). blk_base d \<noteq> q"
        by (rule malloc_string [OF assms(1,2) g(1)]) auto
      have b0: "b \<in> set (blocks m0)" "ca \<noteq> q" using unchangedD(1) [OF q(8) b(1)] q(9) b by auto
      have bs: "bytes m0 ca (length s) = s"
        using string_atD(7) [OF string_at_unchanged [OF assms(3) q(8)]] by simp
      let ?m1 = "put q s m0"
      have cp: "memcpy m0 q ca (length s) = Some ?m1"
        using memcpy_blocks [OF q(2) b0(1) q(3), of ca "length s" q] bs b(2,3) b0(2) q(4,5) g lay_bounds(1) [of "length s"]
          lay_bounds(1) [of ?l] by (simp add: inside_def)
      have "unchanged {q} m0 ?m1"
        using unchanged_put [OF q(2,3), of q s] q(4,5) g lay_bounds(1) [of ?l] by (simp add: inside_def)
      then have "unchanged {} m ?m1" using unchanged_step [OF q(8)] q(9) by simp
      then have "unchanged {ca} m ?m1" by (rule unchanged_mono) simp
      then show thesis
        using True q cp by (intro that [of q ?m1 b1]) (simp_all add: bytes_put_same)
    qed
    have t1: "c_string m1 cb t d" using c_string_unchanged [OF assms(4) new(9)] assms(5) by simp
    have dq: "blk_base d \<noteq> q" using new(10) assms(4,5) by (auto simp: c_string_def)
    obtain m' where m': "?tail q (grow ?n) m1 = Some (q + lay ?l, m')" "string_at m' (q + lay ?l) q (s @ t) (grow ?n)"
      "valid_memory m'" "unchanged {q} m1 m'"
      using append_into [OF new(2,3,4,5,6) new(7) [symmetric] Z(4) new(8) g(2) _ dq] t1 assms(6) unfolding c_string_def by metis
    have "unchanged {ca} m m'" using unchanged_step [OF new(9) m'(4) new(10)] .
    moreover have "string_add_assign_gen alloc m a cb (length t + 1) = Some (q + lay ?l, m')"
      unfolding head using True m'(1) new(1) by (simp only: if_True bind.bind_lunit prod.case add_diff_cancel_right')
    ultimately show thesis using that m'(2,3) True new(10) by simp
  qed
qed

text \<open>A string in a block that is not one of \<open>C\<close>; the null pointer is the empty string.\<close>

definition string_outside :: "nat set \<Rightarrow> memory \<Rightarrow> nat \<Rightarrow> u8 list \<Rightarrow> bool" where
  "string_outside C m v s \<longleftrightarrow> v = 0 \<and> s = [] \<or> (\<exists>c cap. string_at m v c s cap \<and> c \<notin> C)"

lemma string_outside_unchanged:
  "string_outside C m v s \<Longrightarrow> unchanged C m m' \<Longrightarrow> string_outside C m' v s"
  unfolding string_outside_def using string_at_unchanged by blast

lemma string_outside_mono: "string_outside C m v s \<Longrightarrow> C' \<subseteq> C \<Longrightarrow> string_outside C' m v s"
  unfolding string_outside_def by blast

lemma string_outside_add:
  assumes "string_outside C m v s" "\<forall>d\<in>set (blocks m). blk_base d \<noteq> q"
  shows "string_outside (insert q C) m v s"
  using assms unfolding string_outside_def string_at_def by blast

lemma string_c_string:
  assumes "string_at m v c s cap"
  obtains d where "c_string m c s d" "blk_base d = c"
proof -
  obtain d where d: "d \<in> set (blocks m)" "blk_base d = c" "lay (length s) + 16 \<le> blk_size d"
    using string_block [OF assms] by metis
  then have "inside c (length s + 1) d" using lay_bounds(1) [of "length s"] by (simp add: inside_def)
  then show thesis using that d string_bytes [OF assms] by (simp add: c_string_def)
qed

lemma string_lengths:
  assumes "list_all2 (string_outside C m) vs us"
  shows "total_len m vs n = Some (size_t (n + length (concat us))) \<or> 2 ^ 63 \<le> n + length (concat us)"
  using assms
proof (induction vs us arbitrary: n rule: list_all2_induct)
  case Nil
  show ?case by (cases "n < 2 ^ 63") simp_all
next
  case (Cons v vs u us)
  have v: "v = 0 \<and> u = [] \<or> v \<noteq> 0 \<and> volvox_string_len m v = Some (length u)"
    using Cons(1) string_atD(2,15) unfolding string_outside_def by blast
  show ?case
  proof (cases "2 ^ 63 \<le> n + length (concat (u # us))")
    case False
    then have "size_t (n + length u) = n + length u" by simp
    then show ?thesis using v Cons.IH [of "n + length u"] Cons.IH [of n] by (auto simp: add.assoc)
  qed simp
qed

lemma put_append: "put a (xs @ ys) m = put (a + length xs) ys (put a xs m)"
proof (rule memory.equality)
  show "byte_at (put a (xs @ ys) m) = byte_at (put (a + length xs) ys (put a xs m))"
    by (rule ext) (auto simp: byte_put nth_append)
qed simp_all

lemma copy_all_spec:
  assumes "list_all2 (string_outside {q} m) vs us" "valid_memory m" "b \<in> set (blocks m)" "blk_base b = q"
    and "inside off (length (concat us)) b"
  shows "copy_all m vs off = Some (off + length (concat us), put off (concat us) m)"
  using assms
proof (induction vs arbitrary: us m off)
  case (Cons v vs us')
  obtain u us where us: "us' = u # us" "string_outside {q} m v u" "list_all2 (string_outside {q} m) vs us"
    using Cons.prems(1) by (auto simp: list_all2_Cons1)
  show ?case
  proof (cases "v = 0 \<and> u = []")
    case True
    then show ?thesis using Cons us by simp
  next
    case False
    then have "\<exists>c cap. string_at m v c u cap \<and> c \<noteq> q" using us(2) unfolding string_outside_def by blast
    then obtain c cap where s: "string_at m v c u cap" "c \<noteq> q" by blast
    obtain d where d: "d \<in> set (blocks m)" "blk_base d = c" "lay (length u) + 16 \<le> blk_size d"
      using string_block [OF s(1)] by metis
    have i: "inside c (length u) d" "inside off (length u) b"
      using d Cons.prems(5) us(1) lay_bounds(1) [of "length u"] by (auto simp: inside_def)
    have cp: "memcpy m off c (length u) = Some (put off u m)"
      using memcpy_blocks [OF Cons.prems(2) d(1) Cons.prems(3) _ i] d(2) s(2) Cons.prems(4) string_atD(7) [OF s(1)] by simp
    have "unchanged {q} m (put off u m)"
      using unchanged_put [OF Cons.prems(2,3) i(2)] Cons.prems(4) by simp
    then have "list_all2 (string_outside {q} (put off u m)) vs us"
      using us(3) by (blast intro: list_all2_mono string_outside_unchanged)
    with Cons.IH [of "put off u m" us "off + length u"] Cons.prems us(1)
    have "copy_all (put off u m) vs (off + length u) = Some (off + length u + length (concat us), put (off + length u) (concat us) (put off u m))"
      by (auto simp: inside_def)
    then show ?thesis
      using cp string_atD(2,15,16) [OF s(1)] us(1) by (simp add: put_append add.assoc)
  qed
qed simp

text \<open>A new block that has been filled: the last steps of concatenation and repetition.\<close>

lemma finish_new:
  assumes "valid_memory m1" "b \<in> set (blocks m1)" "blk_base b = q" "blk_size b = lay (length s) + 16" "blk_heap b" "8 dvd q"
    and "unchanged {} m m1" "\<forall>d\<in>set (blocks m). blk_base d \<noteq> q" "length s < 2 ^ 61"
  obtains m2 m' where "store_bytes (put q s m1) (q + length s) [0] = Some (put q (s @ [0]) m1)"
    "store_word (put q (s @ [0]) m1) (q + lay (length s)) (length s + 1) = Some m2"
    "store_word m2 (q + lay (length s) + 8) (lay (length s) + 16) = Some m'"
    "string_at m' (q + lay (length s)) q s (lay (length s) + 16)" "valid_memory m'" "unchanged {} m m'"
proof -
  let ?n = "lay (length s) + 16"
  let ?m2 = "put q (s @ [0]) m1"
  have i: "inside (q + length s) 1 b" "inside q (length (s @ [0])) b"
    using assms(3,4) lay_bounds(1) [of "length s"] by (auto simp: inside_def)
  have st: "store_bytes (put q s m1) (q + length s) [0] = Some ?m2"
    using accessibleI [of b "put q s m1"] assms(2) i(1) by (simp add: store_bytes_def put_append)
  have l: "blk_size b < 2 ^ 63" "lay (length s) + 16 \<le> blk_size b" "?n \<noteq> 0 \<longrightarrow> blk_heap b \<and> blk_size b = ?n"
    using assms(4,5,9) lay_bounds(2) [of "length s"] by auto
  have f: "valid_memory ?m2" "b \<in> set (blocks ?m2)" "bytes ?m2 q (length s) = s" "byte_at ?m2 (q + length s) = 0"
    using assms(1,2) by (simp_all add: bytes_put_prefix byte_put nth_append)
  obtain m' where m': "store_word ?m2 (q + lay (length s)) (length s + 1) = Some (put (q + lay (length s)) (word_bytes (length s + 1)) ?m2)"
    "store_word (put (q + lay (length s)) (word_bytes (length s + 1)) ?m2) (q + lay (length s) + 8) ?n = Some m'"
    "string_at m' (q + lay (length s)) q s ?n" "valid_memory m'" "unchanged {q} ?m2 m'"
    by (rule finish_string [OF f(1,2) assms(3,6) f(3,4) assms(9) l refl]) blast
  have "unchanged {} m m'"
    using unchanged_put [OF assms(1,2) i(2)] assms(3)
    by (intro unchanged_fresh [OF assms(7) unchanged_trans [OF _ m'(5)] assms(8)]) simp
  with that [OF st m'(1-4)] show thesis .
qed

lemma string_accumulate_spec:
  assumes "good_allocator alloc" "valid_memory m" "list_all2 (string_outside {} m) vs us" "length (concat us) < 2 ^ 61"
  obtains r m' where "string_accumulate alloc m vs = Some (r, m')" "valid_memory m'" "unchanged {} m m'"
    "concat us = [] \<and> r = 0 \<and> m' = m \<or>
     concat us \<noteq> [] \<and> (\<exists>q. string_at m' r q (concat us) (lay (length (concat us)) + 16) \<and> (\<forall>d\<in>set (blocks m). blk_base d \<noteq> q))"
proof -
  let ?s = "concat us"
  let ?n = "lay (length ?s) + 16"
  have len: "total_len m vs 0 = Some (length ?s)"
    using string_lengths [OF assms(3), of 0] assms(4) by auto
  show thesis
  proof (cases "?s = []")
    case True
    then show thesis using that [of 0 m] len assms(2) by (simp add: string_accumulate_def)
  next
    case False
    have al: "string_allocsize (length ?s) = ?n" using assms(4) by (intro allocsize_lay) simp
    obtain q m1 b where q: "malloc alloc m ?n = (q, m1)" "valid_memory m1" "b \<in> set (blocks m1)" "blk_base b = q"
      "blk_size b = ?n" "blk_heap b" "8 dvd q" "unchanged {} m m1" "\<forall>d\<in>set (blocks m). blk_base d \<noteq> q"
      by (rule malloc_string [OF assms(1,2), of ?n]) auto
    have "list_all2 (string_outside {q} m) vs us"
      using assms(3) string_outside_add [OF _ q(9)] by (blast intro: list_all2_mono)
    then have "list_all2 (string_outside {q} m1) vs us"
      using unchanged_mono [OF q(8)] by (blast intro: list_all2_mono string_outside_unchanged)
    then have cp: "copy_all m1 vs q = Some (q + length ?s, put q ?s m1)"
      using q lay_bounds(1) [of "length ?s"] by (intro copy_all_spec) (auto simp: inside_def)
    obtain m2 m' where m': "store_bytes (put q ?s m1) (q + length ?s) [0] = Some (put q (?s @ [0]) m1)"
      "store_word (put q (?s @ [0]) m1) (q + lay (length ?s)) (length ?s + 1) = Some m2"
      "store_word m2 (q + lay (length ?s) + 8) ?n = Some m'"
      "string_at m' (q + lay (length ?s)) q ?s ?n" "valid_memory m'" "unchanged {} m m'"
      by (rule finish_new [OF q(2-9) assms(4)]) blast
    have sz: "size_t (length ?s + 1) = length ?s + 1" using assms(4) by (intro size_t_small) simp
    have "string_accumulate alloc m vs = Some (q + lay (length ?s), m')"
      using len False by (simp only: string_accumulate_def bind.bind_lunit al Let_def q(1) prod.case cp sz raw_offset_def
        add_diff_cancel_right' m'(1-3) length_0_conv if_False)
    then show thesis using that [OF _ m'(5,6)] m'(4) False q(9) by blast
  qed
qed

text \<open>Copies of C strings: \<open>strlen\<close> finds the end, the new string has the same characters.\<close>

lemma string_strlen_spec:
  assumes "c_string m p t d" "0 \<notin> set t"
  shows "strlen m p = Some (length t)"
  using assms
proof (induction t arbitrary: p)
  case Nil
  then have "accessible m p 1" "byte_at m p = 0"
    by (auto simp: c_string_def bytes_def intro!: accessibleI)
  then show ?case by (subst strlen.simps) (simp add: load_byte_def)
next
  case (Cons x t)
  have b: "bytes m p (1 + (length t + 1)) = x # t @ [0]" using Cons.prems by (simp add: c_string_def)
  have "bytes m p 1 = [byte_at m p]" by (simp add: bytes_def)
  with b have x: "byte_at m p = x" and t: "bytes m (p + 1) (length t + 1) = t @ [0]"
    using bytes_split [of m p 1 "length t + 1"] by simp_all
  have "accessible m p 1" using Cons.prems by (auto simp: c_string_def inside_def intro!: accessibleI)
  note x = this x
  have "c_string m (p + 1) t d" using Cons.prems t by (auto simp: c_string_def inside_def)
  with Cons x show ?case by (subst strlen.simps) (simp add: load_byte_def)
qed

lemma store_word_fits:
  assumes "b \<in> set (blocks m)" "blk_base b \<le> a" "a + 8 \<le> blk_base b + blk_size b"
  shows "store_word m a x = Some (put a (word_bytes x) m)"
  using assms by (intro store_word_inside) (auto simp: inside_def)

lemma cstr2volvoxstr_spec:
  assumes "good_allocator alloc" "valid_memory m" "d \<in> set (blocks m) \<and> inside p (length t) d \<and> bytes m p (length t) = t \<or> t = []"
    and "length t < 2 ^ 61"
  obtains r q m' where "cstr2volvoxstr alloc m p (length t) h = Some (r, m')"
    "string_at m' r q t (if h then lay (length t) + 16 else 0)" "valid_memory m'" "unchanged {} m m'"
    "\<forall>d\<in>set (blocks m). blk_base d \<noteq> q"
proof -
  let ?l = "length t" and ?n = "lay (length t) + 16" and ?cap = "if h then lay (length t) + 16 else 0"
  have n: "size_t (?l + 3 * 8) div 8 * 8 = ?n" "size_t (?l + 1) = ?l + 1"
    using assms(4) lay_bounds(4) [of ?l] by (simp_all add: lay_def)
  obtain q m1 b where q: "malloc alloc m ?n = (q, m1)" "valid_memory m1" "b \<in> set (blocks m1)" "blk_base b = q"
    "blk_size b = ?n" "blk_heap b" "8 dvd q" "unchanged {} m m1" "\<forall>d\<in>set (blocks m). blk_base d \<noteq> q"
    by (rule malloc_string [OF assms(1,2), of ?n]) auto
  let ?v = "q + lay ?l"
  let ?z = "put (?v - 8) (word_bytes 0) m1"
  let ?s = "put ?v (word_bytes (?l + 1)) ?z"
  let ?c = "put (?v + 8) (word_bytes ?cap) ?s"
  let ?m = "put q t ?c"
  note L = lay_bounds [of ?l]
  have u: "unchanged {q} m1 (put (q + i) xs m1)" "unchanged {q} ?z (put (q + i) xs ?z)" "unchanged {q} ?s (put (q + i) xs ?s)"
    "unchanged {q} ?c (put (q + i) xs ?c)" if "i + length xs \<le> ?n" for i xs
    using unchanged_put [of _ b "q + i" xs] q that by (auto simp: inside_def)
  have "unchanged {q} m1 ?z" "unchanged {q} ?z ?s" "unchanged {q} ?s ?c" "unchanged {q} ?c ?m"
    using u(1) [of "lay ?l - 8" "word_bytes 0"] u(2) [of "lay ?l" "word_bytes (?l + 1)"]
      u(3) [of "lay ?l + 8" "word_bytes ?cap"] u(4) [of 0 t] L(1,4) by (simp_all add: add.assoc)
  then have U: "unchanged {q} m1 ?c" "unchanged {q} m1 ?m" by (blast intro: unchanged_trans)+
  have cp: "memcpy ?c q p ?l = Some ?m"
  proof (cases "t = []")
    case False
    then have d: "d \<in> set (blocks m)" "inside p ?l d" "bytes m p ?l = t" using assms(3) by auto
    have "unchanged {} m ?c" using unchanged_fresh [OF q(8) U(1) q(9)] .
    then have d': "d \<in> set (blocks ?c)" "bytes ?c p ?l = t"
      using d unchangedD [of "{}" m ?c d] by auto
    have "blk_base d \<noteq> blk_base b" "inside q ?l b" "b \<in> set (blocks ?c)" "valid_memory ?c"
      using q d(1) L(1) by (auto simp: inside_def)
    with memcpy_blocks [of ?c d b p ?l q] d(2) d' show ?thesis by simp
  qed simp
  have "bytes ?m q ?l = t" by (rule bytes_put_same) simp
  moreover have "byte_at ?m (q + ?l) = 0"
  proof -
    have "word_bytes 0 ! (q + ?l - (?v - 8)) = 0" using L by (simp add: word_bytes_def)
    then show ?thesis using L by (auto simp: byte_put)
  qed
  moreover have "bytes ?m ?v 8 = word_bytes (?l + 1)" "bytes ?m (?v + 8) 8 = word_bytes ?cap"
    using L(1) by (simp_all add: bytes_put_apart bytes_put_same)
  moreover have "blocks ?m = blocks m1" by simp
  moreover have "0 < q" "?cap < 2 ^ 63" using blocks_nonempty [OF q(2,3)] q(4) assms(4) L(2) by auto
  moreover have "\<exists>b\<in>set (blocks m1). blk_base b = q \<and> ?n \<le> blk_size b \<and> (?cap \<noteq> 0 \<longrightarrow> blk_heap b \<and> blk_size b = ?cap)"
    using q by (intro bexI [of _ b]) auto
  ultimately have str: "string_at ?m ?v q t ?cap" using q(7) assms(4) unfolding string_at_def by auto
  have res: "q + ?n - 2 * 8 = ?v" by simp
  have st: "store_word m1 (?v - 8) 0 = Some ?z" "store_word ?z ?v (?l + 1) = Some ?s" "store_word ?s (?v + 8) ?cap = Some ?c"
    using q(3-5) L(4) by (auto intro!: store_word_fits [of b])
  have "cstr2volvoxstr alloc m p ?l h = Some (?v, ?m)"
    by (simp only: cstr2volvoxstr_def n Let_def q(1) prod.case res st bind.bind_lunit cp)
  moreover have "unchanged {} m ?m" using unchanged_fresh [OF q(8) U(2) q(9)] .
  ultimately show thesis using that str q(2,9) by simp
qed

lemma repeat_copy_spec:
  assumes "valid_memory m" "b \<in> set (blocks m)" "blk_base b = q" "string_outside {q} m v s" "volvox2cstr m v = Some c"
    and "inside off (k * length s) b"
  shows "repeat_copy k m off c (length s) = Some (put off (concat (replicate k s)) m)"
  using assms
proof (induction k arbitrary: m off)
  case (Suc k)
  show ?case
  proof (cases "s = []")
    case True
    then show ?thesis using Suc by (simp add: inside_def)
  next
    case False
    then have "\<exists>c' cap. string_at m v c' s cap \<and> c' \<noteq> q" using Suc.prems(4) unfolding string_outside_def by blast
    then obtain cap where s: "string_at m v c s cap" "c \<noteq> q" using Suc.prems(5) string_atD(16) by fastforce
    obtain d where d: "d \<in> set (blocks m)" "blk_base d = c" "lay (length s) + 16 \<le> blk_size d"
      using string_block [OF s(1)] by metis
    have i: "inside c (length s) d" "inside off (length s) b" "inside (off + length s) (k * length s) b"
      using d Suc.prems(6) lay_bounds(1) [of "length s"] by (auto simp: inside_def)
    have cp: "memcpy m off c (length s) = Some (put off s m)"
      using memcpy_blocks [OF Suc.prems(1) d(1) Suc.prems(2) _ i(1,2)] d(2) s(2) Suc.prems(3) string_atD(7) [OF s(1)] by simp
    have u: "unchanged {q} m (put off s m)"
      using unchanged_put [OF Suc.prems(1,2) i(2)] Suc.prems(3) by simp
    have s': "string_at (put off s m) v c s cap" using string_at_unchanged [OF s(1) u] s(2) by simp
    have "repeat_copy k (put off s m) (off + length s) c (length s)
        = Some (put (off + length s) (concat (replicate k s)) (put off s m))"
      using Suc.prems(1,2,3) string_outside_unchanged [OF Suc.prems(4) u] string_atD(16) [OF s'] i(3)
      by (intro Suc.IH) simp_all
    then show ?thesis using cp by (simp add: put_append)
  qed
qed simp

lemma string_outside_len:
  assumes "string_outside C m v s"
  obtains c where "volvox2cstr m v = Some c" "volvox_string_len m v = Some (length s)"
  using assms unfolding string_outside_def
proof (elim disjE exE conjE)
  assume "v = 0" "s = []"
  then show thesis using that [of 0] by (simp add: volvox2cstr_def volvox_string_len_def)
qed (use that string_atD(15,16) in blast)

lemma string_mult_spec:
  assumes "good_allocator alloc" "valid_memory m" "string_outside {} m v s" "k * length s < 2 ^ 61"
  obtains r q m' where "string_mult alloc m k v = Some (r, m')"
    "string_at m' r q (concat (replicate k s)) (lay (k * length s) + 16)" "valid_memory m'" "unchanged {} m m'"
    "\<forall>d\<in>set (blocks m). blk_base d \<noteq> q"
proof -
  let ?s = "concat (replicate k s)"
  have len: "length ?s = k * length s" by (simp add: length_concat sum_list_replicate)
  let ?n = "lay (k * length s) + 16"
  obtain c where c: "volvox2cstr m v = Some c" "volvox_string_len m v = Some (length s)"
    using string_outside_len [OF assms(3)] .
  obtain q m1 b where q: "malloc alloc m ?n = (q, m1)" "valid_memory m1" "b \<in> set (blocks m1)" "blk_base b = q"
    "blk_size b = ?n" "blk_heap b" "8 dvd q" "unchanged {} m m1" "\<forall>d\<in>set (blocks m). blk_base d \<noteq> q"
    by (rule malloc_string [OF assms(1,2), of ?n]) auto
  have o: "string_outside {q} m v s" using string_outside_add [OF assms(3) q(9)] by simp
  have o1: "string_outside {q} m1 v s" using string_outside_unchanged [OF o unchanged_mono [OF q(8)]] by simp
  obtain c1 where c1: "volvox2cstr m1 v = Some c1" using string_outside_len [OF o1] .
  have "c1 = c"
  proof (cases "v = 0")
    case False
    then obtain c' cap where "string_at m v c' s cap" using assms(3) by (auto simp: string_outside_def)
    with string_at_unchanged [OF this q(8)] c(1) c1 string_atD(16) show ?thesis by fastforce
  qed (use c c1 in \<open>simp add: volvox2cstr_def\<close>)
  have cp: "repeat_copy k m1 q c (length s) = Some (put q ?s m1)"
    using q lay_bounds(1) [of "k * length s"] o1 c1 \<open>c1 = c\<close>
    by (intro repeat_copy_spec [of m1 b q v s c q k]) (auto simp: inside_def)
  obtain m2 m' where m': "store_bytes (put q ?s m1) (q + k * length s) [0] = Some (put q (?s @ [0]) m1)"
    "store_word (put q (?s @ [0]) m1) (q + lay (k * length s)) (k * length s + 1) = Some m2"
    "store_word m2 (q + lay (k * length s) + 8) ?n = Some m'"
    "string_at m' (q + lay (k * length s)) q ?s ?n" "valid_memory m'" "unchanged {} m m'"
    by (rule finish_new [where s = ?s, unfolded len, OF q(2-9) assms(4)]) blast
  have sz: "size_t (k * length s) = k * length s" "size_t (k * length s + 1) = k * length s + 1"
    "string_allocsize (k * length s) = ?n"
    using assms(4) by (simp, simp, intro allocsize_lay, simp)
  have "string_mult alloc m k v = Some (q + lay (k * length s), m')"
    by (simp only: string_mult_def string_mult_general_def c bind.bind_lunit Let_def sz if_False q(1) prod.case add_0_right
      diff_zero cp raw_offset_def add_diff_cancel_right' m'(1-3) simp_thms)
  then show thesis using that m'(4-6) q(9) by blast
qed

lemma strdup_spec:
  assumes "good_allocator alloc" "valid_memory m" "c_string m p t d" "0 \<notin> set t" "length t < 2 ^ 61"
  obtains q m' b where "strdup alloc m p = Some (q, m')" "c_string m' q t b" "valid_memory m'" "unchanged {} m m'"
    "\<forall>d\<in>set (blocks m). blk_base d \<noteq> q"
proof -
  obtain q m1 b where q: "malloc alloc m (length t + 1) = (q, m1)" "valid_memory m1" "b \<in> set (blocks m1)" "blk_base b = q"
    "blk_size b = length t + 1" "blk_heap b" "8 dvd q" "unchanged {} m m1" "\<forall>d\<in>set (blocks m). blk_base d \<noteq> q"
    by (rule malloc_string [OF assms(1,2), of "length t + 1"]) auto
  have t: "c_string m1 p t d" "blk_base d \<noteq> q" using c_string_unchanged [OF assms(3) q(8)] q(9) assms(3) by (auto simp: c_string_def)
  have i: "inside q (length t + 1) b" using q by (simp add: inside_def)
  let ?m = "put q (t @ [0]) m1"
  have cp: "memcpy m1 q p (length t + 1) = Some ?m"
    using memcpy_blocks [OF q(2) _ q(3) _ _ i] t q(4) unfolding c_string_def by auto
  have "c_string ?m q t b" using q(3) i by (simp add: c_string_def bytes_put_same)
  moreover have "unchanged {} m ?m"
    using unchanged_put [OF q(2,3), of q "t @ [0]"] i q(4) by (intro unchanged_fresh [OF q(8) _ q(9)]) simp
  moreover have "strdup alloc m p = Some (q, ?m)"
    using string_strlen_spec [OF assms(3,4)] q(1) cp by (simp add: strdup_def)
  ultimately show thesis using that q(2,9) by simp
qed

lemma cstr_roundtrip:
  assumes "good_allocator alloc" "valid_memory m" "c_string m p t d" "0 \<notin> set t" "length t < 2 ^ 61" "p \<noteq> 0"
  obtains v q m1 r b m2 where "cstr2volvox alloc m p = Some (v, m1)" "string_at m1 v q t (lay (length t) + 16)"
    "volvox2cstr_dup alloc m1 v = Some (r, m2)" "c_string m2 r t b" "valid_memory m2" "unchanged {} m m2"
proof -
  have "d \<in> set (blocks m) \<and> inside p (length t) d \<and> bytes m p (length t) = t"
    using assms(3) bytes_take [of "length t" "length t + 1" m p] by (auto simp: c_string_def inside_def)
  then obtain v q m1 where v: "cstr2volvoxstr alloc m p (length t) True = Some (v, m1)"
    "string_at m1 v q t (lay (length t) + 16)" "valid_memory m1" "unchanged {} m m1"
    using cstr2volvoxstr_spec [OF assms(1,2) _ assms(5), of d p True] by (metis (full_types))
  then have c: "cstr2volvox alloc m p = Some (v, m1)"
    using string_strlen_spec [OF assms(3,4)] assms(6) by (simp add: cstr2volvox_def)
  obtain d1 where d1: "c_string m1 q t d1" using string_c_string [OF v(2)] by metis
  obtain r m2 b where r: "strdup alloc m1 q = Some (r, m2)" "c_string m2 r t b" "valid_memory m2" "unchanged {} m1 m2"
    using strdup_spec [OF assms(1) v(3) d1 assms(4,5)] by metis
  have "volvox2cstr_dup alloc m1 v = Some (r, m2)"
    using string_atD(11,13) [OF v(2)] r(1) by (simp add: volvox2cstr_dup_def string_raw_size_def del: add_Suc_right)
  then show thesis using that c v r unchanged_trans by blast
qed

lemma string_make_writable_spec:
  assumes "good_allocator alloc" "valid_memory m" "string_at m v c s cap"
  obtains r q m' where "string_make_writable alloc m v = Some (r, m')" "string_at m' r q s (lay (length s) + 16)"
    "valid_memory m'" "unchanged {} m m'"
proof -
  note S = string_atD [OF assms(3)]
  let ?n = "lay (length s) + 16"
  have n: "string_allocsize (size_t (length s + 1 + (2 ^ 64 - 1))) = ?n"
  proof -
    have "size_t (length s + 1 + (2 ^ 64 - 1)) = length s" using S(5) by (simp add: size_t_def)
    moreover have "string_allocsize (length s) = ?n" using S(5) by (intro allocsize_lay) simp
    ultimately show ?thesis by simp
  qed
  obtain q m1 b where q: "malloc alloc m ?n = (q, m1)" "valid_memory m1" "b \<in> set (blocks m1)" "blk_base b = q"
    "blk_size b = ?n" "blk_heap b" "8 dvd q" "unchanged {} m m1" "\<forall>d\<in>set (blocks m). blk_base d \<noteq> q"
    by (rule malloc_string [OF assms(1,2), of ?n]) auto
  obtain d where d: "c_string m c s d" "blk_base d = c" using string_c_string [OF assms(3)] .
  have d1: "c_string m1 c s d" "blk_base d \<noteq> q"
    using c_string_unchanged [OF d(1) q(8)] q(9) d(1) by (auto simp: c_string_def)
  have i: "inside q (length s + 1) b" using q lay_bounds(1) [of "length s"] by (simp add: inside_def)
  have cp: "memcpy m1 q c (length s + 1) = Some (put q (s @ [0]) m1)"
    using memcpy_blocks [OF q(2) _ q(3) _ _ i] d1 q(4) unfolding c_string_def by auto
  obtain m2 m' where m': "store_bytes (put q s m1) (q + length s) [0] = Some (put q (s @ [0]) m1)"
    "store_word (put q (s @ [0]) m1) (q + lay (length s)) (length s + 1) = Some m2"
    "store_word m2 (q + lay (length s) + 8) ?n = Some m'"
    "string_at m' (q + lay (length s)) q s ?n" "valid_memory m'" "unchanged {} m m'"
    by (rule finish_new [OF q(2-9) S(5)]) blast
  have c: "v - lay (length s) = c" using S(1) by simp
  have "string_make_writable alloc m v = Some (q + lay (length s), m')"
    by (simp only: string_make_writable_def string_raw_size_def S(11) bind.bind_lunit n Let_def q(1) prod.case
      raw_offset_def add_diff_cancel_right' c cp m'(2,3))
  then show thesis using that m'(4-6) by blast
qed

lemma transformcstr2volvox_l_spec:
  assumes "good_allocator alloc" "valid_memory m" "b \<in> set (blocks m)" "blk_heap b" "8 dvd blk_base b"
    and "bytes m (blk_base b) (length s) = s" "byte_at m (blk_base b + length s) = 0" "length s < blk_size b"
    and "length s < 2 ^ 61" "blk_size b < 2 ^ 63"
  obtains r q m' cap where "transformcstr2volvox_l alloc m (blk_base b) (length s) (blk_size b) = Some (r, m')"
    "string_at m' r q s cap" "valid_memory m'" "unchanged {blk_base b} m m'" "cap = max (lay (length s) + 16) (blk_size b)"
proof -
  let ?n = "lay (length s) + 16"
  have n: "size_t (length s + 3 * 8) div 8 * 8 = ?n" "size_t (length s + 1) = length s + 1"
    using assms(9) lay_bounds(4) [of "length s"] by (simp_all add: lay_def)
  have run: "transformcstr2volvox_l alloc m (blk_base b) (length s) (blk_size b) = Some (q + lay (length s), m')"
    if "(if ?n > blk_size b then do { (targ, m) \<leftarrow> realloc alloc m (blk_base b) ?n; Some (?n, targ, m) }
        else Some (blk_size b, blk_base b, m)) = Some (cap, q, m1)"
      "store_word m1 (q + lay (length s)) (length s + 1) = Some m2" "store_word m2 (q + lay (length s) + 8) cap = Some m'"
    for cap q m1 m2 m'
  proof -
    have "q + ?n - 2 * 8 = q + lay (length s)" by simp
    with that show ?thesis by (simp only: transformcstr2volvox_l_def n Let_def bind.bind_lunit prod.case)
  qed
  show thesis
  proof (cases "?n > blk_size b")
    case False
    obtain m' where m': "store_word m (blk_base b + lay (length s)) (length s + 1)
        = Some (put (blk_base b + lay (length s)) (word_bytes (length s + 1)) m)"
      "store_word (put (blk_base b + lay (length s)) (word_bytes (length s + 1)) m) (blk_base b + lay (length s) + 8) (blk_size b) = Some m'"
      "string_at m' (blk_base b + lay (length s)) (blk_base b) s (blk_size b)" "valid_memory m'" "unchanged {blk_base b} m m'"
      using finish_string [OF assms(2,3) refl assms(5-7,9,10), of "blk_size b"] False assms(4) by (metis not_le)
    with run [OF _ m'(1,2)] False that show thesis by simp
  next
    case True
    from realloc_spec [OF assms(1,2) _ assms(3,4), of ?n] obtain q m1 where r:
      "realloc alloc m (blk_base b) ?n = Some (q, m1)" "valid_memory m1"
      "\<lparr>blk_base = q, blk_size = ?n, blk_heap = True\<rparr> \<in> set (blocks m1)" "unchanged {blk_base b} m m1" "8 dvd q"
      "bytes m1 q (min ?n (blk_size b)) = bytes m (blk_base b) (min ?n (blk_size b))"
      "\<forall>d\<in>set (blocks m). blk_base d \<noteq> blk_base b \<longrightarrow> blk_base d \<noteq> q" by (metis add_gr_0 zero_less_numeral)
    have "length s + 1 \<le> min ?n (blk_size b)" using True assms(8) by simp
    then have "bytes m1 q (length s + 1) = s @ [0]"
      using r(6) bytes_take assms(6,7) bytes_split [of m "blk_base b" "length s" 1] by (metis byte_bytes)
    then have b1: "bytes m1 q (length s) = s" "byte_at m1 (q + length s) = 0"
      using bytes_split [of m1 q "length s" 1] by (simp_all add: byte_bytes)
    obtain m2 m' where m': "store_word m1 (q + lay (length s)) (length s + 1) = Some m2"
      "store_word m2 (q + lay (length s) + 8) ?n = Some m'" "string_at m' (q + lay (length s)) q s ?n" "valid_memory m'"
      "unchanged {q} m1 m'"
      by (rule finish_string [OF r(2,3) _ r(5) b1 assms(9), of ?n]) (use assms(9) lay_bounds(2) [of "length s"] in auto)
    have "unchanged {blk_base b} m m'" using unchanged_step [OF r(4) m'(5)] r(7) by simp
    with run [OF _ m'(1,2)] True r(1) m'(3,4) that show thesis by simp
  qed
qed

section \<open>Histories of assignments\<close>

text \<open>
  A loop that appends strings to one variable; the number counts how often the capacity has changed,
  that is how often the characters have been copied to a new block.
\<close>

fun append_all :: "allocator \<Rightarrow> memory \<Rightarrow> nat \<Rightarrow> nat list \<Rightarrow> (nat \<times> memory \<times> nat) option" where
  "append_all alloc m a [] = Some (a, m, 0)"
| "append_all alloc m a (b # bs) = do {
     cap \<leftarrow> string_raw_cap m a;
     (a, m) \<leftarrow> string_add_assign alloc m a b;
     cap' \<leftarrow> string_raw_cap m a;
     (a, m, n) \<leftarrow> append_all alloc m a bs;
     Some (a, m, if cap' = cap then n else n + 1) }"

text \<open>Strings in blocks other than the one at \<open>c\<close>.\<close>

definition others :: "memory \<Rightarrow> nat \<Rightarrow> nat list \<Rightarrow> u8 list list \<Rightarrow> bool" where
  "others m c bs ts \<longleftrightarrow> list_all2 (\<lambda>b t. \<exists>cb k. string_at m b cb t k \<and> cb \<noteq> c) bs ts"

lemma string_add_assign_spec:
  assumes "good_allocator alloc" "valid_memory m" "string_at m a ca s cap" "string_at m b cb t k" "cb \<noteq> ca"
    and "length s + length t < 2 ^ 61"
  obtains r q m' cap' where "string_add_assign alloc m a b = Some (r, m')" "string_at m' r q (s @ t) cap'"
    "valid_memory m'" "unchanged {ca} m m'"
    "cap' = (if cap < lay (length s + length t) + 16 then grow (lay (length s + length t) + 16) else cap)"
    "\<forall>d\<in>set (blocks m). blk_base d \<noteq> ca \<longrightarrow> blk_base d \<noteq> q"
proof -
  obtain d where d: "c_string m cb t d" "blk_base d = cb" using string_c_string [OF assms(4)] .
  obtain q m' cap' where g: "string_add_assign_gen alloc m a cb (length t + 1) = Some (q + lay (length s + length t), m')"
    "string_at m' (q + lay (length s + length t)) q (s @ t) cap'" "valid_memory m'" "unchanged {ca} m m'"
    "cap' = (if cap < lay (length s + length t) + 16 then grow (lay (length s + length t) + 16) else cap)"
    "\<forall>d\<in>set (blocks m). blk_base d \<noteq> ca \<longrightarrow> blk_base d \<noteq> q"
    by (rule string_add_assign_gen_spec [OF assms(1-3) d(1) _ assms(6)]) (use d(2) assms(5) in blast)+
  have "string_add_assign alloc m a b = Some (q + lay (length s + length t), m')"
    using string_atD(2) [OF assms(3)] string_atD(2,11,13) [OF assms(4)] g(1)
    by (simp add: string_add_assign_def string_raw_size_def del: add_Suc_right)
  then show thesis using that g by blast
qed

lemma grow_half:
  assumes "l < 2 ^ 61"
  shows "3 * (lay l + 16) \<le> 2 * grow (lay l + 16)"
proof -
  have "grow (lay l + 16) = lay l + 16 + (lay l + 16) div 2 + 32"
    using sizes_add(3) [of l 0] assms by simp
  moreover have "3 * x \<le> 2 * (x + x div 2 + 32)" for x :: nat by presburger
  ultimately show ?thesis by simp
qed

lemma others_step:
  assumes "others m ca bs ts" "unchanged {ca} m m'" "\<forall>d\<in>set (blocks m). blk_base d \<noteq> ca \<longrightarrow> blk_base d \<noteq> q"
  shows "others m' q bs ts"
  using assms(1) unfolding others_def
proof (rule list_all2_mono)
  fix b t assume "\<exists>cb k. string_at m b cb t k \<and> cb \<noteq> ca"
  then obtain cb k where s: "string_at m b cb t k" "cb \<noteq> ca" by blast
  then have "string_at m' b cb t k" using string_at_unchanged [OF s(1) assms(2)] by simp
  moreover have "cb \<noteq> q" using string_block [OF s(1)] s(2) assms(3) by metis
  ultimately show "\<exists>cb k. string_at m' b cb t k \<and> cb \<noteq> q" by blast
qed

lemma count_step:
  fixes cap :: nat
  assumes "n \<ge> 1 \<longrightarrow> 3 ^ (n - 1) * max cap1 1 \<le> 2 ^ (n - 1) * T" "cap < need" "3 * need \<le> 2 * cap1" "need \<le> T"
  shows "3 ^ n * max cap 1 \<le> 2 ^ n * T"
proof (cases n)
  case 0
  then show ?thesis using assms(2,4) by simp
next
  case (Suc k)
  have "3 ^ Suc k * max cap 1 \<le> 3 ^ k * (3 * need)" using assms(2) by simp
  also have "\<dots> \<le> 3 ^ k * (2 * max cap1 1)" using assms(3) by (intro mult_le_mono2) simp
  also have "\<dots> \<le> 2 * (2 ^ k * T)" using assms(1) Suc by simp
  finally show ?thesis by (simp add: Suc)
qed

lemma append_all_spec:
  assumes "good_allocator alloc" "valid_memory m" "string_at m a c s cap" "others m c bs ts"
    and "length s + length (concat ts) < 2 ^ 61"
  shows "\<exists>r q m' cap' n. append_all alloc m a bs = Some (r, m', n) \<and> string_at m' r q (s @ concat ts) cap' \<and>
    valid_memory m' \<and> unchanged {c} m m' \<and>
    (n \<ge> 1 \<longrightarrow> 3 ^ (n - 1) * max cap 1 \<le> 2 ^ (n - 1) * (length s + length (concat ts) + 24))"
  using assms
proof (induction bs arbitrary: m a c s cap ts)
  case Nil
  then have "ts = []" by (simp add: others_def)
  then show ?case using Nil by (intro exI [of _ a] exI [of _ c] exI [of _ m] exI [of _ cap] exI [of _ 0]) simp
next
  case (Cons b bs)
  obtain t us where ts: "ts = t # us" "others m c bs us" and b: "\<exists>cb k. string_at m b cb t k \<and> cb \<noteq> c"
    using Cons.prems(4) by (auto simp: others_def list_all2_Cons1)
  obtain cb k where cb: "string_at m b cb t k" "cb \<noteq> c" using b by blast
  let ?T = "length s + length (concat ts) + 24"
  let ?need = "lay (length s + length t) + 16"
  have l: "length s + length t < 2 ^ 61" using Cons.prems(5) ts(1) by simp
  obtain r q m1 cap1 where st: "string_add_assign alloc m a b = Some (r, m1)" "string_at m1 r q (s @ t) cap1"
    "valid_memory m1" "unchanged {c} m m1" "cap1 = (if cap < ?need then grow ?need else cap)"
    "\<forall>d\<in>set (blocks m). blk_base d \<noteq> c \<longrightarrow> blk_base d \<noteq> q"
    by (rule string_add_assign_spec [OF Cons.prems(1-3) cb l])
  have l1: "length (s @ t) + length (concat us) < 2 ^ 61" using Cons.prems(5) ts(1) by simp
  obtain r' q' m' cap' n where IH: "append_all alloc m1 r bs = Some (r', m', n)"
    "string_at m' r' q' ((s @ t) @ concat us) cap'" "valid_memory m'" "unchanged {q} m1 m'"
    "n \<ge> 1 \<longrightarrow> 3 ^ (n - 1) * max cap1 1 \<le> 2 ^ (n - 1) * (length (s @ t) + length (concat us) + 24)"
    using Cons.IH [OF Cons.prems(1) st(3,2) others_step [OF ts(2) st(4,6)] l1] by blast
  have T: "length (s @ t) + length (concat us) + 24 = ?T" using ts(1) by simp
  have u: "unchanged {c} m m'" using unchanged_step [OF st(4) IH(4)] st(6) by simp
  have run: "append_all alloc m a (b # bs) = Some (r', m', if cap1 = cap then n else n + 1)"
    using string_atD(12) [OF Cons.prems(3)] string_atD(12) [OF st(2)] st(1) IH(1)
    by (simp add: string_raw_cap_def)
  have n: "(if cap1 = cap then n else n + 1) \<ge> 1 \<longrightarrow>
    3 ^ ((if cap1 = cap then n else n + 1) - 1) * max cap 1 \<le> 2 ^ ((if cap1 = cap then n else n + 1) - 1) * ?T"
  proof (cases "cap1 = cap")
    case True
    then show ?thesis using IH(5) unfolding T by simp
  next
    case False
    then have "cap < ?need" "cap1 = grow ?need" using st(5) by (auto split: if_splits)
    moreover have "?need \<le> ?T" using lay_bounds(2) [of "length s + length t"] ts(1) by simp
    ultimately show ?thesis
      using count_step [OF IH(5) [unfolded T], of cap ?need] grow_half [OF l] False by simp
  qed
  show ?case
    using run IH(2,3) u n by (intro exI [of _ r'] exI [of _ q'] exI [of _ m'] exI [of _ cap']
      exI [of _ "if cap1 = cap then n else n + 1"] conjI) (simp_all add: ts(1))
qed

section \<open>Strings that are their own argument\<close>

lemma memcpy_overlap: "memcpy m (c + len) c (len + 1) = None"
  by (simp add: memcpy_def)

lemma not_accessible_apart:
  assumes "\<forall>b\<in>set (blocks m). apart b d" "inside p n d" "0 < n"
  shows "\<not> accessible m p n"
  using assms by (fastforce simp: accessible_def list_ex_iff apart_def inside_def)

lemma realloc_frees:
  assumes "valid_memory m" "b \<in> set (blocks m)" "blk_heap b" "realloc alloc m (blk_base b) n = Some (q, m')"
    and "apart \<lparr>blk_base = alloc (without (blk_base b) m) n, blk_size = n, blk_heap = True\<rparr> b"
  shows "\<forall>d\<in>set (blocks m'). apart d b" "q = alloc (without (blk_base b) m) n"
proof -
  have q: "q = alloc (without (blk_base b) m) n"
    "blocks m' = \<lparr>blk_base = q, blk_size = n, blk_heap = True\<rparr> # blocks (without (blk_base b) m)"
    using assms(4) heap_block_eq [OF assms(1-3)] blocks_nonempty [OF assms(1,2)]
    by (auto simp: realloc_def malloc_def Let_def)
  then show "q = alloc (without (blk_base b) m) n" by simp
  show "\<forall>d\<in>set (blocks m'). apart d b"
    using assms(5) blocks_apart [OF assms(1) _ assms(2)] q by (auto simp: without_def)
qed

lemma self_append:
  assumes "good_allocator alloc" "valid_memory m" "string_at m a c s cap" "cap \<noteq> 0" "length s < 2 ^ 60"
    and away: "\<And>n. apart \<lparr>blk_base = alloc (without c m) n, blk_size = n, blk_heap = True\<rparr> \<lparr>blk_base = c, blk_size = cap, blk_heap = True\<rparr>"
  shows "string_add_assign alloc m a a = None"
proof -
  note S = string_atD [OF assms(3)]
  let ?l = "length s"
  let ?n = "lay (?l + ?l) + 16"
  obtain b where b: "b \<in> set (blocks m)" "blk_base b = c" "lay ?l + 16 \<le> blk_size b" "blk_heap b" "blk_size b = cap"
    using string_block [OF assms(3)] assms(4) by metis
  have b': "b = \<lparr>blk_base = c, blk_size = cap, blk_heap = True\<rparr>" using b by (intro block.equality) simp_all
  note Z = sizes_add [OF S(5,5)]
  have gen: "string_add_assign alloc m a a = string_add_assign_gen alloc m a c (?l + 1)"
    using S(2) by (simp only: string_add_assign_def string_raw_size_def S(11,13) bind.bind_lunit Let_def if_False)
  show ?thesis
  proof (cases "cap < ?n")
    case False
    then show ?thesis
      unfolding gen string_add_assign_gen_def string_raw_size_def string_raw_cap_def S(11,12) bind.bind_lunit Let_def S(13) Z(1,2)
      using memcpy_overlap [of m c ?l] by simp
  next
    case True
    have g: "0 < grow ?n" using Z(3) by simp
    obtain q m1 where r: "realloc alloc m c (grow ?n) = Some (q, m1)"
      by (rule realloc_spec [OF assms(1,2) g b(1,4), unfolded b(2)]) blast
    have "inside c (?l + 1) b" using b lay_bounds(1) [of ?l] by (simp add: inside_def)
    moreover have "\<forall>d\<in>set (blocks m1). apart d b"
    proof (rule realloc_frees(1) [OF assms(2) b(1,4)])
      show "realloc alloc m (blk_base b) (grow ?n) = Some (q, m1)" using r b(2) by simp
      show "apart \<lparr>blk_base = alloc (without (blk_base b) m) (grow ?n), blk_size = grow ?n, blk_heap = True\<rparr> b"
        unfolding b(2) by (subst b') (rule away)
    qed
    ultimately have "\<not> accessible m1 c (?l + 1)" by (intro not_accessible_apart) auto
    then have "memcpy m1 (q + (?l + 1) - 1) c (?l + 1) = None" by (simp add: memcpy_def)
    then show ?thesis
      unfolding gen string_add_assign_gen_def string_raw_size_def string_raw_cap_def S(11,12) bind.bind_lunit Let_def S(13) Z(1,2)
      using True assms(4) r by simp
  qed
qed

lemma mult_assign_moved:
  assumes "good_allocator alloc" "valid_memory m" "string_at m a c s cap" "cap \<noteq> 0" "s \<noteq> []" "2 \<le> k" "k * length s < 2 ^ 61"
    and away: "\<And>n. apart \<lparr>blk_base = alloc (without c m) n, blk_size = n, blk_heap = True\<rparr> \<lparr>blk_base = c, blk_size = cap, blk_heap = True\<rparr>"
  shows "string_mult_assign alloc m a k = None"
proof -
  note S = string_atD [OF assms(3)]
  let ?l = "length s"
  let ?n = "lay (k * ?l) + 16"
  obtain b where b: "b \<in> set (blocks m)" "blk_base b = c" "lay ?l + 16 \<le> blk_size b" "blk_heap b" "blk_size b = cap"
    using string_block [OF assms(3)] assms(4) by metis
  have b': "b = \<lparr>blk_base = c, blk_size = cap, blk_heap = True\<rparr>" using b by (intro block.equality) simp_all
  have sz: "size_t (k * ?l) = k * ?l" "string_allocsize (k * ?l) = ?n"
    using assms(7) by (simp, intro allocsize_lay, simp)
  have g: "0 < ?n" by simp
  obtain q m1 where r: "realloc alloc m c ?n = Some (q, m1)"
    by (rule realloc_spec [OF assms(1,2) g b(1,4), unfolded b(2)]) blast
  have "inside c ?l b" using b lay_bounds(1) [of ?l] by (simp add: inside_def)
  moreover have "\<forall>d\<in>set (blocks m1). apart d b"
  proof (rule realloc_frees(1) [OF assms(2) b(1,4)])
    show "realloc alloc m (blk_base b) (?n) = Some (q, m1)" using r b(2) by simp
    show "apart \<lparr>blk_base = alloc (without (blk_base b) m) (?n), blk_size = ?n, blk_heap = True\<rparr> b"
      unfolding b(2) by (subst b') (rule away)
  qed
  ultimately have "\<not> accessible m1 c ?l" using assms(5) by (intro not_accessible_apart) auto
  then have "memcpy m1 (q + ?l) c ?l = None" by (simp add: memcpy_def)
  moreover obtain j where "k - 1 = Suc j" using assms(6) by (cases "k - 1") auto
  ultimately have "repeat_copy (k - 1) m1 (q + ?l) c ?l = None" by simp
  then show ?thesis
    using assms(4) by (simp only: string_mult_assign_def string_mult_general_def S(12,15,16) string_raw_cap_def bind.bind_lunit Let_def sz
      if_True r prod.case simp_thms bind.bind_lzero)
qed

section \<open>Properties\<close>

text \<open>An allocator that never reuses memory, and a memory with two strings.\<close>

definition bump :: allocator where
  "bump m n = 16 * Suc (sum_list (map (\<lambda>b. blk_base b + blk_size b) (blocks m)))"

lemma bump_good: "good_allocator bump"
proof -
  have "apart \<lparr>blk_base = bump m n, blk_size = n, blk_heap = True\<rparr> b" if "b \<in> set (blocks m)" for m n b
  proof -
    have "blk_base b + blk_size b \<in> set (map (\<lambda>b. blk_base b + blk_size b) (blocks m))" using that by simp
    then have "blk_base b + blk_size b \<le> sum_list (map (\<lambda>b. blk_base b + blk_size b) (blocks m))"
      by (rule member_le_sum_list) simp
    then show ?thesis by (simp add: apart_def bump_def)
  qed
  then show ?thesis by (simp add: good_allocator_def bump_def list_all_iff)
qed

definition letters :: memory where
  "letters = \<lparr>byte_at = (\<lambda>a. 97), blocks = [\<lparr>blk_base = 16, blk_size = 64, blk_heap = False\<rparr>]\<rparr>"

definition demo1 :: "nat \<times> memory" where
  "demo1 = the (cstr2volvoxstr bump letters 16 3 True)"

definition demo2 :: "nat \<times> memory" where
  "demo2 = the (cstr2volvoxstr bump (snd demo1) 20 40 True)"

lemma letters_valid: "valid_memory letters"
  by (simp add: valid_memory_def letters_def)

lemma letters_bytes: "n \<le> 40 \<Longrightarrow> bytes letters (16 + k) n = replicate n 97"
  by (rule nth_equalityI) (simp_all add: letters_def)

lemma demo_strings:
  obtains c1 k1 c2 k2 where "string_at (snd demo2) (fst demo1) c1 (replicate 3 97) k1" "k1 \<noteq> 0"
    "string_at (snd demo2) (fst demo2) c2 (replicate 40 97) k2" "c2 \<noteq> c1" "valid_memory (snd demo2)"
proof -
  let ?b = "\<lparr>blk_base = 16, blk_size = 64, blk_heap = False\<rparr>"
  have b: "?b \<in> set (blocks letters)" by (simp add: letters_def)
  obtain r q m' where d1: "cstr2volvoxstr bump letters 16 3 True = Some (r, m')"
    "string_at m' r q (replicate 3 97) (lay 3 + 16)" "valid_memory m'" "unchanged {} letters m'"
    by (rule cstr2volvoxstr_spec [OF bump_good letters_valid, of ?b 16 "replicate 3 97" True])
      (use b letters_bytes [of 3 0] in \<open>auto simp: inside_def\<close>)
  have bm: "?b \<in> set (blocks m')" "bytes m' 20 40 = replicate 40 97"
    using unchangedD [OF d1(4) b] letters_bytes [of 40 4] by (auto simp: inside_def)
  obtain r2 q2 m2 where d2: "cstr2volvoxstr bump m' 20 40 True = Some (r2, m2)"
    "string_at m2 r2 q2 (replicate 40 97) (lay 40 + 16)" "valid_memory m2" "unchanged {} m' m2"
    "\<forall>d\<in>set (blocks m'). blk_base d \<noteq> q2"
    by (rule cstr2volvoxstr_spec [OF bump_good d1(3), of ?b 20 "replicate 40 97" True])
      (use bm in \<open>auto simp: inside_def\<close>)
  have "q2 \<noteq> q" using string_block [OF d1(2)] d2(5) by metis
  moreover have "string_at m2 r q (replicate 3 97) (lay 3 + 16)" using string_at_unchanged [OF d1(2) d2(4)] by simp
  ultimately show thesis
    using that [of q "lay 3 + 16" q2 "lay 40 + 16"] d1(1) d2(1-3) by (simp add: demo1_def demo2_def)
qed

text \<open>C39.
  Appending is correct and needs few copies. Take a variable with a string and any sequence of
  strings in other blocks of memory that are appended to it one after the other with \<open>+=\<close>. Every step
  stays inside the blocks, the final string is the concatenation, all blocks but the one of the
  variable keep their bytes, so all other strings stay what they are; and the number of times the
  characters move to a new block is logarithmic in the final length.
\<close>

theorem appending_is_amortised:
  assumes "good_allocator alloc" "valid_memory m" "string_at m a c s cap" "others m c bs ts"
    and "length s + length (concat ts) < 2 ^ 61"
  shows "\<exists>r q m' cap' n. append_all alloc m a bs = Some (r, m', n) \<and> string_at m' r q (s @ concat ts) cap' \<and>
    valid_memory m' \<and> unchanged {c} m m' \<and>
    (n \<ge> 1 \<longrightarrow> 3 ^ (n - 1) * max cap 1 \<le> 2 ^ (n - 1) * (length s + length (concat ts) + 24))"
  by (rule append_all_spec [OF assms])

theorem appending_is_amortised_witness:
  "\<exists>r q m' cap' n. append_all bump (snd demo2) (fst demo1) [fst demo2, fst demo2] = Some (r, m', n) \<and>
    string_at m' r q (replicate 83 97) cap'"
proof -
  obtain c1 k1 c2 k2 where d: "string_at (snd demo2) (fst demo1) c1 (replicate 3 97) k1"
    "string_at (snd demo2) (fst demo2) c2 (replicate 40 97) k2" "c2 \<noteq> c1" "valid_memory (snd demo2)"
    by (rule demo_strings)
  have o: "others (snd demo2) c1 [fst demo2, fst demo2] [replicate 40 97, replicate 40 97]"
    using d by (auto simp: others_def)
  have "replicate 3 97 @ concat [replicate 40 97, replicate 40 97] = (replicate 83 97 :: u8 list)"
    by (simp add: replicate_add [symmetric])
  then show ?thesis
    using appending_is_amortised [OF bump_good d(4) d(1) o] by auto
qed

text \<open>C40.
  The operators that make new strings, \<open>a + b\<close>, \<open>n * a\<close> and copies, return a string in a new block with
  exactly the characters that are expected (the null pointer if the result of \<open>+\<close> is empty), and
  change nothing else. Their arguments can be any strings, the same one twice or the null pointer
  included.
\<close>

theorem new_strings_correct:
  assumes "good_allocator alloc" "valid_memory m" "string_outside {} m a s" "string_outside {} m b t"
    and "length s + length t < 2 ^ 61" "k * length s < 2 ^ 61"
  shows "(\<exists>r m'. string_add alloc m a b = Some (r, m') \<and> string_outside {} m' r (s @ t) \<and> valid_memory m' \<and> unchanged {} m m') \<and>
    (\<exists>r m'. string_mult alloc m k a = Some (r, m') \<and> string_outside {} m' r (concat (replicate k s)) \<and>
      valid_memory m' \<and> unchanged {} m m') \<and>
    (\<exists>r m'. string_dup alloc m a = Some (r, m') \<and> string_outside {} m' r s \<and> valid_memory m' \<and> unchanged {} m m')"
proof (intro conjI)
  have ab: "list_all2 (string_outside {} m) [a, b] [s, t]" "length (concat [s, t]) < 2 ^ 61" using assms(3-5) by auto
  obtain r m' where r: "string_accumulate alloc m [a, b] = Some (r, m')" "valid_memory m'" "unchanged {} m m'"
    "concat [s, t] = [] \<and> r = 0 \<and> m' = m \<or>
     concat [s, t] \<noteq> [] \<and> (\<exists>q. string_at m' r q (concat [s, t]) (lay (length (concat [s, t])) + 16) \<and> (\<forall>d\<in>set (blocks m). blk_base d \<noteq> q))"
    by (rule string_accumulate_spec [OF assms(1,2) ab])
  then have "string_outside {} m' r (s @ t)" by (auto simp: string_outside_def)
  with r show "\<exists>r m'. string_add alloc m a b = Some (r, m') \<and> string_outside {} m' r (s @ t) \<and> valid_memory m' \<and> unchanged {} m m'"
    by (auto simp: string_add_def)
  obtain r q m' where "string_mult alloc m k a = Some (r, m')"
    "string_at m' r q (concat (replicate k s)) (lay (k * length s) + 16)" "valid_memory m'" "unchanged {} m m'"
    by (rule string_mult_spec [OF assms(1,2,3,6)])
  then show "\<exists>r m'. string_mult alloc m k a = Some (r, m') \<and> string_outside {} m' r (concat (replicate k s)) \<and>
      valid_memory m' \<and> unchanged {} m m'"
    unfolding string_outside_def by blast
  show "\<exists>r m'. string_dup alloc m a = Some (r, m') \<and> string_outside {} m' r s \<and> valid_memory m' \<and> unchanged {} m m'"
  proof (cases "a = 0")
    case True
    then have "s = []" using assms(3) by (auto simp: string_outside_def dest: string_atD(2))
    then show ?thesis using True assms(2) by (auto simp: string_dup_def string_outside_def)
  next
    case False
    then obtain c cap where "string_at m a c s cap" using assms(3) by (auto simp: string_outside_def)
    then obtain r q m' where "string_dup alloc m a = Some (r, m')" "string_at m' r q s (lay (length s) + 16)"
      "valid_memory m'" "unchanged {} m m'"
      by (rule string_dup_spec [OF assms(1,2)])
    then show ?thesis unfolding string_outside_def by blast
  qed
qed

theorem new_strings_correct_witness:
  "(\<exists>r m'. string_add bump (snd demo2) (fst demo1) 0 = Some (r, m') \<and> string_outside {} m' r (replicate 3 97)) \<and>
   (\<exists>r m'. string_mult bump (snd demo2) 5 (fst demo1) = Some (r, m') \<and> string_outside {} m' r (concat (replicate 5 (replicate 3 97)))) \<and>
   (\<exists>r m'. string_dup bump (snd demo2) (fst demo1) = Some (r, m') \<and> string_outside {} m' r (replicate 3 97))"
proof -
  obtain c1 k1 c2 k2 where d: "string_at (snd demo2) (fst demo1) c1 (replicate 3 97) k1" "k1 \<noteq> 0"
    "string_at (snd demo2) (fst demo2) c2 (replicate 40 97) k2" "c2 \<noteq> c1" "valid_memory (snd demo2)"
    by (rule demo_strings)
  have a: "string_outside {} (snd demo2) (fst demo1) (replicate 3 97)" using d(1) by (auto simp: string_outside_def)
  have b: "string_outside {} (snd demo2) 0 []" by (simp add: string_outside_def)
  have l: "length (replicate 3 97 :: u8 list) + length ([] :: u8 list) < 2 ^ 61" "5 * length (replicate 3 97 :: u8 list) < 2 ^ 61"
    by simp_all
  show ?thesis using new_strings_correct [OF bump_good d(5) a b l] by auto
qed

text \<open>
  Strings and C strings convert into each other: for a C string, the characters up to the first 0, the
  conversion to a string and back gives a C string with the same characters; and a buffer of the heap
  that is turned into a string in place keeps its characters, wherever it has to be moved.
\<close>

theorem c_string_roundtrip:
  assumes "good_allocator alloc" "valid_memory m" "c_string m p t d" "0 \<notin> set t" "length t < 2 ^ 61" "p \<noteq> 0"
  shows "(\<exists>v q m1 r b m2. cstr2volvox alloc m p = Some (v, m1) \<and> string_at m1 v q t (lay (length t) + 16) \<and>
      volvox2cstr_dup alloc m1 v = Some (r, m2) \<and> c_string m2 r t b \<and> valid_memory m2 \<and> unchanged {} m m2) \<and>
    (blk_heap d \<and> p = blk_base d \<and> 8 dvd p \<and> blk_size d < 2 ^ 63 \<longrightarrow>
      (\<exists>v q m1 cap. transformcstr2volvox alloc m p (blk_size d) = Some (v, m1) \<and> string_at m1 v q t cap \<and>
        valid_memory m1 \<and> unchanged {p} m m1))"
proof (intro conjI impI)
  show "\<exists>v q m1 r b m2. cstr2volvox alloc m p = Some (v, m1) \<and> string_at m1 v q t (lay (length t) + 16) \<and>
      volvox2cstr_dup alloc m1 v = Some (r, m2) \<and> c_string m2 r t b \<and> valid_memory m2 \<and> unchanged {} m m2"
    by (rule cstr_roundtrip [OF assms]) blast
next
  assume h': "blk_heap d \<and> p = blk_base d \<and> 8 dvd p \<and> blk_size d < 2 ^ 63"
  then have h: "blk_heap d" "p = blk_base d" "8 dvd p" "blk_size d < 2 ^ 63" by auto
  have d: "d \<in> set (blocks m)" "length t < blk_size d" "bytes m p (length t + 1) = t @ [0]"
    using assms(3) h(2) by (auto simp: c_string_def inside_def)
  then have t: "bytes m p (length t) = t" "byte_at m (p + length t) = 0"
    using bytes_split [of m p "length t" 1] by (simp_all add: byte_bytes)
  show "\<exists>v q m1 cap. transformcstr2volvox alloc m p (blk_size d) = Some (v, m1) \<and> string_at m1 v q t cap \<and>
        valid_memory m1 \<and> unchanged {p} m m1"
    unfolding transformcstr2volvox_def string_strlen_spec [OF assms(3,4)] bind.bind_lunit unfolding h(2)
    by (rule transformcstr2volvox_l_spec [OF assms(1,2) d(1) h(1) _ t [unfolded h(2)] d(2) assms(5) h(4)]) (use h in blast)+
qed

text \<open>
  A string that is its own argument is not handled. \<open>a += a\<close> copies between regions that overlap, or
  from memory that has just been freed, for every string of the heap; \<open>a *= n\<close> copies from freed
  memory whenever the block has to move; and \<open>a *= n\<close> for the empty string in the form of the null
  pointer reads its capacity at address 8.
\<close>

theorem string_own_argument:
  assumes "good_allocator alloc" "valid_memory m" "string_at m a c s cap" "cap \<noteq> 0" "length s < 2 ^ 60"
    and "\<And>n. apart \<lparr>blk_base = alloc (without c m) n, blk_size = n, blk_heap = True\<rparr> \<lparr>blk_base = c, blk_size = cap, blk_heap = True\<rparr>"
  shows "string_add_assign alloc m a a = None \<and>
    (s \<noteq> [] \<and> 2 \<le> k \<and> k * length s < 2 ^ 61 \<longrightarrow> string_mult_assign alloc m a k = None) \<and>
    (\<not> accessible m 8 8 \<longrightarrow> string_mult_assign alloc m 0 k = None)"
proof (intro conjI impI)
  show "string_add_assign alloc m a a = None" by (rule self_append [OF assms])
  show "s \<noteq> [] \<and> 2 \<le> k \<and> k * length s < 2 ^ 61 \<Longrightarrow> string_mult_assign alloc m a k = None"
    using mult_assign_moved [OF assms(1-4) _ _ _ assms(6)] by blast
  show "\<not> accessible m 8 8 \<Longrightarrow> string_mult_assign alloc m 0 k = None"
    by (simp add: string_mult_assign_def string_mult_general_def volvox2cstr_def volvox_string_len_def string_raw_cap_def load_word_def)
qed

lemma letters_alloc:
  obtains p m q where "malloc bump letters 8 = (p, m)" "store_bytes m p [104, 105, 0] = Some q" "valid_memory q"
    "c_string q p [104, 105] \<lparr>blk_base = p, blk_size = 8, blk_heap = True\<rparr>" "8 dvd p" "p \<noteq> 0"
proof -
  obtain p m b where q: "malloc bump letters 8 = (p, m)" "valid_memory m" "b \<in> set (blocks m)" "blk_base b = p"
    "blk_size b = 8" "blk_heap b" "8 dvd p"
    by (rule malloc_string [OF bump_good letters_valid, of 8]) auto
  have b: "b = \<lparr>blk_base = p, blk_size = 8, blk_heap = True\<rparr>" using q by (intro block.equality) simp_all
  have i: "inside p 3 b" using q by (simp add: inside_def)
  have "store_bytes m p [104, 105, 0] = Some (put p [104, 105, 0] m)"
    using accessibleI [OF q(3) i] by (simp add: store_bytes_def numeral_3_eq_3)
  moreover have "c_string (put p [104, 105, 0] m) p [104, 105] b"
    using q(3) i by (simp add: c_string_def bytes_put_same numeral_3_eq_3)
  ultimately show thesis using that q blocks_nonempty [OF q(2,3)] unfolding b by simp
qed

theorem c_string_roundtrip_witness:
  "\<exists>p m v q m1 r b m2. cstr2volvox bump m p = Some (v, m1) \<and> string_at m1 v q [104, 105] (lay 2 + 16) \<and>
      volvox2cstr_dup bump m1 v = Some (r, m2) \<and> c_string m2 r [104, 105] b \<and>
      (\<exists>v q m1 cap. transformcstr2volvox bump m p 8 = Some (v, m1) \<and> string_at m1 v q [104, 105] cap)"
proof -
  obtain p m q where l: "malloc bump letters 8 = (p, m)" "store_bytes m p [104, 105, 0] = Some q" "valid_memory q"
    "c_string q p [104, 105] \<lparr>blk_base = p, blk_size = 8, blk_heap = True\<rparr>" "8 dvd p" "p \<noteq> 0"
    by (rule letters_alloc)
  have "(0 :: u8) \<notin> set [104, 105]" "length [104, 105 :: u8] < 2 ^ 61" by simp_all
  note c = c_string_roundtrip [OF bump_good l(3,4) this l(6)]
  have "\<exists>v q' m1 cap. transformcstr2volvox bump q p 8 = Some (v, m1) \<and> string_at m1 v q' [104, 105] cap"
    using conjunct2 [OF c] l(5) by fastforce
  moreover have "\<exists>v q' m1 r b m2. cstr2volvox bump q p = Some (v, m1) \<and> string_at m1 v q' [104, 105] (lay 2 + 16) \<and>
      volvox2cstr_dup bump m1 v = Some (r, m2) \<and> c_string m2 r [104, 105] b"
    using conjunct1 [OF c] by (simp add: numeral_2_eq_2) blast
  ultimately show ?thesis by blast
qed

lemma demo1_run: "blocks (snd demo1) = [\<lparr>blk_base = 1296, blk_size = 24, blk_heap = True\<rparr>, \<lparr>blk_base = 16, blk_size = 64, blk_heap = False\<rparr>]"
  "fst demo1 = 1304"
  by (simp_all add: demo1_def cstr2volvoxstr_def size_t_def malloc_def bump_def letters_def store_word_def store_bytes_def
    memcpy_def accessible_def inside_def)

lemma demo2_run: "blocks (snd demo2) = [\<lparr>blk_base = 22416, blk_size = 64, blk_heap = True\<rparr>,
    \<lparr>blk_base = 1296, blk_size = 24, blk_heap = True\<rparr>, \<lparr>blk_base = 16, blk_size = 64, blk_heap = False\<rparr>]"
  by (simp add: demo2_def cstr2volvoxstr_def size_t_def malloc_def bump_def demo1_run store_word_def store_bytes_def
    memcpy_def accessible_def inside_def)

theorem string_own_argument_witness:
  "string_add_assign bump (snd demo2) (fst demo1) (fst demo1) = None \<and>
   string_mult_assign bump (snd demo2) (fst demo1) 3 = None \<and> string_mult_assign bump (snd demo2) 0 3 = None"
proof -
  obtain c1 k1 c2 k2 where d: "string_at (snd demo2) (fst demo1) c1 (replicate 3 97) k1" "k1 \<noteq> 0"
    "string_at (snd demo2) (fst demo2) c2 (replicate 40 97) k2" "c2 \<noteq> c1" "valid_memory (snd demo2)"
    by (rule demo_strings)
  have l: "length (replicate 3 97 :: u8 list) < 2 ^ 60" "replicate 3 97 \<noteq> ([] :: u8 list)" "2 \<le> (3 :: nat)"
    "3 * length (replicate 3 97 :: u8 list) < 2 ^ 61" by simp_all
  have c1: "c1 = 1296" using string_atD(1) [OF d(1)] by (simp add: demo1_run lay_def)
  obtain b where "b \<in> set (blocks (snd demo2))" "blk_base b = c1" "k1 \<noteq> 0 \<longrightarrow> blk_heap b \<and> blk_size b = k1"
    using string_block [OF d(1)] by metis
  then have "k1 = 24" using d(2) by (auto simp: demo2_run c1)
  then have away: "apart \<lparr>blk_base = bump (without c1 (snd demo2)) n, blk_size = n, blk_heap = True\<rparr>
      \<lparr>blk_base = c1, blk_size = k1, blk_heap = True\<rparr>" for n
    by (simp add: c1 apart_def bump_def without_def demo2_run)
  have "\<not> accessible (snd demo2) 8 8" by (simp add: accessible_def inside_def demo2_run)
  with string_own_argument [OF bump_good d(5,1,2) l(1) away] l show ?thesis by blast
qed

end
